(* ===== verification/Prelude.thy ===== *)
theory Prelude
  imports Main "HOL-Library.Word"
begin

unbundle bit_operations_syntax

text \<open>
  Shared vocabulary of the development: bytes and character literals, the platform's integer
  limits (an LP64 Unix build: \<open>ngx_int_t\<close>, \<open>ssize_t\<close>, \<open>off_t\<close> and \<open>time_t\<close> are 64 bits wide),
  the 256-bit character tables that nginx stores as eight 32-bit words, the driver loop of the
  byte-at-a-time state machines, and the locale of parsers that can be resumed.

  Conventions: a \<open>u_char\<close> is a byte (\<open>8 word\<close>); an \<open>ngx_str_t\<close> or a pointer range is a byte list;
  a pointer into a buffer is the offset of the byte it points at, and a pointer field that the
  code compares with \<open>NULL\<close> is an optional offset; \<open>NGX_ERROR\<close> of a number-valued function is
  \<open>None\<close>.
\<close>

named_theorems ngx_consts \<open>definitions of the numeric constants of the source\<close>
named_theorems sm_defs \<open>definitions of the states of a byte-at-a-time state machine\<close>

section \<open>Bytes\<close>

type_synonym byte = "8 word"
type_synonym u32 = "32 word"

abbreviation asc :: "char \<Rightarrow> byte" where
  "asc c \<equiv> of_char c"

definition bytes :: "string \<Rightarrow> byte list" where
  "bytes s = map of_char s"

lemma bytes_simps [simp]:
  "bytes [] = []"
  "bytes (c # s) = of_char c # bytes s"
  "bytes (s @ t) = bytes s @ bytes t"
  "length (bytes s) = length s"
  by (simp_all add: bytes_def)

abbreviation CR :: byte where "CR \<equiv> 0x0d"
abbreviation LF :: byte where "LF \<equiv> 0x0a"

definition is_digit :: "byte \<Rightarrow> bool" where
  "is_digit c \<longleftrightarrow> asc CHR ''0'' \<le> c \<and> c \<le> asc CHR ''9''"

definition digit_val :: "byte \<Rightarrow> int" where
  "digit_val c = uint c - 48"

lemma digit_val_range: "is_digit c \<Longrightarrow> 0 \<le> digit_val c \<and> digit_val c \<le> 9"
  by (simp add: is_digit_def digit_val_def word_le_def)

definition lowcase_bit :: "byte \<Rightarrow> byte" where
  "lowcase_bit c = c OR 0x20"

text \<open>The value of a hexadecimal digit of either case, as the percent decoders compute it.\<close>

definition hex_digit :: "byte \<Rightarrow> byte option" where
  "hex_digit c =
     (if asc CHR ''0'' \<le> c \<and> c \<le> asc CHR ''9'' then Some (c - asc CHR ''0'')
      else if asc CHR ''a'' \<le> c OR 0x20 \<and> c OR 0x20 \<le> asc CHR ''f'' then Some ((c OR 0x20) - asc CHR ''a'' + 10)
      else None)"

section \<open>Integer limits\<close>

definition NGX_MAX_INT_T_VALUE :: int where
  [ngx_consts]: "NGX_MAX_INT_T_VALUE = 9223372036854775807"

definition NGX_MAX_SIZE_T_VALUE :: int where
  [ngx_consts]: "NGX_MAX_SIZE_T_VALUE = 9223372036854775807"

definition NGX_MAX_OFF_T_VALUE :: int where
  [ngx_consts]: "NGX_MAX_OFF_T_VALUE = 9223372036854775807"

definition NGX_MAX_TIME_T_VALUE :: int where
  [ngx_consts]: "NGX_MAX_TIME_T_VALUE = 9223372036854775807"

section \<open>Character tables\<close>

text \<open>The test \<^verbatim>\<open>table[ch >> 5] & (1U << (ch & 0x1f))\<close>.\<close>

definition tbl_bit :: "u32 list \<Rightarrow> byte \<Rightarrow> bool" where
  "tbl_bit t c \<longleftrightarrow> t ! unat (drop_bit 5 c) AND push_bit (unat (c AND 0x1f)) 1 \<noteq> 0"

text \<open>
  A property of every byte is checked by running through the 256 bytes: \<open>all_bits\<close> enumerates
  them by their bits, so that the simplifier meets each byte as a numeral.
\<close>

fun all_bits :: "nat \<Rightarrow> (byte \<Rightarrow> bool) \<Rightarrow> byte \<Rightarrow> bool" where
  "all_bits 0 P b = P b"
| "all_bits (Suc n) P b = (all_bits n P (2 * b) \<and> all_bits n P (2 * b + 1))"

lemma all_less_double:
  fixes Q :: "nat \<Rightarrow> bool"
  shows "(\<forall>k<2 * m. Q k) \<longleftrightarrow> (\<forall>k<m. Q (2 * k) \<and> Q (2 * k + 1))" (is "?L \<longleftrightarrow> ?R")
proof
  show "?L \<Longrightarrow> ?R" by auto
next
  assume r: ?R
  show ?L
  proof (intro allI impI)
    fix k assume "k < 2 * m"
    then have "k div 2 < m" by linarith
    with r have "Q (2 * (k div 2)) \<and> Q (2 * (k div 2) + 1)" by blast
    then show "Q k" by (cases "even k") auto
  qed
qed

lemma all_bits_inner:
  "all_bits (Suc n) P b \<longleftrightarrow> all_bits n (\<lambda>b. P (2 * b) \<and> P (2 * b + 1)) b"
proof (induction n arbitrary: b)
  case 0
  show ?case by simp
next
  case (Suc n)
  show ?case
    unfolding all_bits.simps(2) [of "Suc n" P] Suc.IH
    by (simp only: all_bits.simps(2))
qed

lemma all_bits_iff: "all_bits n P b \<longleftrightarrow> (\<forall>k<2 ^ n. P (2 ^ n * b + of_nat k))"
proof (induction n arbitrary: P)
  case 0
  show ?case by simp
next
  case (Suc n)
  have e: "2 ^ Suc n * b + of_nat (2 * k) = 2 * (2 ^ n * b + of_nat k)"
    "2 ^ Suc n * b + of_nat (2 * k + 1) = 2 * (2 ^ n * b + of_nat k) + 1" for k
    by (simp_all add: algebra_simps)
  have d: "(2::nat) ^ Suc n = 2 * 2 ^ n" by simp
  show ?case
    unfolding all_bits_inner Suc.IH d all_less_double e ..
qed

lemma byte_exhaust:
  assumes "all_bits (Suc (Suc (Suc (Suc (Suc (Suc (Suc (Suc 0)))))))) P 0"
  shows "P b"
proof -
  have "Suc (Suc (Suc (Suc (Suc (Suc (Suc (Suc 0))))))) = 8" by simp
  with assms have "\<forall>k<2 ^ 8. P (2 ^ 8 * 0 + of_nat k)"
    by (simp only: all_bits_iff)
  moreover have "unat b < 2 ^ 8"
    using unsigned_less [of b, where ?'a = nat] by simp
  ultimately have "P (2 ^ 8 * 0 + of_nat (unat b))" by blast
  then show ?thesis by simp
qed

lemma nibble_exhaust:
  fixes P :: "nat \<Rightarrow> bool"
  assumes "P 0" "P 1" "list_all P [2..<16]" "n < 16"
  shows "P n"
proof (cases "n < 2")
  case True
  with assms(1,2) show ?thesis by (auto simp: less_2_cases_iff)
next
  case False
  with assms(4) have "n \<in> {2..<16}" by simp
  with assms(3) show ?thesis unfolding list_all_iff set_upt by blast
qed

lemma nibbles_less: "unat (drop_bit 4 c) < 16" "unat (c AND 0xf) < 16" for c :: byte
proof -
  have "unat (drop_bit 4 c) = unat c div 16" by (simp only: unat_drop_bit_eq) (simp add: drop_bit_eq_div)
  moreover have "unat c < 256" using unsigned_less [of c, where ?'a = nat] by simp
  ultimately show "unat (drop_bit 4 c) < 16" by simp
  have "c AND 0xf \<le> 0xf" by (rule word_and_le1)
  then show "unat (c AND 0xf) < 16" by (simp add: word_le_nat_alt)
qed

lemma nibbles_byte: "push_bit 4 (drop_bit 4 c) + (c AND 0xf) = c" for c :: byte
  by (rule byte_exhaust) simp

text \<open>A small number survives the way into a 64-bit word and back as a signed number.\<close>

lemma sint_small:
  assumes "- (2 ^ 63) \<le> x" "x < 2 ^ 63"
  shows "sint (word_of_int x :: 64 word) = x"
  using assms by (simp add: signed_of_int signed_take_bit_int_eq_self)

end
