(* ===== verification/Scanner.thy ===== *)
theory Scanner
  imports Prelude
begin

text \<open>
  The driver of nginx's byte-at-a-time parsers. Every one of them is a loop
  \<^verbatim>\<open>for (p = b->pos; p < b->last; p++) { ch = *p; switch (state) { ... } }\<close> over the bytes received
  so far. A step of the model is the body of that loop at offset \<open>p\<close> of the buffer, and it ends
  in one of three ways:
  \<^item> \<open>Next st r\<close>: the body reaches its \<open>break\<close> with the local variable \<open>state\<close> equal to \<open>st\<close> and
    the fields of the parsed object equal to \<open>r\<close>. When the bytes run out, \<open>st\<close> is saved in the
    object, \<open>b->pos\<close> is set to \<open>b->last\<close> and the parser returns \<open>NGX_AGAIN\<close>;
  \<^item> \<open>Done rc st r pos\<close>: the parser returns \<open>rc\<close> with \<open>st\<close> saved and \<open>b->pos\<close> set to \<open>pos\<close>;
  \<^item> \<open>Fail rc r\<close>: the parser returns the error \<open>rc\<close> from inside the loop, without saving \<open>state\<close> or
    moving \<open>b->pos\<close>.

  The locale \<open>resumable\<close> states when such a parser can be stopped at the end of the received
  bytes and resumed when more arrive, and what its clients gain from it.
\<close>

datatype ('st, 'r, 'e) action =
    Next 'st 'r
  | Done 'e 'st 'r nat
  | Fail 'e 'r

type_synonym ('st, 'r, 'e) stepper =
  "byte list \<Rightarrow> nat \<Rightarrow> 'st \<Rightarrow> 'r \<Rightarrow> ('st, 'r, 'e) action"

function scan :: "('st, 'r, 'e) stepper \<Rightarrow> byte list \<Rightarrow> nat \<Rightarrow> 'st \<Rightarrow> 'r \<Rightarrow> ('st, 'r, 'e) action" where
  "scan step buf p st r =
     (if p < length buf
      then (case step buf p st r of
              Next st' r' \<Rightarrow> scan step buf (Suc p) st' r'
            | Done e st' r' q \<Rightarrow> Done e st' r' q
            | Fail e r' \<Rightarrow> Fail e r')
      else Next st r)"
  by pat_completeness auto
termination
  by (relation "measure (\<lambda>(step, buf, p, st, r). length buf - p)") auto

declare scan.simps [simp del]

lemma scan_end [simp]: "length buf \<le> p \<Longrightarrow> scan step buf p st r = Next st r"
  by (simp add: scan.simps)

lemma scan_Next:
  "p < length buf \<Longrightarrow> step buf p st r = Next st' r' \<Longrightarrow>
   scan step buf p st r = scan step buf (Suc p) st' r'"
  by (subst scan.simps) simp

lemma scan_Done:
  "p < length buf \<Longrightarrow> step buf p st r = Done e st' r' q \<Longrightarrow>
   scan step buf p st r = Done e st' r' q"
  by (subst scan.simps) simp

lemma scan_Fail:
  "p < length buf \<Longrightarrow> step buf p st r = Fail e r' \<Longrightarrow> scan step buf p st r = Fail e r'"
  by (subst scan.simps) simp

text \<open>A stretch of bytes on which every step goes on is skipped as a whole.\<close>

lemma scan_run:
  assumes "p \<le> q" and "q \<le> length buf"
    and "\<And>i. p \<le> i \<Longrightarrow> i < q \<Longrightarrow> step buf i (st i) (r i) = Next (st (Suc i)) (r (Suc i))"
  shows "scan step buf p (st p) (r p) = scan step buf q (st q) (r q)"
  using assms
proof (induction "q - p" arbitrary: p)
  case 0
  then show ?case by simp
next
  case (Suc n)
  then have "p < q" by simp
  with Suc.prems have "scan step buf p (st p) (r p) = scan step buf (Suc p) (st (Suc p)) (r (Suc p))"
    by (intro scan_Next) auto
  also have "\<dots> = scan step buf q (st q) (r q)"
    using Suc.prems \<open>p < q\<close> Suc.hyps(2) by (intro Suc.hyps(1)) auto
  finally show ?case .
qed

lemma scan_stay:
  assumes "p \<le> q" and "q \<le> length buf"
    and "\<And>i. p \<le> i \<Longrightarrow> i < q \<Longrightarrow> step buf i st r = Next st r"
  shows "scan step buf p st r = scan step buf q st r"
  using scan_run [of p q buf step "\<lambda>_. st" "\<lambda>_. r"] assms by simp

text \<open>An invariant of the steps is an invariant of the scan.\<close>

lemma scan_invariant:
  assumes "I p st r"
    and step: "\<And>p st r. p < length buf \<Longrightarrow> I p st r \<Longrightarrow>
      (case step buf p st r of Next st' r' \<Rightarrow> I (Suc p) st' r'
       | Done e st' r' q \<Rightarrow> D e st' r' q | Fail e r' \<Rightarrow> F e r')"
  shows "case scan step buf p st r of
           Next st' r' \<Rightarrow> I (max p (length buf)) st' r'
         | Done e st' r' q \<Rightarrow> D e st' r' q | Fail e r' \<Rightarrow> F e r'"
  using assms(1)
proof (induction step\<equiv>step buf\<equiv>buf p st r rule: scan.induct)
  case (1 p st r)
  show ?case
  proof (cases "p < length buf")
    case False
    with 1 show ?thesis by simp
  next
    case True
    show ?thesis
    proof (cases "step buf p st r")
      case (Next st' r')
      with step [OF True "1.prems"] have "I (Suc p) st' r'" by simp
      moreover have "max (Suc p) (length buf) = max p (length buf)"
        using True by simp
      ultimately show ?thesis
        using "1.hyps" [OF True Next]
        by (simp add: scan_Next [of p buf step, OF True Next] split: action.splits)
    next
      case (Done e st' r' q)
      with step [OF True "1.prems"] show ?thesis
        by (simp add: scan_Done [of p buf step, OF True Done])
    next
      case (Fail e r')
      with step [OF True "1.prems"] show ?thesis
        by (simp add: scan_Fail [of p buf step, OF True Fail])
    qed
  qed
qed

text \<open>An invariant that rules out an early end carries the scan over a stretch of bytes.\<close>

lemma scan_until:
  assumes "p \<le> q" and "q \<le> length buf" and "I p st r"
    and "\<And>i st r. p \<le> i \<Longrightarrow> i < q \<Longrightarrow> I i st r \<Longrightarrow> \<exists>st' r'. step buf i st r = Next st' r' \<and> I (Suc i) st' r'"
  shows "\<exists>st' r'. I q st' r' \<and> scan step buf p st r = scan step buf q st' r'"
  using assms
proof (induction "q - p" arbitrary: p st r)
  case 0
  then show ?case by auto
next
  case (Suc n)
  then have "p < q" by simp
  with Suc.prems obtain st1 r1 where step: "step buf p st r = Next st1 r1" and I: "I (Suc p) st1 r1" by blast
  have "scan step buf p st r = scan step buf (Suc p) st1 r1"
    using \<open>p < q\<close> Suc.prems(2) step by (intro scan_Next) auto
  moreover have "\<exists>st' r'. I q st' r' \<and> scan step buf (Suc p) st1 r1 = scan step buf q st' r'"
    using Suc.prems(2,4) Suc.hyps(2) I \<open>p < q\<close> by (intro Suc.hyps(1)) auto
  ultimately show ?case by simp
qed

section \<open>Input that arrives in pieces\<close>

text \<open>
  The callers of the parsers append what a read returns to the buffer and call the parser again
  from \<open>b->pos\<close> with the saved state, until it returns something other than \<open>NGX_AGAIN\<close>.
\<close>

fun feed :: "('st, 'r, 'e) stepper \<Rightarrow> byte list \<Rightarrow> 'st \<Rightarrow> 'r \<Rightarrow> byte list list \<Rightarrow> ('st, 'r, 'e) action" where
  "feed step buf st r [] = Next st r"
| "feed step buf st r (piece # pieces) =
     (case scan step (buf @ piece) (length buf) st r of
        Next st' r' \<Rightarrow> feed step (buf @ piece) st' r' pieces
      | a \<Rightarrow> a)"

locale resumable =
  fixes step :: "('st, 'r, 'e) stepper"
  assumes step_append: "p < length buf \<Longrightarrow> step (buf @ more) p st r = step buf p st r"
begin

lemma scan_append:
  assumes "p \<le> length buf"
  shows "scan step (buf @ more) p st r =
    (case scan step buf p st r of
       Next st' r' \<Rightarrow> scan step (buf @ more) (length buf) st' r'
     | a \<Rightarrow> a)"
  using assms
proof (induction step\<equiv>step buf\<equiv>buf p st r rule: scan.induct)
  case (1 p st r)
  show ?case
  proof (cases "p < length buf")
    case False
    with "1.prems" have "p = length buf" by simp
    then show ?thesis by simp
  next
    case True
    then have less: "p < length (buf @ more)" by simp
    show ?thesis
    proof (cases "step buf p st r")
      case (Next st' r')
      then have "step (buf @ more) p st r = Next st' r'"
        using True by (simp add: step_append)
      with Next "1.hyps" [OF True Next] True show ?thesis
        by (simp add: scan_Next [of p _ step, OF less] scan_Next [of p _ step, OF True])
    next
      case (Done e st' r' q)
      then have "step (buf @ more) p st r = Done e st' r' q"
        using True by (simp add: step_append)
      with Done show ?thesis
        by (simp add: scan_Done [of p _ step, OF less] scan_Done [of p _ step, OF True])
    next
      case (Fail e r')
      then have "step (buf @ more) p st r = Fail e r'"
        using True by (simp add: step_append)
      with Fail show ?thesis
        by (simp add: scan_Fail [of p _ step, OF less] scan_Fail [of p _ step, OF True])
    qed
  qed
qed

lemma feed_eq_scan: "feed step buf st r pieces = scan step (buf @ concat pieces) (length buf) st r"
proof (induction pieces arbitrary: buf st r)
  case Nil
  show ?case by simp
next
  case (Cons piece pieces)
  have "scan step (buf @ concat (piece # pieces)) (length buf) st r =
    (case scan step (buf @ piece) (length buf) st r of
       Next st' r' \<Rightarrow> scan step ((buf @ piece) @ concat pieces) (length (buf @ piece)) st' r'
     | a \<Rightarrow> a)"
    using scan_append [of "length buf" "buf @ piece" "concat pieces" st r] by simp
  then show ?case
    by (cases "scan step (buf @ piece) (length buf) st r") (simp_all add: Cons.IH)
qed

lemma feed_split_irrelevant:
  "concat pieces = concat pieces' \<Longrightarrow> feed step buf st r pieces = feed step buf st r pieces'"
  by (simp add: feed_eq_scan)

end

end
