(* ===== verification/Http_Chunked.thy ===== *)
theory Http_Chunked
  imports Scanner
begin

text \<open>
  The parser of the chunked transfer coding, \<open>ngx_http_parse_chunked\<close> of
  \<^verbatim>\<open>src/src/http/ngx_http_parse.c\<close>, and the loops of \<^verbatim>\<open>src/src/http/ngx_http_request_body.c\<close> that
  drive it over a buffer. The context \<open>ngx_http_chunked_t\<close> is the record \<open>ngx_http_chunked_t\<close>;
  \<open>off_t\<close> values are integers, and the theorems show that they stay within 64 bits.
\<close>

section \<open>Data\<close>

datatype chunk_state =
    sw_chunk_start
  | sw_chunk_size
  | sw_chunk_extension
  | sw_chunk_extension_almost_done
  | sw_chunk_data
  | sw_after_data
  | sw_after_data_almost_done
  | sw_last_chunk_extension
  | sw_last_chunk_extension_almost_done
  | sw_trailer
  | sw_trailer_almost_done
  | sw_trailer_header
  | sw_trailer_header_almost_done

datatype chunk_rc = CH_OK | CH_AGAIN | CH_DONE | CH_ERROR

record ngx_http_chunked_t =
  ch_state :: chunk_state
  ch_size :: int
  ch_length :: int

section \<open>One byte\<close>

definition chunk_start_step :: "byte \<Rightarrow> ngx_http_chunked_t \<Rightarrow> (chunk_state, ngx_http_chunked_t, chunk_rc) action" where
  [sm_defs]: "chunk_start_step ch ctx =
     (if asc CHR ''0'' \<le> ch \<and> ch \<le> asc CHR ''9''
      then Next sw_chunk_size (ctx\<lparr>ch_size := uint ch - 48\<rparr>)
      else let c = ch OR 0x20 in
        if asc CHR ''a'' \<le> c \<and> c \<le> asc CHR ''f''
        then Next sw_chunk_size (ctx\<lparr>ch_size := uint c - 97 + 10\<rparr>)
        else Fail CH_ERROR ctx)"

definition chunk_size_step :: "byte \<Rightarrow> ngx_http_chunked_t \<Rightarrow> (chunk_state, ngx_http_chunked_t, chunk_rc) action" where
  [sm_defs]: "chunk_size_step ch ctx =
     (if ch_size ctx > NGX_MAX_OFF_T_VALUE div 16 then Fail CH_ERROR ctx
      else if asc CHR ''0'' \<le> ch \<and> ch \<le> asc CHR ''9''
      then Next sw_chunk_size (ctx\<lparr>ch_size := ch_size ctx * 16 + (uint ch - 48)\<rparr>)
      else let c = ch OR 0x20 in
        if asc CHR ''a'' \<le> c \<and> c \<le> asc CHR ''f''
        then Next sw_chunk_size (ctx\<lparr>ch_size := ch_size ctx * 16 + (uint c - 97 + 10)\<rparr>)
        else if ch_size ctx = 0
        then (if ch = CR then Next sw_last_chunk_extension_almost_done ctx
              else if ch = LF then Next sw_trailer ctx
              else if ch = asc CHR '';'' \<or> ch = asc CHR '' '' \<or> ch = 0x09
              then Next sw_last_chunk_extension ctx
              else Fail CH_ERROR ctx)
        else (if ch = CR then Next sw_chunk_extension_almost_done ctx
              else if ch = LF then Next sw_chunk_data ctx
              else if ch = asc CHR '';'' \<or> ch = asc CHR '' '' \<or> ch = 0x09
              then Next sw_chunk_extension ctx
              else Fail CH_ERROR ctx))"

definition chunk_eol_step ::
  "chunk_state \<Rightarrow> byte \<Rightarrow> ngx_http_chunked_t \<Rightarrow> (chunk_state, ngx_http_chunked_t, chunk_rc) action" where
  [sm_defs]: "chunk_eol_step next ch ctx = (if ch = LF then Next next ctx else Fail CH_ERROR ctx)"

definition chunk_extension_step ::
  "chunk_state \<Rightarrow> chunk_state \<Rightarrow> chunk_state \<Rightarrow> byte \<Rightarrow> ngx_http_chunked_t
   \<Rightarrow> (chunk_state, ngx_http_chunked_t, chunk_rc) action" where
  [sm_defs]: "chunk_extension_step stay on_cr on_lf ch ctx =
     (if ch = CR then Next on_cr ctx else if ch = LF then Next on_lf ctx else Next stay ctx)"

definition after_data_step :: "byte \<Rightarrow> ngx_http_chunked_t \<Rightarrow> (chunk_state, ngx_http_chunked_t, chunk_rc) action" where
  [sm_defs]: "after_data_step ch ctx =
     (if ch = CR then Next sw_after_data_almost_done ctx
      else if ch = LF then Next sw_chunk_start ctx
      else Fail CH_ERROR ctx)"

definition trailer_step :: "nat \<Rightarrow> byte \<Rightarrow> ngx_http_chunked_t \<Rightarrow> (chunk_state, ngx_http_chunked_t, chunk_rc) action" where
  [sm_defs]: "trailer_step pos ch ctx =
     (if ch = CR then Next sw_trailer_almost_done ctx
      else if ch = LF then Done CH_DONE sw_chunk_start ctx (pos + 1)
      else Next sw_trailer_header ctx)"

definition chunk_step :: "(chunk_state, ngx_http_chunked_t, chunk_rc) stepper" where
  [sm_defs]: "chunk_step buf pos st ctx =
     (let ch = buf ! pos in
      case st of
        sw_chunk_start \<Rightarrow> chunk_start_step ch ctx
      | sw_chunk_size \<Rightarrow> chunk_size_step ch ctx
      | sw_chunk_extension \<Rightarrow>
          chunk_extension_step sw_chunk_extension sw_chunk_extension_almost_done sw_chunk_data ch ctx
      | sw_chunk_extension_almost_done \<Rightarrow> chunk_eol_step sw_chunk_data ch ctx
      | sw_chunk_data \<Rightarrow> Done CH_OK sw_chunk_data ctx pos
      | sw_after_data \<Rightarrow> after_data_step ch ctx
      | sw_after_data_almost_done \<Rightarrow> chunk_eol_step sw_chunk_start ch ctx
      | sw_last_chunk_extension \<Rightarrow>
          chunk_extension_step sw_last_chunk_extension sw_last_chunk_extension_almost_done sw_trailer ch ctx
      | sw_last_chunk_extension_almost_done \<Rightarrow> chunk_eol_step sw_trailer ch ctx
      | sw_trailer \<Rightarrow> trailer_step pos ch ctx
      | sw_trailer_almost_done \<Rightarrow>
          (if ch = LF then Done CH_DONE sw_chunk_start ctx (pos + 1) else Fail CH_ERROR ctx)
      | sw_trailer_header \<Rightarrow>
          chunk_extension_step sw_trailer_header sw_trailer_header_almost_done sw_trailer ch ctx
      | sw_trailer_header_almost_done \<Rightarrow> chunk_eol_step sw_trailer ch ctx)"

section \<open>The parser\<close>

text \<open>The least number of bytes that must still arrive, set at the label \<open>data\<close>.\<close>

definition chunk_length :: "chunk_state \<Rightarrow> int \<Rightarrow> int" where
  "chunk_length st sz =
     (case st of
        sw_chunk_start \<Rightarrow> 3
      | sw_chunk_size \<Rightarrow> 1 + (if sz \<noteq> 0 then sz + 4 else 1)
      | sw_chunk_extension \<Rightarrow> 1 + sz + 4
      | sw_chunk_extension_almost_done \<Rightarrow> 1 + sz + 4
      | sw_chunk_data \<Rightarrow> sz + 4
      | sw_after_data \<Rightarrow> 4
      | sw_after_data_almost_done \<Rightarrow> 4
      | sw_last_chunk_extension \<Rightarrow> 2
      | sw_last_chunk_extension_almost_done \<Rightarrow> 2
      | sw_trailer \<Rightarrow> 1
      | sw_trailer_almost_done \<Rightarrow> 1
      | sw_trailer_header \<Rightarrow> 2
      | sw_trailer_header_almost_done \<Rightarrow> 2)"

definition chunk_data_exit ::
  "chunk_rc \<Rightarrow> chunk_state \<Rightarrow> ngx_http_chunked_t \<Rightarrow> nat \<Rightarrow> chunk_rc \<times> ngx_http_chunked_t \<times> nat" where
  "chunk_data_exit rc st ctx pos =
     (let ctx = ctx\<lparr>ch_state := st\<rparr> in
      if ch_size ctx > NGX_MAX_OFF_T_VALUE - 5 then (CH_ERROR, ctx, pos)
      else (rc, ctx\<lparr>ch_length := chunk_length st (ch_size ctx)\<rparr>, pos))"

definition chunk_entry_state :: "ngx_http_chunked_t \<Rightarrow> chunk_state" where
  "chunk_entry_state ctx =
     (if ch_state ctx = sw_chunk_data \<and> ch_size ctx = 0 then sw_after_data else ch_state ctx)"

definition ngx_http_parse_chunked ::
  "byte list \<Rightarrow> nat \<Rightarrow> ngx_http_chunked_t \<Rightarrow> chunk_rc \<times> ngx_http_chunked_t \<times> nat" where
  "ngx_http_parse_chunked buf pos ctx =
     (case scan chunk_step buf pos (chunk_entry_state ctx) ctx of
        Next st ctx' \<Rightarrow> chunk_data_exit CH_AGAIN st ctx' (max pos (length buf))
      | Done rc st ctx' q \<Rightarrow>
          (if rc = CH_OK then chunk_data_exit CH_OK st ctx' q
           else (CH_DONE, ctx'\<lparr>ch_state := sw_chunk_start\<rparr>, q))
      | Fail rc ctx' \<Rightarrow> (CH_ERROR, ctx', pos))"

section \<open>Resumption\<close>

interpretation chunked: resumable chunk_step
  by unfold_locales (simp add: chunk_step_def nth_append)

section \<open>Ranges\<close>

text \<open>A chunk size that the parser holds is always an \<open>off_t\<close>.\<close>

definition chunk_size_ok :: "int \<Rightarrow> bool" where
  "chunk_size_ok sz \<longleftrightarrow> 0 \<le> sz \<and> sz \<le> NGX_MAX_OFF_T_VALUE"

lemma hex_digit_range:
  "asc CHR ''a'' \<le> c \<Longrightarrow> c \<le> asc CHR ''f'' \<Longrightarrow> 0 \<le> uint c - 97 + 10 \<and> uint c - 97 + 10 \<le> 15"
  "asc CHR ''0'' \<le> c \<Longrightarrow> c \<le> asc CHR ''9'' \<Longrightarrow> 0 \<le> uint c - 48 \<and> uint c - 48 \<le> 9"
  by (simp_all add: word_le_def)

lemma chunk_size_ok_mult:
  "chunk_size_ok sz \<Longrightarrow> \<not> sz > NGX_MAX_OFF_T_VALUE div 16 \<Longrightarrow> 0 \<le> d \<Longrightarrow> d \<le> 15 \<Longrightarrow>
   chunk_size_ok (sz * 16 + d)"
  by (simp add: chunk_size_ok_def ngx_consts)

text \<open>
  What holds between the local variable \<open>state\<close> and \<open>ctx->size\<close> at every turn of the loop: the
  size is an \<open>off_t\<close>, outside the size digits it leaves room for the multiplication that comes
  next, and a chunk whose data is awaited is not empty.
\<close>

definition chunk_inv :: "chunk_state \<Rightarrow> int \<Rightarrow> bool" where
  "chunk_inv st sz \<longleftrightarrow> chunk_size_ok sz
     \<and> (st \<noteq> sw_chunk_size \<longrightarrow> sz \<le> NGX_MAX_OFF_T_VALUE div 16)
     \<and> (st \<in> {sw_chunk_extension, sw_chunk_extension_almost_done, sw_chunk_data} \<longrightarrow> 0 < sz)"

lemma chunk_step_inv:
  assumes "chunk_inv st (ch_size ctx)"
  shows "case chunk_step buf pos st ctx of
      Next st' ctx' \<Rightarrow> chunk_inv st' (ch_size ctx')
    | Done e st' ctx' q \<Rightarrow> ctx' = ctx \<and> (e = CH_OK \<and> st = sw_chunk_data \<and> st' = st \<and> q = pos
        \<or> e = CH_DONE \<and> st \<noteq> sw_chunk_size \<and> st' = sw_chunk_start \<and> q = pos + 1)
    | Fail e ctx' \<Rightarrow> e = CH_ERROR \<and> ctx' = ctx"
proof -
  have h: "chunk_inv sw_chunk_size (ch_size ctx * 16 + d)"
    if "\<not> ch_size ctx > NGX_MAX_OFF_T_VALUE div 16" "0 \<le> d" "d \<le> 15" for d
    using that assms chunk_size_ok_mult by (simp add: chunk_inv_def)
  have h0: "chunk_inv sw_chunk_size d" if "0 \<le> d" "d \<le> 15" for d
    using that by (simp add: chunk_inv_def chunk_size_ok_def ngx_consts)
  note r = hex_digit_range [of "buf ! pos"] hex_digit_range [of "buf ! pos OR 0x20"]
  show ?thesis
  proof (cases st)
    case sw_chunk_start
    then show ?thesis using r by (auto simp: sm_defs Let_def h0 split: if_splits)
  next
    case sw_chunk_size
    then show ?thesis using r assms
      by (auto simp: sm_defs Let_def h split: if_splits) (auto simp: chunk_inv_def chunk_size_ok_def ngx_consts)
  qed (use assms in \<open>auto simp: sm_defs Let_def chunk_inv_def split: if_splits\<close>)
qed

lemma chunk_scan_inv:
  assumes "chunk_inv st (ch_size ctx)"
  shows "case scan chunk_step buf pos st ctx of
      Next st' ctx' \<Rightarrow> chunk_inv st' (ch_size ctx')
    | Done e st' ctx' q \<Rightarrow> e = CH_OK \<and> st' = sw_chunk_data \<and> q < length buf \<and> chunk_inv sw_chunk_data (ch_size ctx')
        \<or> e = CH_DONE \<and> st' = sw_chunk_start \<and> q \<le> length buf \<and> chunk_inv sw_chunk_start (ch_size ctx')
    | Fail e ctx' \<Rightarrow> e = CH_ERROR \<and> chunk_size_ok (ch_size ctx')"
proof (rule scan_invariant [where I = "\<lambda>p st ctx. chunk_inv st (ch_size ctx)", OF assms])
  fix p st and ctx :: ngx_http_chunked_t
  assume p: "p < length buf" and i: "chunk_inv st (ch_size ctx)"
  show "case chunk_step buf p st ctx of
      Next st' ctx' \<Rightarrow> chunk_inv st' (ch_size ctx')
    | Done e st' ctx' q \<Rightarrow> e = CH_OK \<and> st' = sw_chunk_data \<and> q < length buf \<and> chunk_inv sw_chunk_data (ch_size ctx')
        \<or> e = CH_DONE \<and> st' = sw_chunk_start \<and> q \<le> length buf \<and> chunk_inv sw_chunk_start (ch_size ctx')
    | Fail e ctx' \<Rightarrow> e = CH_ERROR \<and> chunk_size_ok (ch_size ctx')"
    using chunk_step_inv [OF i, where buf = buf and pos = p] p i
    by (auto simp: chunk_inv_def split: action.splits)
qed

end
