(* ===== verification/Http_Body.thy ===== *)
theory Http_Body
  imports Http_Chunked
begin

text \<open>
  The consumer of the chunked parser: \<open>ngx_http_request_body_chunked_filter\<close> of
  \<^verbatim>\<open>src/src/http/ngx_http_request_body.c\<close>. For one buffer \<open>cl->buf\<close> of the incoming chain it cuts the
  chunk data out of the buffer as a list of slices of the same memory, and it appends a small
  chunk to the previous slice by moving its bytes inside that memory, over the chunk framing
  that has been parsed already. The model keeps the memory of the buffer explicit, so that the
  aliasing of the slices with the bytes still to be parsed is part of the statements.

  The reference definition \<open>dechunk\<close> reads the same bytes one at a time; the filter is proved
  to deliver exactly what it delivers.
\<close>

section \<open>Data\<close>

datatype body_rc = BODY_OK | BODY_MORE | BODY_LAST | BODY_BAD_REQUEST | BODY_TOO_LARGE

record body_conf =
  client_max_body_size :: int
  large_client_header_buffers_size :: int

record body_state =
  bd_mem :: "byte list"
  bd_pos :: nat
  bd_chunked :: ngx_http_chunked_t
  bd_content_length_n :: int
  bd_rest :: int
  bd_out :: "(nat \<times> nat) list"

text \<open>The memory that a slice of the outgoing chain shows, and all of them in order.\<close>

definition buf_slice :: "byte list \<Rightarrow> nat \<times> nat \<Rightarrow> byte list" where
  "buf_slice mem s = take (snd s - fst s) (drop (fst s) mem)"

definition bd_payload :: "body_state \<Rightarrow> byte list" where
  "bd_payload s = concat (map (buf_slice (bd_mem s)) (bd_out s))"

section \<open>Moving a small chunk\<close>

text \<open>
  \<open>ngx_memmove\<close> and the byte loop \<^verbatim>\<open>*b->last++ = *cl->buf->pos++\<close> that replaces it for chunks of
  fewer than eight bytes.
\<close>

definition ngx_memmove :: "byte list \<Rightarrow> nat \<Rightarrow> nat \<Rightarrow> nat \<Rightarrow> byte list" where
  "ngx_memmove mem dst src n = take dst mem @ take n (drop src mem) @ drop (dst + n) mem"

fun copy_bytes :: "nat \<Rightarrow> byte list \<Rightarrow> nat \<Rightarrow> nat \<Rightarrow> byte list" where
  "copy_bytes 0 mem dst src = mem"
| "copy_bytes (Suc n) mem dst src = copy_bytes n (mem[dst := mem ! src]) (Suc dst) (Suc src)"

section \<open>The filter\<close>

definition body_append_chunk :: "body_state \<Rightarrow> body_state" where
  "body_append_chunk s =
     (let n = nat (ch_size (bd_chunked s));
          (start, last) = List.last (bd_out s);
          mem = (if ch_size (bd_chunked s) < 8
                 then copy_bytes n (bd_mem s) last (bd_pos s)
                 else ngx_memmove (bd_mem s) last (bd_pos s) n)
      in s\<lparr>bd_mem := mem,
           bd_content_length_n := bd_content_length_n s + ch_size (bd_chunked s),
           bd_out := butlast (bd_out s) @ [(start, last + n)],
           bd_pos := bd_pos s + n,
           bd_chunked := (bd_chunked s)\<lparr>ch_size := 0\<rparr>\<rparr>)"

definition body_new_slice :: "body_state \<Rightarrow> body_state" where
  "body_new_slice s =
     (let last = length (bd_mem s);
          avail = int (last - bd_pos s);
          csize = ch_size (bd_chunked s)
      in if avail > csize
         then s\<lparr>bd_pos := bd_pos s + nat csize,
                bd_content_length_n := bd_content_length_n s + csize,
                bd_chunked := (bd_chunked s)\<lparr>ch_size := 0\<rparr>,
                bd_out := bd_out s @ [(bd_pos s, bd_pos s + nat csize)]\<rparr>
         else s\<lparr>bd_pos := last,
                bd_content_length_n := bd_content_length_n s + avail,
                bd_chunked := (bd_chunked s)\<lparr>ch_size := csize - avail\<rparr>,
                bd_out := bd_out s @ [(bd_pos s, last)]\<rparr>)"

definition body_iter :: "body_conf \<Rightarrow> body_state \<Rightarrow> body_rc \<times> body_state" where
  "body_iter conf s =
     (case ngx_http_parse_chunked (bd_mem s) (bd_pos s) (bd_chunked s) of
        (rc, ctx, pos) \<Rightarrow>
          (let s = s\<lparr>bd_chunked := ctx, bd_pos := pos\<rparr> in
          case rc of
            CH_OK \<Rightarrow>
              (if client_max_body_size conf \<noteq> 0
                 \<and> client_max_body_size conf - bd_content_length_n s < ch_size ctx
              then (BODY_TOO_LARGE, s)
              else if bd_out s \<noteq> [] \<and> ch_size ctx \<le> 128
                      \<and> int (length (bd_mem s) - bd_pos s) \<ge> ch_size ctx
              then (BODY_OK, body_append_chunk s)
              else (BODY_OK, body_new_slice s))
          | CH_DONE \<Rightarrow> (BODY_LAST, s\<lparr>bd_rest := 0\<rparr>)
          | CH_AGAIN \<Rightarrow>
              (BODY_MORE, s\<lparr>bd_rest := max (ch_length ctx) (large_client_header_buffers_size conf)\<rparr>)
          | CH_ERROR \<Rightarrow> (BODY_BAD_REQUEST, s)))"

text \<open>
  The \<^verbatim>\<open>for ( ;; )\<close> loop over one buffer. It is a partial function: that it always returns is
  one of the theorems below.
\<close>

partial_function (option) body_loop :: "body_conf \<Rightarrow> body_state \<Rightarrow> (body_rc \<times> body_state) option" where
  "body_loop conf s =
     (case body_iter conf s of (rc, s') \<Rightarrow>
        if rc = BODY_OK then body_loop conf s' else Some (rc, s'))"

section \<open>Reference: one byte at a time\<close>

definition ch_put :: "chunk_state \<Rightarrow> ngx_http_chunked_t \<Rightarrow> ngx_http_chunked_t" where
  "ch_put st ctx = ctx\<lparr>ch_state := st, ch_length := 0\<rparr>"

fun dechunk :: "int \<Rightarrow> ngx_http_chunked_t \<Rightarrow> int \<Rightarrow> byte list
    \<Rightarrow> body_rc \<times> ngx_http_chunked_t \<times> int \<times> byte list \<times> byte list" where
  "dechunk limit ctx n [] =
     ((if ch_size ctx > NGX_MAX_OFF_T_VALUE - 5 then BODY_BAD_REQUEST else BODY_MORE),
      ch_put (chunk_entry_state ctx) ctx, n, [], [])"
| "dechunk limit ctx n (c # cs) =
     (if chunk_entry_state ctx = sw_chunk_data
      then if limit \<noteq> 0 \<and> limit - n < ch_size ctx then (BODY_TOO_LARGE, ch_put sw_chunk_data ctx, n, [], c # cs)
        else (case dechunk limit (ctx\<lparr>ch_size := ch_size ctx - 1\<rparr>) (n + 1) cs of
                (rc, ctx', n', data, left) \<Rightarrow> (rc, ctx', n', c # data, left))
      else (case chunk_step [c] 0 (chunk_entry_state ctx) ctx of
              Next st ctx' \<Rightarrow> dechunk limit (ch_put st ctx') n cs
            | Done rc st ctx' q \<Rightarrow> (BODY_LAST, ch_put st ctx', n, [], cs)
            | Fail rc ctx' \<Rightarrow> (BODY_BAD_REQUEST, ch_put (chunk_entry_state ctx) ctx', n, [], c # cs)))"

section \<open>Memory\<close>

lemma copy_bytes_eq_memmove:
  "dst \<le> src \<Longrightarrow> src + n \<le> length mem \<Longrightarrow> copy_bytes n mem dst src = ngx_memmove mem dst src n"
proof (induction n arbitrary: mem dst src)
  case 0
  then show ?case by (simp add: ngx_memmove_def)
next
  case (Suc n)
  then have "src < length mem" "dst < length mem" by simp_all
  then have tk: "take (Suc dst) (mem[dst := mem ! src]) = take dst mem @ [mem ! src]"
    by (simp add: take_Suc_conv_app_nth)
  have dr: "drop (Suc src) (mem[dst := mem ! src]) = drop (Suc src) mem"
    "drop (Suc (dst + n)) (mem[dst := mem ! src]) = drop (Suc (dst + n)) mem"
    using Suc.prems by simp_all
  have "copy_bytes (Suc n) mem dst src = ngx_memmove (mem[dst := mem ! src]) (Suc dst) (Suc src) n"
    using Suc.prems by (simp add: Suc.IH)
  also have "\<dots> = ngx_memmove mem dst src (Suc n)"
    using \<open>src < length mem\<close>
    by (simp add: ngx_memmove_def tk dr Cons_nth_drop_Suc [symmetric])
  finally show ?case .
qed

lemma memmove_facts:
  assumes "dst \<le> src" and "src + n \<le> length mem"
  shows "length (ngx_memmove mem dst src n) = length mem"
    and "a \<le> b \<Longrightarrow> b \<le> dst \<Longrightarrow> buf_slice (ngx_memmove mem dst src n) (a, b) = buf_slice mem (a, b)"
    and "a \<le> dst \<Longrightarrow> buf_slice (ngx_memmove mem dst src n) (a, dst + n) = buf_slice mem (a, dst) @ take n (drop src mem)"
    and "drop (src + n) (ngx_memmove mem dst src n) = drop (src + n) mem"
proof -
  have len: "length (take dst mem) = dst" "length (take n (drop src mem)) = n"
    using assms by auto
  show "length (ngx_memmove mem dst src n) = length mem"
    using assms by (simp add: ngx_memmove_def)
  show "buf_slice (ngx_memmove mem dst src n) (a, b) = buf_slice mem (a, b)" if "a \<le> b" "b \<le> dst"
    using that assms by (simp add: ngx_memmove_def buf_slice_def drop_take min_def)
  show "buf_slice (ngx_memmove mem dst src n) (a, dst + n) = buf_slice mem (a, dst) @ take n (drop src mem)"
    if "a \<le> dst"
  proof -
    have "dst + n - a = (dst - a) + n" using that by simp
    then show ?thesis
      using that assms by (simp add: ngx_memmove_def buf_slice_def drop_take)
  qed
  show "drop (src + n) (ngx_memmove mem dst src n) = drop (src + n) mem"
    using assms by (simp add: ngx_memmove_def)
qed

section \<open>The parser against the byte-wise reference\<close>

lemma ch_put_simps [simp]:
  "ch_state (ch_put st ctx) = st" "ch_size (ch_put st ctx) = ch_size ctx"
  "ch_put st (ch_put x ctx) = ch_put st ctx"
  "ch_put st (ctx\<lparr>ch_length := n\<rparr>) = ch_put st ctx"
  "ch_put st (ctx\<lparr>ch_state := x\<rparr>) = ch_put st ctx"
  by (simp_all add: ch_put_def)

lemma chunk_step_frame:
  assumes "st \<noteq> sw_chunk_data"
  shows "chunk_step [buf ! p] 0 st (ch_put x ctx) =
    (case chunk_step buf p st ctx of
       Next st' ctx' \<Rightarrow> Next st' (ch_put x ctx')
     | Done e st' ctx' q \<Rightarrow> Done e st' (ch_put x ctx') 1
     | Fail e ctx' \<Rightarrow> Fail e (ch_put x ctx'))"
  using assms by (cases st) (simp_all add: sm_defs ch_put_def Let_def)

lemma chunk_entry_put [simp]:
  "chunk_inv st (ch_size ctx) \<Longrightarrow> chunk_entry_state (ch_put st ctx) = st"
  by (auto simp: chunk_entry_state_def chunk_inv_def)

lemma dechunk_Cons_framing:
  assumes "chunk_inv st (ch_size ctx)" and "st \<noteq> sw_chunk_data" and "p < length mem"
  shows "dechunk limit (ch_put st ctx) n (drop p mem) =
    (case chunk_step mem p st ctx of
       Next st' ctx' \<Rightarrow> dechunk limit (ch_put st' ctx') n (drop (Suc p) mem)
     | Done e st' ctx' q \<Rightarrow> (BODY_LAST, ch_put st' ctx', n, [], drop (Suc p) mem)
     | Fail e ctx' \<Rightarrow> (BODY_BAD_REQUEST, ch_put st ctx', n, [], drop p mem))"
proof -
  have "drop p mem = mem ! p # drop (Suc p) mem"
    using assms(3) by (simp add: Cons_nth_drop_Suc)
  then show ?thesis
    using assms(1,2) chunk_step_frame [OF assms(2), of mem p st ctx]
    by (simp split: action.splits)
qed

text \<open>
  One call of the parser skips the chunk framing in front of it exactly as the byte-wise
  reference does.
\<close>

lemma scan_dechunk:
  assumes "chunk_inv st (ch_size ctx)" and "p \<le> length mem"
  shows "case scan chunk_step mem p st ctx of
      Next st' ctx' \<Rightarrow> dechunk limit (ch_put st ctx) n (drop p mem) =
        ((if ch_size ctx' > NGX_MAX_OFF_T_VALUE - 5 then BODY_BAD_REQUEST else BODY_MORE),
         ch_put st' ctx', n, [], [])
    | Done e st' ctx' q \<Rightarrow> dechunk limit (ch_put st ctx) n (drop p mem) =
        (if e = CH_OK then dechunk limit (ch_put st' ctx') n (drop q mem)
         else (BODY_LAST, ch_put st' ctx', n, [], drop q mem))
        \<and> p \<le> q
    | Fail e ctx' \<Rightarrow> (\<exists>c left. dechunk limit (ch_put st ctx) n (drop p mem) = (BODY_BAD_REQUEST, c, n, [], left))"
  using assms
proof (induction "chunk_step" mem p st ctx rule: scan.induct)
  case (1 mem p st ctx)
  note inv = chunk_step_inv [OF "1.prems"(1), where buf = mem and pos = p]
  show ?case
  proof (cases "p < length mem")
    case False
    with "1.prems" show ?thesis by simp
  next
    case True
    show ?thesis
    proof (cases "st = sw_chunk_data")
      case st: True
      then have "chunk_step mem p st ctx = Done CH_OK st ctx p" by (simp add: sm_defs Let_def)
      then show ?thesis by (simp add: scan_Done [OF True])
    next
      case st: False
      note eq = dechunk_Cons_framing [OF "1.prems"(1) st True, of limit n]
      show ?thesis
      proof (cases "chunk_step mem p st ctx")
        case (Next st' ctx')
        with inv have "chunk_inv st' (ch_size ctx')" by simp
        with "1.hyps" [OF True Next] True Next eq show ?thesis
          by (auto simp: scan_Next [OF True] split: action.splits)
      next
        case (Done e st' ctx' q)
        with inv st eq show ?thesis by (simp add: scan_Done [OF True])
      next
        case (Fail e ctx')
        with eq show ?thesis by (simp add: scan_Fail [OF True])
      qed
    qed
  qed
qed

text \<open>A stretch of chunk data is delivered as it is.\<close>

lemma dechunk_data:
  assumes "chunk_inv sw_chunk_data (ch_size ctx)" and "int k \<le> ch_size ctx" and "k \<le> length bs"
    and "\<not> (limit \<noteq> 0 \<and> limit - n < ch_size ctx)"
  shows "dechunk limit (ch_put sw_chunk_data ctx) n bs =
    (case dechunk limit (ch_put sw_chunk_data (ctx\<lparr>ch_size := ch_size ctx - int k\<rparr>)) (n + int k) (drop k bs) of
       (rc, c, m, data, left) \<Rightarrow> (rc, c, m, take k bs @ data, left))"
  using assms
proof (induction k arbitrary: ctx n bs)
  case 0
  then show ?case by simp
next
  case (Suc k)
  then obtain b bs' where bs: "bs = b # bs'" by (cases bs) auto
  let ?ctx = "ctx\<lparr>ch_size := ch_size ctx - 1\<rparr>"
  have put: "(ch_put sw_chunk_data ctx)\<lparr>ch_size := ch_size ctx - 1\<rparr> = ch_put sw_chunk_data ?ctx"
    by (simp add: ch_put_def)
  have step: "dechunk limit (ch_put sw_chunk_data ctx) n bs =
    (case dechunk limit (ch_put sw_chunk_data ?ctx) (n + 1) bs' of
       (rc, c, m, data, left) \<Rightarrow> (rc, c, m, b # data, left))"
    using Suc.prems(1,4) by (auto simp: bs put)
  show ?case
  proof (cases "k = 0")
    case True
    then show ?thesis using step by (simp add: bs)
  next
    case False
    then have "chunk_inv sw_chunk_data (ch_size ?ctx)" "int k \<le> ch_size ?ctx"
      using Suc.prems(1,2) by (auto simp: chunk_inv_def chunk_size_ok_def)
    then have "dechunk limit (ch_put sw_chunk_data ?ctx) (n + 1) bs' =
      (case dechunk limit (ch_put sw_chunk_data (?ctx\<lparr>ch_size := ch_size ?ctx - int k\<rparr>)) (n + 1 + int k) (drop k bs') of
         (rc, c, m, data, left) \<Rightarrow> (rc, c, m, take k bs' @ data, left))"
      using Suc.prems(3,4) by (intro Suc.IH) (auto simp: bs)
    then show ?thesis
      using step by (simp add: bs algebra_simps split: prod.splits)
  qed
qed

definition ctx_wf :: "ngx_http_chunked_t \<Rightarrow> bool" where
  "ctx_wf ctx \<longleftrightarrow> chunk_inv (chunk_entry_state ctx) (ch_size ctx)"

definition ctx_norm :: "ngx_http_chunked_t \<Rightarrow> ngx_http_chunked_t" where
  "ctx_norm ctx = ch_put (chunk_entry_state ctx) ctx"

lemma parse_chunked_dechunk:
  assumes "ctx_wf ctx" and "pos \<le> length mem"
    and "ngx_http_parse_chunked mem pos ctx = (rc, ctx', pos')"
  shows "rc = CH_OK \<Longrightarrow> chunk_inv sw_chunk_data (ch_size ctx') \<and> ch_state ctx' = sw_chunk_data
      \<and> pos \<le> pos' \<and> pos' < length mem
      \<and> dechunk limit (ctx_norm ctx) n (drop pos mem) = dechunk limit (ctx_norm ctx') n (drop pos' mem)"
    and "rc = CH_DONE \<Longrightarrow> pos \<le> pos' \<and> pos' \<le> length mem \<and> ch_state ctx' = sw_chunk_start \<and> ctx_wf ctx'
      \<and> dechunk limit (ctx_norm ctx) n (drop pos mem) = (BODY_LAST, ctx_norm ctx', n, [], drop pos' mem)"
    and "rc = CH_AGAIN \<Longrightarrow> pos' = length mem \<and> ctx_wf ctx'
      \<and> dechunk limit (ctx_norm ctx) n (drop pos mem) = (BODY_MORE, ctx_norm ctx', n, [], [])"
    and "rc = CH_ERROR \<Longrightarrow>
      \<exists>c left. dechunk limit (ctx_norm ctx) n (drop pos mem) = (BODY_BAD_REQUEST, c, n, [], left)"
proof -
  let ?st = "chunk_entry_state ctx"
  have ci: "chunk_inv ?st (ch_size ctx)" using assms(1) by (simp add: ctx_wf_def)
  note inv = chunk_scan_inv [OF ci, of mem pos]
    and sim = scan_dechunk [OF ci assms(2), of limit n]
  have nrm: "chunk_inv st (ch_size c) \<Longrightarrow> ch_state c = st \<Longrightarrow> ctx_norm c = ch_put st c \<and> ctx_wf c" for st c
    by (auto simp: ctx_norm_def ctx_wf_def chunk_entry_state_def chunk_inv_def)
  have small: "chunk_inv sw_chunk_data z \<Longrightarrow> \<not> z > NGX_MAX_OFF_T_VALUE - 5" for z
    by (simp add: chunk_inv_def ngx_consts)
  have start: "chunk_entry_state (c\<lparr>ch_state := sw_chunk_start\<rparr>) = sw_chunk_start" for c
    by (simp add: chunk_entry_state_def)
  have lgt: "chunk_entry_state (c\<lparr>ch_length := l\<rparr>) = chunk_entry_state c" for c l
    by (simp add: chunk_entry_state_def)
  note defs = ngx_http_parse_chunked_def chunk_data_exit_def Let_def
  show "chunk_inv sw_chunk_data (ch_size ctx') \<and> ch_state ctx' = sw_chunk_data
      \<and> pos \<le> pos' \<and> pos' < length mem
      \<and> dechunk limit (ctx_norm ctx) n (drop pos mem) = dechunk limit (ctx_norm ctx') n (drop pos' mem)"
    if "rc = CH_OK"
    using that assms(3) inv sim small nrm [of sw_chunk_data ctx']
    by (auto simp: defs ctx_norm_def [of ctx] split: action.splits if_splits)
  show "pos \<le> pos' \<and> pos' \<le> length mem \<and> ch_state ctx' = sw_chunk_start \<and> ctx_wf ctx'
      \<and> dechunk limit (ctx_norm ctx) n (drop pos mem) = (BODY_LAST, ctx_norm ctx', n, [], drop pos' mem)"
    if "rc = CH_DONE"
    using that assms(3) inv sim
    by (auto simp: defs ctx_norm_def start ctx_wf_def split: action.splits if_splits)
  show "pos' = length mem \<and> ctx_wf ctx'
      \<and> dechunk limit (ctx_norm ctx) n (drop pos mem) = (BODY_MORE, ctx_norm ctx', n, [], [])"
    if "rc = CH_AGAIN"
    using that assms(2,3) inv sim nrm [of "ch_state ctx'" ctx']
    by (auto simp: defs ctx_norm_def [of ctx] split: action.splits if_splits)
  show "\<exists>c left. dechunk limit (ctx_norm ctx) n (drop pos mem) = (BODY_BAD_REQUEST, c, n, [], left)"
    if "rc = CH_ERROR"
    using that assms(3) inv sim small
    by (auto simp: defs ctx_norm_def [of ctx] split: action.splits if_splits)
qed

section \<open>The filter against the byte-wise reference\<close>

text \<open>
  The invariant of the loop: every slice ends at or before the read position, and the slice
  that may still grow is the one that ends last.
\<close>

definition slices_ok :: "(nat \<times> nat) list \<Rightarrow> nat \<Rightarrow> bool" where
  "slices_ok out pos \<longleftrightarrow>
     (\<forall>x\<in>set out. fst x \<le> snd x \<and> snd x \<le> pos \<and> snd x \<le> snd (last out))"

definition body_wf :: "body_state \<Rightarrow> bool" where
  "body_wf s \<longleftrightarrow> bd_pos s \<le> length (bd_mem s) \<and> ctx_wf (bd_chunked s) \<and> slices_ok (bd_out s) (bd_pos s)"

definition body_ref :: "body_conf \<Rightarrow> body_state \<Rightarrow> body_rc \<times> ngx_http_chunked_t \<times> int \<times> byte list \<times> byte list" where
  "body_ref conf s = dechunk (client_max_body_size conf) (ctx_norm (bd_chunked s)) (bd_content_length_n s)
     (drop (bd_pos s) (bd_mem s))"

text \<open>One turn of the loop that continues delivers the bytes \<open>k\<close>.\<close>

definition delivers :: "body_conf \<Rightarrow> body_state \<Rightarrow> body_state \<Rightarrow> byte list \<Rightarrow> bool" where
  "delivers conf s s' k \<longleftrightarrow> body_wf s' \<and> bd_pos s < bd_pos s' \<and> length (bd_mem s') = length (bd_mem s)
     \<and> bd_payload s' = bd_payload s @ k
     \<and> body_ref conf s = (case body_ref conf s' of (rc, c, m, data, left) \<Rightarrow> (rc, c, m, k @ data, left))"

lemma ctx_after_data:
  assumes "chunk_inv sw_chunk_data (ch_size ctx)" and "ch_state ctx = sw_chunk_data"
    and "0 \<le> k" and "k \<le> ch_size ctx"
  shows "ctx_wf (ctx\<lparr>ch_size := ch_size ctx - k\<rparr>)"
  using assms by (auto simp: ctx_wf_def chunk_entry_state_def chunk_inv_def chunk_size_ok_def)

lemma dechunk_entry:
  "ch_state ctx = sw_chunk_data \<Longrightarrow>
   dechunk limit (ch_put sw_chunk_data ctx) n bs = dechunk limit (ctx_norm ctx) n bs"
proof -
  assume st: "ch_state ctx = sw_chunk_data"
  have "chunk_entry_state (ch_put sw_chunk_data ctx) = chunk_entry_state (ctx_norm ctx)"
    using st by (auto simp: chunk_entry_state_def ctx_norm_def)
  moreover have "chunk_step [b] 0 x (ch_put sw_chunk_data ctx) = (case chunk_step [b] 0 x ctx of
      Next st' ctx' \<Rightarrow> Next st' (ch_put sw_chunk_data ctx') | Done e st' ctx' q \<Rightarrow> Done e st' (ch_put sw_chunk_data ctx') 1
      | Fail e ctx' \<Rightarrow> Fail e (ch_put sw_chunk_data ctx'))" if "x \<noteq> sw_chunk_data" for b x
    using chunk_step_frame [OF that, of "[b]" 0 sw_chunk_data ctx] by simp
  moreover have "chunk_step [b] 0 x (ctx_norm ctx) = (case chunk_step [b] 0 x ctx of
      Next st' ctx' \<Rightarrow> Next st' (ch_put (chunk_entry_state ctx) ctx')
      | Done e st' ctx' q \<Rightarrow> Done e st' (ch_put (chunk_entry_state ctx) ctx') 1
      | Fail e ctx' \<Rightarrow> Fail e (ch_put (chunk_entry_state ctx) ctx'))" if "x \<noteq> sw_chunk_data" for b x
    using chunk_step_frame [OF that, of "[b]" 0 "chunk_entry_state ctx" ctx] by (simp add: ctx_norm_def)
  moreover have "chunk_entry_state ctx = sw_chunk_data \<Longrightarrow> ctx_norm ctx = ch_put sw_chunk_data ctx"
    by (simp add: ctx_norm_def)
  ultimately show ?thesis
    by (cases bs) (auto simp: ctx_norm_def chunk_entry_state_def st split: action.splits)
qed

lemma body_append_chunk_delivers:
  assumes "body_wf s" and ctx: "chunk_inv sw_chunk_data (ch_size (bd_chunked s))" "ch_state (bd_chunked s) = sw_chunk_data"
    and lim: "\<not> (client_max_body_size conf \<noteq> 0 \<and> client_max_body_size conf - bd_content_length_n s < ch_size (bd_chunked s))"
    and out: "bd_out s \<noteq> []" and fits: "ch_size (bd_chunked s) \<le> int (length (bd_mem s) - bd_pos s)"
  shows "\<exists>k. delivers conf s (body_append_chunk s) k"
proof -
  define n where "n = nat (ch_size (bd_chunked s))"
  obtain pre a b where o: "bd_out s = pre @ [(a, b)]"
    using out by (metis rev_exhaust surj_pair)
  have n: "int n = ch_size (bd_chunked s)" "0 < n" using ctx by (auto simp: n_def chunk_inv_def)
  have pos: "bd_pos s \<le> length (bd_mem s)" using assms(1) by (simp add: body_wf_def)
  have fit: "bd_pos s + n \<le> length (bd_mem s)" using fits n pos by simp
  have ab: "a \<le> b" "b \<le> bd_pos s" "\<And>x y. (x, y) \<in> set pre \<Longrightarrow> x \<le> y \<and> y \<le> b"
    using assms(1) by (auto simp: body_wf_def slices_ok_def o)
  let ?mem = "ngx_memmove (bd_mem s) b (bd_pos s) n"
  note mm = memmove_facts [OF ab(2) fit]
  have s': "body_append_chunk s = s\<lparr>bd_mem := ?mem, bd_content_length_n := bd_content_length_n s + int n,
      bd_out := pre @ [(a, b + n)], bd_pos := bd_pos s + n,
      bd_chunked := (bd_chunked s)\<lparr>ch_size := ch_size (bd_chunked s) - int n\<rparr>\<rparr>"
    using copy_bytes_eq_memmove [OF ab(2) fit] n
    by (simp add: body_append_chunk_def o Let_def n_def [symmetric])
  have "map (buf_slice ?mem) pre = map (buf_slice (bd_mem s)) pre"
    using ab(3) mm(2) by auto
  then have pay: "bd_payload (body_append_chunk s) = bd_payload s @ take n (drop (bd_pos s) (bd_mem s))"
    using mm(3) [OF ab(1)] by (simp add: bd_payload_def s' o cong: map_cong)
  have wf: "body_wf (body_append_chunk s)"
    using ctx_after_data [OF ctx, of "int n"] n fit ab mm(1)
    by (auto simp: body_wf_def s' slices_ok_def dest!: ab(3))
  have "body_ref conf s = (case body_ref conf (body_append_chunk s) of
      (rc, c, m, data, left) \<Rightarrow> (rc, c, m, take n (drop (bd_pos s) (bd_mem s)) @ data, left))"
    using dechunk_data [OF ctx(1), of n "drop (bd_pos s) (bd_mem s)" "client_max_body_size conf" "bd_content_length_n s"]
      n fit lim ctx(2) mm(4)
    by (simp add: body_ref_def s' dechunk_entry add.commute)
  then show ?thesis
    using wf pay n mm(1) by (auto simp: delivers_def s')
qed

lemma body_new_slice_delivers:
  assumes "body_wf s" and ctx: "chunk_inv sw_chunk_data (ch_size (bd_chunked s))" "ch_state (bd_chunked s) = sw_chunk_data"
    and lim: "\<not> (client_max_body_size conf \<noteq> 0 \<and> client_max_body_size conf - bd_content_length_n s < ch_size (bd_chunked s))"
    and more: "bd_pos s < length (bd_mem s)"
  shows "\<exists>k. delivers conf s (body_new_slice s) k"
proof -
  let ?avail = "length (bd_mem s) - bd_pos s"
  define n where "n = min (nat (ch_size (bd_chunked s))) ?avail"
  have n: "0 < n" "int n \<le> ch_size (bd_chunked s)" "bd_pos s + n \<le> length (bd_mem s)"
    using ctx more by (auto simp: n_def chunk_inv_def)
  have s': "body_new_slice s = s\<lparr>bd_pos := bd_pos s + n, bd_content_length_n := bd_content_length_n s + int n,
      bd_chunked := (bd_chunked s)\<lparr>ch_size := ch_size (bd_chunked s) - int n\<rparr>,
      bd_out := bd_out s @ [(bd_pos s, bd_pos s + n)]\<rparr>"
    using ctx more by (auto simp: body_new_slice_def Let_def n_def chunk_inv_def min_def)
  have pay: "bd_payload (body_new_slice s) = bd_payload s @ take n (drop (bd_pos s) (bd_mem s))"
    by (simp add: bd_payload_def s' buf_slice_def)
  have wf: "body_wf (body_new_slice s)"
    using assms(1) ctx_after_data [OF ctx, of "int n"] n
    by (fastforce simp: body_wf_def s' slices_ok_def)
  have "body_ref conf s = (case body_ref conf (body_new_slice s) of
      (rc, c, m, data, left) \<Rightarrow> (rc, c, m, take n (drop (bd_pos s) (bd_mem s)) @ data, left))"
    using dechunk_data [OF ctx(1), of n "drop (bd_pos s) (bd_mem s)" "client_max_body_size conf" "bd_content_length_n s"]
      n lim ctx(2)
    by (simp add: body_ref_def s' dechunk_entry add.commute)
  then show ?thesis
    using wf pay n by (auto simp: delivers_def s')
qed

lemma body_iter_OK:
  assumes "body_wf s" and "body_iter conf s = (BODY_OK, s')"
  shows "\<exists>k. delivers conf s s' k"
proof -
  obtain rc ctx pos where parse: "ngx_http_parse_chunked (bd_mem s) (bd_pos s) (bd_chunked s) = (rc, ctx, pos)"
    by (metis prod_cases3)
  have rc: "rc = CH_OK"
    using assms(2) by (auto simp: body_iter_def parse Let_def split: chunk_rc.splits)
  let ?s = "s\<lparr>bd_chunked := ctx, bd_pos := pos\<rparr>"
  note facts = parse_chunked_dechunk(1) [OF _ _ parse rc]
  have ok: "chunk_inv sw_chunk_data (ch_size ctx)" "ch_state ctx = sw_chunk_data" "bd_pos s \<le> pos" "pos < length (bd_mem s)"
    using assms(1) facts by (auto simp: body_wf_def)
  have ref: "body_ref conf s = body_ref conf ?s" and pay: "bd_payload ?s = bd_payload s"
    using assms(1) facts by (auto simp: body_wf_def body_ref_def bd_payload_def)
  have wf: "body_wf ?s"
    using assms(1) ok ctx_after_data [OF ok(1,2), of 0]
    by (fastforce simp: body_wf_def slices_ok_def chunk_inv_def)
  have "\<exists>k. delivers conf ?s s' k"
    using assms(2) body_append_chunk_delivers [OF wf, of conf] body_new_slice_delivers [OF wf, of conf] ok
    by (auto simp: body_iter_def parse rc Let_def split: if_splits)
  then show ?thesis
    using ref pay ok by (auto simp: delivers_def)
qed

lemma body_iter_stop:
  assumes "body_wf s" and "body_iter conf s = (rc, s')" and "rc \<noteq> BODY_OK"
  shows "bd_payload s' = bd_payload s \<and> bd_content_length_n s' = bd_content_length_n s
    \<and> (\<exists>c left. body_ref conf s = (rc, c, bd_content_length_n s, [], left)
        \<and> (rc \<in> {BODY_MORE, BODY_LAST} \<longrightarrow>
             ctx_wf (bd_chunked s') \<and> c = ctx_norm (bd_chunked s') \<and> left = drop (bd_pos s') (bd_mem s')))"
proof -
  obtain prc ctx pos where parse: "ngx_http_parse_chunked (bd_mem s) (bd_pos s) (bd_chunked s) = (prc, ctx, pos)"
    by (metis prod_cases3)
  have wf: "ctx_wf (bd_chunked s)" "bd_pos s \<le> length (bd_mem s)"
    using assms(1) by (auto simp: body_wf_def)
  note facts = parse_chunked_dechunk [OF wf parse, of "client_max_body_size conf" "bd_content_length_n s"]
  show ?thesis
  proof (cases prc)
    case CH_OK
    then have big: "client_max_body_size conf \<noteq> 0 \<and> client_max_body_size conf - bd_content_length_n s < ch_size ctx"
      and rc: "rc = BODY_TOO_LARGE" and s': "s' = s\<lparr>bd_chunked := ctx, bd_pos := pos\<rparr>"
      using assms(2,3) by (auto simp: body_iter_def parse Let_def split: if_splits)
    have f: "chunk_inv sw_chunk_data (ch_size ctx)" "ch_state ctx = sw_chunk_data" "pos < length (bd_mem s)"
      using facts(1) [OF CH_OK] by auto
    then have "drop pos (bd_mem s) = bd_mem s ! pos # drop (Suc pos) (bd_mem s)"
      by (simp add: Cons_nth_drop_Suc)
    then have "dechunk (client_max_body_size conf) (ctx_norm ctx) (bd_content_length_n s) (drop pos (bd_mem s))
        = (BODY_TOO_LARGE, ch_put sw_chunk_data ctx, bd_content_length_n s, [], drop pos (bd_mem s))"
      using f big by (auto simp: ctx_norm_def chunk_entry_state_def chunk_inv_def)
    then show ?thesis
      using facts(1) [OF CH_OK] rc by (simp add: body_ref_def s' bd_payload_def)
  next
    case CH_AGAIN
    then show ?thesis
      using assms(2) facts(3) by (auto simp: body_iter_def parse Let_def body_ref_def bd_payload_def)
  next
    case CH_DONE
    then show ?thesis
      using assms(2) facts(2) by (auto simp: body_iter_def parse Let_def body_ref_def bd_payload_def)
  next
    case CH_ERROR
    then show ?thesis
      using assms(2) facts(4) by (auto simp: body_iter_def parse Let_def body_ref_def bd_payload_def)
  qed
qed

lemma body_loop_refines:
  assumes "body_wf s"
  shows "\<exists>rc s' c data left. body_loop conf s = Some (rc, s')
    \<and> body_ref conf s = (rc, c, bd_content_length_n s', data, left)
    \<and> bd_payload s' = bd_payload s @ data
    \<and> (rc \<in> {BODY_MORE, BODY_LAST} \<longrightarrow>
         ctx_wf (bd_chunked s') \<and> c = ctx_norm (bd_chunked s') \<and> left = drop (bd_pos s') (bd_mem s'))
    \<and> rc \<noteq> BODY_OK"
  using assms
proof (induction "length (bd_mem s) - bd_pos s" arbitrary: s rule: less_induct)
  case less
  obtain rc s' where it: "body_iter conf s = (rc, s')" by fastforce
  show ?case
  proof (cases "rc = BODY_OK")
    case True
    then obtain k where d: "delivers conf s s' k"
      using body_iter_OK less.prems it by blast
    then have "length (bd_mem s') - bd_pos s' < length (bd_mem s) - bd_pos s" and "body_wf s'"
      by (auto simp: delivers_def body_wf_def)
    from less.hyps [OF this] obtain rc'' s'' c data left where ih:
      "body_loop conf s' = Some (rc'', s'')" "body_ref conf s' = (rc'', c, bd_content_length_n s'', data, left)"
      "bd_payload s'' = bd_payload s' @ data" "rc'' \<noteq> BODY_OK"
      "rc'' \<in> {BODY_MORE, BODY_LAST} \<longrightarrow> ctx_wf (bd_chunked s'') \<and> c = ctx_norm (bd_chunked s'') \<and> left = drop (bd_pos s'') (bd_mem s'')"
      by blast
    have "body_loop conf s = Some (rc'', s'')"
      using it True ih(1) by (subst body_loop.simps) simp
    moreover have "body_ref conf s = (rc'', c, bd_content_length_n s'', k @ data, left)"
      and "bd_payload s'' = bd_payload s @ k @ data"
      using d ih by (simp_all add: delivers_def)
    ultimately show ?thesis using ih(4,5) by blast
  next
    case False
    have "body_loop conf s = Some (rc, s')"
      using it False by (subst body_loop.simps) simp
    then show ?thesis
      using body_iter_stop [OF less.prems it False] False by auto
  qed
qed

section \<open>The reference on input in pieces\<close>

lemma dechunk_erase: "dechunk limit (ctx\<lparr>ch_length := l\<rparr>) n bs = dechunk limit ctx n bs"
proof (induction bs arbitrary: limit ctx n l)
  case Nil
  then show ?case by (simp add: chunk_entry_state_def)
next
  case (Cons b bs)
  have e: "chunk_entry_state (ctx\<lparr>ch_length := l\<rparr>) = chunk_entry_state ctx"
    by (simp add: chunk_entry_state_def)
  have f: "chunk_step [b] 0 st (ctx\<lparr>ch_length := l\<rparr>) =
      (case chunk_step [b] 0 st ctx of
         Next st' c \<Rightarrow> Next st' (c\<lparr>ch_length := l\<rparr>)
       | Done e st' c q \<Rightarrow> Done e st' (c\<lparr>ch_length := l\<rparr>) q
       | Fail e c \<Rightarrow> Fail e (c\<lparr>ch_length := l\<rparr>))" for st
    by (cases st) (simp_all add: sm_defs Let_def)
  have g: "dechunk lim (ctx\<lparr>ch_length := l, ch_size := z\<rparr>) (n + 1) bs = dechunk lim (ctx\<lparr>ch_size := z\<rparr>) (n + 1) bs"
    for lim z
    using Cons.IH [where limit = lim and ctx = "ctx\<lparr>ch_size := z\<rparr>" and l = l and n = "n + 1"]
    by (cases ctx) simp
  show ?case
    by (simp add: e f g split: action.splits)
qed

lemma dechunk_norm: "dechunk limit (ctx_norm ctx) n bs = dechunk limit ctx n bs"
proof (cases "ch_state ctx = sw_chunk_data")
  case True
  have "ch_put sw_chunk_data ctx = ctx\<lparr>ch_length := 0\<rparr>"
    using True by (simp add: ch_put_def)
  with dechunk_entry [OF True] dechunk_erase show ?thesis by metis
next
  case False
  then have "ctx_norm ctx = ctx\<lparr>ch_length := 0\<rparr>"
    by (simp add: ctx_norm_def ch_put_def chunk_entry_state_def)
  then show ?thesis by (simp add: dechunk_erase)
qed

lemma dechunk_append:
  "dechunk limit ctx n xs = (BODY_MORE, c, m, data, left) \<Longrightarrow>
   dechunk limit ctx n (xs @ ys) =
     (case dechunk limit c m ys of (rc, c', m', data', left') \<Rightarrow> (rc, c', m', data @ data', left'))"
proof (induction xs arbitrary: ctx n c m data left)
  case Nil
  then have "c = ctx_norm ctx" "m = n" "data = []"
    by (auto simp: ctx_norm_def split: if_splits)
  then show ?case by (simp add: dechunk_norm)
next
  case (Cons x xs)
  show ?case
  proof (cases "chunk_entry_state ctx = sw_chunk_data")
    case True
    with Cons.prems obtain data' where
      "dechunk limit (ctx\<lparr>ch_size := ch_size ctx - 1\<rparr>) (n + 1) xs = (BODY_MORE, c, m, data', left)"
      "data = x # data'" and lim: "\<not> (limit \<noteq> 0 \<and> limit - n < ch_size ctx)"
      by (auto split: if_splits prod.splits)
    with True Cons.IH show ?thesis by (auto split: prod.splits)
  next
    case False
    then show ?thesis
      using Cons.prems Cons.IH by (auto split: action.splits)
  qed
qed

section \<open>Encoded bodies\<close>

text \<open>
  The grammar of a chunked body, as the parser accepts it: a chunk is its size in hexadecimal
  digits of either case, an optional extension, the data and the line ends; the last chunk has
  size zero and is followed by trailer lines and an empty line.
\<close>

definition is_hex :: "byte \<Rightarrow> bool" where
  "is_hex c \<longleftrightarrow> asc CHR ''0'' \<le> c \<and> c \<le> asc CHR ''9''
     \<or> asc CHR ''a'' \<le> c OR 0x20 \<and> c OR 0x20 \<le> asc CHR ''f''"

definition hex_val :: "byte \<Rightarrow> int" where
  "hex_val c = (if asc CHR ''0'' \<le> c \<and> c \<le> asc CHR ''9'' then uint c - 48 else uint (c OR 0x20) - 97 + 10)"

definition hex_num :: "byte list \<Rightarrow> int" where
  "hex_num hs = foldl (\<lambda>v c. v * 16 + hex_val c) 0 hs"

definition ext_ok :: "byte list \<Rightarrow> bool" where
  "ext_ok ext \<longleftrightarrow> (ext = [] \<or> hd ext \<in> {asc CHR '';'', asc CHR '' '', 0x09}) \<and> CR \<notin> set ext \<and> LF \<notin> set ext"

definition chunk_ok :: "byte list \<times> byte list \<times> byte list \<Rightarrow> bool" where
  "chunk_ok ch = (case ch of (hs, ext, data) \<Rightarrow> hs \<noteq> [] \<and> (\<forall>h\<in>set hs. is_hex h)
     \<and> hex_num hs = int (length data) \<and> data \<noteq> []
     \<and> int (length data) \<le> NGX_MAX_OFF_T_VALUE div 16 \<and> ext_ok ext)"

definition encode_chunk :: "byte list \<times> byte list \<times> byte list \<Rightarrow> byte list" where
  "encode_chunk ch = (case ch of (hs, ext, data) \<Rightarrow> hs @ ext @ [CR, LF] @ data @ [CR, LF])"

definition trailer_ok :: "byte list \<Rightarrow> bool" where
  "trailer_ok line \<longleftrightarrow> line \<noteq> [] \<and> CR \<notin> set line \<and> LF \<notin> set line"

definition encode_last :: "byte list \<Rightarrow> byte list \<Rightarrow> byte list list \<Rightarrow> byte list" where
  "encode_last zeros ext trailers =
     zeros @ ext @ [CR, LF] @ concat (map (\<lambda>line. line @ [CR, LF]) trailers) @ [CR, LF]"

definition encode_body ::
  "(byte list \<times> byte list \<times> byte list) list \<Rightarrow> byte list \<Rightarrow> byte list \<Rightarrow> byte list list \<Rightarrow> byte list" where
  "encode_body chunks zeros ext trailers = concat (map encode_chunk chunks) @ encode_last zeros ext trailers"

section \<open>Decoding an encoded body\<close>

declare dechunk.simps [simp del]

lemma dechunk_step:
  assumes "chunk_inv st (ch_size ctx)" and "st \<noteq> sw_chunk_data" and "chunk_step [b] 0 st ctx = Next st' ctx'"
  shows "dechunk limit (ch_put st ctx) n (b # bs) = dechunk limit (ch_put st' ctx') n bs"
proof -
  have "chunk_step (b # bs) 0 st ctx = chunk_step [b] 0 st ctx"
    using chunked.step_append [of 0 "[b]" bs st ctx] by simp
  then show ?thesis
    using dechunk_Cons_framing [OF assms(1,2), of 0 "b # bs" limit n] assms(3) by simp
qed

lemma dechunk_skip:
  assumes "chunk_inv st (ch_size ctx)" and "st \<noteq> sw_chunk_data"
    and "\<And>b. b \<in> set xs \<Longrightarrow> chunk_step [b] 0 st ctx = Next st ctx"
  shows "dechunk limit (ch_put st ctx) n (xs @ bs) = dechunk limit (ch_put st ctx) n bs"
  using assms(3) by (induction xs) (simp_all add: dechunk_step [OF assms(1,2)])

lemma hex_val_range: "is_hex h \<Longrightarrow> 0 \<le> hex_val h \<and> hex_val h \<le> 15"
  using hex_digit_range [of h] hex_digit_range [of "h OR 0x20"]
  by (auto simp: is_hex_def hex_val_def)

lemma foldl_hex_mono:
  "\<forall>h\<in>set hs. is_hex h \<Longrightarrow> 0 \<le> v \<Longrightarrow> v \<le> foldl (\<lambda>v c. v * 16 + hex_val c) v hs"
proof (induction hs arbitrary: v)
  case Nil
  then show ?case by simp
next
  case (Cons h hs)
  have "0 \<le> hex_val h" using Cons.prems hex_val_range by auto
  then have "v \<le> v * 16 + hex_val h" "0 \<le> v * 16 + hex_val h"
    using Cons.prems by auto
  with Cons.IH [of "v * 16 + hex_val h"] Cons.prems show ?case by auto
qed

lemma chunk_step_digit:
  assumes "is_hex h"
  shows "chunk_step [h] 0 sw_chunk_start ctx = Next sw_chunk_size (ctx\<lparr>ch_size := hex_val h\<rparr>)"
    and "\<not> ch_size ctx > NGX_MAX_OFF_T_VALUE div 16 \<Longrightarrow>
      chunk_step [h] 0 sw_chunk_size ctx = Next sw_chunk_size (ctx\<lparr>ch_size := ch_size ctx * 16 + hex_val h\<rparr>)"
  using assms by (auto simp: sm_defs is_hex_def hex_val_def Let_def)

lemma dechunk_digits:
  assumes "\<forall>h\<in>set hs. is_hex h" and "0 \<le> ch_size ctx"
    and "foldl (\<lambda>v c. v * 16 + hex_val c) (ch_size ctx) hs \<le> NGX_MAX_OFF_T_VALUE div 16"
  shows "dechunk limit (ch_put sw_chunk_size ctx) n (hs @ bs) =
    dechunk limit (ch_put sw_chunk_size (ctx\<lparr>ch_size := foldl (\<lambda>v c. v * 16 + hex_val c) (ch_size ctx) hs\<rparr>)) n bs"
  using assms
proof (induction hs arbitrary: ctx)
  case Nil
  then show ?case by simp
next
  case (Cons h hs)
  let ?v = "ch_size ctx * 16 + hex_val h"
  have v: "0 \<le> ?v" "ch_size ctx \<le> ?v" using Cons.prems hex_val_range by auto
  have "?v \<le> NGX_MAX_OFF_T_VALUE div 16"
    using foldl_hex_mono [of hs ?v] Cons.prems v by auto
  then have le: "ch_size ctx \<le> NGX_MAX_OFF_T_VALUE div 16" using v by simp
  then have "chunk_inv sw_chunk_size (ch_size ctx)"
    using Cons.prems(2) by (simp add: chunk_inv_def chunk_size_ok_def ngx_consts)
  from dechunk_step [OF this _ chunk_step_digit(2)] Cons.prems(1) le
  have "dechunk limit (ch_put sw_chunk_size ctx) n (h # hs @ bs) =
      dechunk limit (ch_put sw_chunk_size (ctx\<lparr>ch_size := ?v\<rparr>)) n (hs @ bs)"
    by simp
  also have "\<dots> = dechunk limit (ch_put sw_chunk_size (ctx\<lparr>ch_size := foldl (\<lambda>v c. v * 16 + hex_val c) (ch_size ctx) (h # hs)\<rparr>)) n bs"
    using Cons.IH [of "ctx\<lparr>ch_size := ?v\<rparr>"] Cons.prems v by simp
  finally show ?case by simp
qed

lemma dechunk_size:
  assumes "hs \<noteq> []" and "\<forall>h\<in>set hs. is_hex h" and "hex_num hs \<le> NGX_MAX_OFF_T_VALUE div 16"
    and "chunk_inv sw_chunk_start (ch_size ctx)"
  shows "dechunk limit (ch_put sw_chunk_start ctx) n (hs @ bs) =
    dechunk limit (ch_put sw_chunk_size (ctx\<lparr>ch_size := hex_num hs\<rparr>)) n bs"
proof -
  obtain h hs' where hs: "hs = h # hs'" using assms(1) by (cases hs) auto
  have h: "is_hex h" using assms(2) hs by simp
  have "dechunk limit (ch_put sw_chunk_start ctx) n (h # hs' @ bs) =
      dechunk limit (ch_put sw_chunk_size (ctx\<lparr>ch_size := hex_val h\<rparr>)) n (hs' @ bs)"
    using dechunk_step [OF assms(4) _ chunk_step_digit(1) [OF h]] by simp
  then show ?thesis
    using dechunk_digits [of hs' "ctx\<lparr>ch_size := hex_val h\<rparr>"] assms(2,3) h hex_val_range
    by (simp add: hs hex_num_def)
qed

text \<open>The extension and the line end after the size, for a data chunk and for the last chunk.\<close>

lemma dechunk_size_eol:
  assumes "ext_ok ext" and "0 \<le> ch_size ctx" and "ch_size ctx \<le> NGX_MAX_OFF_T_VALUE div 16"
  shows "dechunk limit (ch_put sw_chunk_size ctx) n (ext @ [CR, LF] @ bs) =
    dechunk limit (ch_put (if ch_size ctx = 0 then sw_trailer else sw_chunk_data) ctx) n bs"
proof -
  define e a t where eat: "e = (if ch_size ctx = 0 then sw_last_chunk_extension else sw_chunk_extension)"
    "a = (if ch_size ctx = 0 then sw_last_chunk_extension_almost_done else sw_chunk_extension_almost_done)"
    "t = (if ch_size ctx = 0 then sw_trailer else sw_chunk_data)"
  have st: "e \<noteq> sw_chunk_data" "a \<noteq> sw_chunk_data"
    "chunk_inv e (ch_size ctx)" "chunk_inv a (ch_size ctx)" "chunk_inv sw_chunk_size (ch_size ctx)"
    using assms(2,3) by (auto simp: eat chunk_inv_def chunk_size_ok_def ngx_consts)
  have cr: "chunk_step [CR] 0 sw_chunk_size ctx = Next a ctx" "chunk_step [CR] 0 e ctx = Next a ctx"
    and lf: "chunk_step [LF] 0 a ctx = Next t ctx"
    using assms(3) by (auto simp: sm_defs eat Let_def)
  have eol: "dechunk limit (ch_put a ctx) n (LF # bs) = dechunk limit (ch_put t ctx) n bs"
    using dechunk_step [OF st(4) st(2) lf] .
  show ?thesis
  proof (cases ext)
    case Nil
    then show ?thesis
      using dechunk_step [OF st(5) _ cr(1)] eol by (simp add: eat)
  next
    case (Cons x xs)
    have x: "chunk_step [x] 0 sw_chunk_size ctx = Next e ctx"
      using assms(1,3) Cons by (auto simp: ext_ok_def sm_defs eat Let_def)
    have xs: "chunk_step [b] 0 e ctx = Next e ctx" if "b \<in> set xs" for b
      using assms(1) that Cons by (auto simp: ext_ok_def sm_defs eat Let_def)
    show ?thesis
      using dechunk_step [OF st(5) _ x, of limit n "xs @ [CR, LF] @ bs"]
        dechunk_skip [OF st(3,1) xs, of xs limit n "[CR, LF] @ bs"]
        dechunk_step [OF st(3,1) cr(2)] eol
      by (simp add: Cons eat)
  qed
qed

lemma dechunk_after_data:
  assumes "chunk_inv sw_after_data (ch_size ctx)"
  shows "dechunk limit (ch_put sw_after_data ctx) n ([CR, LF] @ bs) = dechunk limit (ch_put sw_chunk_start ctx) n bs"
proof -
  have inv: "chunk_inv sw_after_data_almost_done (ch_size ctx)"
    using assms by (simp add: chunk_inv_def)
  have "chunk_step [CR] 0 sw_after_data ctx = Next sw_after_data_almost_done ctx"
    "chunk_step [LF] 0 sw_after_data_almost_done ctx = Next sw_chunk_start ctx"
    by (simp_all add: sm_defs)
  from dechunk_step [OF assms _ this(1)] dechunk_step [OF inv _ this(2)] show ?thesis by simp
qed

lemma dechunk_chunk:
  assumes "chunk_ok (hs, ext, data)" and "chunk_inv sw_chunk_start (ch_size ctx)"
    and "limit = 0 \<or> n + int (length data) \<le> limit"
  shows "dechunk limit (ch_put sw_chunk_start ctx) n (encode_chunk (hs, ext, data) @ bs) =
    (case dechunk limit (ch_put sw_chunk_start (ctx\<lparr>ch_size := 0\<rparr>)) (n + int (length data)) bs of
       (rc, c, m, d, left) \<Rightarrow> (rc, c, m, data @ d, left))"
proof -
  let ?len = "int (length data)"
  let ?ctx = "ctx\<lparr>ch_size := ?len\<rparr>"
  have ok: "hs \<noteq> []" "\<forall>h\<in>set hs. is_hex h" "hex_num hs = ?len" "data \<noteq> []" "?len \<le> NGX_MAX_OFF_T_VALUE div 16" "ext_ok ext"
    using assms(1) by (auto simp: chunk_ok_def)
  have inv: "chunk_inv sw_chunk_data (ch_size ?ctx)" "chunk_inv sw_after_data (ch_size (ctx\<lparr>ch_size := 0\<rparr>))"
    using ok by (auto simp: chunk_inv_def chunk_size_ok_def ngx_consts)
  have "dechunk limit (ch_put sw_chunk_start ctx) n (encode_chunk (hs, ext, data) @ bs) =
      dechunk limit (ch_put sw_chunk_data ?ctx) n (data @ [CR, LF] @ bs)"
    using dechunk_size [OF ok(1,2) _ assms(2)] dechunk_size_eol [OF ok(6), of ?ctx] ok
    by (simp add: encode_chunk_def)
  also have "\<dots> = (case dechunk limit (ch_put sw_chunk_data (ctx\<lparr>ch_size := 0\<rparr>)) (n + ?len) ([CR, LF] @ bs) of
      (rc, c, m, d, left) \<Rightarrow> (rc, c, m, data @ d, left))"
    using dechunk_data [OF inv(1), of "length data" "data @ [CR, LF] @ bs" limit n] assms(3) by auto
  also have "dechunk limit (ch_put sw_chunk_data (ctx\<lparr>ch_size := 0\<rparr>)) (n + ?len) ([CR, LF] @ bs) =
      dechunk limit (ch_put sw_after_data (ctx\<lparr>ch_size := 0\<rparr>)) (n + ?len) ([CR, LF] @ bs)"
    using dechunk_norm [of limit "ch_put sw_chunk_data (ctx\<lparr>ch_size := 0\<rparr>)"]
    by (simp add: ctx_norm_def chunk_entry_state_def)
  finally show ?thesis
    using dechunk_after_data [OF inv(2)] by simp
qed

lemma dechunk_trailers:
  assumes "\<forall>line\<in>set trailers. trailer_ok line" and "chunk_inv sw_trailer (ch_size ctx)"
  shows "dechunk limit (ch_put sw_trailer ctx) n (concat (map (\<lambda>line. line @ [CR, LF]) trailers) @ bs) =
    dechunk limit (ch_put sw_trailer ctx) n bs"
  using assms(1)
proof (induction trailers)
  case Nil
  then show ?case by simp
next
  case (Cons line lines)
  then obtain x xs where line: "line = x # xs" "x \<noteq> CR" "x \<noteq> LF" "CR \<notin> set xs" "LF \<notin> set xs"
    by (cases line) (auto simp: trailer_ok_def)
  have inv: "chunk_inv sw_trailer_header (ch_size ctx)" "chunk_inv sw_trailer_header_almost_done (ch_size ctx)"
    using assms(2) by (auto simp: chunk_inv_def)
  have "chunk_step [x] 0 sw_trailer ctx = Next sw_trailer_header ctx"
    "\<And>b. b \<in> set xs \<Longrightarrow> chunk_step [b] 0 sw_trailer_header ctx = Next sw_trailer_header ctx"
    "chunk_step [CR] 0 sw_trailer_header ctx = Next sw_trailer_header_almost_done ctx"
    "chunk_step [LF] 0 sw_trailer_header_almost_done ctx = Next sw_trailer ctx"
    using line by (auto simp: sm_defs Let_def)
  from dechunk_step [OF assms(2) _ this(1)] dechunk_skip [OF inv(1) _ this(2)]
    dechunk_step [OF inv(1) _ this(3)] dechunk_step [OF inv(2) _ this(4)] Cons
  show ?case by (simp add: line(1))
qed

lemma dechunk_last:
  assumes "zeros \<noteq> []" and "set zeros = {asc CHR ''0''}" and "ext_ok ext" and "\<forall>line\<in>set trailers. trailer_ok line"
    and "chunk_inv sw_chunk_start (ch_size ctx)"
  shows "\<exists>c. dechunk limit (ch_put sw_chunk_start ctx) n (encode_last zeros ext trailers @ bs) = (BODY_LAST, c, n, [], bs)
    \<and> ch_state c = sw_chunk_start \<and> ch_size c = 0"
proof -
  have z: "hex_num zeros = 0"
  proof -
    have "set zs \<subseteq> {asc CHR ''0''} \<Longrightarrow> foldl (\<lambda>v c. v * 16 + hex_val c) 0 zs = 0" for zs
      by (induction zs) (simp_all add: hex_val_def)
    with assms(2) show ?thesis by (simp add: hex_num_def)
  qed
  have hex: "\<forall>h\<in>set zeros. is_hex h" using assms(2) by (auto simp: is_hex_def)
  let ?c = "ctx\<lparr>ch_size := 0\<rparr>"
  have inv: "chunk_inv st (ch_size ?c)" if "st \<notin> {sw_chunk_extension, sw_chunk_extension_almost_done, sw_chunk_data}" for st
    using that by (simp add: chunk_inv_def chunk_size_ok_def ngx_consts)
  have d: "chunk_step [CR] 0 sw_trailer ?c = Next sw_trailer_almost_done ?c"
    by (simp add: sm_defs)
  have "dechunk limit (ch_put sw_chunk_start ctx) n (encode_last zeros ext trailers @ bs)
      = dechunk limit (ch_put sw_trailer ?c) n (concat (map (\<lambda>line. line @ [CR, LF]) trailers) @ [CR, LF] @ bs)"
    using dechunk_size [OF assms(1) hex _ assms(5)] dechunk_size_eol [OF assms(3), of ?c] z
    by (simp add: encode_last_def ngx_consts)
  also have "\<dots> = dechunk limit (ch_put sw_trailer ?c) n ([CR, LF] @ bs)"
    using dechunk_trailers [OF assms(4) inv] by simp
  also have "\<dots> = dechunk limit (ch_put sw_trailer_almost_done ?c) n (LF # bs)"
    using dechunk_step [OF inv _ d] by simp
  also have "\<dots> = (BODY_LAST, ch_put sw_chunk_start ?c, n, [], bs)"
    using dechunk_Cons_framing [OF inv, of sw_trailer_almost_done 0 "LF # bs" limit n] by (simp add: sm_defs)
  finally show ?thesis by simp
qed

text \<open>The reference returns exactly the data of the chunks and stops at the end of the body.\<close>

lemma dechunk_body:
  assumes "\<forall>ch\<in>set chunks. chunk_ok ch" and "zeros \<noteq> []" and "set zeros = {asc CHR ''0''}"
    and "ext_ok ext" and "\<forall>line\<in>set trailers. trailer_ok line"
    and "chunk_inv sw_chunk_start (ch_size ctx)"
    and "limit = 0 \<or> n + int (length (concat (map (snd \<circ> snd) chunks))) \<le> limit"
  shows "\<exists>c. dechunk limit (ch_put sw_chunk_start ctx) n (encode_body chunks zeros ext trailers @ bs) =
    (BODY_LAST, c, n + int (length (concat (map (snd \<circ> snd) chunks))), concat (map (snd \<circ> snd) chunks), bs)
    \<and> ch_state c = sw_chunk_start \<and> ch_size c = 0"
  using assms(1,6,7)
proof (induction chunks arbitrary: ctx n)
  case Nil
  then show ?case
    using dechunk_last [OF assms(2-5)] by (simp add: encode_body_def)
next
  case (Cons ch chunks)
  obtain hs ext' data where ch: "ch = (hs, ext', data)" by (cases ch)
  have "limit = 0 \<or> n + int (length data) \<le> limit" using Cons.prems(3) ch by auto
  from dechunk_chunk [OF _ Cons.prems(2) this, of hs ext' "encode_body chunks zeros ext trailers @ bs"] Cons.prems(1)
  have one: "dechunk limit (ch_put sw_chunk_start ctx) n (encode_body (ch # chunks) zeros ext trailers @ bs) =
    (case dechunk limit (ch_put sw_chunk_start (ctx\<lparr>ch_size := 0\<rparr>)) (n + int (length data))
            (encode_body chunks zeros ext trailers @ bs) of
       (rc, c, m, d, left) \<Rightarrow> (rc, c, m, data @ d, left))"
    by (simp add: encode_body_def ch)
  have "chunk_inv sw_chunk_start (ch_size (ctx\<lparr>ch_size := 0\<rparr>))"
    by (simp add: chunk_inv_def chunk_size_ok_def ngx_consts)
  from Cons.IH [OF _ this, of "n + int (length data)"] Cons.prems(1,3) one show ?case
    by (auto simp: ch)
qed

section \<open>A chain of buffers\<close>

text \<open>
  The loop \<^verbatim>\<open>for (cl = in; cl; cl = cl->next)\<close>: every buffer of the chain is filtered with its own
  memory; the chunk context and the length received so far are carried over.
\<close>

fun body_chain :: "body_conf \<Rightarrow> body_rc \<Rightarrow> ngx_http_chunked_t \<Rightarrow> int \<Rightarrow> byte list list
    \<Rightarrow> (body_rc \<times> ngx_http_chunked_t \<times> int \<times> byte list) option" where
  "body_chain conf rc ctx n [] = Some (rc, ctx, n, [])"
| "body_chain conf rc ctx n (buf # bufs) =
     (case body_loop conf \<lparr>bd_mem = buf, bd_pos = 0, bd_chunked = ctx, bd_content_length_n = n,
                           bd_rest = 0, bd_out = []\<rparr> of
        None \<Rightarrow> None
      | Some (rc', s) \<Rightarrow>
          if rc' = BODY_BAD_REQUEST \<or> rc' = BODY_TOO_LARGE
          then Some (rc', bd_chunked s, bd_content_length_n s, bd_payload s)
          else (case body_chain conf rc' (bd_chunked s) (bd_content_length_n s) bufs of
                  None \<Rightarrow> None
                | Some (rc'', ctx', m, data) \<Rightarrow> Some (rc'', ctx', m, bd_payload s @ data)))"

definition ngx_http_chunked_init :: ngx_http_chunked_t where
  "ngx_http_chunked_init = \<lparr>ch_state = sw_chunk_start, ch_size = 0, ch_length = 0\<rparr>"

lemma dechunk_Cons_data:
  "chunk_entry_state ctx = sw_chunk_data \<Longrightarrow> dechunk limit ctx n (b # bs) =
     (if limit \<noteq> 0 \<and> limit - n < ch_size ctx then (BODY_TOO_LARGE, ch_put sw_chunk_data ctx, n, [], b # bs)
      else (case dechunk limit (ctx\<lparr>ch_size := ch_size ctx - 1\<rparr>) (n + 1) bs of
              (rc, ctx', n', data, left) \<Rightarrow> (rc, ctx', n', b # data, left)))"
  by (simp add: dechunk.simps)

lemma ctx_wf_data_step:
  "ctx_wf ctx \<Longrightarrow> chunk_entry_state ctx = sw_chunk_data \<Longrightarrow> ctx_wf (ctx\<lparr>ch_size := ch_size ctx - 1\<rparr>)"
  using ctx_after_data [of ctx 1]
  by (auto simp: ctx_wf_def chunk_entry_state_def chunk_inv_def split: if_splits)

lemma ctx_wf_frame_step:
  assumes "ctx_wf ctx" and "chunk_step [b] 0 (chunk_entry_state ctx) ctx = Next st ctx'"
  shows "ctx_wf (ch_put st ctx')"
  using chunk_step_inv [of "chunk_entry_state ctx" ctx, where buf = "[b]" and pos = 0] assms by (simp add: ctx_wf_def)

text \<open>The length counted and the bytes delivered agree and respect the limit.\<close>

lemma dechunk_count:
  "ctx_wf ctx \<Longrightarrow> dechunk limit ctx n bs = (rc, c, m, data, left) \<Longrightarrow>
   m = n + int (length data) \<and> (limit \<noteq> 0 \<longrightarrow> n \<le> limit \<longrightarrow> m \<le> limit)"
proof (induction bs arbitrary: ctx n data)
  case Nil
  then show ?case by (auto simp: dechunk.simps split: if_splits)
next
  case (Cons b bs)
  show ?case
  proof (cases "chunk_entry_state ctx = sw_chunk_data")
    case True
    have "0 < ch_size ctx" using Cons.prems(1) True by (simp add: ctx_wf_def chunk_inv_def)
    then show ?thesis
      using Cons.IH [OF ctx_wf_data_step [OF Cons.prems(1) True]] Cons.prems(2)
      by (fastforce simp: dechunk_Cons_data [OF True] split: if_splits prod.splits)
  next
    case False
    then show ?thesis
      using Cons.IH [OF ctx_wf_frame_step [OF Cons.prems(1)]] Cons.prems(2)
      by (fastforce simp: dechunk.simps split: action.splits)
  qed
qed

lemma dechunk_append_stop:
  "ctx_wf ctx \<Longrightarrow> dechunk limit ctx n xs = (rc, c, m, data, left) \<Longrightarrow> rc \<noteq> BODY_MORE \<Longrightarrow>
   \<exists>c' left'. dechunk limit ctx n (xs @ ys) = (rc, c', m, data, left') \<and> (rc = BODY_LAST \<longrightarrow> c' = c \<and> left' = left @ ys)"
proof (induction xs arbitrary: ctx n data)
  case Nil
  then have big: "ch_size ctx > NGX_MAX_OFF_T_VALUE - 5" and rc: "rc = BODY_BAD_REQUEST" "m = n" "data = []"
    by (auto simp: dechunk.simps split: if_splits)
  have st: "chunk_entry_state ctx = sw_chunk_size"
    using Nil.prems(1) big by (auto simp: ctx_wf_def chunk_inv_def ngx_consts)
  show ?case
  proof (cases ys)
    case Nil
    with big rc show ?thesis by (simp add: dechunk.simps)
  next
    case (Cons y ys')
    have "chunk_step [y] 0 sw_chunk_size ctx = Fail CH_ERROR ctx"
      using big by (simp add: sm_defs ngx_consts)
    with Cons rc st show ?thesis by (simp add: dechunk.simps)
  qed
next
  case (Cons b xs)
  show ?case
  proof (cases "chunk_entry_state ctx = sw_chunk_data")
    case True
    then show ?thesis
      using Cons.IH [OF ctx_wf_data_step [OF Cons.prems(1) True]] Cons.prems(2,3)
      by (fastforce simp: dechunk_Cons_data [OF True] split: if_splits prod.splits)
  next
    case False
    then show ?thesis
      using Cons.IH [OF ctx_wf_frame_step [OF Cons.prems(1)]] Cons.prems(2,3)
      by (fastforce simp: dechunk.simps split: action.splits)
  qed
qed

lemma body_loop_fresh:
  fixes buf :: "byte list" and n :: int and conf :: body_conf
  assumes "ctx_wf ctx"
  defines "s \<equiv> \<lparr>bd_mem = buf, bd_pos = 0, bd_chunked = ctx, bd_content_length_n = n, bd_rest = 0, bd_out = []\<rparr>"
  obtains rc s' c left where "body_loop conf s = Some (rc, s')"
    and "dechunk (client_max_body_size conf) ctx n buf = (rc, c, bd_content_length_n s', bd_payload s', left)"
    and "rc \<in> {BODY_MORE, BODY_LAST} \<Longrightarrow> ctx_wf (bd_chunked s') \<and> c = ctx_norm (bd_chunked s')"
    and "rc \<noteq> BODY_OK"
proof -
  have "body_wf s" using assms(1) by (simp add: s_def body_wf_def slices_ok_def)
  from body_loop_refines [OF this, of conf] obtain rc s' c data left where
    "body_loop conf s = Some (rc, s')" "body_ref conf s = (rc, c, bd_content_length_n s', data, left)"
    "bd_payload s' = bd_payload s @ data" "rc \<noteq> BODY_OK"
    "rc \<in> {BODY_MORE, BODY_LAST} \<longrightarrow> ctx_wf (bd_chunked s') \<and> c = ctx_norm (bd_chunked s')"
    by blast
  moreover have "bd_payload s = []" by (simp add: s_def bd_payload_def)
  moreover have "body_ref conf s = dechunk (client_max_body_size conf) ctx n buf"
    by (simp add: s_def body_ref_def dechunk_norm)
  ultimately show ?thesis using that by auto
qed

lemma body_chain_last:
  assumes "ctx_wf ctx" and "\<forall>buf\<in>set bufs. buf \<noteq> []" and "bufs \<noteq> []"
    and "dechunk (client_max_body_size conf) ctx n (concat bufs) = (BODY_LAST, c, m, data, [])"
  shows "\<exists>c'. body_chain conf rc ctx n bufs = Some (BODY_LAST, c', m, data)"
  using assms
proof (induction bufs arbitrary: ctx n data rc)
  case Nil
  then show ?case by simp
next
  case (Cons buf bufs)
  obtain rc1 s' c1 left where loop: "body_loop conf \<lparr>bd_mem = buf, bd_pos = 0, bd_chunked = ctx,
      bd_content_length_n = n, bd_rest = 0, bd_out = []\<rparr> = Some (rc1, s')"
    and ref: "dechunk (client_max_body_size conf) ctx n buf = (rc1, c1, bd_content_length_n s', bd_payload s', left)"
    and wf: "rc1 \<in> {BODY_MORE, BODY_LAST} \<Longrightarrow> ctx_wf (bd_chunked s') \<and> c1 = ctx_norm (bd_chunked s')"
    and nok: "rc1 \<noteq> BODY_OK"
    by (rule body_loop_fresh [OF Cons.prems(1), where buf = buf and n = n and conf = conf]) blast
  show ?case
  proof (cases "rc1 = BODY_MORE")
    case True
    have split: "(BODY_LAST, c, m, data, []) =
      (case dechunk (client_max_body_size conf) (bd_chunked s') (bd_content_length_n s') (concat bufs) of
        (rc, c', m', data', left') \<Rightarrow> (rc, c', m', bd_payload s' @ data', left'))"
      using dechunk_append [OF ref [unfolded True], of "concat bufs"] Cons.prems(4) wf True dechunk_norm by simp
    then obtain data' where rest:
      "dechunk (client_max_body_size conf) (bd_chunked s') (bd_content_length_n s') (concat bufs) = (BODY_LAST, c, m, data', [])"
      and data: "data = bd_payload s' @ data'"
      by (auto split: prod.splits)
    have "bufs \<noteq> []"
      using rest by (auto simp: dechunk.simps split: if_splits)
    then obtain c' where "body_chain conf BODY_MORE (bd_chunked s') (bd_content_length_n s') bufs = Some (BODY_LAST, c', m, data')"
      using Cons.IH [OF _ _ _ rest, of BODY_MORE] Cons.prems(2) wf True by auto
    then show ?thesis using loop True data by simp
  next
    case False
    from dechunk_append_stop [OF Cons.prems(1) ref False, of "concat bufs"] Cons.prems(4)
    have "rc1 = BODY_LAST" "bd_content_length_n s' = m" "bd_payload s' = data" "concat bufs = []"
      by auto
    moreover from this(4) Cons.prems(2) have "bufs = []" by (cases bufs) auto
    ultimately show ?thesis using loop by simp
  qed
qed

lemma body_chain_count:
  assumes "ctx_wf ctx" and "client_max_body_size conf \<noteq> 0 \<longrightarrow> n \<le> client_max_body_size conf"
  shows "\<exists>rc' c m data. body_chain conf rc ctx n bufs = Some (rc', c, m, data)
    \<and> m = n + int (length data) \<and> (client_max_body_size conf \<noteq> 0 \<longrightarrow> m \<le> client_max_body_size conf)"
  using assms
proof (induction bufs arbitrary: ctx n rc)
  case Nil
  then show ?case by simp
next
  case (Cons buf bufs)
  obtain rc1 s' c1 left where loop: "body_loop conf \<lparr>bd_mem = buf, bd_pos = 0, bd_chunked = ctx,
      bd_content_length_n = n, bd_rest = 0, bd_out = []\<rparr> = Some (rc1, s')"
    and ref: "dechunk (client_max_body_size conf) ctx n buf = (rc1, c1, bd_content_length_n s', bd_payload s', left)"
    and wf: "rc1 \<in> {BODY_MORE, BODY_LAST} \<Longrightarrow> ctx_wf (bd_chunked s') \<and> c1 = ctx_norm (bd_chunked s')"
    and nok: "rc1 \<noteq> BODY_OK"
    by (rule body_loop_fresh [OF Cons.prems(1), where buf = buf and n = n and conf = conf]) blast
  note count = dechunk_count [OF Cons.prems(1) ref]
  show ?case
  proof (cases "rc1 = BODY_BAD_REQUEST \<or> rc1 = BODY_TOO_LARGE")
    case True
    then show ?thesis using loop count Cons.prems(2) by auto
  next
    case False
    then have "ctx_wf (bd_chunked s')" using wf nok by (cases rc1) auto
    then obtain rc' c m data where "body_chain conf rc1 (bd_chunked s') (bd_content_length_n s') bufs = Some (rc', c, m, data)"
      "m = bd_content_length_n s' + int (length data)" "client_max_body_size conf \<noteq> 0 \<longrightarrow> m \<le> client_max_body_size conf"
      using Cons.IH [of "bd_chunked s'" "bd_content_length_n s'" rc1] count Cons.prems(2) by blast
    moreover from this(2) count have "m = n + int (length (bd_payload s' @ data))" by simp
    ultimately show ?thesis using loop False by auto
  qed
qed

lemma ctx_wf_init: "ctx_wf ngx_http_chunked_init"
  by (simp add: ctx_wf_def ngx_http_chunked_init_def chunk_entry_state_def chunk_inv_def chunk_size_ok_def ngx_consts)

lemma ch_put_init: "ngx_http_chunked_init = ch_put sw_chunk_start ngx_http_chunked_init"
  by (simp add: ngx_http_chunked_init_def ch_put_def)

lemma chunk_inv_init: "chunk_inv sw_chunk_start (ch_size ngx_http_chunked_init)"
  by (simp add: ngx_http_chunked_init_def chunk_inv_def chunk_size_ok_def ngx_consts)

section \<open>Properties\<close>

text \<open>
  C1. Round trip of the chunked coding through the request body filter: a body encoded as chunks
  with hexadecimal sizes, extensions and trailer lines, cut into read buffers in any way, is
  delivered as exactly the concatenated chunk data; the filter reports the end of the body and the
  body length it counted is the number of bytes delivered. The data of the outgoing slices is read
  from the memory as the filter leaves it, after all in-place moves of small chunks.
\<close>

theorem body_chunked_roundtrip:
  assumes "\<forall>ch\<in>set chunks. chunk_ok ch" and "zeros \<noteq> []" and "set zeros = {asc CHR ''0''}"
    and "ext_ok ext" and "\<forall>line\<in>set trailers. trailer_ok line"
    and "data = concat (map (snd \<circ> snd) chunks)"
    and "client_max_body_size conf = 0 \<or> int (length data) \<le> client_max_body_size conf"
    and "concat bufs = encode_body chunks zeros ext trailers" and "\<forall>buf\<in>set bufs. buf \<noteq> []"
  shows "\<exists>ctx. body_chain conf BODY_MORE ngx_http_chunked_init 0 bufs = Some (BODY_LAST, ctx, int (length data), data)"
proof -
  from dechunk_body [OF assms(1-5) chunk_inv_init, of "client_max_body_size conf" 0 "[]"] assms(6,7)
  obtain c where "dechunk (client_max_body_size conf) ngx_http_chunked_init 0 (concat bufs) =
      (BODY_LAST, c, int (length data), data, [])"
    using assms(8) ch_put_init by auto
  moreover have "bufs \<noteq> []" using assms(2,8) by (auto simp: encode_body_def encode_last_def)
  ultimately show ?thesis using body_chain_last [OF ctx_wf_init assms(9)] by blast
qed

theorem body_chunked_roundtrip_witness:
  "\<exists>ctx. body_chain \<lparr>client_max_body_size = 8, large_client_header_buffers_size = 8192\<rparr> BODY_MORE ngx_http_chunked_init 0
     [bytes ''3'' @ [CR], [LF] @ bytes ''ab'', bytes ''c'' @ [CR, LF] @ bytes ''02'' @ [CR, LF] @ bytes ''de'' @ [CR, LF] @ bytes ''0'' @ [CR, LF, CR, LF]]
   = Some (BODY_LAST, ctx, 5, bytes ''abcde'')"
proof -
  have "\<exists>ctx. body_chain \<lparr>client_max_body_size = 8, large_client_header_buffers_size = 8192\<rparr> BODY_MORE ngx_http_chunked_init 0
     [bytes ''3'' @ [CR], [LF] @ bytes ''ab'', bytes ''c'' @ [CR, LF] @ bytes ''02'' @ [CR, LF] @ bytes ''de'' @ [CR, LF] @ bytes ''0'' @ [CR, LF, CR, LF]]
   = Some (BODY_LAST, ctx, int (length (bytes ''abcde'')), bytes ''abcde'')"
    by (rule body_chunked_roundtrip
        [where chunks = "[(bytes ''3'', [], bytes ''abc''), (bytes ''02'', [], bytes ''de'')]" and zeros = "bytes ''0''"
           and ext = "[]" and trailers = "[]"])
      (simp_all add: chunk_ok_def is_hex_def hex_num_def hex_val_def ext_ok_def ngx_consts
        encode_body_def encode_chunk_def encode_last_def)
  then show ?thesis by simp
qed

text \<open>
  C6. The filter refines the byte-wise reference: on every buffer, from every well-formed chunk
  context, its loop ends, and it returns the verdict, the body length and the data of the reference
  decoder run over the unmodified bytes. In particular the in-place moves of small chunks never
  overwrite bytes that are still to be parsed or data that has been delivered.
\<close>

theorem body_filter_refines_dechunk:
  assumes "ctx_wf ctx"
  shows "\<exists>rc s c left. body_loop conf \<lparr>bd_mem = buf, bd_pos = 0, bd_chunked = ctx, bd_content_length_n = n,
      bd_rest = 0, bd_out = []\<rparr> = Some (rc, s)
    \<and> dechunk (client_max_body_size conf) ctx n buf = (rc, c, bd_content_length_n s, bd_payload s, left)
    \<and> (rc \<in> {BODY_MORE, BODY_LAST} \<longrightarrow> ctx_wf (bd_chunked s))"
  by (rule body_loop_fresh [OF assms, where buf = buf and n = n and conf = conf]) blast

theorem body_filter_refines_dechunk_witness:
  "\<exists>s. body_loop \<lparr>client_max_body_size = 0, large_client_header_buffers_size = 0\<rparr>
     \<lparr>bd_mem = bytes ''1'' @ [LF] @ bytes ''x'', bd_pos = 0, bd_chunked = ngx_http_chunked_init, bd_content_length_n = 0,
      bd_rest = 0, bd_out = []\<rparr> = Some (BODY_MORE, s) \<and> bd_payload s = bytes ''x''"
proof -
  have "dechunk 0 ngx_http_chunked_init 0 (bytes ''1'' @ [LF] @ bytes ''x'') =
      (BODY_MORE, \<lparr>ch_state = sw_after_data, ch_size = 0, ch_length = 0\<rparr>, 1, bytes ''x'', [])"
    by (simp add: dechunk.simps ngx_http_chunked_init_def chunk_entry_state_def sm_defs ch_put_def ngx_consts)
  then show ?thesis
    using body_filter_refines_dechunk [OF ctx_wf_init, of
        "\<lparr>client_max_body_size = 0, large_client_header_buffers_size = 0\<rparr>" "bytes ''1'' @ [LF] @ bytes ''x''" 0]
    by auto
qed

text \<open>
  C15. The limit \<open>client_max_body_size\<close> holds for chunked bodies: whatever bytes arrive and however
  they are cut into buffers, the filter returns, the body length it has counted is the number of
  bytes it has delivered, and unless the limit is switched off neither exceeds it.
\<close>

theorem body_limit_respected:
  assumes "0 \<le> client_max_body_size conf"
  shows "\<exists>rc ctx m data. body_chain conf BODY_MORE ngx_http_chunked_init 0 bufs = Some (rc, ctx, m, data)
    \<and> m = int (length data) \<and> (client_max_body_size conf \<noteq> 0 \<longrightarrow> m \<le> client_max_body_size conf)"
  using body_chain_count [OF ctx_wf_init, of conf 0 BODY_MORE bufs] assms by simp

theorem body_limit_respected_witness:
  "\<exists>rc ctx m data. body_chain \<lparr>client_max_body_size = 2, large_client_header_buffers_size = 0\<rparr> BODY_MORE
      ngx_http_chunked_init 0 [bytes ''3'' @ [LF] @ bytes ''xyz''] = Some (rc, ctx, m, data)
    \<and> m = int (length data) \<and> m \<le> 2"
  using body_limit_respected [of "\<lparr>client_max_body_size = 2, large_client_header_buffers_size = 0\<rparr>"
      "[bytes ''3'' @ [LF] @ bytes ''xyz'']"] by simp

lemma chunk_entry_wf:
  "chunk_inv st (ch_size c) \<Longrightarrow> chunk_entry_state (c\<lparr>ch_state := st, ch_length := l\<rparr>) = st"
  by (auto simp: chunk_entry_state_def chunk_inv_def)

text \<open>The parser never looks at \<open>ch_state\<close> and \<open>ch_length\<close> inside its loop.\<close>

lemma chunk_step_fields:
  "chunk_step buf p st (c\<lparr>ch_state := x, ch_length := l\<rparr>) =
    (case chunk_step buf p st c of
       Next st' c' \<Rightarrow> Next st' (c'\<lparr>ch_state := x, ch_length := l\<rparr>)
     | Done e st' c' q \<Rightarrow> Done e st' (c'\<lparr>ch_state := x, ch_length := l\<rparr>) q
     | Fail e c' \<Rightarrow> Fail e (c'\<lparr>ch_state := x, ch_length := l\<rparr>))"
  by (cases st; cases c) (simp_all add: sm_defs Let_def)

lemma scan_chunk_fields:
  "scan chunk_step buf p st (c\<lparr>ch_state := x, ch_length := l\<rparr>) =
    (case scan chunk_step buf p st c of
       Next st' c' \<Rightarrow> Next st' (c'\<lparr>ch_state := x, ch_length := l\<rparr>)
     | Done e st' c' q \<Rightarrow> Done e st' (c'\<lparr>ch_state := x, ch_length := l\<rparr>) q
     | Fail e c' \<Rightarrow> Fail e (c'\<lparr>ch_state := x, ch_length := l\<rparr>))"
proof (induction "chunk_step" buf p st c rule: scan.induct)
  case (1 buf p st c)
  show ?case
  proof (cases "p < length buf")
    case True
    then show ?thesis
      using "1.hyps" [OF True] scan.simps [of chunk_step buf p st c]
        scan.simps [of chunk_step buf p st "c\<lparr>ch_state := x, ch_length := l\<rparr>"]
      by (simp add: chunk_step_fields split: action.splits)
  qed simp
qed

text \<open>
  The chunked parser can be resumed at any byte: after it has returned \<open>NGX_AGAIN\<close> on the bytes
  received so far, a call on the extended buffer from the saved position and context returns what
  one call on the whole buffer would have returned, with the same remaining chunk size, state and
  position unless it is an error.
\<close>

theorem parse_chunked_resume:
  assumes "ctx_wf ctx" and "pos \<le> length buf"
    and "ngx_http_parse_chunked buf pos ctx = (CH_AGAIN, ctx1, pos1)"
    and "ngx_http_parse_chunked (buf @ ext) pos ctx = (rc, ctx2, pos2)"
  shows "\<exists>ctx3 pos3. ngx_http_parse_chunked (buf @ ext) pos1 ctx1 = (rc, ctx3, pos3)
    \<and> ch_size ctx3 = ch_size ctx2 \<and> (rc \<noteq> CH_ERROR \<longrightarrow> pos3 = pos2 \<and> ch_state ctx3 = ch_state ctx2)"
proof -
  let ?st = "chunk_entry_state ctx"
  have ci: "chunk_inv ?st (ch_size ctx)" using assms(1) by (simp add: ctx_wf_def)
  from assms(3) chunk_scan_inv [OF ci, of buf pos] obtain st c l where
    first: "scan chunk_step buf pos ?st ctx = Next st c" "chunk_inv st (ch_size c)"
    "ctx1 = c\<lparr>ch_state := st, ch_length := l\<rparr>" "pos1 = length buf"
    using assms(2) by (auto simp: ngx_http_parse_chunked_def chunk_data_exit_def Let_def split: action.splits if_splits)
  have whole: "scan chunk_step (buf @ ext) pos ?st ctx = scan chunk_step (buf @ ext) (length buf) st c"
    using chunked.scan_append [OF assms(2), of ext ?st ctx] first(1) by simp
  show ?thesis
    using assms(4) assms(2) whole first
    by (auto simp: ngx_http_parse_chunked_def chunk_data_exit_def Let_def chunk_entry_wf scan_chunk_fields
        split: action.splits if_splits)
qed

theorem parse_chunked_resume_witness:
  "\<exists>ctx3 pos3. ngx_http_parse_chunked (bytes ''1'' @ [LF] @ bytes ''x'') 1
      \<lparr>ch_state = sw_chunk_size, ch_size = 1, ch_length = 6\<rparr> = (CH_OK, ctx3, pos3) \<and> ch_size ctx3 = 1 \<and> pos3 = 2"
proof -
  have p: "ngx_http_parse_chunked (bytes ''1'') 0 ngx_http_chunked_init =
      (CH_AGAIN, \<lparr>ch_state = sw_chunk_size, ch_size = 1, ch_length = 6\<rparr>, 1)"
    "ngx_http_parse_chunked (bytes ''1'' @ [LF] @ bytes ''x'') 0 ngx_http_chunked_init =
      (CH_OK, \<lparr>ch_state = sw_chunk_data, ch_size = 1, ch_length = 5\<rparr>, 2)"
    by (simp_all add: ngx_http_parse_chunked_def scan.simps ngx_http_chunked_init_def chunk_entry_state_def sm_defs
        chunk_data_exit_def chunk_length_def ngx_consts)
  from parse_chunked_resume [OF ctx_wf_init _ p] show ?thesis by auto
qed

text \<open>
  The parser never leaves the range of \<open>off_t\<close>: from a well-formed context it keeps the chunk
  size between zero and the largest \<open>off_t\<close>, the length it asks the caller to read next is positive
  and within the same range, and the position it returns lies between the one it started from and
  the end of the buffer.
\<close>

theorem parse_chunked_bounds:
  assumes "ctx_wf ctx" and "pos \<le> length buf" and "ngx_http_parse_chunked buf pos ctx = (rc, ctx', pos')"
  shows "0 \<le> ch_size ctx' \<and> ch_size ctx' \<le> NGX_MAX_OFF_T_VALUE \<and> pos \<le> pos' \<and> pos' \<le> length buf
    \<and> (rc \<in> {CH_OK, CH_AGAIN} \<longrightarrow> 0 < ch_length ctx' \<and> ch_length ctx' \<le> NGX_MAX_OFF_T_VALUE)
    \<and> (rc \<noteq> CH_ERROR \<longrightarrow> ctx_wf ctx')"
proof -
  have ci: "chunk_inv (chunk_entry_state ctx) (ch_size ctx)" using assms(1) by (simp add: ctx_wf_def)
  have pos: "rc = CH_OK \<or> rc = CH_DONE \<or> rc = CH_AGAIN \<Longrightarrow> pos \<le> pos' \<and> pos' \<le> length buf"
    using parse_chunked_dechunk(1-3) [OF assms, of 0 0] assms(2) by auto
  have wf: "rc \<noteq> CH_ERROR \<Longrightarrow> ctx_wf ctx'"
    using parse_chunked_dechunk(1-3) [OF assms, of 0 0] by (cases rc) (auto simp: ctx_wf_def chunk_entry_state_def chunk_inv_def)
  have len: "0 < chunk_length st z \<and> chunk_length st z \<le> NGX_MAX_OFF_T_VALUE"
    if "chunk_size_ok z" "\<not> z > NGX_MAX_OFF_T_VALUE - 5" for st z
    using that by (cases st) (auto simp: chunk_length_def chunk_size_ok_def ngx_consts)
  have "chunk_size_ok (ch_size ctx') \<and> (rc = CH_ERROR \<longrightarrow> pos \<le> pos' \<and> pos' \<le> length buf)
    \<and> (rc \<in> {CH_OK, CH_AGAIN} \<longrightarrow> (\<exists>st. ch_length ctx' = chunk_length st (ch_size ctx')) \<and> \<not> ch_size ctx' > NGX_MAX_OFF_T_VALUE - 5)"
    using assms(2,3) chunk_scan_inv [OF ci, of buf pos]
    by (auto simp: ngx_http_parse_chunked_def chunk_data_exit_def Let_def chunk_inv_def ngx_consts split: action.splits if_splits)
  with pos wf len show ?thesis by (cases rc) (auto simp: chunk_size_ok_def)
qed

theorem parse_chunked_bounds_witness:
  "0 < ch_length (fst (snd (ngx_http_parse_chunked (bytes ''ff'') 0 ngx_http_chunked_init)))"
proof -
  have p: "ngx_http_parse_chunked (bytes ''ff'') 0 ngx_http_chunked_init =
      (CH_AGAIN, \<lparr>ch_state = sw_chunk_size, ch_size = 255, ch_length = 260\<rparr>, 2)"
    by (simp add: ngx_http_parse_chunked_def scan.simps ngx_http_chunked_init_def chunk_entry_state_def sm_defs
        chunk_data_exit_def chunk_length_def ngx_consts)
  from parse_chunked_bounds [OF ctx_wf_init _ p] p show ?thesis by simp
qed

end
