(* ===== verification/Http_Request_Line.thy ===== *)
theory Http_Request_Line
  imports Scanner
begin

text \<open>
  The parser of the request line, \<open>ngx_http_parse_request_line\<close> of
  \<^verbatim>\<open>src/src/http/ngx_http_parse.c\<close>, in the build for a Unix system with the CONNECT method
  compiled in (\<^verbatim>\<open>NGX_HTTP_PROXY_CONNECT\<close>). The fields of \<open>ngx_http_request_t\<close> that it reads and
  writes are the record \<open>ngx_http_request_t\<close>; a pointer into the header buffer is an offset, and a
  pointer that has not been set is \<open>None\<close>. One definition per state of the machine.
\<close>

section \<open>Data\<close>

datatype http_method =
    NGX_HTTP_UNKNOWN | NGX_HTTP_GET | NGX_HTTP_HEAD | NGX_HTTP_POST | NGX_HTTP_PUT | NGX_HTTP_DELETE
  | NGX_HTTP_MKCOL | NGX_HTTP_COPY | NGX_HTTP_MOVE | NGX_HTTP_OPTIONS | NGX_HTTP_PROPFIND
  | NGX_HTTP_PROPPATCH | NGX_HTTP_LOCK | NGX_HTTP_UNLOCK | NGX_HTTP_PATCH | NGX_HTTP_TRACE
  | NGX_HTTP_CONNECT

record ngx_http_request_t =
  rq_method :: http_method
  request_start :: "nat option"
  method_end :: "nat option"
  connect_host_start :: "nat option"
  connect_host_end :: "nat option"
  connect_port_end :: "nat option"
  schema_start :: "nat option"
  schema_end :: "nat option"
  host_start :: "nat option"
  host_end :: "nat option"
  port_end :: "nat option"
  uri_start :: "nat option"
  uri_end :: "nat option"
  uri_ext :: "nat option"
  args_start :: "nat option"
  http_protocol_data :: "nat option"
  request_end :: "nat option"
  complex_uri :: bool
  quoted_uri :: bool
  plus_in_uri :: bool
  empty_path_in_uri :: bool
  http_major :: int
  http_minor :: int
  http_version :: int

text \<open>A request before its first byte is parsed: all pointers null, all flags clear.\<close>

definition ngx_http_create_request :: ngx_http_request_t where
  "ngx_http_create_request =
     \<lparr>rq_method = NGX_HTTP_UNKNOWN, request_start = None, method_end = None,
      connect_host_start = None, connect_host_end = None, connect_port_end = None,
      schema_start = None, schema_end = None, host_start = None, host_end = None, port_end = None,
      uri_start = None, uri_end = None, uri_ext = None, args_start = None,
      http_protocol_data = None, request_end = None, complex_uri = False, quoted_uri = False,
      plus_in_uri = False, empty_path_in_uri = False, http_major = 0, http_minor = 0, http_version = 0\<rparr>"

datatype request_state =
    sw_start | sw_method
  | sw_spaces_before_connect_host | sw_connect_host_start | sw_connect_host | sw_connect_host_end
  | sw_connect_host_ip_literal | sw_connect_port
  | sw_spaces_before_uri | sw_schema | sw_schema_slash | sw_schema_slash_slash
  | sw_host_start | sw_host | sw_host_end | sw_host_ip_literal | sw_port
  | sw_after_slash_in_uri | sw_check_uri | sw_uri
  | sw_http_09 | sw_http_H | sw_http_HT | sw_http_HTT | sw_http_HTTP
  | sw_first_major_digit | sw_major_digit | sw_first_minor_digit | sw_minor_digit
  | sw_spaces_after_digit | sw_almost_done

datatype request_rc =
    RL_OK | RL_AGAIN | RL_INVALID_METHOD | RL_INVALID_REQUEST | RL_INVALID_VERSION | RL_INVALID_09_METHOD

type_synonym request_action = "(request_state, ngx_http_request_t, request_rc) action"

definition usual :: "u32 list" where
  "usual = [0x00000000, 0x7fff37d6, 0xffffffff, 0x7fffffff, 0xffffffff, 0xffffffff, 0xffffffff, 0xffffffff]"

section \<open>Character classes of the switches\<close>

definition is_alpha_lc :: "byte \<Rightarrow> bool" where
  "is_alpha_lc ch = (let c = ch OR 0x20 in asc CHR ''a'' \<le> c \<and> c \<le> asc CHR ''z'')"

definition not_method_char :: "byte \<Rightarrow> bool" where
  "not_method_char ch \<longleftrightarrow>
     (ch < asc CHR ''A'' \<or> asc CHR ''Z'' < ch) \<and> ch \<noteq> asc CHR ''_'' \<and> ch \<noteq> asc CHR ''-''"

text \<open>The characters that the switch on an IP literal lets pass: unreserved, sub-delims and the colon.\<close>

definition ip_literal_char :: "byte \<Rightarrow> bool" where
  "ip_literal_char ch \<longleftrightarrow> ch \<in> set (bytes '':-._~!$&'' @ [0x27] @ bytes ''()*+,;='')"

section \<open>The end of the line\<close>

definition rl_done :: "nat \<Rightarrow> ngx_http_request_t \<Rightarrow> request_action" where
  [sm_defs]: "rl_done p r =
     (let r = (if request_end r = None then r\<lparr>request_end := Some p\<rparr> else r);
          r = r\<lparr>http_version := http_major r * 1000 + http_minor r\<rparr>
      in Done (if http_version r = 9 \<and> rq_method r \<noteq> NGX_HTTP_GET then RL_INVALID_09_METHOD else RL_OK)
              sw_start r (p + 1))"

section \<open>The method\<close>

definition rl_start :: "nat \<Rightarrow> byte \<Rightarrow> ngx_http_request_t \<Rightarrow> request_action" where
  [sm_defs]: "rl_start p ch r =
     (let r = r\<lparr>request_start := Some p\<rparr> in
      if ch = CR \<or> ch = LF then Next sw_start r
      else if not_method_char ch then Fail RL_INVALID_METHOD r
      else Next sw_method r)"

text \<open>The nested switches on the length and the letters of the method; unknown methods keep the old value.\<close>

definition method_lookup :: "byte list \<Rightarrow> http_method \<Rightarrow> http_method" where
  "method_lookup m old =
     (if length m = 3 then
        (if m = bytes ''GET'' then NGX_HTTP_GET else if m = bytes ''PUT'' then NGX_HTTP_PUT else old)
      else if length m = 4 then
        (if m ! 1 = asc CHR ''O'' then
           (if m = bytes ''POST'' then NGX_HTTP_POST
            else if m = bytes ''COPY'' then NGX_HTTP_COPY
            else if m = bytes ''MOVE'' then NGX_HTTP_MOVE
            else if m = bytes ''LOCK'' then NGX_HTTP_LOCK
            else old)
         else if m = bytes ''HEAD'' then NGX_HTTP_HEAD else old)
      else if length m = 5 then
        (if m = bytes ''MKCOL'' then NGX_HTTP_MKCOL
         else if m = bytes ''PATCH'' then NGX_HTTP_PATCH
         else if m = bytes ''TRACE'' then NGX_HTTP_TRACE
         else old)
      else if length m = 6 then
        (if m = bytes ''DELETE'' then NGX_HTTP_DELETE
         else if m = bytes ''UNLOCK'' then NGX_HTTP_UNLOCK
         else old)
      else if length m = 7 then
        (if m = bytes ''CONNECT'' then NGX_HTTP_CONNECT
         else if m = bytes ''OPTIONS'' then NGX_HTTP_OPTIONS
         else old)
      else if length m = 8 then (if m = bytes ''PROPFIND'' then NGX_HTTP_PROPFIND else old)
      else if length m = 9 then (if m = bytes ''PROPPATCH'' then NGX_HTTP_PROPPATCH else old)
      else old)"

text \<open>The bytes from a set pointer up to \<open>p\<close>.\<close>

definition bytes_from :: "byte list \<Rightarrow> nat option \<Rightarrow> nat \<Rightarrow> byte list" where
  "bytes_from buf start p = (case start of None \<Rightarrow> [] | Some m \<Rightarrow> take (p - m) (drop m buf))"

definition rl_method :: "byte list \<Rightarrow> nat \<Rightarrow> byte \<Rightarrow> ngx_http_request_t \<Rightarrow> request_action" where
  [sm_defs]: "rl_method buf p ch r =
     (if ch = asc CHR '' '' then
        (let r = r\<lparr>method_end := Some (p - 1),
                   rq_method := method_lookup (bytes_from buf (request_start r) p) (rq_method r)\<rparr>
         in Next (if rq_method r = NGX_HTTP_CONNECT then sw_spaces_before_connect_host else sw_spaces_before_uri) r)
      else if not_method_char ch then Fail RL_INVALID_METHOD r
      else Next sw_method r)"

section \<open>The target of CONNECT\<close>

definition rl_connect_host_end :: "nat \<Rightarrow> byte \<Rightarrow> ngx_http_request_t \<Rightarrow> request_action" where
  [sm_defs]: "rl_connect_host_end p ch r =
     (let r = r\<lparr>connect_host_end := Some p\<rparr> in
      if ch = asc CHR '':'' then Next sw_connect_port r else Fail RL_INVALID_REQUEST r)"

definition rl_connect_host :: "nat \<Rightarrow> byte \<Rightarrow> ngx_http_request_t \<Rightarrow> request_action" where
  [sm_defs]: "rl_connect_host p ch r =
     (if is_alpha_lc ch then Next sw_connect_host r
      else if is_digit ch \<or> ch = asc CHR ''.'' \<or> ch = asc CHR ''-'' then Next sw_connect_host r
      else rl_connect_host_end p ch r)"

definition rl_connect_host_start :: "nat \<Rightarrow> byte \<Rightarrow> ngx_http_request_t \<Rightarrow> request_action" where
  [sm_defs]: "rl_connect_host_start p ch r =
     (let r = r\<lparr>connect_host_start := Some p\<rparr> in
      if ch = asc CHR ''['' then Next sw_connect_host_ip_literal r else rl_connect_host p ch r)"

definition rl_spaces_before_connect_host :: "nat \<Rightarrow> byte \<Rightarrow> ngx_http_request_t \<Rightarrow> request_action" where
  [sm_defs]: "rl_spaces_before_connect_host p ch r =
     (if ch = asc CHR '' '' then Next sw_spaces_before_connect_host r else rl_connect_host_start p ch r)"

definition rl_connect_host_ip_literal :: "byte \<Rightarrow> ngx_http_request_t \<Rightarrow> request_action" where
  [sm_defs]: "rl_connect_host_ip_literal ch r =
     (if is_digit ch then Next sw_connect_host_ip_literal r
      else if is_alpha_lc ch then Next sw_connect_host_ip_literal r
      else if ch = asc CHR '']'' then Next sw_connect_host_end r
      else if ip_literal_char ch then Next sw_connect_host_ip_literal r
      else Fail RL_INVALID_REQUEST r)"

definition rl_connect_port :: "nat \<Rightarrow> byte \<Rightarrow> ngx_http_request_t \<Rightarrow> request_action" where
  [sm_defs]: "rl_connect_port p ch r =
     (if is_digit ch then Next sw_connect_port r
      else if ch = asc CHR '' '' then Next sw_http_09 (r\<lparr>connect_port_end := Some p\<rparr>)
      else Fail RL_INVALID_REQUEST r)"

section \<open>The absolute form: schema, host and port\<close>

definition rl_spaces_before_uri :: "nat \<Rightarrow> byte \<Rightarrow> ngx_http_request_t \<Rightarrow> request_action" where
  [sm_defs]: "rl_spaces_before_uri p ch r =
     (if ch = asc CHR ''/'' then Next sw_after_slash_in_uri (r\<lparr>uri_start := Some p\<rparr>)
      else if is_alpha_lc ch then Next sw_schema (r\<lparr>schema_start := Some p\<rparr>)
      else if ch = asc CHR '' '' then Next sw_spaces_before_uri r
      else Fail RL_INVALID_REQUEST r)"

definition rl_schema :: "nat \<Rightarrow> byte \<Rightarrow> ngx_http_request_t \<Rightarrow> request_action" where
  [sm_defs]: "rl_schema p ch r =
     (if is_alpha_lc ch then Next sw_schema r
      else if is_digit ch \<or> ch = asc CHR ''+'' \<or> ch = asc CHR ''-'' \<or> ch = asc CHR ''.'' then Next sw_schema r
      else if ch = asc CHR '':'' then Next sw_schema_slash (r\<lparr>schema_end := Some p\<rparr>)
      else Fail RL_INVALID_REQUEST r)"

text \<open>A state with one acceptable byte: the two slashes of the schema and the letters of \<open>HTTP/\<close>.\<close>

definition rl_expect :: "char \<Rightarrow> request_state \<Rightarrow> byte \<Rightarrow> ngx_http_request_t \<Rightarrow> request_action" where
  [sm_defs]: "rl_expect c next ch r = (if ch = asc c then Next next r else Fail RL_INVALID_REQUEST r)"

text \<open>The single slash of the schema is reused as the path of a request that has none.\<close>

definition use_schema_slash :: "ngx_http_request_t \<Rightarrow> ngx_http_request_t" where
  [sm_defs]: "use_schema_slash r =
     r\<lparr>uri_start := map_option (\<lambda>e. e + 1) (schema_end r), uri_end := map_option (\<lambda>e. e + 2) (schema_end r)\<rparr>"

definition rl_host_end :: "nat \<Rightarrow> byte \<Rightarrow> ngx_http_request_t \<Rightarrow> request_action" where
  [sm_defs]: "rl_host_end p ch r =
     (let r = r\<lparr>host_end := Some p\<rparr> in
      if ch = asc CHR '':'' then Next sw_port r
      else if ch = asc CHR ''/'' then Next sw_after_slash_in_uri (r\<lparr>uri_start := Some p\<rparr>)
      else if ch = asc CHR ''?''
      then Next sw_uri (r\<lparr>uri_start := Some p, args_start := Some (p + 1), empty_path_in_uri := True\<rparr>)
      else if ch = asc CHR '' '' then Next sw_http_09 (use_schema_slash r)
      else Fail RL_INVALID_REQUEST r)"

definition rl_host :: "nat \<Rightarrow> byte \<Rightarrow> ngx_http_request_t \<Rightarrow> request_action" where
  [sm_defs]: "rl_host p ch r =
     (if is_alpha_lc ch then Next sw_host r
      else if is_digit ch \<or> ch = asc CHR ''.'' \<or> ch = asc CHR ''-'' then Next sw_host r
      else rl_host_end p ch r)"

definition rl_host_start :: "nat \<Rightarrow> byte \<Rightarrow> ngx_http_request_t \<Rightarrow> request_action" where
  [sm_defs]: "rl_host_start p ch r =
     (let r = r\<lparr>host_start := Some p\<rparr> in
      if ch = asc CHR ''['' then Next sw_host_ip_literal r else rl_host p ch r)"

definition rl_host_ip_literal :: "byte \<Rightarrow> ngx_http_request_t \<Rightarrow> request_action" where
  [sm_defs]: "rl_host_ip_literal ch r =
     (if is_digit ch then Next sw_host_ip_literal r
      else if is_alpha_lc ch then Next sw_host_ip_literal r
      else if ch = asc CHR '']'' then Next sw_host_end r
      else if ip_literal_char ch then Next sw_host_ip_literal r
      else Fail RL_INVALID_REQUEST r)"

definition rl_port :: "nat \<Rightarrow> byte \<Rightarrow> ngx_http_request_t \<Rightarrow> request_action" where
  [sm_defs]: "rl_port p ch r =
     (if is_digit ch then Next sw_port r
      else if ch = asc CHR ''/''
      then Next sw_after_slash_in_uri (r\<lparr>port_end := Some p, uri_start := Some p\<rparr>)
      else if ch = asc CHR ''?''
      then Next sw_uri (r\<lparr>port_end := Some p, uri_start := Some p, args_start := Some (p + 1),
                          empty_path_in_uri := True\<rparr>)
      else if ch = asc CHR '' '' then Next sw_http_09 (use_schema_slash (r\<lparr>port_end := Some p\<rparr>))
      else Fail RL_INVALID_REQUEST r)"

section \<open>The path and the arguments\<close>

text \<open>The switch cases that the three states share: a space, the line ends of HTTP/0.9.\<close>

definition rl_uri_end :: "nat \<Rightarrow> byte \<Rightarrow> ngx_http_request_t \<Rightarrow> request_action option" where
  [sm_defs]: "rl_uri_end p ch r =
     (if ch = asc CHR '' '' then Some (Next sw_http_09 (r\<lparr>uri_end := Some p\<rparr>))
      else if ch = CR then Some (Next sw_almost_done (r\<lparr>uri_end := Some p, http_minor := 9\<rparr>))
      else if ch = LF then Some (rl_done p (r\<lparr>uri_end := Some p, http_minor := 9\<rparr>))
      else None)"

definition rl_after_slash_in_uri :: "nat \<Rightarrow> byte \<Rightarrow> ngx_http_request_t \<Rightarrow> request_action" where
  [sm_defs]: "rl_after_slash_in_uri p ch r =
     (if tbl_bit usual ch then Next sw_check_uri r
      else case rl_uri_end p ch r of
        Some a \<Rightarrow> a
      | None \<Rightarrow>
          (if ch = asc CHR ''.'' then Next sw_uri (r\<lparr>complex_uri := True\<rparr>)
           else if ch = asc CHR ''%'' then Next sw_uri (r\<lparr>quoted_uri := True\<rparr>)
           else if ch = asc CHR ''/'' then Next sw_uri (r\<lparr>complex_uri := True\<rparr>)
           else if ch = asc CHR ''?'' then Next sw_uri (r\<lparr>args_start := Some (p + 1)\<rparr>)
           else if ch = asc CHR ''#'' then Next sw_uri (r\<lparr>complex_uri := True\<rparr>)
           else if ch = asc CHR ''+'' then Next sw_after_slash_in_uri (r\<lparr>plus_in_uri := True\<rparr>)
           else if ch < 0x20 \<or> ch = 0x7f then Fail RL_INVALID_REQUEST r
           else Next sw_check_uri r))"

definition rl_check_uri :: "nat \<Rightarrow> byte \<Rightarrow> ngx_http_request_t \<Rightarrow> request_action" where
  [sm_defs]: "rl_check_uri p ch r =
     (if tbl_bit usual ch then Next sw_check_uri r
      else if ch = asc CHR ''/'' then Next sw_after_slash_in_uri (r\<lparr>uri_ext := None\<rparr>)
      else if ch = asc CHR ''.'' then Next sw_check_uri (r\<lparr>uri_ext := Some (p + 1)\<rparr>)
      else case rl_uri_end p ch r of
        Some a \<Rightarrow> a
      | None \<Rightarrow>
          (if ch = asc CHR ''%'' then Next sw_uri (r\<lparr>quoted_uri := True\<rparr>)
           else if ch = asc CHR ''?'' then Next sw_uri (r\<lparr>args_start := Some (p + 1)\<rparr>)
           else if ch = asc CHR ''#'' then Next sw_uri (r\<lparr>complex_uri := True\<rparr>)
           else if ch = asc CHR ''+'' then Next sw_check_uri (r\<lparr>plus_in_uri := True\<rparr>)
           else if ch < 0x20 \<or> ch = 0x7f then Fail RL_INVALID_REQUEST r
           else Next sw_check_uri r))"

definition rl_uri :: "nat \<Rightarrow> byte \<Rightarrow> ngx_http_request_t \<Rightarrow> request_action" where
  [sm_defs]: "rl_uri p ch r =
     (if tbl_bit usual ch then Next sw_uri r
      else case rl_uri_end p ch r of
        Some a \<Rightarrow> a
      | None \<Rightarrow>
          (if ch = asc CHR ''#'' then Next sw_uri (r\<lparr>complex_uri := True\<rparr>)
           else if ch < 0x20 \<or> ch = 0x7f then Fail RL_INVALID_REQUEST r
           else Next sw_uri r))"

section \<open>The protocol version\<close>

definition rl_http_09 :: "nat \<Rightarrow> byte \<Rightarrow> ngx_http_request_t \<Rightarrow> request_action" where
  [sm_defs]: "rl_http_09 p ch r =
     (if ch = asc CHR '' '' then Next sw_http_09 r
      else if ch = CR then Next sw_almost_done (r\<lparr>http_minor := 9\<rparr>)
      else if ch = LF then rl_done p (r\<lparr>http_minor := 9\<rparr>)
      else if ch = asc CHR ''H'' then Next sw_http_H (r\<lparr>http_protocol_data := Some p\<rparr>)
      else Fail RL_INVALID_REQUEST r)"

definition rl_first_major_digit :: "byte \<Rightarrow> ngx_http_request_t \<Rightarrow> request_action" where
  [sm_defs]: "rl_first_major_digit ch r =
     (if ch < asc CHR ''1'' \<or> asc CHR ''9'' < ch then Fail RL_INVALID_REQUEST r
      else let r = r\<lparr>http_major := digit_val ch\<rparr> in
        if http_major r > 1 then Fail RL_INVALID_VERSION r else Next sw_major_digit r)"

definition rl_major_digit :: "byte \<Rightarrow> ngx_http_request_t \<Rightarrow> request_action" where
  [sm_defs]: "rl_major_digit ch r =
     (if ch = asc CHR ''.'' then Next sw_first_minor_digit r
      else if \<not> is_digit ch then Fail RL_INVALID_REQUEST r
      else let r = r\<lparr>http_major := http_major r * 10 + digit_val ch\<rparr> in
        if http_major r > 1 then Fail RL_INVALID_VERSION r else Next sw_major_digit r)"

definition rl_first_minor_digit :: "byte \<Rightarrow> ngx_http_request_t \<Rightarrow> request_action" where
  [sm_defs]: "rl_first_minor_digit ch r =
     (if \<not> is_digit ch then Fail RL_INVALID_REQUEST r
      else Next sw_minor_digit (r\<lparr>http_minor := digit_val ch\<rparr>))"

definition rl_minor_digit :: "nat \<Rightarrow> byte \<Rightarrow> ngx_http_request_t \<Rightarrow> request_action" where
  [sm_defs]: "rl_minor_digit p ch r =
     (if ch = CR then Next sw_almost_done r
      else if ch = LF then rl_done p r
      else if ch = asc CHR '' '' then Next sw_spaces_after_digit r
      else if \<not> is_digit ch then Fail RL_INVALID_REQUEST r
      else if http_minor r > 99 then Fail RL_INVALID_REQUEST r
      else Next sw_minor_digit (r\<lparr>http_minor := http_minor r * 10 + digit_val ch\<rparr>))"

definition rl_spaces_after_digit :: "nat \<Rightarrow> byte \<Rightarrow> ngx_http_request_t \<Rightarrow> request_action" where
  [sm_defs]: "rl_spaces_after_digit p ch r =
     (if ch = asc CHR '' '' then Next sw_spaces_after_digit r
      else if ch = CR then Next sw_almost_done r
      else if ch = LF then rl_done p r
      else Fail RL_INVALID_REQUEST r)"

definition rl_almost_done :: "nat \<Rightarrow> byte \<Rightarrow> ngx_http_request_t \<Rightarrow> request_action" where
  [sm_defs]: "rl_almost_done p ch r =
     (let r = r\<lparr>request_end := Some (p - 1)\<rparr> in
      if ch = LF then rl_done p r else Fail RL_INVALID_REQUEST r)"

section \<open>The parser\<close>

definition request_step :: "(request_state, ngx_http_request_t, request_rc) stepper" where
  "request_step buf p st r =
     (let ch = buf ! p in
      case st of
        sw_start \<Rightarrow> rl_start p ch r
      | sw_method \<Rightarrow> rl_method buf p ch r
      | sw_spaces_before_connect_host \<Rightarrow> rl_spaces_before_connect_host p ch r
      | sw_connect_host_start \<Rightarrow> rl_connect_host_start p ch r
      | sw_connect_host \<Rightarrow> rl_connect_host p ch r
      | sw_connect_host_end \<Rightarrow> rl_connect_host_end p ch r
      | sw_connect_host_ip_literal \<Rightarrow> rl_connect_host_ip_literal ch r
      | sw_connect_port \<Rightarrow> rl_connect_port p ch r
      | sw_spaces_before_uri \<Rightarrow> rl_spaces_before_uri p ch r
      | sw_schema \<Rightarrow> rl_schema p ch r
      | sw_schema_slash \<Rightarrow> rl_expect CHR ''/'' sw_schema_slash_slash ch r
      | sw_schema_slash_slash \<Rightarrow> rl_expect CHR ''/'' sw_host_start ch r
      | sw_host_start \<Rightarrow> rl_host_start p ch r
      | sw_host \<Rightarrow> rl_host p ch r
      | sw_host_end \<Rightarrow> rl_host_end p ch r
      | sw_host_ip_literal \<Rightarrow> rl_host_ip_literal ch r
      | sw_port \<Rightarrow> rl_port p ch r
      | sw_after_slash_in_uri \<Rightarrow> rl_after_slash_in_uri p ch r
      | sw_check_uri \<Rightarrow> rl_check_uri p ch r
      | sw_uri \<Rightarrow> rl_uri p ch r
      | sw_http_09 \<Rightarrow> rl_http_09 p ch r
      | sw_http_H \<Rightarrow> rl_expect CHR ''T'' sw_http_HT ch r
      | sw_http_HT \<Rightarrow> rl_expect CHR ''T'' sw_http_HTT ch r
      | sw_http_HTT \<Rightarrow> rl_expect CHR ''P'' sw_http_HTTP ch r
      | sw_http_HTTP \<Rightarrow> rl_expect CHR ''/'' sw_first_major_digit ch r
      | sw_first_major_digit \<Rightarrow> rl_first_major_digit ch r
      | sw_major_digit \<Rightarrow> rl_major_digit ch r
      | sw_first_minor_digit \<Rightarrow> rl_first_minor_digit ch r
      | sw_minor_digit \<Rightarrow> rl_minor_digit p ch r
      | sw_spaces_after_digit \<Rightarrow> rl_spaces_after_digit p ch r
      | sw_almost_done \<Rightarrow> rl_almost_done p ch r)"

text \<open>
  One call: the return code, the saved state, the request and the new \<open>b->pos\<close>. An error leaves
  the saved state and \<open>b->pos\<close> as they were.
\<close>

definition ngx_http_parse_request_line ::
  "byte list \<Rightarrow> nat \<Rightarrow> request_state \<Rightarrow> ngx_http_request_t \<Rightarrow> request_rc \<times> request_state \<times> ngx_http_request_t \<times> nat" where
  "ngx_http_parse_request_line buf pos st r =
     (case scan request_step buf pos st r of
        Next st' r' \<Rightarrow> (RL_AGAIN, st', r', max pos (length buf))
      | Done rc st' r' q \<Rightarrow> (rc, st', r', q)
      | Fail rc r' \<Rightarrow> (rc, st, r', pos))"

section \<open>Resumption\<close>

lemma bytes_from_append: "p \<le> length buf \<Longrightarrow> bytes_from (buf @ ys) m p = bytes_from buf m p"
  by (simp add: bytes_from_def split: option.splits)

interpretation request_line: resumable request_step
proof
  fix p :: nat and buf ys :: "byte list" and st r
  assume "p < length buf"
  then show "request_step (buf @ ys) p st r = request_step buf p st r"
    by (cases st) (simp_all add: request_step_def nth_append rl_method_def bytes_from_append Let_def)
qed

section \<open>Plain paths\<close>

text \<open>
  The paths that the server uses as they stand, without normalisation: no percent sign, no fragment,
  no arguments, no space or control character, and no slash followed by another slash or a dot.
\<close>

definition path_char :: "byte \<Rightarrow> bool" where
  "path_char c \<longleftrightarrow> 0x20 < c \<and> c \<notin> {0x7f, asc CHR ''%'', asc CHR ''#'', asc CHR ''?''}"

fun plain_from :: "bool \<Rightarrow> byte list \<Rightarrow> bool" where
  "plain_from slash [] = True"
| "plain_from slash (c # cs) =
     (path_char c \<and> (slash \<longrightarrow> c \<noteq> asc CHR ''/'' \<and> c \<noteq> asc CHR ''.'') \<and> plain_from (c = asc CHR ''/'') cs)"

definition plain_path :: "byte list \<Rightarrow> bool" where
  "plain_path xs \<longleftrightarrow> xs \<noteq> [] \<and> hd xs = asc CHR ''/'' \<and> plain_from False xs"

lemma plain_from_snoc:
  "xs \<noteq> [] \<Longrightarrow> plain_from s (xs @ [c]) \<longleftrightarrow>
     plain_from s xs \<and> path_char c \<and> (last xs = asc CHR ''/'' \<longrightarrow> c \<noteq> asc CHR ''/'' \<and> c \<noteq> asc CHR ''.'')"
proof (induction xs arbitrary: s)
  case Nil
  then show ?case by simp
next
  case (Cons x xs)
  show ?case
  proof (cases "xs = []")
    case False
    with Cons.IH [of "x = asc CHR ''/''"] show ?thesis by auto
  qed auto
qed

lemma plain_path_snoc:
  "plain_path xs \<Longrightarrow> path_char c \<Longrightarrow> (last xs = asc CHR ''/'' \<longrightarrow> c \<noteq> asc CHR ''/'' \<and> c \<noteq> asc CHR ''.'')
   \<Longrightarrow> plain_path (xs @ [c])"
  by (auto simp: plain_path_def plain_from_snoc)

lemma plain_path_slash [simp]: "plain_path [0x2f]"
  by (simp add: plain_path_def path_char_def)

lemma usual_iff:
  "tbl_bit usual c \<longleftrightarrow> 0x20 < c \<and> c \<notin> {0x7f, asc CHR ''#'', asc CHR ''%'', asc CHR ''+'', asc CHR ''.'', asc CHR ''/'', asc CHR ''?''}"
  by (rule byte_exhaust) (simp add: tbl_bit_def usual_def)

section \<open>The invariant of the machine\<close>

definition seg :: "byte list \<Rightarrow> nat \<Rightarrow> nat \<Rightarrow> byte list" where
  "seg buf a b = take (b - a) (drop a buf)"

lemma seg_Suc: "a \<le> p \<Longrightarrow> p < length buf \<Longrightarrow> seg buf a (Suc p) = seg buf a p @ [buf ! p]"
  by (simp add: seg_def Suc_diff_le take_Suc_conv_app_nth)

lemma seg_single: "p < length buf \<Longrightarrow> seg buf p (Suc p) = [buf ! p]"
  by (simp add: seg_def take_Suc_conv_app_nth)

lemma seg_nonempty: "a < b \<Longrightarrow> b \<le> length buf \<Longrightarrow> seg buf a b \<noteq> []"
  by (simp add: seg_def)

definition early :: "ngx_http_request_t \<Rightarrow> bool" where
  "early r \<longleftrightarrow> \<not> complex_uri r \<and> \<not> quoted_uri r \<and> \<not> empty_path_in_uri r
     \<and> args_start r = None \<and> uri_start r = None \<and> uri_end r = None"

definition schema_seen :: "byte list \<Rightarrow> nat \<Rightarrow> ngx_http_request_t \<Rightarrow> bool" where
  "schema_seen buf p r \<longleftrightarrow> (\<exists>e. schema_end r = Some e \<and> e + 1 < p \<and> buf ! (e + 1) = asc CHR ''/'')"

definition in_path :: "byte list \<Rightarrow> nat \<Rightarrow> ngx_http_request_t \<Rightarrow> bool" where
  "in_path buf p r \<longleftrightarrow> \<not> complex_uri r \<and> \<not> quoted_uri r \<and> \<not> empty_path_in_uri r
     \<and> args_start r = None \<and> uri_end r = None \<and> (\<exists>u. uri_start r = Some u \<and> u < p \<and> plain_path (seg buf u p))"

text \<open>What the flags promise of the path once the arguments have begun at \<open>a\<close>.\<close>

definition args_ok :: "byte list \<Rightarrow> nat \<Rightarrow> nat \<Rightarrow> ngx_http_request_t \<Rightarrow> bool" where
  "args_ok buf u a r \<longleftrightarrow> u < a \<and> buf ! (a - 1) = asc CHR ''?''
     \<and> (\<not> complex_uri r \<and> \<not> quoted_uri r \<longrightarrow> (if empty_path_in_uri r then a = u + 1 else plain_path (seg buf u (a - 1))))"

definition in_uri :: "byte list \<Rightarrow> nat \<Rightarrow> ngx_http_request_t \<Rightarrow> bool" where
  "in_uri buf p r \<longleftrightarrow> uri_end r = None \<and> (\<exists>u. uri_start r = Some u \<and> u < p
     \<and> (case args_start r of None \<Rightarrow> \<not> empty_path_in_uri r \<and> (complex_uri r \<or> quoted_uri r) | Some a \<Rightarrow> a \<le> p \<and> args_ok buf u a r))"

definition after_uri :: "byte list \<Rightarrow> nat \<Rightarrow> ngx_http_request_t \<Rightarrow> bool" where
  "after_uri buf p r \<longleftrightarrow> early r \<or> (\<exists>u e. uri_start r = Some u \<and> uri_end r = Some e \<and> u < e \<and> e \<le> p
     \<and> (case args_start r of
          None \<Rightarrow> \<not> empty_path_in_uri r \<and> (\<not> complex_uri r \<and> \<not> quoted_uri r \<longrightarrow> plain_path (seg buf u e))
        | Some a \<Rightarrow> a \<le> e \<and> args_ok buf u a r))"

definition version_ok :: "ngx_http_request_t \<Rightarrow> bool" where
  "version_ok r \<longleftrightarrow> 0 \<le> http_major r \<and> http_major r \<le> 1 \<and> 0 \<le> http_minor r \<and> http_minor r \<le> 999"

definition request_inv :: "byte list \<Rightarrow> nat \<Rightarrow> request_state \<Rightarrow> ngx_http_request_t \<Rightarrow> bool" where
  "request_inv buf p st r \<longleftrightarrow> version_ok r \<and>
     (if st \<in> {sw_start, sw_method, sw_spaces_before_connect_host, sw_connect_host_start, sw_connect_host,
               sw_connect_host_end, sw_connect_host_ip_literal, sw_connect_port, sw_spaces_before_uri, sw_schema}
      then early r
      else if st = sw_schema_slash then early r \<and> schema_end r = Some (p - 1) \<and> 0 < p
      else if st \<in> {sw_schema_slash_slash, sw_host_start, sw_host, sw_host_end, sw_host_ip_literal, sw_port}
      then early r \<and> schema_seen buf p r
      else if st = sw_after_slash_in_uri then in_path buf p r
      else if st = sw_check_uri
      then in_path buf p r \<and> 0 < p \<and> buf ! (p - 1) \<noteq> asc CHR ''/''
      else if st = sw_uri then in_uri buf p r
      else after_uri buf p r)"

text \<open>The fields that the predicates do not read.\<close>

lemma early_frame [simp]:
  "early (r\<lparr>request_end := x\<rparr>) = early r" "early (r\<lparr>http_version := n\<rparr>) = early r"
  "early (r\<lparr>http_minor := n\<rparr>) = early r" "early (r\<lparr>http_major := n\<rparr>) = early r"
  "early (r\<lparr>http_protocol_data := x\<rparr>) = early r"
  by (simp_all add: early_def)

lemma after_uri_frame [simp]:
  "after_uri buf p (r\<lparr>request_end := x\<rparr>) = after_uri buf p r" "after_uri buf p (r\<lparr>http_version := n\<rparr>) = after_uri buf p r"
  "after_uri buf p (r\<lparr>http_minor := n\<rparr>) = after_uri buf p r" "after_uri buf p (r\<lparr>http_major := n\<rparr>) = after_uri buf p r"
  "after_uri buf p (r\<lparr>http_protocol_data := x\<rparr>) = after_uri buf p r"
  by (simp_all add: after_uri_def args_ok_def cong: option.case_cong)

lemma version_ok_frame [simp]:
  "version_ok (r\<lparr>request_end := x\<rparr>) = version_ok r" "version_ok (r\<lparr>http_version := n\<rparr>) = version_ok r"
  "version_ok (r\<lparr>http_protocol_data := x\<rparr>) = version_ok r" "version_ok (r\<lparr>uri_end := x\<rparr>) = version_ok r"
  "version_ok (r\<lparr>uri_start := x\<rparr>) = version_ok r" "version_ok (r\<lparr>args_start := x\<rparr>) = version_ok r"
  "version_ok (r\<lparr>uri_ext := x\<rparr>) = version_ok r" "version_ok (r\<lparr>complex_uri := b\<rparr>) = version_ok r"
  "version_ok (r\<lparr>quoted_uri := b\<rparr>) = version_ok r" "version_ok (r\<lparr>plus_in_uri := b\<rparr>) = version_ok r"
  "version_ok (r\<lparr>empty_path_in_uri := b\<rparr>) = version_ok r"
  by (simp_all add: version_ok_def)

lemma rl_done_spec:
  assumes "after_uri buf p r" and "version_ok r"
  shows "\<exists>rc r'. rl_done p r = Done rc sw_start r' (Suc p) \<and> (rc = RL_OK \<or> rc = RL_INVALID_09_METHOD)
    \<and> after_uri buf p r' \<and> version_ok r' \<and> http_version r' = http_major r' * 1000 + http_minor r'"
  using assms by (simp add: rl_done_def Let_def)

definition request_result :: "byte list \<Rightarrow> request_rc \<Rightarrow> request_state \<Rightarrow> ngx_http_request_t \<Rightarrow> nat \<Rightarrow> bool" where
  "request_result buf rc st r q \<longleftrightarrow> (rc = RL_OK \<or> rc = RL_INVALID_09_METHOD) \<and> st = sw_start
     \<and> 0 < q \<and> q \<le> length buf \<and> buf ! (q - 1) = LF
     \<and> after_uri buf (q - 1) r \<and> version_ok r \<and> http_version r = http_major r * 1000 + http_minor r"

definition step_ok :: "byte list \<Rightarrow> nat \<Rightarrow> request_action \<Rightarrow> bool" where
  "step_ok buf p a = (case a of Next st r \<Rightarrow> request_inv buf (Suc p) st r
     | Done rc st r q \<Rightarrow> request_result buf rc st r q
     | Fail rc r \<Rightarrow> rc \<noteq> RL_OK \<and> rc \<noteq> RL_AGAIN \<and> rc \<noteq> RL_INVALID_09_METHOD)"

lemma step_ok_simps [simp]:
  "step_ok buf p (Next st r) = request_inv buf (Suc p) st r"
  "step_ok buf p (Fail rc r) \<longleftrightarrow> rc \<noteq> RL_OK \<and> rc \<noteq> RL_AGAIN \<and> rc \<noteq> RL_INVALID_09_METHOD"
  by (simp_all add: step_ok_def)

lemma step_ok_done:
  "p < length buf \<Longrightarrow> buf ! p = LF \<Longrightarrow> after_uri buf p r \<Longrightarrow> version_ok r \<Longrightarrow> step_ok buf p (rl_done p r)"
  using rl_done_spec [of buf p r] by (auto simp: step_ok_def request_result_def)

lemma after_uri_Suc: "after_uri buf p r \<Longrightarrow> after_uri buf (Suc p) r"
  unfolding after_uri_def by (blast intro: le_SucI)

text \<open>The states before the path.\<close>

lemma digit_val_le: "\<not> (ch < asc CHR ''1'' \<or> asc CHR ''9'' < ch) \<Longrightarrow> 0 \<le> digit_val ch"
  by (simp add: digit_val_def word_less_def)

lemmas early_defs = request_inv_def early_def schema_seen_def version_ok_def Let_def

lemma step_ok_early:
  assumes "request_inv buf p st r" and "p < length buf"
    and "st \<in> {sw_start, sw_method, sw_spaces_before_connect_host, sw_connect_host_start, sw_connect_host,
               sw_connect_host_end, sw_connect_host_ip_literal, sw_connect_port}"
  shows "step_ok buf p (request_step buf p st r)"
  using assms by (auto simp: request_step_def sm_defs early_defs after_uri_def split: if_splits)

lemma in_path_start: "early r \<Longrightarrow> p < length buf \<Longrightarrow> buf ! p = asc CHR ''/'' \<Longrightarrow> in_path buf (Suc p) (r\<lparr>uri_start := Some p\<rparr>)"
  by (simp add: early_def in_path_def seg_single)

lemma in_uri_start:
  "early r \<Longrightarrow> buf ! p = asc CHR ''?'' \<Longrightarrow> in_uri buf (Suc p) (r\<lparr>uri_start := Some p, args_start := Some (Suc p), empty_path_in_uri := True\<rparr>)"
  by (simp add: early_def in_uri_def args_ok_def)

lemma after_uri_schema:
  assumes "early r" and "schema_seen buf p r" and "p < length buf"
  shows "after_uri buf (Suc p) (use_schema_slash r)"
proof -
  obtain e where "schema_end r = Some e" "e + 1 < p" "buf ! (e + 1) = asc CHR ''/''"
    using assms(2) by (auto simp: schema_seen_def)
  moreover from this assms(3) have "seg buf (Suc e) (Suc (Suc e)) = [0x2f]" by (simp add: seg_single)
  ultimately show ?thesis using assms(1) by (simp add: after_uri_def use_schema_slash_def early_def)
qed

text \<open>The pointer fields of the host and port do not matter.\<close>

lemma early_host [simp]:
  "early (r\<lparr>host_start := x\<rparr>) = early r" "early (r\<lparr>host_end := x\<rparr>) = early r" "early (r\<lparr>port_end := x\<rparr>) = early r"
  "early (r\<lparr>schema_start := x\<rparr>) = early r" "early (r\<lparr>schema_end := x\<rparr>) = early r"
  "schema_seen buf p (r\<lparr>host_start := x\<rparr>) = schema_seen buf p r"
  "schema_seen buf p (r\<lparr>host_end := x\<rparr>) = schema_seen buf p r"
  "schema_seen buf p (r\<lparr>port_end := x\<rparr>) = schema_seen buf p r"
  "version_ok (r\<lparr>host_start := x\<rparr>) = version_ok r" "version_ok (r\<lparr>host_end := x\<rparr>) = version_ok r"
  "version_ok (r\<lparr>port_end := x\<rparr>) = version_ok r" "version_ok (r\<lparr>schema_start := x\<rparr>) = version_ok r"
  "version_ok (r\<lparr>schema_end := x\<rparr>) = version_ok r" "version_ok (use_schema_slash r) = version_ok r"
  by (simp_all add: early_def schema_seen_def version_ok_def use_schema_slash_def)

lemma schema_seen_Suc: "schema_seen buf p r \<Longrightarrow> schema_seen buf (Suc p) r"
  by (auto simp: schema_seen_def)

lemma step_ok_schema:
  assumes "request_inv buf p st r" and "p < length buf"
    and "st \<in> {sw_spaces_before_uri, sw_schema, sw_schema_slash}"
  shows "step_ok buf p (request_step buf p st r)"
  using assms(3)
proof (elim insertE emptyE)
  assume "st = sw_spaces_before_uri"
  with assms(1,2) show ?thesis
    by (simp add: request_step_def rl_spaces_before_uri_def request_inv_def in_path_start Let_def)
next
  assume "st = sw_schema"
  with assms(1,2) show ?thesis
    by (simp add: request_step_def rl_schema_def request_inv_def Let_def)
next
  assume "st = sw_schema_slash"
  with assms(1,2) show ?thesis
    by (simp add: request_step_def rl_expect_def request_inv_def Let_def schema_seen_def)
qed

lemma step_ok_host_end:
  assumes "version_ok r" and "early r" and "schema_seen buf p r" and "p < length buf"
  shows "step_ok buf p (rl_host_end p (buf ! p) r)"
  using assms
  by (simp add: rl_host_end_def request_inv_def in_path_start in_uri_start after_uri_schema schema_seen_Suc Let_def)

lemma step_ok_host_char:
  assumes "version_ok r" and "early r" and "schema_seen buf p r" and "p < length buf"
  shows "step_ok buf p (rl_host p (buf ! p) r)"
  using assms step_ok_host_end [OF assms]
  by (simp add: rl_host_def request_inv_def schema_seen_Suc)

lemma step_ok_host:
  assumes "request_inv buf p st r" and "p < length buf"
    and "st \<in> {sw_schema_slash_slash, sw_host_start, sw_host, sw_host_end, sw_host_ip_literal, sw_port}"
  shows "step_ok buf p (request_step buf p st r)"
proof -
  have inv: "version_ok r" "early r" "schema_seen buf p r"
    using assms(1,3) by (auto simp: request_inv_def)
  have "step_ok buf p (rl_host_start p (buf ! p) r)"
    using inv assms(2) step_ok_host_char [of "r\<lparr>host_start := Some p\<rparr>" buf p]
    by (simp add: rl_host_start_def request_inv_def schema_seen_Suc Let_def)
  moreover have "step_ok buf p (rl_host_ip_literal (buf ! p) r)"
    using inv by (simp add: rl_host_ip_literal_def request_inv_def schema_seen_Suc)
  moreover have "step_ok buf p (rl_port p (buf ! p) r)"
    using inv assms(2)
    by (simp add: rl_port_def request_inv_def schema_seen_Suc in_path_start in_uri_start after_uri_schema)
  moreover have "step_ok buf p (rl_expect CHR ''/'' sw_host_start (buf ! p) r)"
    using inv by (simp add: rl_expect_def request_inv_def schema_seen_Suc)
  ultimately show ?thesis
    using assms(3) step_ok_host_char [OF inv assms(2)] step_ok_host_end [OF inv assms(2)]
    by (auto simp: request_step_def Let_def)
qed

text \<open>The states inside the path and the arguments.\<close>

lemma in_path_Suc:
  assumes "in_path buf p r" and "p < length buf" and "path_char (buf ! p)"
    and "buf ! (p - 1) = asc CHR ''/'' \<longrightarrow> buf ! p \<noteq> asc CHR ''/'' \<and> buf ! p \<noteq> asc CHR ''.''"
  shows "in_path buf (Suc p) r"
proof -
  obtain u where u: "uri_start r = Some u" "u < p" "plain_path (seg buf u p)"
    using assms(1) by (auto simp: in_path_def)
  have "last (seg buf u p) = buf ! (p - 1)"
    using seg_Suc [of u "p - 1" buf] u(2) assms(2) by simp
  with plain_path_snoc [OF u(3) assms(3)] assms(4) have "plain_path (seg buf u (Suc p))"
    using u(2) assms(2) by (simp add: seg_Suc)
  with u assms(1) show ?thesis by (auto simp: in_path_def)
qed

lemma in_path_leave:
  assumes "in_path buf p r"
  shows "after_uri buf p (r\<lparr>uri_end := Some p\<rparr>)"
    and "buf ! p = asc CHR ''?'' \<Longrightarrow> in_uri buf (Suc p) (r\<lparr>args_start := Some (Suc p)\<rparr>)"
    and "in_uri buf (Suc p) (r\<lparr>complex_uri := True\<rparr>)" and "in_uri buf (Suc p) (r\<lparr>quoted_uri := True\<rparr>)"
  using assms by (auto simp: in_path_def after_uri_def in_uri_def args_ok_def)

lemma in_uri_steps:
  assumes "in_uri buf p r"
  shows "in_uri buf (Suc p) r" and "in_uri buf (Suc p) (r\<lparr>complex_uri := True\<rparr>)"
    and "after_uri buf p (r\<lparr>uri_end := Some p\<rparr>)"
  using assms by (auto simp: after_uri_def in_uri_def args_ok_def split: option.splits)

lemma in_path_frame [simp]:
  "in_path buf p (r\<lparr>uri_ext := x\<rparr>) = in_path buf p r" "in_path buf p (r\<lparr>plus_in_uri := b\<rparr>) = in_path buf p r"
  by (simp_all add: in_path_def)

lemma step_ok_uri_end:
  assumes "after_uri buf p (r\<lparr>uri_end := Some p\<rparr>)" and "version_ok r" and "p < length buf"
    and "rl_uri_end p (buf ! p) r = Some a"
  shows "step_ok buf p a"
proof -
  have v: "version_ok (r\<lparr>uri_end := Some p, http_minor := 9\<rparr>)" using assms(2) by (simp add: version_ok_def)
  show ?thesis
    using assms v by (auto simp: rl_uri_end_def request_inv_def after_uri_Suc intro!: step_ok_done split: if_splits)
qed

lemma path_char_other:
  "\<not> (c < 0x20 \<or> c = 0x7f) \<Longrightarrow> c \<noteq> 0x20 \<Longrightarrow> c \<noteq> asc CHR ''%'' \<Longrightarrow> c \<noteq> asc CHR ''?'' \<Longrightarrow> c \<noteq> asc CHR ''#'' \<Longrightarrow> path_char c"
  by (auto simp: path_char_def)

lemma path_char_usual: "tbl_bit usual c \<Longrightarrow> path_char c \<and> c \<noteq> asc CHR ''/'' \<and> c \<noteq> asc CHR ''.''"
  by (simp add: usual_iff path_char_def)

lemma rl_uri_end_None: "rl_uri_end p c r = None \<longleftrightarrow> c \<noteq> 0x20 \<and> c \<noteq> CR \<and> c \<noteq> LF"
  by (simp add: rl_uri_end_def)

lemma step_ok_after_slash:
  assumes "in_path buf p r" and "version_ok r" and "p < length buf"
  shows "step_ok buf p (rl_after_slash_in_uri p (buf ! p) r)"
proof -
  let ?c = "buf ! p"
  have go: "path_char ?c \<Longrightarrow> ?c \<noteq> asc CHR ''/'' \<Longrightarrow> ?c \<noteq> asc CHR ''.'' \<Longrightarrow> in_path buf (Suc p) r"
    using in_path_Suc [OF assms(1,3)] by simp
  show ?thesis
  proof (cases "rl_uri_end p ?c r")
    case None
    note c = None [unfolded rl_uri_end_None]
    have plus: "path_char (asc CHR ''+'')" by (simp add: path_char_def)
    show ?thesis
      using c assms(2) go in_path_leave [OF assms(1)] path_char_usual [of ?c] path_char_other [of ?c] plus
      by (auto simp: rl_after_slash_in_uri_def request_inv_def None)
  next
    case (Some a)
    with step_ok_uri_end [OF in_path_leave(1) [OF assms(1)] assms(2,3)] go path_char_usual [of ?c] assms(2)
    show ?thesis by (auto simp: rl_after_slash_in_uri_def request_inv_def)
  qed
qed

lemma step_ok_check_uri:
  assumes "in_path buf p r" and "version_ok r" and "p < length buf" and "buf ! (p - 1) \<noteq> asc CHR ''/''"
  shows "step_ok buf p (rl_check_uri p (buf ! p) r)"
proof -
  let ?c = "buf ! p"
  have go: "path_char ?c \<Longrightarrow> in_path buf (Suc p) r"
    using in_path_Suc [OF assms(1,3)] assms(4) by simp
  have sl: "path_char (asc CHR ''/'')" "path_char (asc CHR ''.'')" "path_char (asc CHR ''+'')" by (simp_all add: path_char_def)
  show ?thesis
  proof (cases "rl_uri_end p ?c r")
    case None
    note c = None [unfolded rl_uri_end_None]
    show ?thesis
      using c assms(2) go in_path_leave [OF assms(1)] path_char_usual [of ?c] path_char_other [of ?c] sl
      by (auto simp: rl_check_uri_def request_inv_def None)
  next
    case (Some a)
    with step_ok_uri_end [OF in_path_leave(1) [OF assms(1)] assms(2,3)] go path_char_usual [of ?c] assms(2) sl
    show ?thesis by (auto simp: rl_check_uri_def request_inv_def)
  qed
qed

lemma step_ok_uri:
  assumes "in_uri buf p r" and "version_ok r" and "p < length buf"
  shows "step_ok buf p (rl_uri p (buf ! p) r)"
  using step_ok_uri_end [OF in_uri_steps(3) [OF assms(1)] assms(2,3)] in_uri_steps [OF assms(1)] assms(2)
  by (auto simp: rl_uri_def request_inv_def split: option.splits)

text \<open>The states after the path.\<close>

lemma step_ok_version:
  assumes "request_inv buf p st r" and "p < length buf"
    and "st \<in> {sw_http_09, sw_http_H, sw_http_HT, sw_http_HTT, sw_http_HTTP, sw_first_major_digit, sw_major_digit,
               sw_first_minor_digit, sw_minor_digit, sw_spaces_after_digit, sw_almost_done}"
  shows "step_ok buf p (request_step buf p st r)"
proof -
  have inv: "version_ok r" "after_uri buf p r" using assms(1,3) by (auto simp: request_inv_def)
  note inv' = after_uri_Suc [OF inv(2)]
  have v9: "version_ok (r\<lparr>http_minor := 9\<rparr>)" using inv(1) by (simp add: version_ok_def)
  have vd: "\<not> http_minor r > 99 \<Longrightarrow> is_digit c \<Longrightarrow> version_ok (r\<lparr>http_minor := http_minor r * 10 + digit_val c\<rparr>)"
    "is_digit c \<Longrightarrow> version_ok (r\<lparr>http_minor := digit_val c\<rparr>)"
    "is_digit c \<Longrightarrow> \<not> http_major r * 10 + digit_val c > 1 \<Longrightarrow> version_ok (r\<lparr>http_major := http_major r * 10 + digit_val c\<rparr>)"
    "\<not> (c < asc CHR ''1'' \<or> asc CHR ''9'' < c) \<Longrightarrow> \<not> digit_val c > 1 \<Longrightarrow> version_ok (r\<lparr>http_major := digit_val c\<rparr>)" for c
    using inv(1) digit_val_range [of c] digit_val_le [of c] by (auto simp: version_ok_def)
  show ?thesis
    using assms(3)
    by (elim insertE emptyE)
      (simp_all add: request_step_def rl_http_09_def rl_expect_def rl_first_major_digit_def rl_major_digit_def
        rl_first_minor_digit_def rl_minor_digit_def rl_spaces_after_digit_def rl_almost_done_def
        Let_def request_inv_def inv inv' v9 vd assms(2) step_ok_done)
qed

lemma request_step_ok:
  assumes "request_inv buf p st r" and "p < length buf"
  shows "step_ok buf p (request_step buf p st r)"
proof -
  have "request_step buf p sw_after_slash_in_uri r = rl_after_slash_in_uri p (buf ! p) r"
    "request_step buf p sw_check_uri r = rl_check_uri p (buf ! p) r" "request_step buf p sw_uri r = rl_uri p (buf ! p) r"
    by (simp_all add: request_step_def Let_def)
  with assms step_ok_after_slash [of buf p r] step_ok_check_uri [of buf p r] step_ok_uri [of buf p r]
  have uri: "st \<in> {sw_after_slash_in_uri, sw_check_uri, sw_uri} \<Longrightarrow> ?thesis"
    by (auto simp: request_inv_def)
  show ?thesis
    using uri step_ok_early [OF assms] step_ok_schema [OF assms] step_ok_host [OF assms] step_ok_version [OF assms]
    by (cases st) simp_all
qed

lemma request_scan_ok:
  assumes "request_inv buf p st r"
  shows "case scan request_step buf p st r of
      Next st' r' \<Rightarrow> request_inv buf (max p (length buf)) st' r'
    | Done rc st' r' q \<Rightarrow> request_result buf rc st' r' q
    | Fail rc r' \<Rightarrow> rc \<noteq> RL_OK \<and> rc \<noteq> RL_AGAIN \<and> rc \<noteq> RL_INVALID_09_METHOD"
  using scan_invariant [where I = "request_inv buf", OF assms, where buf = buf and step = request_step
      and D = "request_result buf" and F = "\<lambda>rc r. rc \<noteq> RL_OK \<and> rc \<noteq> RL_AGAIN \<and> rc \<noteq> RL_INVALID_09_METHOD"]
    request_step_ok
  by (simp add: step_ok_def)

lemma request_inv_start: "request_inv buf 0 sw_start ngx_http_create_request"
  by (simp add: request_inv_def ngx_http_create_request_def version_ok_def early_def)

section \<open>Reading back a request line\<close>

definition request_uri :: "byte list \<Rightarrow> ngx_http_request_t \<Rightarrow> byte list" where
  "request_uri buf r = (case (uri_start r, uri_end r) of (Some a, Some b) \<Rightarrow> seg buf a b | _ \<Rightarrow> [])"

text \<open>The part of the URI in front of the arguments.\<close>

definition request_path :: "byte list \<Rightarrow> ngx_http_request_t \<Rightarrow> byte list" where
  "request_path buf r =
     (case (uri_start r, args_start r, uri_end r) of
        (Some u, Some a, _) \<Rightarrow> seg buf u (a - 1)
      | (Some u, None, Some e) \<Rightarrow> seg buf u e
      | _ \<Rightarrow> [])"

definition uri_char :: "byte \<Rightarrow> bool" where
  "uri_char c \<longleftrightarrow> 0x20 < c \<and> c \<noteq> 0x7f"

definition request_bytes :: "byte list \<Rightarrow> byte list \<Rightarrow> byte \<Rightarrow> byte list" where
  "request_bytes m uri d = m @ [0x20] @ uri @ [0x20] @ bytes ''HTTP/1.'' @ [d, CR, LF]"

text \<open>The fields that the bytes of the path and the arguments leave alone.\<close>

definition same_line :: "ngx_http_request_t \<Rightarrow> ngx_http_request_t \<Rightarrow> bool" where
  "same_line r r' \<longleftrightarrow> rq_method r' = rq_method r \<and> request_start r' = request_start r \<and> method_end r' = method_end r
     \<and> uri_start r' = uri_start r \<and> request_end r' = request_end r \<and> http_major r' = http_major r \<and> http_minor r' = http_minor r"

lemma request_step_uri_char:
  assumes "st \<in> {sw_after_slash_in_uri, sw_check_uri, sw_uri}" and "uri_char (buf ! p)"
  shows "\<exists>st' r'. request_step buf p st r = Next st' r' \<and> st' \<in> {sw_after_slash_in_uri, sw_check_uri, sw_uri} \<and> same_line r r'"
proof -
  have "rl_uri_end p (buf ! p) r = None" "\<not> (buf ! p < 0x20 \<or> buf ! p = 0x7f)"
    using assms(2) by (auto simp: rl_uri_end_def uri_char_def)
  then show ?thesis
    using assms(1)
    by (auto simp: request_step_def Let_def rl_after_slash_in_uri_def rl_check_uri_def rl_uri_def same_line_def)
qed

lemma same_line_trans: "same_line r r' \<Longrightarrow> same_line r' r'' \<Longrightarrow> same_line r r''"
  by (simp add: same_line_def)

lemma scan_uri_chars:
  assumes "p \<le> q" and "q \<le> length buf" and "\<And>i. p \<le> i \<Longrightarrow> i < q \<Longrightarrow> uri_char (buf ! i)"
    and "st \<in> {sw_after_slash_in_uri, sw_check_uri, sw_uri}"
  shows "\<exists>st' r'. st' \<in> {sw_after_slash_in_uri, sw_check_uri, sw_uri} \<and> same_line r r'
    \<and> scan request_step buf p st r = scan request_step buf q st' r'"
proof -
  let ?I = "\<lambda>i st' r'. st' \<in> {sw_after_slash_in_uri, sw_check_uri, sw_uri} \<and> same_line r r'"
  have "\<exists>st' r'. ?I q st' r' \<and> scan request_step buf p st r = scan request_step buf q st' r'"
  proof (rule scan_until [where I = ?I, OF assms(1,2)])
    show "?I p st r" using assms(4) by (simp add: same_line_def)
    show "\<exists>st2 r2. request_step buf i st1 r1 = Next st2 r2 \<and> ?I (Suc i) st2 r2"
      if "p \<le> i" "i < q" "?I i st1 r1" for i st1 r1
      using request_step_uri_char [of st1 buf i r1] assms(3) [OF that(1,2)] that(3) same_line_trans by blast
  qed
  then show ?thesis by blast
qed

lemma request_step_space:
  "st \<in> {sw_after_slash_in_uri, sw_check_uri, sw_uri} \<Longrightarrow> buf ! p = 0x20 \<Longrightarrow>
   request_step buf p st r = Next sw_http_09 (r\<lparr>uri_end := Some p\<rparr>)"
  by (auto simp: request_step_def Let_def rl_after_slash_in_uri_def rl_check_uri_def rl_uri_def rl_uri_end_def usual_iff)

text \<open>The version and the line end, from their first byte on.\<close>

lemma scan_version:
  assumes "drop k buf = bytes ''HTTP/1.'' @ [d, CR, LF]" and "is_digit d"
  shows "scan request_step buf k sw_http_09 r =
    Done RL_OK sw_start (r\<lparr>http_protocol_data := Some k, http_major := 1, http_minor := digit_val d,
      request_end := Some (k + 8), http_version := 1000 + digit_val d\<rparr>) (k + 10)"
proof -
  have "length (drop k buf) = 10" using assms(1) by simp
  then have len: "length buf = k + 10" by simp
  have "buf ! (k + i) = (bytes ''HTTP/1.'' @ [d, CR, LF]) ! i" if "i < 10" for i
    using that nth_drop [of k buf i] len assms(1) by simp
  from this [of 0] this [of 1] this [of 2] this [of 3] this [of 4] this [of 5] this [of 6] this [of 7] this [of 8] this [of 9]
  have nths: "buf ! k = asc CHR ''H''" "buf ! Suc k = asc CHR ''T''" "buf ! Suc (Suc k) = asc CHR ''T''"
    "buf ! Suc (Suc (Suc k)) = asc CHR ''P''" "buf ! Suc (Suc (Suc (Suc k))) = asc CHR ''/''"
    "buf ! Suc (Suc (Suc (Suc (Suc k)))) = asc CHR ''1''" "buf ! Suc (Suc (Suc (Suc (Suc (Suc k))))) = asc CHR ''.''"
    "buf ! Suc (Suc (Suc (Suc (Suc (Suc (Suc k)))))) = d" "buf ! Suc (Suc (Suc (Suc (Suc (Suc (Suc (Suc k))))))) = CR"
    "buf ! Suc (Suc (Suc (Suc (Suc (Suc (Suc (Suc (Suc k)))))))) = LF"
    by (simp_all add: eval_nat_numeral)
  have one: "digit_val 49 = 1" by (simp add: digit_val_def)
  have "0 \<le> digit_val d" using assms(2) digit_val_range by simp
  then have v: "1000 + digit_val d \<noteq> 9" by linarith
  show ?thesis
    using assms(2) v
    by (simp add: scan.simps len nths request_step_def rl_http_09_def rl_expect_def rl_first_major_digit_def
        rl_major_digit_def rl_first_minor_digit_def rl_minor_digit_def rl_almost_done_def rl_done_def Let_def one)
qed

lemma scan_method:
  assumes "m \<noteq> []" and "\<forall>c\<in>set m. \<not> not_method_char c" and "take (length m) buf = m" and "length m < length buf"
    and "buf ! length m = 0x20"
  shows "scan request_step buf 0 sw_start r =
    scan request_step buf (Suc (length m))
      (if method_lookup m (rq_method r) = NGX_HTTP_CONNECT then sw_spaces_before_connect_host else sw_spaces_before_uri)
      (r\<lparr>request_start := Some 0, method_end := Some (length m - 1), rq_method := method_lookup m (rq_method r)\<rparr>)"
proof -
  let ?r = "r\<lparr>request_start := Some 0\<rparr>"
  have nth: "buf ! i = m ! i" if "i < length m" for i using that assms(3) nth_take [of i "length m" buf] by simp
  have mc: "\<not> not_method_char (buf ! i)" if "i < length m" for i using that assms(2) by (simp add: nth)
  then have "\<not> not_method_char (buf ! 0)" using assms(1) by simp
  then have "request_step buf 0 sw_start r = Next sw_method ?r"
    by (auto simp: request_step_def rl_start_def Let_def not_method_char_def)
  then have "scan request_step buf 0 sw_start r = scan request_step buf 1 sw_method ?r"
    using assms(4) by (subst scan_Next) auto
  also have "\<dots> = scan request_step buf (length m) sw_method ?r"
  proof (rule scan_stay)
    show "1 \<le> length m" using assms(1) by (cases m) auto
    show "length m \<le> length buf" using assms(4) by simp
    show "request_step buf i sw_method ?r = Next sw_method ?r" if "1 \<le> i" "i < length m" for i
      using mc [OF that(2)] by (auto simp: request_step_def rl_method_def Let_def not_method_char_def)
  qed
  also have "\<dots> = scan request_step buf (Suc (length m))
      (if method_lookup m (rq_method r) = NGX_HTTP_CONNECT then sw_spaces_before_connect_host else sw_spaces_before_uri)
      (r\<lparr>request_start := Some 0, method_end := Some (length m - 1), rq_method := method_lookup m (rq_method r)\<rparr>)"
    using assms(3-5) by (intro scan_Next) (simp_all add: request_step_def rl_method_def Let_def bytes_from_def)
  finally show ?thesis .
qed

section \<open>Properties\<close>

text \<open>
  C26. Round trip of a request line in origin form: for every method token other than CONNECT, every
  path with arguments made of printable bytes and every HTTP/1.x version, the parser accepts the
  line whole and gives back the method, exactly the bytes of the URI, the version and the end of
  the line.
\<close>

theorem request_line_roundtrip:
  assumes "m \<noteq> []" and "\<forall>c\<in>set m. \<not> not_method_char c" and "m \<noteq> bytes ''CONNECT''"
    and "uri = asc CHR ''/'' # rest" and "\<forall>c\<in>set rest. uri_char c" and "is_digit d"
    and "buf = request_bytes m uri d"
  shows "\<exists>r. ngx_http_parse_request_line buf 0 sw_start ngx_http_create_request = (RL_OK, sw_start, r, length buf)
    \<and> rq_method r = method_lookup m NGX_HTTP_UNKNOWN \<and> bytes_from buf (request_start r) (length m) = m
    \<and> method_end r = Some (length m - 1) \<and> request_uri buf r = uri
    \<and> http_version r = 1000 + digit_val d \<and> request_end r = Some (length buf - 2)"
proof -
  let ?r0 = "ngx_http_create_request"
  let ?r1 = "?r0\<lparr>request_start := Some 0, method_end := Some (length m - 1), rq_method := method_lookup m NGX_HTTP_UNKNOWN\<rparr>"
  let ?u = "Suc (length m)" and ?e = "Suc (length m) + length uri"
  have init: "rq_method ?r0 = NGX_HTTP_UNKNOWN" by (simp add: ngx_http_create_request_def)
  have len: "length buf = ?e + 11" using assms(7) by (simp add: request_bytes_def)
  obtain st r2 where st: "st \<in> {sw_after_slash_in_uri, sw_check_uri, sw_uri}" "same_line (?r1\<lparr>uri_start := Some ?u\<rparr>) r2"
    "scan request_step buf (Suc ?u) sw_after_slash_in_uri (?r1\<lparr>uri_start := Some ?u\<rparr>) = scan request_step buf ?e st r2"
  proof -
    have "uri_char (buf ! i)" if "Suc ?u \<le> i" "i < ?e" for i
    proof -
      have "i - Suc ?u < length rest" using that assms(4) by simp
      moreover from this have "buf ! i = rest ! (i - Suc ?u)"
        using that assms(4,7) by (auto simp: request_bytes_def nth_append nth_Cons')
      ultimately show ?thesis using assms(5) by simp
    qed
    with scan_uri_chars [of "Suc ?u" ?e buf sw_after_slash_in_uri "?r1\<lparr>uri_start := Some ?u\<rparr>"] assms(4) len that
    show ?thesis by auto
  qed
  have "method_lookup m NGX_HTTP_UNKNOWN \<noteq> NGX_HTTP_CONNECT" using assms(3) by (simp add: method_lookup_def)
  then have "scan request_step buf 0 sw_start ?r0 = scan request_step buf ?u sw_spaces_before_uri ?r1"
    using scan_method [OF assms(1,2), of buf ?r0] init by (simp add: assms(7) request_bytes_def)
  also have "\<dots> = scan request_step buf (Suc ?u) sw_after_slash_in_uri (?r1\<lparr>uri_start := Some ?u\<rparr>)"
    using assms(4,7) len
    by (intro scan_Next) (simp_all add: request_step_def rl_spaces_before_uri_def request_bytes_def nth_append)
  also note st(3)
  also have "scan request_step buf ?e st r2 = scan request_step buf (Suc ?e) sw_http_09 (r2\<lparr>uri_end := Some ?e\<rparr>)"
    using st(1) len assms(7)
    by (intro scan_Next request_step_space) (simp_all add: request_bytes_def nth_append)
  also have "\<dots> = Done RL_OK sw_start (r2\<lparr>uri_end := Some ?e, http_protocol_data := Some (Suc ?e), http_major := 1,
      http_minor := digit_val d, request_end := Some (Suc ?e + 8), http_version := 1000 + digit_val d\<rparr>) (Suc ?e + 10)"
    using assms(6,7) by (intro scan_version) (simp_all add: request_bytes_def)
  finally have "scan request_step buf 0 sw_start ?r0 = \<dots>" .
  moreover have "seg buf ?u ?e = uri" using assms(7) by (simp add: seg_def request_bytes_def)
  ultimately show ?thesis
    using st(2) len assms(7)
    by (simp add: ngx_http_parse_request_line_def same_line_def request_uri_def bytes_from_def request_bytes_def)
qed

theorem request_line_roundtrip_witness:
  "\<exists>r. ngx_http_parse_request_line (request_bytes (bytes ''GET'') (bytes ''/a/../b?c=%20'') (asc CHR ''1'')) 0 sw_start
       ngx_http_create_request = (RL_OK, sw_start, r, 28)
    \<and> rq_method r = NGX_HTTP_GET \<and> http_version r = 1001"
  using request_line_roundtrip [of "bytes ''GET''" "bytes ''/a/../b?c=%20''" "bytes ''a/../b?c=%20''" "asc CHR ''1''", OF _ _ _ _ _ _ refl]
  by (auto simp: not_method_char_def uri_char_def is_digit_def digit_val_def method_lookup_def request_bytes_def)

text \<open>
  C22. A path is used without normalisation only if it needs none. Whenever the parser accepts a line
  (in one piece or in many: the bytes of all pieces are \<open>concat pieces\<close>) and leaves both
  \<open>complex_uri\<close> and \<open>quoted_uri\<close> clear, the path in front of the arguments starts with a slash, holds
  no percent sign, fragment mark, space or control byte, and no slash is followed by a slash or a dot;
  or the request has no path at all and says so.
\<close>

theorem request_line_plain_path:
  assumes "feed request_step [] sw_start ngx_http_create_request pieces = Done rc st r pos"
    and "\<not> complex_uri r" and "\<not> quoted_uri r" and "uri_start r \<noteq> None"
  shows "if empty_path_in_uri r then request_path (concat pieces) r = [] else plain_path (request_path (concat pieces) r)"
proof -
  have "scan request_step (concat pieces) 0 sw_start ngx_http_create_request = Done rc st r pos"
    using assms(1) request_line.feed_eq_scan [of "[]"] by simp
  with request_scan_ok [OF request_inv_start, of "concat pieces"] have "after_uri (concat pieces) (pos - 1) r"
    by (simp add: request_result_def)
  with assms(4) obtain u e where ue: "uri_start r = Some u" "uri_end r = Some e"
    and path: "case args_start r of
          None \<Rightarrow> \<not> empty_path_in_uri r \<and> (\<not> complex_uri r \<and> \<not> quoted_uri r \<longrightarrow> plain_path (seg (concat pieces) u e))
        | Some a \<Rightarrow> a \<le> e \<and> args_ok (concat pieces) u a r"
    by (auto simp: after_uri_def early_def)
  with assms(2,3) show ?thesis
    by (cases "args_start r") (auto simp: args_ok_def request_path_def seg_def)
qed

theorem request_line_plain_path_witness:
  "\<exists>r st pos. feed request_step [] sw_start ngx_http_create_request [bytes ''GET /a'', bytes '' HTTP'', bytes ''/1.1'' @ [LF]] = Done RL_OK st r pos
     \<and> plain_path (request_path (bytes ''GET /a HTTP/1.1'' @ [LF]) r)"
proof -
  have "\<exists>r. feed request_step [] sw_start ngx_http_create_request [bytes ''GET /a'', bytes '' HTTP'', bytes ''/1.1'' @ [LF]] = Done RL_OK sw_start r 16
      \<and> \<not> complex_uri r \<and> \<not> quoted_uri r \<and> uri_start r \<noteq> None \<and> \<not> empty_path_in_uri r"
    by (simp add: scan.simps request_step_def sm_defs ngx_http_create_request_def not_method_char_def Let_def usual_iff
        bytes_from_def method_lookup_def is_digit_def digit_val_def)
  then show ?thesis using request_line_plain_path [of "[bytes ''GET /a'', bytes '' HTTP'', bytes ''/1.1'' @ [LF]]"] by fastforce
qed

text \<open>
  The bounds of an accepted line: the version numbers fit the 16-bit fields that hold them and
  make up \<open>http_version\<close>, the URI pointers are in order and inside the line, the line ends with the
  LF in front of the new read position, and \<open>HTTP/0.9\<close> is accepted for GET only.
\<close>

theorem request_line_bounds:
  assumes "feed request_step [] sw_start ngx_http_create_request pieces = Done rc st r pos"
  shows "0 \<le> http_major r \<and> http_major r \<le> 1 \<and> 0 \<le> http_minor r \<and> http_minor r \<le> 999
    \<and> http_version r = http_major r * 1000 + http_minor r
    \<and> 0 < pos \<and> pos \<le> length (concat pieces) \<and> concat pieces ! (pos - 1) = LF
    \<and> (case uri_start r of
         None \<Rightarrow> uri_end r = None
       | Some u \<Rightarrow> (\<exists>e. uri_end r = Some e \<and> u < e \<and> e < pos
           \<and> (case args_start r of None \<Rightarrow> True | Some a \<Rightarrow> u < a \<and> a \<le> e)))
    \<and> (rc = RL_OK \<or> rc = RL_INVALID_09_METHOD)"
proof -
  have "scan request_step (concat pieces) 0 sw_start ngx_http_create_request = Done rc st r pos"
    using assms request_line.feed_eq_scan [of "[]"] by simp
  with request_scan_ok [OF request_inv_start, of "concat pieces"] have "request_result (concat pieces) rc st r pos"
    by simp
  then show ?thesis
    by (auto simp: request_result_def after_uri_def early_def args_ok_def version_ok_def split: option.splits)
qed

theorem request_line_bounds_witness:
  "\<exists>r rc. feed request_step [] sw_start ngx_http_create_request [bytes ''POST /'', [CR], [LF]] = Done rc sw_start r 8
     \<and> http_version r = http_major r * 1000 + http_minor r \<and> rc = RL_INVALID_09_METHOD"
proof -
  have f: "\<exists>r. feed request_step [] sw_start ngx_http_create_request [bytes ''POST /'', [CR], [LF]] = Done RL_INVALID_09_METHOD sw_start r 8"
    by (simp add: scan.simps request_step_def sm_defs ngx_http_create_request_def not_method_char_def Let_def usual_iff
        bytes_from_def method_lookup_def)
  then show ?thesis using request_line_bounds [of "[bytes ''POST /'', [CR], [LF]]"] by fast
qed

end
