(* ===== verification/Http_Uri.thy ===== *)
theory Http_Uri
  imports Http_Request_Line
begin

text \<open>
  The treatment of the request URI after the request line: \<open>ngx_http_parse_uri\<close>, which finds out
  whether a URI given by a subrequest or a rewrite needs normalisation, and
  \<open>ngx_http_parse_complex_uri\<close>, which decodes percent escapes, merges slashes and resolves the
  segments \<open>.\<close> and \<open>..\<close> (both in \<^verbatim>\<open>src/src/http/ngx_http_parse.c\<close>).

  The output pointer \<open>u\<close> into the freshly allocated \<open>r->uri.data\<close> is modelled by the list of the
  bytes in front of it: \<^verbatim>\<open>*u++ = ch\<close> appends and \<^verbatim>\<open>u--\<close> removes the last byte. The reference
  definition \<open>normalise\<close> decodes the path first and then resolves it segment by segment.
\<close>

section \<open>The normalising machine\<close>

datatype complex_st = sw_usual | sw_slash | sw_dot | sw_dot_dot | sw_quoted | sw_quoted_second

record complex_uri_t =
  cu_state :: complex_st
  cu_quoted_state :: complex_st
  cu_decoded :: byte
  cu_ch :: byte
  cu_p :: nat
  cu_u :: "byte list"
  cu_uri_ext :: "nat option"
  cu_args_start :: "nat option"
  cu_plus_in_uri :: bool
  cu_quoted_uri :: bool

datatype complex_action = CU_Next complex_uri_t | CU_Args complex_uri_t | CU_Done complex_uri_t | CU_Invalid

text \<open>\<^verbatim>\<open>ch = *p++\<close>, \<^verbatim>\<open>*u++ = c\<close> and the assignment to \<open>state\<close>.\<close>

definition cu_fetch :: "byte list \<Rightarrow> complex_uri_t \<Rightarrow> complex_uri_t" where
  "cu_fetch buf s = s\<lparr>cu_ch := buf ! cu_p s, cu_p := cu_p s + 1\<rparr>"

definition cu_put :: "byte \<Rightarrow> complex_uri_t \<Rightarrow> complex_uri_t" where
  "cu_put c s = s\<lparr>cu_u := cu_u s @ [c]\<rparr>"

definition cu_back :: "complex_uri_t \<Rightarrow> complex_uri_t" where
  "cu_back s = s\<lparr>cu_u := butlast (cu_u s)\<rparr>"

definition cu_goto :: "complex_st \<Rightarrow> complex_uri_t \<Rightarrow> complex_uri_t" where
  "cu_goto st s = s\<lparr>cu_state := st\<rparr>"

definition cu_quote :: "complex_uri_t \<Rightarrow> complex_uri_t" where
  "cu_quote s = s\<lparr>cu_quoted_state := cu_state s, cu_state := sw_quoted\<rparr>"

definition cu_args :: "complex_uri_t \<Rightarrow> complex_uri_t" where
  "cu_args s = s\<lparr>cu_args_start := Some (cu_p s)\<rparr>"

text \<open>The cases \<open>'+'\<close> and \<open>default\<close> of the four switches: the byte is copied.\<close>

definition cu_default :: "byte list \<Rightarrow> complex_uri_t \<Rightarrow> complex_action" where
  "cu_default buf s =
     (let s = (if cu_ch s = asc CHR ''+'' then s\<lparr>cu_plus_in_uri := True\<rparr> else s)
      in CU_Next (cu_fetch buf (cu_put (cu_ch s) (cu_goto sw_usual s))))"

definition cu_usual :: "byte list \<Rightarrow> complex_uri_t \<Rightarrow> complex_action" where
  "cu_usual buf s =
     (let ch = cu_ch s in
      if tbl_bit usual ch then CU_Next (cu_fetch buf (cu_put ch s))
      else if ch = asc CHR ''/'' then CU_Next (cu_fetch buf (cu_put ch (cu_goto sw_slash (s\<lparr>cu_uri_ext := None\<rparr>))))
      else if ch = asc CHR ''%'' then CU_Next (cu_fetch buf (cu_quote s))
      else if ch = asc CHR ''?'' then CU_Args (cu_args s)
      else if ch = asc CHR ''#'' then CU_Done s
      else if ch = asc CHR ''.''
      then CU_Next (cu_fetch buf (cu_put ch (s\<lparr>cu_uri_ext := Some (length (cu_u s) + 1)\<rparr>)))
      else cu_default buf s)"

definition cu_slash :: "byte list \<Rightarrow> bool \<Rightarrow> complex_uri_t \<Rightarrow> complex_action" where
  "cu_slash buf merge_slashes s =
     (let ch = cu_ch s in
      if tbl_bit usual ch then CU_Next (cu_fetch buf (cu_put ch (cu_goto sw_usual s)))
      else if ch = asc CHR ''/'' then CU_Next (cu_fetch buf (if merge_slashes then s else cu_put ch s))
      else if ch = asc CHR ''.'' then CU_Next (cu_fetch buf (cu_put ch (cu_goto sw_dot s)))
      else if ch = asc CHR ''%'' then CU_Next (cu_fetch buf (cu_quote s))
      else if ch = asc CHR ''?'' then CU_Args (cu_args s)
      else if ch = asc CHR ''#'' then CU_Done s
      else cu_default buf s)"

definition cu_dot :: "byte list \<Rightarrow> complex_uri_t \<Rightarrow> complex_action" where
  "cu_dot buf s =
     (let ch = cu_ch s in
      if tbl_bit usual ch then CU_Next (cu_fetch buf (cu_put ch (cu_goto sw_usual s)))
      else if ch = asc CHR ''/'' then CU_Next (cu_fetch buf (cu_back (cu_goto sw_slash s)))
      else if ch = asc CHR ''.'' then CU_Next (cu_fetch buf (cu_put ch (cu_goto sw_dot_dot s)))
      else if ch = asc CHR ''%'' then CU_Next (cu_fetch buf (cu_quote s))
      else if ch = asc CHR ''?'' then CU_Args (cu_args (cu_back s))
      else if ch = asc CHR ''#'' then CU_Done (cu_back s)
      else cu_default buf s)"

text \<open>
  The loop after \<^verbatim>\<open>u -= 4\<close>: it steps back over the segment in front of \<open>/..\<close> to the slash that
  opens it, and it fails when \<open>u\<close> falls below the start of the buffer.
\<close>

definition cu_back_up :: "complex_uri_t \<Rightarrow> complex_uri_t option" where
  "cu_back_up s =
     (case dropWhile (\<lambda>c. c \<noteq> asc CHR ''/'') (drop 3 (rev (cu_u s))) of
        [] \<Rightarrow> None
      | u \<Rightarrow> Some (s\<lparr>cu_u := rev u\<rparr>))"

definition cu_dot_dot :: "byte list \<Rightarrow> complex_uri_t \<Rightarrow> complex_action" where
  "cu_dot_dot buf s =
     (let ch = cu_ch s in
      if tbl_bit usual ch then CU_Next (cu_fetch buf (cu_put ch (cu_goto sw_usual s)))
      else if ch = asc CHR ''/'' \<or> ch = asc CHR ''?'' \<or> ch = asc CHR ''#''
      then (case cu_back_up s of
              None \<Rightarrow> CU_Invalid
            | Some s \<Rightarrow>
                (if ch = asc CHR ''?'' then CU_Args (cu_args s)
                 else if ch = asc CHR ''#'' then CU_Done s
                 else CU_Next (cu_fetch buf (cu_goto sw_slash s))))
      else if ch = asc CHR ''%'' then CU_Next (cu_fetch buf (cu_quote s))
      else cu_default buf s)"

definition cu_quoted :: "byte list \<Rightarrow> complex_uri_t \<Rightarrow> complex_action" where
  "cu_quoted buf s =
     (let s = s\<lparr>cu_quoted_uri := True\<rparr>; ch = cu_ch s; c = ch OR 0x20 in
      if asc CHR ''0'' \<le> ch \<and> ch \<le> asc CHR ''9''
      then CU_Next (cu_fetch buf (cu_goto sw_quoted_second (s\<lparr>cu_decoded := ch - asc CHR ''0''\<rparr>)))
      else if asc CHR ''a'' \<le> c \<and> c \<le> asc CHR ''f''
      then CU_Next (cu_fetch buf (cu_goto sw_quoted_second (s\<lparr>cu_decoded := c - asc CHR ''a'' + 10\<rparr>)))
      else CU_Invalid)"

text \<open>The decoded byte becomes \<open>ch\<close> and the interrupted state goes on with it, without a new read.\<close>

definition cu_quoted_second :: "byte list \<Rightarrow> complex_uri_t \<Rightarrow> complex_action" where
  "cu_quoted_second buf s =
     (let ch = cu_ch s; c = ch OR 0x20 in
      if asc CHR ''0'' \<le> ch \<and> ch \<le> asc CHR ''9''
      then (let ch = push_bit 4 (cu_decoded s) + (ch - asc CHR ''0''); s = s\<lparr>cu_ch := ch\<rparr> in
            if ch = asc CHR ''%'' \<or> ch = asc CHR ''#'' then CU_Next (cu_fetch buf (cu_put ch (cu_goto sw_usual s)))
            else if ch = 0 then CU_Invalid
            else CU_Next (cu_goto (cu_quoted_state s) s))
      else if asc CHR ''a'' \<le> c \<and> c \<le> asc CHR ''f''
      then (let ch = push_bit 4 (cu_decoded s) + (c - asc CHR ''a'') + 10; s = s\<lparr>cu_ch := ch\<rparr> in
            if ch = asc CHR ''?'' then CU_Next (cu_fetch buf (cu_put ch (cu_goto sw_usual s)))
            else (let s = (if ch = asc CHR ''+'' then s\<lparr>cu_plus_in_uri := True\<rparr> else s)
                  in CU_Next (cu_goto (cu_quoted_state s) s)))
      else CU_Invalid)"

definition complex_step :: "byte list \<Rightarrow> bool \<Rightarrow> complex_uri_t \<Rightarrow> complex_action" where
  "complex_step buf merge_slashes s =
     (case cu_state s of
        sw_usual \<Rightarrow> cu_usual buf s
      | sw_slash \<Rightarrow> cu_slash buf merge_slashes s
      | sw_dot \<Rightarrow> cu_dot buf s
      | sw_dot_dot \<Rightarrow> cu_dot_dot buf s
      | sw_quoted \<Rightarrow> cu_quoted buf s
      | sw_quoted_second \<Rightarrow> cu_quoted_second buf s)"

text \<open>What follows the loop when the URI has been read to its end.\<close>

definition complex_finish :: "complex_uri_t \<Rightarrow> complex_action" where
  "complex_finish s =
     (case cu_state s of
        sw_quoted \<Rightarrow> CU_Invalid
      | sw_quoted_second \<Rightarrow> CU_Invalid
      | sw_dot \<Rightarrow> CU_Done (cu_back s)
      | sw_dot_dot \<Rightarrow> (case cu_back_up s of None \<Rightarrow> CU_Invalid | Some s \<Rightarrow> CU_Done s)
      | _ \<Rightarrow> CU_Done s)"

partial_function (option) complex_loop :: "byte list \<Rightarrow> nat \<Rightarrow> bool \<Rightarrow> complex_uri_t \<Rightarrow> complex_action option" where
  "complex_loop buf e merge_slashes s =
     (if cu_p s \<le> e
      then (case complex_step buf merge_slashes s of
              CU_Next s' \<Rightarrow> complex_loop buf e merge_slashes s'
            | a \<Rightarrow> Some a)
      else Some (complex_finish s))"

text \<open>
  The result: \<open>r->uri\<close>, \<open>r->exten\<close>, \<open>r->args\<close> when a fragment ends the arguments, and the request with
  \<open>args_start\<close>, \<open>uri_ext\<close> and the flags as the function leaves them.
\<close>

record complex_result =
  cr_uri :: "byte list"
  cr_exten :: "byte list"
  cr_args :: "(nat \<times> nat) option"
  cr_request :: ngx_http_request_t

definition complex_init :: "byte list \<Rightarrow> nat \<Rightarrow> ngx_http_request_t \<Rightarrow> complex_uri_t" where
  "complex_init buf start r =
     \<lparr>cu_state = sw_usual, cu_quoted_state = sw_usual, cu_decoded = 0, cu_ch = buf ! start, cu_p = start + 1,
      cu_u = (if empty_path_in_uri r then [asc CHR ''/''] else []),
      cu_uri_ext = None, cu_args_start = None, cu_plus_in_uri = plus_in_uri r, cu_quoted_uri = quoted_uri r\<rparr>"

definition complex_request :: "complex_uri_t \<Rightarrow> ngx_http_request_t \<Rightarrow> ngx_http_request_t" where
  "complex_request s r =
     r\<lparr>uri_ext := None, args_start := cu_args_start s, plus_in_uri := cu_plus_in_uri s, quoted_uri := cu_quoted_uri s\<rparr>"

definition complex_exten :: "complex_uri_t \<Rightarrow> byte list" where
  "complex_exten s = (case cu_uri_ext s of None \<Rightarrow> [] | Some x \<Rightarrow> drop x (cu_u s))"

text \<open>The loop at the label \<open>args\<close>: the offset after the first \<open>#\<close> of the arguments, if there is one.\<close>

function args_hash :: "byte list \<Rightarrow> nat \<Rightarrow> nat \<Rightarrow> nat option" where
  "args_hash buf p e =
     (if p < e then (if buf ! p \<noteq> asc CHR ''#'' then args_hash buf (Suc p) e else Some (Suc p)) else None)"
  by pat_completeness auto
termination
  by (relation "measure (\<lambda>(buf, p, e). e - p)") auto

definition complex_args :: "byte list \<Rightarrow> nat \<Rightarrow> complex_uri_t \<Rightarrow> ngx_http_request_t \<Rightarrow> complex_result" where
  "complex_args buf e s r =
     (case (args_hash buf (cu_p s) e, cu_args_start s) of
        (Some q, Some a) \<Rightarrow>
          \<lparr>cr_uri = cu_u s, cr_exten = complex_exten s, cr_args = Some (a, q - 1),
           cr_request = (complex_request s r)\<lparr>args_start := None\<rparr>\<rparr>
      | _ \<Rightarrow>
          \<lparr>cr_uri = cu_u s, cr_exten = complex_exten s, cr_args = None, cr_request = complex_request s r\<rparr>)"

text \<open>
  The function as a whole: \<open>None\<close> would be a run that does not end, \<open>Some None\<close> is
  \<^verbatim>\<open>NGX_HTTP_PARSE_INVALID_REQUEST\<close>.
\<close>

definition ngx_http_parse_complex_uri ::
  "byte list \<Rightarrow> nat \<Rightarrow> nat \<Rightarrow> ngx_http_request_t \<Rightarrow> bool \<Rightarrow> complex_result option option" where
  "ngx_http_parse_complex_uri buf start e r merge_slashes =
     (case complex_loop buf e merge_slashes (complex_init buf start r) of
        None \<Rightarrow> None
      | Some CU_Invalid \<Rightarrow> Some None
      | Some (CU_Done s) \<Rightarrow>
          Some (Some \<lparr>cr_uri = cu_u s, cr_exten = complex_exten s, cr_args = None, cr_request = complex_request s r\<rparr>)
      | Some (CU_Args s) \<Rightarrow> Some (Some (complex_args buf e s r))
      | Some (CU_Next s) \<Rightarrow> Some None)"

text \<open>
  The size of the buffer that the caller, \<open>ngx_http_process_request_uri\<close> in
  \<^verbatim>\<open>src/src/http/ngx_http_request.c\<close>, allocates for the result: the length of the path in front of
  the arguments, with room for a slash when the request has no path.
\<close>

definition request_uri_len :: "nat \<Rightarrow> nat \<Rightarrow> ngx_http_request_t \<Rightarrow> nat" where
  "request_uri_len start e r =
     (let len = (case args_start r of Some a \<Rightarrow> a - 1 - start | None \<Rightarrow> e - start)
      in if empty_path_in_uri r then len + 1 else len)"

section \<open>Checking a URI\<close>

datatype uri_st = us_start | us_after_slash | us_check_uri | us_uri

definition uri_step :: "nat \<Rightarrow> byte \<Rightarrow> uri_st \<Rightarrow> ngx_http_request_t \<Rightarrow> (uri_st \<times> ngx_http_request_t) option" where
  "uri_step p ch st r =
     (case st of
        us_start \<Rightarrow> (if ch \<noteq> asc CHR ''/'' then None else Some (us_after_slash, r))
      | us_after_slash \<Rightarrow>
          (if tbl_bit usual ch then Some (us_check_uri, r)
           else if ch = asc CHR ''.'' then Some (us_uri, r\<lparr>complex_uri := True\<rparr>)
           else if ch = asc CHR ''%'' then Some (us_uri, r\<lparr>quoted_uri := True\<rparr>)
           else if ch = asc CHR ''/'' then Some (us_uri, r\<lparr>complex_uri := True\<rparr>)
           else if ch = asc CHR ''?'' then Some (us_uri, r\<lparr>args_start := Some (p + 1)\<rparr>)
           else if ch = asc CHR ''#'' then Some (us_uri, r\<lparr>complex_uri := True\<rparr>)
           else if ch = asc CHR ''+'' then Some (us_after_slash, r\<lparr>plus_in_uri := True\<rparr>)
           else if ch \<le> 0x20 \<or> ch = 0x7f then None
           else Some (us_check_uri, r))
      | us_check_uri \<Rightarrow>
          (if tbl_bit usual ch then Some (us_check_uri, r)
           else if ch = asc CHR ''/'' then Some (us_after_slash, r\<lparr>uri_ext := None\<rparr>)
           else if ch = asc CHR ''.'' then Some (us_check_uri, r\<lparr>uri_ext := Some (p + 1)\<rparr>)
           else if ch = asc CHR ''%'' then Some (us_uri, r\<lparr>quoted_uri := True\<rparr>)
           else if ch = asc CHR ''?'' then Some (us_uri, r\<lparr>args_start := Some (p + 1)\<rparr>)
           else if ch = asc CHR ''#'' then Some (us_uri, r\<lparr>complex_uri := True\<rparr>)
           else if ch = asc CHR ''+'' then Some (us_check_uri, r\<lparr>plus_in_uri := True\<rparr>)
           else if ch \<le> 0x20 \<or> ch = 0x7f then None
           else Some (us_check_uri, r))
      | us_uri \<Rightarrow>
          (if tbl_bit usual ch then Some (us_uri, r)
           else if ch = asc CHR ''#'' then Some (us_uri, r\<lparr>complex_uri := True\<rparr>)
           else if ch \<le> 0x20 \<or> ch = 0x7f then None
           else Some (us_uri, r)))"

fun uri_loop :: "nat \<Rightarrow> byte list \<Rightarrow> uri_st \<Rightarrow> ngx_http_request_t \<Rightarrow> ngx_http_request_t option" where
  "uri_loop p [] st r = Some r"
| "uri_loop p (ch # cs) st r = (case uri_step p ch st r of None \<Rightarrow> None | Some (st', r') \<Rightarrow> uri_loop (Suc p) cs st' r')"

text \<open>\<open>ngx_http_parse_uri\<close> on the bytes from \<open>uri_start\<close> to \<open>uri_end\<close>; \<open>None\<close> is \<^verbatim>\<open>NGX_ERROR\<close>.\<close>

definition ngx_http_parse_uri :: "nat \<Rightarrow> byte list \<Rightarrow> ngx_http_request_t \<Rightarrow> ngx_http_request_t option" where
  "ngx_http_parse_uri start uri r = uri_loop start uri us_start r"

section \<open>Reference: decode, then resolve\<close>

text \<open>The path in front of the first question mark or fragment mark, percent-decoded.\<close>

definition raw_path :: "byte list \<Rightarrow> byte list" where
  "raw_path xs = takeWhile (\<lambda>c. c \<noteq> asc CHR ''?'' \<and> c \<noteq> asc CHR ''#'') xs"

fun percent_decode :: "byte list \<Rightarrow> byte list option" where
  "percent_decode [] = Some []"
| "percent_decode (c # cs) =
     (if c \<noteq> asc CHR ''%'' then map_option ((#) c) (percent_decode cs)
      else case cs of
        h # l # cs' \<Rightarrow>
          (case (hex_digit h, hex_digit l) of
             (Some x, Some y) \<Rightarrow>
               (if push_bit 4 x + y = 0 then None else map_option ((#) (push_bit 4 x + y)) (percent_decode cs'))
           | _ \<Rightarrow> None)
      | _ \<Rightarrow> None)"

text \<open>The segments resolved so far and the segment being read.\<close>

type_synonym segments = "byte list list \<times> byte list"

definition close_segment :: "bool \<Rightarrow> segments \<Rightarrow> byte list list option" where
  "close_segment merge s =
     (case s of (done, cur) \<Rightarrow>
        if cur = [] then Some (if merge then done else done @ [[]])
        else if cur = bytes ''.'' then Some done
        else if cur = bytes ''..'' then (if done = [] then None else Some (butlast done))
        else Some (done @ [cur]))"

fun resolve :: "bool \<Rightarrow> segments \<Rightarrow> byte list \<Rightarrow> segments option" where
  "resolve merge (done, cur) [] =
     (if cur = bytes ''.'' then Some (done, [])
      else if cur = bytes ''..'' then (if done = [] then None else Some (butlast done, []))
      else Some (done, cur))"
| "resolve merge (done, cur) (c # cs) =
     (if c = asc CHR ''/''
      then (case close_segment merge (done, cur) of None \<Rightarrow> None | Some done' \<Rightarrow> resolve merge (done', []) cs)
      else resolve merge (done, cur @ [c]) cs)"

definition render :: "segments \<Rightarrow> byte list" where
  "render s = concat (map (\<lambda>x. asc CHR ''/'' # x) (fst s)) @ asc CHR ''/'' # snd s"

text \<open>The normal form of an absolute path (its first byte is the slash).\<close>

definition normalise :: "bool \<Rightarrow> byte list \<Rightarrow> byte list option" where
  "normalise merge path =
     (case percent_decode (tl path) of
        None \<Rightarrow> None
      | Some bs \<Rightarrow> map_option render (resolve merge ([], []) bs))"

section \<open>The machine against the reference\<close>

lemmas cu_defs = cu_fetch_def cu_put_def cu_back_def cu_goto_def cu_quote_def cu_args_def

definition cu_rest :: "byte list \<Rightarrow> nat \<Rightarrow> complex_uri_t \<Rightarrow> byte list" where
  "cu_rest buf e s = (if cu_p s \<le> e then cu_ch s # seg buf (cu_p s) e else [])"

lemma seg_Cons: "p < e \<Longrightarrow> e \<le> length buf \<Longrightarrow> seg buf p e = buf ! p # seg buf (Suc p) e"
  by (simp add: seg_def Cons_nth_drop_Suc [symmetric] Suc_diff_Suc [symmetric])

lemma cu_rest_next:
  assumes "cu_ch s = buf ! p" and "cu_p s = Suc p" and "p \<le> e" and "e \<le> length buf"
  shows "cu_rest buf e s = seg buf p e"
proof (cases "p = e")
  case True
  with assms show ?thesis by (simp add: cu_rest_def seg_def)
next
  case False
  with assms show ?thesis by (simp add: cu_rest_def seg_Cons)
qed

definition seg_state :: "byte list \<Rightarrow> complex_st" where
  "seg_state cur = (if cur = [] then sw_slash else if cur = bytes ''.'' then sw_dot
     else if cur = bytes ''..'' then sw_dot_dot else sw_usual)"

definition segs_ok :: "segments \<Rightarrow> bool" where
  "segs_ok g \<longleftrightarrow> (\<forall>x\<in>set (fst g). asc CHR ''/'' \<notin> set x) \<and> asc CHR ''/'' \<notin> set (snd g)"

text \<open>The bytes written so far are the rendered segments, and the state shows the current one.\<close>

definition cu_sim :: "segments \<Rightarrow> complex_uri_t \<Rightarrow> bool" where
  "cu_sim g s \<longleftrightarrow> cu_u s = render g \<and> cu_state s = seg_state (snd g) \<and> segs_ok g"

lemma render_Nil: "render (xs, []) = concat (map (\<lambda>x. asc CHR ''/'' # x) xs) @ [asc CHR ''/'']"
  by (simp add: render_def)

lemma render_snoc: "render (xs, ys @ [c]) = render (xs, ys) @ [c]"
  by (simp add: render_def)

lemma render_close: "render (xs @ [ys], []) = render (xs, ys) @ [asc CHR ''/'']"
  by (simp add: render_def)

lemma dropWhile_rev_seg:
  assumes "asc CHR ''/'' \<notin> set x"
  shows "dropWhile (\<lambda>c. c \<noteq> asc CHR ''/'') (rev x @ asc CHR ''/'' # ys) = asc CHR ''/'' # ys"
  using assms by (induction x arbitrary: ys rule: rev_induct) auto

lemma cu_back_up_render:
  assumes "segs_ok (xs, cur)" and "cu_u s = render (xs, bytes ''..'')"
  shows "cu_back_up s = (if xs = [] then None else Some (s\<lparr>cu_u := render (butlast xs, [])\<rparr>))"
proof (cases xs rule: rev_cases)
  case Nil
  with assms(2) show ?thesis by (simp add: cu_back_up_def render_def)
next
  case (snoc ys y)
  have "asc CHR ''/'' \<notin> set y" using assms(1) snoc by (simp add: segs_ok_def)
  moreover have "drop 3 (rev (cu_u s)) = rev y @ asc CHR ''/'' # rev (concat (map (\<lambda>x. asc CHR ''/'' # x) ys))"
    using assms(2) snoc by (simp add: render_def)
  ultimately have "dropWhile (\<lambda>c. c \<noteq> asc CHR ''/'') (drop 3 (rev (cu_u s))) =
      asc CHR ''/'' # rev (concat (map (\<lambda>x. asc CHR ''/'' # x) ys))"
    using dropWhile_rev_seg by metis
  then show ?thesis using snoc by (simp add: cu_back_up_def render_def)
qed

text \<open>A byte that is neither a percent sign nor the end of the path.\<close>

lemma seg_state_snoc:
  "seg_state (cur @ [c]) = (if c = asc CHR ''.''
     then (if cur = [] then sw_dot else if cur = bytes ''.'' then sw_dot_dot else sw_usual) else sw_usual)"
  by (auto simp: seg_state_def append_eq_Cons_conv Cons_eq_append_conv)

lemma complex_step_char:
  assumes "cu_sim (xs, cur) s" and "cu_ch s = c" and "c \<noteq> asc CHR ''/''"
    and "c \<notin> {asc CHR ''%'', asc CHR ''?'', asc CHR ''#''}"
  shows "\<exists>s'. complex_step buf merge s = CU_Next s' \<and> cu_sim (xs, cur @ [c]) s' \<and> cu_ch s' = buf ! cu_p s \<and> cu_p s' = Suc (cu_p s)"
proof -
  have u: "cu_u s = render (xs, cur)" and st: "cu_state s = seg_state cur" and ok: "segs_ok (xs, cur @ [c])"
    using assms(1,3) by (auto simp: cu_sim_def segs_ok_def)
  have t: "tbl_bit usual (asc CHR ''.'') = False" by (simp add: usual_iff)
  consider "cur = []" | "cur = bytes ''.''" | "cur = bytes ''..''" | "cur \<noteq> []" "cur \<noteq> bytes ''.''" "cur \<noteq> bytes ''..''" by blast
  then show ?thesis
  proof cases
    case 1
    with u st ok assms(2-4) t show ?thesis
      by (simp add: complex_step_def cu_slash_def cu_default_def cu_defs cu_sim_def seg_state_snoc render_snoc [where ys = "[]", simplified]
          seg_state_def Let_def)
  next
    case 2
    with u st ok assms(2-4) t show ?thesis
      by (simp add: complex_step_def cu_dot_def cu_default_def cu_defs cu_sim_def seg_state_def render_def Let_def)
  next
    case 3
    with u st ok assms(2-4) t show ?thesis
      by (simp add: complex_step_def cu_dot_dot_def cu_default_def cu_defs cu_sim_def seg_state_def render_def Let_def)
  next
    case 4
    then have "seg_state cur = sw_usual" by (simp add: seg_state_def)
    with 4 u st ok assms(2-4) t show ?thesis
      by (simp add: complex_step_def cu_usual_def cu_default_def cu_defs cu_sim_def seg_state_snoc render_snoc Let_def)
  qed
qed

lemma close_segment_ok:
  "segs_ok (xs, cur) \<Longrightarrow> close_segment merge (xs, cur) = Some ys \<Longrightarrow> segs_ok (ys, [])"
  by (auto simp: close_segment_def segs_ok_def split: if_splits dest: in_set_butlastD)

lemma complex_step_slash:
  assumes "cu_sim (xs, cur) s" and "cu_ch s = asc CHR ''/''"
  shows "case close_segment merge (xs, cur) of
      None \<Rightarrow> complex_step buf merge s = CU_Invalid
    | Some ys \<Rightarrow> (\<exists>s'. complex_step buf merge s = CU_Next s' \<and> cu_sim (ys, []) s' \<and> cu_ch s' = buf ! cu_p s \<and> cu_p s' = Suc (cu_p s))"
proof -
  have u: "cu_u s = render (xs, cur)" and st: "cu_state s = seg_state cur" and ok: "segs_ok (xs, cur)"
    using assms(1) by (auto simp: cu_sim_def)
  note ok' = close_segment_ok [OF ok, of merge]
  have t: "tbl_bit usual (asc CHR ''/'') = False" by (simp add: usual_iff)
  consider "cur = []" | "cur = bytes ''.''" | "cur = bytes ''..''" | "cur \<noteq> []" "cur \<noteq> bytes ''.''" "cur \<noteq> bytes ''..''" by blast
  then show ?thesis
  proof cases
    case 1
    with u st ok' assms(2) t show ?thesis
      by (simp add: complex_step_def cu_slash_def cu_defs cu_sim_def close_segment_def seg_state_def render_def Let_def)
  next
    case 2
    with u st ok' assms(2) t show ?thesis
      by (simp add: complex_step_def cu_dot_def cu_defs cu_sim_def close_segment_def seg_state_def render_def butlast_append Let_def)
  next
    case 3
    with cu_back_up_render [OF ok, of s] u st ok' assms(2) t show ?thesis
      by (simp add: complex_step_def cu_dot_dot_def cu_defs cu_sim_def close_segment_def seg_state_def Let_def)
  next
    case 4
    then have "seg_state cur = sw_usual" by (simp add: seg_state_def)
    with 4 u st ok' assms(2) t show ?thesis
      by (simp add: complex_step_def cu_usual_def cu_defs cu_sim_def close_segment_def seg_state_def render_def Let_def)
  qed
qed

text \<open>The end of the path.\<close>

definition complex_end :: "bool \<Rightarrow> segments \<Rightarrow> (complex_uri_t \<Rightarrow> complex_action) \<Rightarrow> complex_uri_t \<Rightarrow> complex_action" where
  "complex_end merge g ends s = (case resolve merge g [] of None \<Rightarrow> CU_Invalid | Some g' \<Rightarrow> ends (s\<lparr>cu_u := render g'\<rparr>))"

lemma complex_end_cases:
  assumes "cu_sim (xs, cur) s"
  shows "complex_end merge (xs, cur) ends s =
    (if cu_state s = sw_dot then ends (cu_back s)
     else if cu_state s = sw_dot_dot then (case cu_back_up s of None \<Rightarrow> CU_Invalid | Some s' \<Rightarrow> ends s')
     else ends s)"
proof -
  have u: "cu_u s = render (xs, cur)" and st: "cu_state s = seg_state cur" and ok: "segs_ok (xs, cur)"
    using assms by (auto simp: cu_sim_def)
  have same: "s\<lparr>cu_u := v\<rparr> = s" if "cu_u s = v" for v using that by auto
  with u st cu_back_up_render [OF ok, of s] show ?thesis
    by (auto simp: complex_end_def seg_state_def cu_back_def render_def butlast_append same)
qed

lemma complex_step_end:
  assumes "cu_sim (xs, cur) s"
  shows "cu_ch s = asc CHR ''?'' \<Longrightarrow> complex_step buf merge s = complex_end merge (xs, cur) (\<lambda>s. CU_Args (cu_args s)) s"
    and "cu_ch s = asc CHR ''#'' \<Longrightarrow> complex_step buf merge s = complex_end merge (xs, cur) CU_Done s"
    and "complex_finish s = complex_end merge (xs, cur) CU_Done s"
proof -
  have t: "\<not> tbl_bit usual (asc CHR ''?'')" "\<not> tbl_bit usual (asc CHR ''#'')" by (simp_all add: usual_iff)
  have st: "cu_state s \<in> {sw_usual, sw_slash, sw_dot, sw_dot_dot}"
    using assms by (auto simp: cu_sim_def seg_state_def)
  note defs = complex_step_def cu_usual_def cu_slash_def cu_dot_def cu_dot_dot_def complex_finish_def Let_def
  show "complex_step buf merge s = complex_end merge (xs, cur) (\<lambda>s. CU_Args (cu_args s)) s" if "cu_ch s = asc CHR ''?''"
    using t that st by (auto simp: complex_end_cases [OF assms] defs split: option.splits)
  show "complex_step buf merge s = complex_end merge (xs, cur) CU_Done s" if "cu_ch s = asc CHR ''#''"
    using t that st by (auto simp: complex_end_cases [OF assms] defs split: option.splits)
  show "complex_finish s = complex_end merge (xs, cur) CU_Done s"
    using st by (auto simp: complex_end_cases [OF assms] defs split: option.splits)
qed

text \<open>A percent escape: the two digits are read, then the decoded byte is either copied or given to the interrupted state.\<close>

lemma complex_step_percent:
  assumes "cu_sim (xs, cur) s" and "cu_ch s = asc CHR ''%''"
  shows "\<exists>s'. complex_step buf merge s = CU_Next s' \<and> cu_state s' = sw_quoted \<and> cu_quoted_state s' = seg_state cur
    \<and> cu_u s' = render (xs, cur) \<and> cu_ch s' = buf ! cu_p s \<and> cu_p s' = Suc (cu_p s)"
proof -
  have t: "\<not> tbl_bit usual (asc CHR ''%'')" by (simp add: usual_iff)
  have "cu_state s \<in> {sw_usual, sw_slash, sw_dot, sw_dot_dot}" "cu_state s = seg_state cur" "cu_u s = render (xs, cur)"
    using assms(1) by (auto simp: cu_sim_def seg_state_def)
  with t assms(2) show ?thesis
    by (auto simp: complex_step_def cu_usual_def cu_slash_def cu_dot_def cu_dot_dot_def Let_def cu_defs)
qed

lemma complex_step_quoted:
  assumes "cu_state s = sw_quoted"
  shows "case hex_digit (cu_ch s) of
      None \<Rightarrow> complex_step buf merge s = CU_Invalid
    | Some x \<Rightarrow> (\<exists>s'. complex_step buf merge s = CU_Next s' \<and> cu_state s' = sw_quoted_second
        \<and> cu_quoted_state s' = cu_quoted_state s \<and> cu_u s' = cu_u s \<and> cu_decoded s' = x
        \<and> cu_ch s' = buf ! cu_p s \<and> cu_p s' = Suc (cu_p s))"
  using assms by (simp add: complex_step_def cu_quoted_def hex_digit_def Let_def cu_defs)

lemma nibble_neq: "uint d mod 16 \<noteq> uint k mod 16 \<Longrightarrow> push_bit 4 x + d \<noteq> k" for x d k :: byte
proof
  assume n: "uint d mod 16 \<noteq> uint k mod 16" and k: "push_bit 4 x + d = k"
  have "uint (push_bit 4 x + d) = (uint x * 16 + uint d) mod 256"
    by (simp add: push_bit_eq_mult uint_word_ariths mod_simps)
  then have "uint k mod 16 = (uint x * 16 + uint d) mod 256 mod 16" using k by simp
  also have "\<dots> = uint d mod 16" by (simp add: mod_mod_cancel)
  finally show False using n by simp
qed

lemma low_nibbles:
  "asc CHR ''a'' \<le> c \<Longrightarrow> c \<le> asc CHR ''f'' \<Longrightarrow> uint (c - asc CHR ''a'' + 10) mod 16 \<notin> {0, 3, 5}"
  "asc CHR ''0'' \<le> c \<Longrightarrow> c \<le> asc CHR ''9'' \<Longrightarrow> uint (c - asc CHR ''0'') mod 16 \<noteq> 15"
  for c :: byte
  by (rule byte_exhaust [of "\<lambda>c. asc CHR ''a'' \<le> c \<longrightarrow> c \<le> asc CHR ''f'' \<longrightarrow> uint (c - asc CHR ''a'' + 10) mod 16 \<notin> {0, 3, 5}", rule_format];
      simp)
    (rule byte_exhaust [of "\<lambda>c. asc CHR ''0'' \<le> c \<longrightarrow> c \<le> asc CHR ''9'' \<longrightarrow> uint (c - asc CHR ''0'') mod 16 \<noteq> 15", rule_format];
      simp)

text \<open>The byte of an escape with a letter is none of the bytes that the digit branch tests for, and vice versa.\<close>

lemma decoded_not:
  assumes "asc CHR ''a'' \<le> c" and "c \<le> asc CHR ''f''"
  shows "push_bit 4 x + (c - asc CHR ''a'' + 10) \<noteq> asc CHR ''%''" "push_bit 4 x + (c - asc CHR ''a'' + 10) \<noteq> asc CHR ''#''"
    "push_bit 4 x + (c - asc CHR ''a'' + 10) \<noteq> 0"
  by (rule nibble_neq; use low_nibbles(1) [OF assms] in simp)+

lemma decoded_not_digit:
  "asc CHR ''0'' \<le> c \<Longrightarrow> c \<le> asc CHR ''9'' \<Longrightarrow> push_bit 4 x + (c - asc CHR ''0'') \<noteq> asc CHR ''?''"
  by (rule nibble_neq) (use low_nibbles(2) in simp)

text \<open>After the second digit: a byte that is copied, a zero byte, or a byte for the interrupted state.\<close>

lemma complex_step_quoted_second:
  assumes "cu_state s = sw_quoted_second"
  shows "case hex_digit (cu_ch s) of
      None \<Rightarrow> complex_step buf merge s = CU_Invalid
    | Some y \<Rightarrow>
       (let c = push_bit 4 (cu_decoded s) + y in
        if c = 0 then complex_step buf merge s = CU_Invalid
        else if c \<in> {asc CHR ''%'', asc CHR ''?'', asc CHR ''#''}
        then (\<exists>s'. complex_step buf merge s = CU_Next s' \<and> cu_state s' = sw_usual \<and> cu_u s' = cu_u s @ [c]
          \<and> cu_ch s' = buf ! cu_p s \<and> cu_p s' = Suc (cu_p s))
        else (\<exists>s'. complex_step buf merge s = CU_Next s' \<and> cu_state s' = cu_quoted_state s \<and> cu_u s' = cu_u s
          \<and> cu_ch s' = c \<and> cu_p s' = cu_p s))"
proof -
  let ?c = "cu_ch s" and ?l = "cu_ch s OR 0x20"
  consider (digit) "asc CHR ''0'' \<le> ?c" "?c \<le> asc CHR ''9''"
    | (letter) "\<not> (asc CHR ''0'' \<le> ?c \<and> ?c \<le> asc CHR ''9'')" "asc CHR ''a'' \<le> ?l" "?l \<le> asc CHR ''f''"
    | (other) "\<not> (asc CHR ''0'' \<le> ?c \<and> ?c \<le> asc CHR ''9'')" "\<not> (asc CHR ''a'' \<le> ?l \<and> ?l \<le> asc CHR ''f'')"
    by blast
  then show ?thesis
  proof cases
    case digit
    then have h: "hex_digit ?c = Some (?c - asc CHR ''0'')" by (simp add: hex_digit_def)
    show ?thesis
      using digit decoded_not_digit [OF digit, of "cu_decoded s"] assms unfolding h
      by (simp add: complex_step_def cu_quoted_second_def Let_def cu_defs)
  next
    case letter
    then have h: "hex_digit ?c = Some (?l - asc CHR ''a'' + 10)" by (auto simp: hex_digit_def)
    show ?thesis
      using letter decoded_not [OF letter(2,3), of "cu_decoded s"] assms unfolding h
      by (cases "asc CHR ''0'' \<le> ?c") (simp_all add: complex_step_def cu_quoted_second_def Let_def cu_defs)
  next
    case other
    then have h: "hex_digit ?c = None" by (simp add: hex_digit_def)
    show ?thesis
      using other assms unfolding h by (auto simp: complex_step_def cu_quoted_second_def Let_def)
  qed
qed

text \<open>
  What the loop returns, in terms of the reference: the bytes in front of the question mark or the
  fragment mark are decoded and resolved; the question mark is reported with the position after it.
\<close>

definition complex_outcome :: "byte list \<Rightarrow> nat \<Rightarrow> bool \<Rightarrow> segments \<Rightarrow> byte list \<Rightarrow> complex_action \<Rightarrow> bool" where
  "complex_outcome buf e merge g xs a =
     (case percent_decode (raw_path xs) of
        None \<Rightarrow> a = CU_Invalid
      | Some bs \<Rightarrow>
          (case resolve merge g bs of
             None \<Rightarrow> a = CU_Invalid
           | Some g' \<Rightarrow>
               (case drop (length (raw_path xs)) xs of
                  [] \<Rightarrow> (\<exists>s. a = CU_Done s \<and> cu_u s = render g')
                | c # cs \<Rightarrow>
                    (if c = asc CHR ''?''
                     then (\<exists>s. a = CU_Args s \<and> cu_u s = render g' \<and> cu_args_start s = Some (cu_p s) \<and> seg buf (cu_p s) e = cs)
                     else (\<exists>s. a = CU_Done s \<and> cu_u s = render g')))))"

lemma outcome_char:
  assumes "c \<noteq> asc CHR ''/''" and "c \<notin> {asc CHR ''%'', asc CHR ''?'', asc CHR ''#''}"
  shows "complex_outcome buf e merge (ys, cur) (c # cs) a = complex_outcome buf e merge (ys, cur @ [c]) cs a"
  using assms by (simp add: complex_outcome_def raw_path_def split: option.splits)

lemma outcome_slash:
  "complex_outcome buf e merge (ys, cur) (asc CHR ''/'' # cs) a =
    (case close_segment merge (ys, cur) of
       None \<Rightarrow> a = CU_Invalid
     | Some zs \<Rightarrow> complex_outcome buf e merge (zs, []) cs a)"
  by (auto simp: complex_outcome_def raw_path_def split: option.splits)

lemma hex_digit_Some: "hex_digit h = Some x \<Longrightarrow> h \<notin> {asc CHR ''?'', asc CHR ''#''}"
  by (auto simp: hex_digit_def)

text \<open>An escape in the input stands for its byte, whatever that is.\<close>

lemma outcome_escape:
  assumes "hex_digit h = Some x" and "hex_digit l = Some y" and "c = push_bit 4 x + y" and "c \<noteq> 0"
  shows "complex_outcome buf e merge (ys, cur) (asc CHR ''%'' # h # l # cs) a =
    (if c = asc CHR ''/''
     then (case close_segment merge (ys, cur) of None \<Rightarrow> a = CU_Invalid | Some zs \<Rightarrow> complex_outcome buf e merge (zs, []) cs a)
     else complex_outcome buf e merge (ys, cur @ [c]) cs a)"
proof -
  have rp: "raw_path (0x25 # h # l # cs) = 0x25 # h # l # raw_path cs"
    using hex_digit_Some [OF assms(1)] hex_digit_Some [OF assms(2)] by (simp add: raw_path_def)
  then show ?thesis
    using assms(4) by (auto simp: complex_outcome_def assms(1,2) assms(3) [symmetric] split: option.splits)
qed

lemma raw_path_Cons: "raw_path cs = h # hs \<Longrightarrow> \<exists>cs'. cs = h # cs' \<and> raw_path cs' = hs"
  by (cases cs) (auto simp: raw_path_def split: if_splits)

lemma percent_decode_Some:
  "percent_decode (0x25 # cs) = Some bs \<Longrightarrow>
   \<exists>h l cs' x y. cs = h # l # cs' \<and> hex_digit h = Some x \<and> hex_digit l = Some y \<and> push_bit 4 x + y \<noteq> 0"
  by (auto split: list.splits option.splits if_splits)

lemma outcome_bad_escape:
  "\<not> (\<exists>h l cs' x y. cs = h # l # cs' \<and> hex_digit h = Some x \<and> hex_digit l = Some y \<and> push_bit 4 x + y \<noteq> 0) \<Longrightarrow>
   complex_outcome buf e merge g (asc CHR ''%'' # cs) CU_Invalid"
proof (cases "percent_decode (0x25 # raw_path cs)")
  case None
  then show ?thesis by (simp add: complex_outcome_def raw_path_def)
next
  case (Some bs)
  assume bad: "\<not> (\<exists>h l cs' x y. cs = h # l # cs' \<and> hex_digit h = Some x \<and> hex_digit l = Some y \<and> push_bit 4 x + y \<noteq> 0)"
  from percent_decode_Some [OF Some] obtain h l ls x y where
    "raw_path cs = h # l # ls" "hex_digit h = Some x" "hex_digit l = Some y" "push_bit 4 x + y \<noteq> 0" by blast
  then show ?thesis using bad raw_path_Cons by metis
qed

lemma complex_loop_next:
  "cu_p s \<le> e \<Longrightarrow> complex_step buf merge s = CU_Next s' \<Longrightarrow> complex_loop buf e merge s = complex_loop buf e merge s'"
  by (subst complex_loop.simps) simp

lemma complex_loop_stop:
  "cu_p s \<le> e \<Longrightarrow> complex_step buf merge s = a \<Longrightarrow> (\<forall>s'. a \<noteq> CU_Next s') \<Longrightarrow> complex_loop buf e merge s = Some a"
  by (subst complex_loop.simps) (cases a; simp)

lemma complex_loop_end: "\<not> cu_p s \<le> e \<Longrightarrow> complex_loop buf e merge s = Some (complex_finish s)"
  by (subst complex_loop.simps) simp

text \<open>One ordinary byte, read from the input or decoded, and then the rest.\<close>

lemma complex_loop_char:
  assumes "cu_sim (ys, cur) s" and "cu_p s \<le> e" and "e \<le> length buf" and "cs = seg buf (cu_p s) e"
    and "cu_ch s \<notin> {asc CHR ''%'', asc CHR ''?'', asc CHR ''#''}"
    and IH: "\<And>s' g. cu_sim g s' \<Longrightarrow> cu_rest buf e s' = cs \<Longrightarrow> \<exists>a. complex_loop buf e merge s' = Some a \<and> complex_outcome buf e merge g cs a"
  shows "\<exists>a. complex_loop buf e merge s = Some a \<and>
    (if cu_ch s = asc CHR ''/''
     then (case close_segment merge (ys, cur) of None \<Rightarrow> a = CU_Invalid | Some zs \<Rightarrow> complex_outcome buf e merge (zs, []) cs a)
     else complex_outcome buf e merge (ys, cur @ [cu_ch s]) cs a)"
proof (cases "cu_ch s = asc CHR ''/''")
  case True
  note step = complex_step_slash [OF assms(1) True, where merge = merge and buf = buf]
  show ?thesis
  proof (cases "close_segment merge (ys, cur)")
    case None
    with step have "complex_step buf merge s = CU_Invalid" by simp
    with complex_loop_stop [OF assms(2) this] None True show ?thesis by simp
  next
    case (Some zs)
    with step obtain s' where s': "complex_step buf merge s = CU_Next s'" "cu_sim (zs, []) s'"
      "cu_ch s' = buf ! cu_p s" "cu_p s' = Suc (cu_p s)" by auto
    have "cu_rest buf e s' = cs" using cu_rest_next [OF s'(3,4) assms(2,3)] assms(4) by simp
    from IH [OF s'(2) this] complex_loop_next [OF assms(2) s'(1)] Some True show ?thesis by simp
  qed
next
  case False
  from complex_step_char [OF assms(1) refl False assms(5), where buf = buf and merge = merge] obtain s' where
    s': "complex_step buf merge s = CU_Next s'" "cu_sim (ys, cur @ [cu_ch s]) s'"
      "cu_ch s' = buf ! cu_p s" "cu_p s' = Suc (cu_p s)" by auto
  have "cu_rest buf e s' = cs" using cu_rest_next [OF s'(3,4) assms(2,3)] assms(4) by simp
  from IH [OF s'(2) this] complex_loop_next [OF assms(2) s'(1)] False show ?thesis by simp
qed

text \<open>A damaged escape is an error, wherever it ends.\<close>

lemma complex_loop_quoted_bad:
  assumes "cu_state s1 = sw_quoted" and "e \<le> length buf"
    and "\<not> (\<exists>h l cs' x y. cu_rest buf e s1 = h # l # cs' \<and> hex_digit h = Some x \<and> hex_digit l = Some y \<and> push_bit 4 x + y \<noteq> 0)"
  shows "complex_loop buf e merge s1 = Some CU_Invalid"
proof (cases "cu_p s1 \<le> e")
  case False
  then show ?thesis using assms(1) by (simp add: complex_loop_end complex_finish_def)
next
  case p1: True
  note step = complex_step_quoted [OF assms(1), of buf merge]
  show ?thesis
  proof (cases "hex_digit (cu_ch s1)")
    case None
    with step have "complex_step buf merge s1 = CU_Invalid" by simp
    from complex_loop_stop [OF p1 this] show ?thesis by simp
  next
    case (Some x)
    with step obtain s2 where s2: "complex_step buf merge s1 = CU_Next s2" "cu_state s2 = sw_quoted_second" "cu_decoded s2 = x"
      "cu_ch s2 = buf ! cu_p s1" "cu_p s2 = Suc (cu_p s1)" by auto
    have r2: "cu_rest buf e s2 = seg buf (cu_p s1) e" by (rule cu_rest_next [OF s2(4,5) p1 assms(2)])
    have "complex_loop buf e merge s2 = Some CU_Invalid"
    proof (cases "cu_p s2 \<le> e")
      case False
      then show ?thesis using s2(2) by (simp add: complex_loop_end complex_finish_def)
    next
      case p2: True
      then have "cu_rest buf e s1 = cu_ch s1 # cu_ch s2 # seg buf (cu_p s2) e"
        using r2 p1 by (simp add: cu_rest_def)
      with assms(3) Some have "hex_digit (cu_ch s2) = None \<or> (\<exists>y. hex_digit (cu_ch s2) = Some y \<and> push_bit 4 x + y = 0)"
        by (cases "hex_digit (cu_ch s2)") auto
      then have "complex_step buf merge s2 = CU_Invalid"
        using complex_step_quoted_second [OF s2(2), of buf merge] s2(3) by (auto simp: Let_def)
      from complex_loop_stop [OF p2 this] show ?thesis by simp
    qed
    with complex_loop_next [OF p1 s2(1)] show ?thesis by simp
  qed
qed

text \<open>The escape as a whole.\<close>

lemma complex_loop_escape:
  assumes "cu_sim (ys, cur) s" and "cu_p s \<le> e" and "e \<le> length buf" and "cu_ch s = asc CHR ''%''" and "cs = seg buf (cu_p s) e"
    and IH: "\<And>s' g h l cs'. cu_sim g s' \<Longrightarrow> cs = h # l # cs' \<Longrightarrow> cu_rest buf e s' = cs' \<Longrightarrow>
      \<exists>a. complex_loop buf e merge s' = Some a \<and> complex_outcome buf e merge g cs' a"
  shows "\<exists>a. complex_loop buf e merge s = Some a \<and> complex_outcome buf e merge (ys, cur) (asc CHR ''%'' # cs) a"
proof (cases "\<exists>h l cs' x y. cs = h # l # cs' \<and> hex_digit h = Some x \<and> hex_digit l = Some y \<and> push_bit 4 x + y \<noteq> 0")
  case True
  then obtain h l cs' x y where cs: "cs = h # l # cs'" "hex_digit h = Some x" "hex_digit l = Some y" "push_bit 4 x + y \<noteq> 0"
    by blast
  let ?c = "push_bit 4 x + y"
  from complex_step_percent [OF assms(1,4), of buf merge] obtain s1 where s1: "complex_step buf merge s = CU_Next s1"
    "cu_state s1 = sw_quoted" "cu_quoted_state s1 = seg_state cur" "cu_u s1 = render (ys, cur)"
    "cu_ch s1 = buf ! cu_p s" "cu_p s1 = Suc (cu_p s)" by blast
  have r1: "cu_rest buf e s1 = h # l # cs'" using cu_rest_next [OF s1(5,6) assms(2,3)] assms(5) cs(1) by simp
  then have p1: "cu_p s1 \<le> e" "cu_ch s1 = h" "seg buf (cu_p s1) e = l # cs'" by (auto simp: cu_rest_def split: if_splits)
  from complex_step_quoted [OF s1(2), of buf merge] p1(2) cs(2) obtain s2 where s2: "complex_step buf merge s1 = CU_Next s2"
    "cu_state s2 = sw_quoted_second" "cu_quoted_state s2 = seg_state cur" "cu_u s2 = render (ys, cur)" "cu_decoded s2 = x"
    "cu_ch s2 = buf ! cu_p s1" "cu_p s2 = Suc (cu_p s1)" using s1(3,4) by auto
  have r2: "cu_rest buf e s2 = l # cs'" using cu_rest_next [OF s2(6,7) p1(1) assms(3)] p1(3) by simp
  then have p2: "cu_p s2 \<le> e" "cu_ch s2 = l" "seg buf (cu_p s2) e = cs'" by (auto simp: cu_rest_def split: if_splits)
  note second = complex_step_quoted_second [OF s2(2), of buf merge]
  have loop2: "complex_loop buf e merge s = complex_loop buf e merge s2"
    using complex_loop_next [OF assms(2) s1(1)] complex_loop_next [OF p1(1) s2(1)] by simp
  have ok: "segs_ok (ys, cur)" using assms(1) by (simp add: cu_sim_def)
  show ?thesis
  proof (cases "?c \<in> {asc CHR ''%'', asc CHR ''?'', asc CHR ''#''}")
    case lit: True
    with second p2(2) cs(3,4) s2(5) obtain s3 where s3: "complex_step buf merge s2 = CU_Next s3" "cu_state s3 = sw_usual"
      "cu_u s3 = cu_u s2 @ [?c]" "cu_ch s3 = buf ! cu_p s2" "cu_p s3 = Suc (cu_p s2)" by (auto simp: Let_def)
    have "cu_sim (ys, cur @ [?c]) s3"
      using s3 s2(4) lit ok by (auto simp: cu_sim_def seg_state_snoc render_snoc segs_ok_def)
    moreover have "cu_rest buf e s3 = cs'" using cu_rest_next [OF s3(4,5) p2(1) assms(3)] p2(3) by simp
    ultimately obtain a where "complex_loop buf e merge s3 = Some a" "complex_outcome buf e merge (ys, cur @ [?c]) cs' a"
      using IH cs(1) by blast
    moreover have "?c \<noteq> asc CHR ''/''" using lit by auto
    ultimately show ?thesis
      using loop2 complex_loop_next [OF p2(1) s3(1)] outcome_escape [OF cs(2,3) refl cs(4)] cs(1) by simp
  next
    case False
    with second p2(2) cs(3,4) s2(5) obtain s3 where s3: "complex_step buf merge s2 = CU_Next s3" "cu_state s3 = seg_state cur"
      "cu_u s3 = cu_u s2" "cu_ch s3 = ?c" "cu_p s3 = cu_p s2" using s2(3) by (auto simp: Let_def)
    have sim: "cu_sim (ys, cur) s3" using s3 s2(4) ok by (simp add: cu_sim_def)
    obtain a where "complex_loop buf e merge s3 = Some a"
      "if ?c = asc CHR ''/''
       then (case close_segment merge (ys, cur) of None \<Rightarrow> a = CU_Invalid | Some zs \<Rightarrow> complex_outcome buf e merge (zs, []) cs' a)
       else complex_outcome buf e merge (ys, cur @ [?c]) cs' a"
    proof -
      have "cu_p s3 \<le> e" "cs' = seg buf (cu_p s3) e" "cu_ch s3 \<notin> {asc CHR ''%'', asc CHR ''?'', asc CHR ''#''}"
        using False s3(4,5) p2(1,3) by simp_all
      from complex_loop_char [OF sim this(1) assms(3) this(2,3), of merge, unfolded s3(4)] IH cs(1) that show ?thesis by blast
    qed
    with loop2 complex_loop_next [OF p2(1) s3(1)] outcome_escape [OF cs(2,3) refl cs(4), of buf e merge ys cur cs' a] cs(1)
    show ?thesis by auto
  qed
next
  case bad: False
  note out = outcome_bad_escape [OF bad, of buf e merge "(ys, cur)"]
  from complex_step_percent [OF assms(1,4), of buf merge] obtain s1 where s1: "complex_step buf merge s = CU_Next s1"
    "cu_state s1 = sw_quoted" "cu_ch s1 = buf ! cu_p s" "cu_p s1 = Suc (cu_p s)" by blast
  have r1: "cu_rest buf e s1 = cs" using cu_rest_next [OF s1(3,4) assms(2,3)] assms(5) by simp
  have "complex_loop buf e merge s1 = Some CU_Invalid"
    using complex_loop_quoted_bad [OF s1(2) assms(3)] r1 bad by simp
  with out complex_loop_next [OF assms(2) s1(1)] show ?thesis by simp
qed


lemma complex_loop_outcome:
  assumes "cu_sim g s" and "e \<le> length buf"
  shows "\<exists>a. complex_loop buf e merge s = Some a \<and> complex_outcome buf e merge g (cu_rest buf e s) a"
  using assms(1)
proof (induction "length (cu_rest buf e s)" arbitrary: g s rule: less_induct)
  case less
  obtain ys cur where g: "g = (ys, cur)" by (cases g)
  have sim: "cu_sim (ys, cur) s" using less.prems g by simp
  show ?case
  proof (cases "cu_p s \<le> e")
    case False
    then have "cu_rest buf e s = []" by (simp add: cu_rest_def)
    then show ?thesis
      using complex_step_end(3) [OF sim, of merge] complex_loop_end [OF False, of buf merge] g
      by (auto simp: complex_outcome_def raw_path_def complex_end_def split: option.splits)
  next
    case True
    let ?cs = "seg buf (cu_p s) e"
    have rest: "cu_rest buf e s = cu_ch s # ?cs" using True by (simp add: cu_rest_def)
    have IH: "\<exists>a. complex_loop buf e merge s' = Some a \<and> complex_outcome buf e merge g' cs' a"
      if "cu_sim g' s'" "cu_rest buf e s' = cs'" "length cs' \<le> length ?cs" for s' g' cs'
      using less.hyps [of s' g'] rest that by simp
    consider "cu_ch s = asc CHR ''?''" | "cu_ch s = asc CHR ''#''" | "cu_ch s = asc CHR ''%''"
      | "cu_ch s \<notin> {asc CHR ''%'', asc CHR ''?'', asc CHR ''#''}" by blast
    then show ?thesis
    proof cases
      case 1
      with complex_loop_stop [OF True refl, of buf merge] complex_step_end(1) [OF sim 1, of buf merge] rest g
      show ?thesis
        by (auto simp: complex_outcome_def raw_path_def complex_end_def cu_args_def split: option.splits)
    next
      case 2
      with complex_loop_stop [OF True refl, of buf merge] complex_step_end(2) [OF sim 2, of buf merge] rest g
      show ?thesis
        by (auto simp: complex_outcome_def raw_path_def complex_end_def split: option.splits)
    next
      case 3
      have "\<exists>a. complex_loop buf e merge s = Some a \<and> complex_outcome buf e merge (ys, cur) (asc CHR ''%'' # ?cs) a"
        using IH by (intro complex_loop_escape [OF sim True assms(2) 3 refl]) simp
      with 3 rest g show ?thesis by simp
    next
      case 4
      have "\<exists>a. complex_loop buf e merge s = Some a \<and>
        (if cu_ch s = asc CHR ''/''
         then (case close_segment merge (ys, cur) of None \<Rightarrow> a = CU_Invalid | Some zs \<Rightarrow> complex_outcome buf e merge (zs, []) ?cs a)
         else complex_outcome buf e merge (ys, cur @ [cu_ch s]) ?cs a)"
        using IH by (intro complex_loop_char [OF sim True assms(2) refl 4]) simp
      with 4 rest g show ?thesis
        using outcome_char [of "cu_ch s" buf e merge ys cur ?cs] outcome_slash [of buf e merge ys cur ?cs]
        by (cases "cu_ch s = asc CHR ''/''") auto
    qed
  qed
qed

section \<open>Normal forms\<close>

fun split_slash :: "byte list \<Rightarrow> byte list list" where
  "split_slash [] = [[]]"
| "split_slash (c # cs) =
     (if c = asc CHR ''/'' then [] # split_slash cs
      else case split_slash cs of [] \<Rightarrow> [[c]] | x # xs \<Rightarrow> (c # x) # xs)"

lemma split_slash_append: "asc CHR ''/'' \<notin> set x \<Longrightarrow> split_slash (x @ asc CHR ''/'' # ys) = x # split_slash ys"
  by (induction x) auto

lemma split_slash_none: "asc CHR ''/'' \<notin> set x \<Longrightarrow> split_slash x = [x]"
  by (induction x) auto

lemma split_slash_concat:
  "\<forall>x\<in>set xs. asc CHR ''/'' \<notin> set x \<Longrightarrow> asc CHR ''/'' \<notin> set y \<Longrightarrow>
   split_slash (y @ concat (map (\<lambda>x. asc CHR ''/'' # x) xs)) = y # xs"
proof (induction xs arbitrary: y)
  case Nil
  then show ?case by (simp add: split_slash_none)
next
  case (Cons x xs)
  then show ?case using split_slash_append [of y "x @ concat (map (\<lambda>x. asc CHR ''/'' # x) xs)"] by simp
qed

lemma split_slash_render:
  assumes "segs_ok (xs, cur)"
  shows "split_slash (render (xs, cur)) = [] # xs @ [cur]"
proof -
  have "render (xs, cur) = [] @ concat (map (\<lambda>x. asc CHR ''/'' # x) (xs @ [cur]))" by (simp add: render_def)
  then show ?thesis
    using assms split_slash_concat [of "xs @ [cur]" "[]"] by (auto simp: segs_ok_def)
qed

text \<open>No resolved segment is \<open>.\<close> or \<open>..\<close>, and with merged slashes none is empty.\<close>

definition resolved :: "bool \<Rightarrow> byte list list \<Rightarrow> bool" where
  "resolved merge xs \<longleftrightarrow> (\<forall>x\<in>set xs. x \<noteq> bytes ''.'' \<and> x \<noteq> bytes ''..'' \<and> (merge \<longrightarrow> x \<noteq> []))"

lemma resolved_butlast: "resolved merge xs \<Longrightarrow> resolved merge (butlast xs)"
  unfolding resolved_def by (blast dest: in_set_butlastD)

lemma resolved_snoc:
  "resolved merge (xs @ [x]) \<longleftrightarrow> resolved merge xs \<and> x \<noteq> bytes ''.'' \<and> x \<noteq> bytes ''..'' \<and> (merge \<longrightarrow> x \<noteq> [])"
  by (auto simp: resolved_def)

lemma close_segment_resolved:
  "resolved merge xs \<Longrightarrow> close_segment merge (xs, cur) = Some ys \<Longrightarrow> resolved merge ys"
  using resolved_butlast [of merge xs] by (auto simp: close_segment_def resolved_snoc split: if_splits)

lemma resolve_resolved:
  "resolved merge xs \<Longrightarrow> segs_ok (xs, cur) \<Longrightarrow> resolve merge (xs, cur) bs = Some (ys, z) \<Longrightarrow>
   resolved merge ys \<and> segs_ok (ys, z) \<and> z \<noteq> bytes ''.'' \<and> z \<noteq> bytes ''..''"
proof (induction bs arbitrary: xs cur)
  case Nil
  then show ?case
    using resolved_butlast [of merge xs] by (auto simp: segs_ok_def split: if_splits dest: in_set_butlastD)
next
  case (Cons c bs)
  show ?case
  proof (cases "c = asc CHR ''/''")
    case True
    with Cons.prems obtain zs where zs: "close_segment merge (xs, cur) = Some zs" "resolve merge (zs, []) bs = Some (ys, z)"
      by (auto split: option.splits)
    from Cons.IH [OF close_segment_resolved [OF Cons.prems(1) zs(1)] close_segment_ok [OF Cons.prems(2) zs(1)] zs(2)]
    show ?thesis .
  next
    case False
    with Cons.prems have "segs_ok (xs, cur @ [c])" by (auto simp: segs_ok_def)
    from Cons.IH [OF Cons.prems(1) this] Cons.prems(3) False show ?thesis by simp
  qed
qed

lemma length_render_butlast: "xs \<noteq> [] \<Longrightarrow> length (render (butlast xs, [])) \<le> length (render (xs, cur))"
  by (cases xs rule: rev_cases) (auto simp: render_def)

lemma close_segment_length:
  "close_segment merge (xs, cur) = Some ys \<Longrightarrow> length (render (ys, [])) \<le> length (render (xs, cur)) + 1"
  using length_render_butlast [of xs cur] by (auto simp: close_segment_def render_def split: if_splits)

lemma resolve_length:
  "resolve merge (xs, cur) bs = Some g \<Longrightarrow> length (render g) \<le> length (render (xs, cur)) + length bs"
proof (induction bs arbitrary: xs cur)
  case Nil
  then show ?case
    using length_render_butlast [of xs cur] by (auto simp: render_def split: if_splits)
next
  case (Cons c bs)
  show ?case
  proof (cases "c = asc CHR ''/''")
    case True
    with Cons.prems obtain zs where zs: "close_segment merge (xs, cur) = Some zs" "resolve merge (zs, []) bs = Some g"
      by (auto split: option.splits)
    from Cons.IH [OF zs(2)] close_segment_length [OF zs(1)] show ?thesis by simp
  next
    case False
    with Cons.prems Cons.IH [of xs "cur @ [c]"] show ?thesis by (simp add: render_snoc)
  qed
qed

lemma percent_decode_length: "percent_decode xs = Some bs \<Longrightarrow> length bs \<le> length xs"
proof (induction xs arbitrary: bs rule: percent_decode.induct)
  case 1
  then show ?case by simp
next
  case (2 c cs)
  show ?case
  proof (cases "c = asc CHR ''%''")
    case False
    with "2.prems" "2.IH"(1) show ?thesis by fastforce
  next
    case True
    with "2.prems" obtain h l cs' x y bs' where cs: "cs = h # l # cs'" "hex_digit h = Some x" "hex_digit l = Some y"
      "push_bit 4 x + y \<noteq> 0" "percent_decode cs' = Some bs'" "bs = (push_bit 4 x + y) # bs'"
      by (auto split: list.splits option.splits if_splits)
    from True "2.IH"(2) [OF _ cs(1) _ refl] cs(2-6) have "length bs' \<le> length cs'" by auto
    with cs(1,6) show ?thesis by simp
  qed
qed

text \<open>A plain path is its own normal form.\<close>

lemma percent_decode_plain: "asc CHR ''%'' \<notin> set xs \<Longrightarrow> percent_decode xs = Some xs"
  by (induction xs) auto

lemma plain_from_no_percent: "plain_from s xs \<Longrightarrow> asc CHR ''%'' \<notin> set xs"
  by (induction xs arbitrary: s) (auto simp: path_char_def)

lemma resolve_plain:
  "plain_from (cur = []) bs \<Longrightarrow> cur = [] \<or> hd cur \<noteq> asc CHR ''.'' \<Longrightarrow>
   \<exists>g. resolve merge (xs, cur) bs = Some g \<and> render g = render (xs, cur) @ bs"
proof (induction bs arbitrary: xs cur)
  case Nil
  then show ?case by auto
next
  case (Cons c bs)
  show ?case
  proof (cases "c = asc CHR ''/''")
    case True
    with Cons.prems have "close_segment merge (xs, cur) = Some (xs @ [cur])"
      by (auto simp: close_segment_def)
    with Cons.IH [of "[]" "xs @ [cur]"] Cons.prems True show ?thesis by (simp add: render_close)
  next
    case False
    have "cur @ [c] = [] \<or> hd (cur @ [c]) \<noteq> asc CHR ''.''" using Cons.prems by (cases cur) auto
    with Cons.IH [of "cur @ [c]" xs] Cons.prems False show ?thesis by (simp add: render_snoc)
  qed
qed

lemma normalise_plain:
  assumes "plain_path path"
  shows "normalise merge path = Some path"
proof -
  obtain rest where path: "path = asc CHR ''/'' # rest" "plain_from True rest"
    using assms by (cases path) (auto simp: plain_path_def)
  from resolve_plain [of "[]" rest merge "[]"] path(2) obtain g where
    "resolve merge ([], []) rest = Some g" "render g = asc CHR ''/'' # rest" by (auto simp: render_def)
  with path percent_decode_plain [OF plain_from_no_percent [OF path(2)]] show ?thesis by (simp add: normalise_def)
qed

section \<open>Reachable states and the output buffer\<close>

inductive complex_reach :: "byte list \<Rightarrow> nat \<Rightarrow> bool \<Rightarrow> complex_uri_t \<Rightarrow> complex_uri_t \<Rightarrow> bool"
  for buf e merge s0 where
  complex_reach_start: "complex_reach buf e merge s0 s0"
| complex_reach_step: "complex_reach buf e merge s0 s \<Longrightarrow> cu_p s \<le> e \<Longrightarrow> complex_step buf merge s = CU_Next s' \<Longrightarrow>
    complex_reach buf e merge s0 s'"

text \<open>The byte in \<open>ch\<close> has been read but not written yet.\<close>

definition cu_bound :: "nat \<Rightarrow> complex_uri_t \<Rightarrow> bool" where
  "cu_bound n s \<longleftrightarrow> length (cu_u s) + 1 + n \<le> cu_p s + 1"

lemma cu_back_up_length: "cu_back_up s = Some s' \<Longrightarrow> length (cu_u s') \<le> length (cu_u s) \<and> cu_p s' = cu_p s"
proof -
  assume s': "cu_back_up s = Some s'"
  have "length (dropWhile (\<lambda>c. c \<noteq> asc CHR ''/'') (drop 3 (rev (cu_u s)))) \<le> length (cu_u s)"
    using length_dropWhile_le [of "\<lambda>c. c \<noteq> asc CHR ''/''" "drop 3 (rev (cu_u s))"] by simp
  with s' show ?thesis by (auto simp: cu_back_up_def split: list.splits)
qed

lemma complex_step_bound:
  "cu_bound n s \<Longrightarrow> complex_step buf merge s = CU_Next s' \<Longrightarrow> cu_bound n s' \<and> cu_p s' \<le> Suc (cu_p s)"
  by (cases "cu_state s")
    (auto simp: complex_step_def cu_usual_def cu_slash_def cu_dot_def cu_dot_dot_def cu_quoted_def cu_quoted_second_def
      cu_default_def Let_def cu_defs cu_bound_def split: if_splits option.splits dest!: cu_back_up_length)

lemma complex_reach_bound:
  "complex_reach buf e merge s0 s \<Longrightarrow> cu_bound n s0 \<Longrightarrow> cu_p s0 \<le> Suc e \<Longrightarrow> cu_bound n s \<and> cu_p s \<le> Suc e"
  by (induction rule: complex_reach.induct) (auto dest: complex_step_bound)

text \<open>
  The mark in front of the arguments, where the request has some: the machine reads it and then stops.
\<close>

definition args_mark :: "byte list \<Rightarrow> nat \<Rightarrow> nat \<Rightarrow> ngx_http_request_t \<Rightarrow> bool" where
  "args_mark buf start e r \<longleftrightarrow>
     (case args_start r of None \<Rightarrow> start < e | Some a \<Rightarrow> start < a \<and> a \<le> e \<and> buf ! (a - 1) = asc CHR ''?'')"

lemma complex_step_mark: "cu_ch s = asc CHR ''?'' \<Longrightarrow> complex_step buf merge s \<noteq> CU_Next s'"
  by (cases "cu_state s")
    (auto simp: complex_step_def cu_usual_def cu_slash_def cu_dot_def cu_dot_dot_def cu_quoted_def cu_quoted_second_def
      Let_def usual_iff split: option.splits)

lemma complex_step_fetch:
  "complex_step buf merge s = CU_Next s' \<Longrightarrow> cu_p s' = cu_p s \<or> cu_p s' = Suc (cu_p s) \<and> cu_ch s' = buf ! cu_p s"
  by (cases "cu_state s")
    (auto simp: complex_step_def cu_usual_def cu_slash_def cu_dot_def cu_dot_dot_def cu_quoted_def cu_quoted_second_def
      cu_default_def Let_def cu_defs split: if_splits option.splits dest!: cu_back_up_length)

lemma complex_reach_mark:
  assumes "complex_reach buf e merge s0 s" "buf ! (a - 1) = asc CHR ''?''"
    and "cu_p s0 \<le> a" "cu_p s0 = a \<Longrightarrow> cu_ch s0 = asc CHR ''?''"
  shows "cu_p s \<le> a \<and> (cu_p s = a \<longrightarrow> cu_ch s = asc CHR ''?'')"
  using assms
proof (induction rule: complex_reach.induct)
  case (complex_reach_step s s')
  then have s: "cu_p s \<le> a" "cu_p s = a \<longrightarrow> cu_ch s = asc CHR ''?''" by auto
  moreover have "cu_p s \<noteq> a" using s complex_step_mark complex_reach_step.hyps(3) by blast
  ultimately have lt: "cu_p s < a" by simp
  from complex_step_fetch [OF complex_reach_step.hyps(3)] show ?case
  proof
    assume "cu_p s' = Suc (cu_p s) \<and> cu_ch s' = buf ! cu_p s"
    then show ?thesis using lt assms(2) by auto
  qed (use lt in simp)
qed auto

lemma complex_reach_room:
  assumes "complex_reach buf e merge (complex_init buf start r) s" "args_mark buf start e r"
  shows "length (cu_u s) \<le> request_uri_len start e r \<and> cu_p s \<le> e + 1"
proof -
  let ?k = "if empty_path_in_uri r then start else start + 1"
  have "start \<le> e" using assms(2) by (auto simp: args_mark_def split: option.splits)
  then have b: "cu_bound ?k s" "cu_p s \<le> Suc e"
    using complex_reach_bound [OF assms(1), of ?k] by (simp_all add: cu_bound_def complex_init_def)
  have "cu_p s \<le> a \<and> start < a" if a: "args_start r = Some a" for a
  proof -
    have m: "start < a" "buf ! (a - 1) = asc CHR ''?''" using assms(2) a by (simp_all add: args_mark_def)
    have "buf ! start = asc CHR ''?''" if "Suc start = a" using m(2) that by auto
    then show ?thesis using complex_reach_mark [OF assms(1) m(2)] m(1) by (simp add: complex_init_def)
  qed
  then show ?thesis using b \<open>start \<le> e\<close>
    by (cases "empty_path_in_uri r"; cases "args_start r") (fastforce simp: cu_bound_def request_uri_len_def)+
qed

section \<open>Arguments\<close>

lemma args_hash_spec:
  assumes "e \<le> length buf"
  shows "case args_hash buf p e of
      Some q \<Rightarrow> p < q \<and> q \<le> e \<and> seg buf p (q - 1) = takeWhile (\<lambda>c. c \<noteq> asc CHR ''#'') (seg buf p e)
    | None \<Rightarrow> seg buf p e = takeWhile (\<lambda>c. c \<noteq> asc CHR ''#'') (seg buf p e)"
  using assms
proof (induction buf p e rule: args_hash.induct)
  case (1 buf p e)
  show ?case
  proof (cases "p < e")
    case False
    then show ?thesis using "1.prems" by (simp add: seg_def)
  next
    case True
    note cons = seg_Cons [OF True "1.prems"]
    show ?thesis
    proof (cases "buf ! p = asc CHR ''#''")
      case h: True
      then show ?thesis using True cons by (simp add: seg_def)
    next
      case h: False
      with "1.IH" [OF True h] True "1.prems" have IH: "case args_hash buf (Suc p) e of
          Some q \<Rightarrow> Suc p < q \<and> q \<le> e \<and> seg buf (Suc p) (q - 1) = takeWhile (\<lambda>c. c \<noteq> asc CHR ''#'') (seg buf (Suc p) e)
        | None \<Rightarrow> seg buf (Suc p) e = takeWhile (\<lambda>c. c \<noteq> asc CHR ''#'') (seg buf (Suc p) e)" by simp
      have rec: "args_hash buf p e = args_hash buf (Suc p) e" using True h by simp
      show ?thesis
      proof (cases "args_hash buf (Suc p) e")
        case None
        then show ?thesis using IH rec cons h by simp
      next
        case (Some q)
        then have "seg buf p (q - 1) = buf ! p # seg buf (Suc p) (q - 1)"
          using IH "1.prems" by (intro seg_Cons) auto
        then show ?thesis using Some IH rec cons h by simp
      qed
    qed
  qed
qed

declare args_hash.simps [simp del]

text \<open>The arguments that the caller takes from the result: up to the fragment, or up to the end of the URI.\<close>

definition complex_query :: "byte list \<Rightarrow> nat \<Rightarrow> complex_result \<Rightarrow> byte list" where
  "complex_query buf e cr =
     (case cr_args cr of
        Some (a, b) \<Rightarrow> seg buf a b
      | None \<Rightarrow> (case args_start (cr_request cr) of Some a \<Rightarrow> seg buf a e | None \<Rightarrow> []))"

definition uri_query :: "byte list \<Rightarrow> byte list" where
  "uri_query uri =
     (case drop (length (raw_path uri)) uri of
        [] \<Rightarrow> []
      | c # cs \<Rightarrow> if c = asc CHR ''?'' then takeWhile (\<lambda>c. c \<noteq> asc CHR ''#'') cs else [])"

lemma complex_query_args:
  assumes "cu_args_start s = Some (cu_p s)" and "e \<le> length buf"
  shows "complex_query buf e (complex_args buf e s r) = takeWhile (\<lambda>c. c \<noteq> asc CHR ''#'') (seg buf (cu_p s) e)"
    and "cr_uri (complex_args buf e s r) = cu_u s"
  using args_hash_spec [OF assms(2), of "cu_p s"] assms(1)
  by (auto simp: complex_args_def complex_query_def complex_request_def split: option.splits)

lemma complex_step_args_start:
  "complex_step buf merge s = CU_Next s' \<Longrightarrow> cu_args_start s' = cu_args_start s"
  "complex_step buf merge s = CU_Done s' \<Longrightarrow> cu_args_start s' = cu_args_start s"
  "complex_finish s = CU_Done s' \<Longrightarrow> cu_args_start s' = cu_args_start s"
  by (cases "cu_state s";
      auto simp: complex_step_def cu_usual_def cu_slash_def cu_dot_def cu_dot_dot_def cu_quoted_def cu_quoted_second_def
      cu_default_def Let_def cu_defs cu_back_up_def complex_finish_def split: if_splits option.splits list.splits)+

lemma complex_loop_args_start:
  assumes "complex_loop buf e merge s = Some a"
  shows "a = CU_Done s' \<longrightarrow> cu_args_start s' = cu_args_start s"
proof (rule complex_loop.raw_induct [OF _ assms, where P = "\<lambda>buf e merge s a. a = CU_Done s' \<longrightarrow> cu_args_start s' = cu_args_start s"])
  fix loop buf e merge s a
  assume ih: "\<And>buf e merge s a. loop buf e merge s = Some a \<Longrightarrow> a = CU_Done s' \<longrightarrow> cu_args_start s' = cu_args_start s"
    and eq: "(if cu_p s \<le> e then case complex_step buf merge s of CU_Next x \<Rightarrow> loop buf e merge x
            | CU_Args x \<Rightarrow> Some (CU_Args x) | CU_Done x \<Rightarrow> Some (CU_Done x) | CU_Invalid \<Rightarrow> Some CU_Invalid
          else Some (complex_finish s)) = Some a"
  show "a = CU_Done s' \<longrightarrow> cu_args_start s' = cu_args_start s"
  proof (cases "cu_p s \<le> e")
    case False
    then show ?thesis using eq complex_step_args_start(3) by auto
  next
    case True
    show ?thesis
    proof (cases "complex_step buf merge s")
      case (CU_Next x)
      with True eq ih [of buf e merge x a] complex_step_args_start(1) [OF CU_Next] show ?thesis by simp
    qed (use True eq complex_step_args_start(2) [of buf merge s] in auto)
  qed
qed

text \<open>The run of the function on a path with a leading slash.\<close>

lemma complex_init_sim:
  assumes "buf ! start = asc CHR ''/''" and "\<not> empty_path_in_uri r"
  shows "\<exists>s. complex_step buf merge (complex_init buf start r) = CU_Next s \<and> cu_sim ([], []) s
    \<and> cu_ch s = buf ! Suc start \<and> cu_p s = Suc (Suc start) \<and> cu_args_start s = None"
  using assms
  by (simp add: complex_init_def complex_step_def cu_usual_def usual_iff cu_defs cu_sim_def seg_state_def render_def segs_ok_def)

lemma raw_path_slash: "raw_path (asc CHR ''/'' # xs) = asc CHR ''/'' # raw_path xs"
  by (simp add: raw_path_def)

lemma uri_query_slash: "uri_query (asc CHR ''/'' # xs) = uri_query xs"
  unfolding uri_query_def raw_path_slash by simp

lemma complex_query_done:
  "cu_args_start s = None \<Longrightarrow>
   complex_query buf e \<lparr>cr_uri = u, cr_exten = x, cr_args = None, cr_request = complex_request s r\<rparr> = []"
  by (simp add: complex_query_def complex_request_def)

text \<open>The result of the function for each outcome of its loop.\<close>

lemma complex_outcome_result:
  assumes "complex_outcome buf e merge g xs a" and "e \<le> length buf"
    and "complex_loop buf e merge (complex_init buf start r) = Some a" and "\<And>s. a = CU_Done s \<Longrightarrow> cu_args_start s = None"
  shows "case percent_decode (raw_path xs) of
      None \<Rightarrow> ngx_http_parse_complex_uri buf start e r merge = Some None
    | Some bs \<Rightarrow> (case resolve merge g bs of
        None \<Rightarrow> ngx_http_parse_complex_uri buf start e r merge = Some None
      | Some g' \<Rightarrow> (\<exists>cr. ngx_http_parse_complex_uri buf start e r merge = Some (Some cr) \<and> cr_uri cr = render g'
          \<and> complex_query buf e cr = uri_query xs))"
proof (cases a)
  case (CU_Next s)
  with assms(1) show ?thesis by (auto simp: complex_outcome_def split: option.splits list.splits if_splits)
next
  case (CU_Args s)
  with assms show ?thesis
    by (auto simp: complex_outcome_def ngx_http_parse_complex_uri_def complex_query_args uri_query_def
        split: option.splits list.splits if_splits)
next
  case (CU_Done s)
  with assms show ?thesis
    by (auto simp: complex_outcome_def ngx_http_parse_complex_uri_def complex_query_done uri_query_def
        split: option.splits list.splits if_splits)
next
  case CU_Invalid
  with assms show ?thesis
    by (auto simp: complex_outcome_def ngx_http_parse_complex_uri_def split: option.splits list.splits if_splits)
qed

lemma complex_uri_spec:
  assumes "start < e" and "e \<le> length buf" and "buf ! start = asc CHR ''/''" and "\<not> empty_path_in_uri r"
  shows "case normalise merge (raw_path (seg buf start e)) of
      None \<Rightarrow> ngx_http_parse_complex_uri buf start e r merge = Some None
    | Some u \<Rightarrow> (\<exists>cr. ngx_http_parse_complex_uri buf start e r merge = Some (Some cr) \<and> cr_uri cr = u
        \<and> complex_query buf e cr = uri_query (seg buf start e))"
proof -
  let ?s0 = "complex_init buf start r" and ?xs = "seg buf (Suc start) e"
  obtain s where s: "complex_step buf merge ?s0 = CU_Next s" "cu_sim ([], []) s" "cu_ch s = buf ! Suc start"
    "cu_p s = Suc (Suc start)" "cu_args_start s = None" using complex_init_sim [OF assms(3,4)] by blast
  have rest: "cu_rest buf e s = ?xs" using cu_rest_next [OF s(3,4)] assms(1,2) by simp
  obtain a where a: "complex_loop buf e merge s = Some a" "complex_outcome buf e merge ([], []) ?xs a"
    using complex_loop_outcome [OF s(2) assms(2), of merge] rest by auto
  have "complex_loop buf e merge ?s0 = Some a"
    using complex_loop_next [OF _ s(1), of e] a(1) assms(1) by (simp add: complex_init_def)
  moreover have "a = CU_Done s' \<Longrightarrow> cu_args_start s' = None" for s'
    using complex_loop_args_start [OF a(1)] s(5) by simp
  moreover have seg: "seg buf start e = asc CHR ''/'' # ?xs" using seg_Cons [OF assms(1,2)] assms(3) by simp
  ultimately show ?thesis
    using complex_outcome_result [OF a(2) assms(2), of start r] unfolding seg raw_path_slash uri_query_slash
    by (auto simp: normalise_def split: option.splits)
qed

section \<open>The check of a URI against plain paths\<close>

definition uri_plain :: "nat \<Rightarrow> byte list \<Rightarrow> ngx_http_request_t \<Rightarrow> bool" where
  "uri_plain start uri r \<longleftrightarrow>
     (case args_start r of
        None \<Rightarrow> plain_path uri
      | Some a \<Rightarrow> start < a \<and> a \<le> start + length uri \<and> plain_path (take (a - 1 - start) uri))"

lemma uri_loop_uri:
  "uri_loop p cs us_uri r = Some r' \<Longrightarrow>
   args_start r' = args_start r \<and> quoted_uri r' = quoted_uri r \<and> (complex_uri r \<longrightarrow> complex_uri r')"
proof (induction cs arbitrary: p r)
  case Nil
  then show ?case by simp
next
  case (Cons c cs)
  then obtain r1 where "uri_step p c us_uri r = Some (us_uri, r1)" "uri_loop (Suc p) cs us_uri r1 = Some r'"
    by (auto simp: uri_step_def split: if_splits)
  moreover from this(1) have "args_start r1 = args_start r \<and> quoted_uri r1 = quoted_uri r \<and> (complex_uri r \<longrightarrow> complex_uri r1)"
    by (auto simp: uri_step_def split: if_splits)
  ultimately show ?case using Cons.IH by fastforce
qed

lemma uri_step_path:
  assumes "plain_path pre" and "st = us_after_slash \<or> st = us_check_uri \<and> last pre \<noteq> asc CHR ''/''"
    and "\<not> complex_uri r" and "\<not> quoted_uri r" and "args_start r = None" and "uri_step p c st r = Some (st', r')"
  shows "st' = us_uri \<and> (complex_uri r' \<or> quoted_uri r' \<or> args_start r' = Some (p + 1))
    \<or> (st' = us_after_slash \<or> st' = us_check_uri \<and> c \<noteq> asc CHR ''/'') \<and> plain_path (pre @ [c])
      \<and> \<not> complex_uri r' \<and> \<not> quoted_uri r' \<and> args_start r' = None"
proof -
  have c: "path_char c" if "tbl_bit usual c \<or> c \<in> {asc CHR ''/'', asc CHR ''.'', asc CHR ''+''}
      \<or> \<not> (c \<le> 0x20 \<or> c = 0x7f) \<and> c \<notin> {asc CHR ''%'', asc CHR ''?'', asc CHR ''#''}"
    using that path_char_usual [of c] by (auto simp: path_char_def)
  note snoc = plain_path_snoc [OF assms(1) c]
  show ?thesis
    using assms(2-6) snoc path_char_usual [of c] by (auto simp: uri_step_def split: if_splits)
qed

lemma uri_loop_path:
  assumes "plain_path pre" and "st = us_after_slash \<or> st = us_check_uri \<and> last pre \<noteq> asc CHR ''/''"
    and "\<not> complex_uri r" and "\<not> quoted_uri r" and "args_start r = None"
    and "uri_loop (start + length pre) cs st r = Some r'" and "\<not> complex_uri r'" and "\<not> quoted_uri r'"
  shows "uri_plain start (pre @ cs) r'"
  using assms
proof (induction cs arbitrary: pre st r)
  case Nil
  then show ?case by (simp add: uri_plain_def)
next
  case (Cons c cs)
  then obtain st1 r1 where s1: "uri_step (start + length pre) c st r = Some (st1, r1)"
    "uri_loop (start + length (pre @ [c])) cs st1 r1 = Some r'" by (auto split: option.splits)
  note step = uri_step_path [OF Cons.prems(1-5) s1(1)]
  show ?case
  proof (cases "st1 = us_uri")
    case True
    with step uri_loop_uri [of _ cs r1 r'] s1(2) Cons.prems(7,8) have "args_start r' = Some (start + length pre + 1)" by auto
    then show ?thesis using Cons.prems(1) by (simp add: uri_plain_def)
  next
    case False
    with step have "plain_path (pre @ [c])" "st1 = us_after_slash \<or> st1 = us_check_uri \<and> last (pre @ [c]) \<noteq> asc CHR ''/''"
      "\<not> complex_uri r1" "\<not> quoted_uri r1" "args_start r1 = None" by auto
    from Cons.IH [OF this s1(2) Cons.prems(7,8)] show ?thesis by simp
  qed
qed

text \<open>
  Where a URI comes from when the machine runs on it: from the request line, or from \<open>ngx_http_parse_uri\<close>. Both
  mark the arguments.
\<close>

definition uri_parsed :: "byte list \<Rightarrow> nat \<Rightarrow> nat \<Rightarrow> ngx_http_request_t \<Rightarrow> bool" where
  "uri_parsed buf start e r \<longleftrightarrow>
     (\<exists>pieces rc st pos. buf = concat pieces \<and> feed request_step [] sw_start ngx_http_create_request pieces = Done rc st r pos
        \<and> uri_start r = Some start \<and> uri_end r = Some e)
     \<or> (\<exists>r0. start < e \<and> e \<le> length buf \<and> args_start r0 = None
        \<and> ngx_http_parse_uri start (seg buf start e) r0 = Some r)"

lemma request_line_mark:
  assumes "feed request_step [] sw_start ngx_http_create_request pieces = Done rc st r pos"
    and "uri_start r = Some u" "uri_end r = Some e"
  shows "args_mark (concat pieces) u e r"
proof -
  have "scan request_step (concat pieces) 0 sw_start ngx_http_create_request = Done rc st r pos"
    using assms(1) request_line.feed_eq_scan [of "[]"] by simp
  with request_scan_ok [OF request_inv_start, of "concat pieces"] have "after_uri (concat pieces) (pos - 1) r"
    by (simp add: request_result_def)
  with assms(2,3) show ?thesis by (auto simp: after_uri_def early_def args_mark_def args_ok_def split: option.splits)
qed

lemma uri_step_mark:
  "uri_step p ch st r = Some (st', r') \<Longrightarrow> args_start r' = args_start r \<or> ch = asc CHR ''?'' \<and> args_start r' = Some (p + 1)"
  by (cases st) (auto simp: uri_step_def split: if_splits)

lemma uri_loop_mark:
  assumes "uri_loop p (seg buf p e) st r = Some r'" "start \<le> p" "start < e" "p \<le> e" "e \<le> length buf"
    and "args_start r = None \<or> (\<exists>a. args_start r = Some a \<and> start < a \<and> a \<le> e \<and> buf ! (a - 1) = asc CHR ''?'')"
  shows "args_mark buf start e r'"
  using assms
proof (induction "e - p" arbitrary: p st r)
  case 0
  then show ?case by (auto simp: seg_def args_mark_def)
next
  case (Suc n)
  then have p: "p < e" by simp
  have "seg buf p e = buf ! p # seg buf (Suc p) e" using seg_Cons [OF p Suc.prems(5)] .
  then obtain st1 r1 where s: "uri_step p (buf ! p) st r = Some (st1, r1)" "uri_loop (Suc p) (seg buf (Suc p) e) st1 r1 = Some r'"
    using Suc.prems(1) by (auto split: option.splits)
  have "args_start r1 = None \<or> (\<exists>a. args_start r1 = Some a \<and> start < a \<and> a \<le> e \<and> buf ! (a - 1) = asc CHR ''?'')"
    using uri_step_mark [OF s(1)] Suc.prems(2,6) p by auto
  then show ?case using Suc.hyps(1) [OF _ s(2)] Suc.hyps(2) Suc.prems(2,3,5) p by simp
qed

lemma uri_parsed_mark: "uri_parsed buf start e r \<Longrightarrow> args_mark buf start e r"
  using request_line_mark uri_loop_mark [of start buf e us_start _ r start]
  by (auto simp: uri_parsed_def ngx_http_parse_uri_def)

section \<open>Properties\<close>

text \<open>
  C3. The normalising machine is equivalent to the reference: on every absolute path inside a buffer it
  ends, it fails exactly when the reference has no result (a damaged or zero escape, or a \<open>..\<close> above
  the root), and otherwise it writes the rendered normal form of the decoded path and reports the
  arguments between the first question mark and the fragment.
\<close>

theorem complex_uri_equiv:
  assumes "start < e" and "e \<le> length buf" and "buf ! start = asc CHR ''/''" and "\<not> empty_path_in_uri r"
  shows "case normalise merge (raw_path (seg buf start e)) of
      None \<Rightarrow> ngx_http_parse_complex_uri buf start e r merge = Some None
    | Some u \<Rightarrow> (\<exists>cr. ngx_http_parse_complex_uri buf start e r merge = Some (Some cr) \<and> cr_uri cr = u
        \<and> complex_query buf e cr = uri_query (seg buf start e))"
  by (rule complex_uri_spec [OF assms])

theorem complex_uri_equiv_witness:
  "\<exists>cr. ngx_http_parse_complex_uri (bytes ''/a/%2e./b//c%3f?x#y '') 0 19 ngx_http_create_request True = Some (Some cr)
     \<and> cr_uri cr = bytes ''/b/c?'' \<and> complex_query (bytes ''/a/%2e./b//c%3f?x#y '') 19 cr = bytes ''x''"
proof -
  let ?b = "bytes ''/a/%2e./b//c%3f?x#y ''"
  have s: "seg ?b 0 19 = bytes ''/a/%2e./b//c%3f?x#y''" by (simp add: seg_def)
  have n: "normalise True (raw_path (bytes ''/a/%2e./b//c%3f?x#y'')) = Some (bytes ''/b/c?'')"
    by (simp add: raw_path_def normalise_def hex_digit_def close_segment_def render_def)
  have q: "uri_query (bytes ''/a/%2e./b//c%3f?x#y'') = bytes ''x''"
    by (simp add: uri_query_def raw_path_def)
  from complex_uri_equiv [of 0 19 ?b ngx_http_create_request True] show ?thesis
    unfolding s n q by (simp add: ngx_http_create_request_def)
qed

text \<open>
  C2. The path that the server goes on with cannot leave the root: whenever the machine accepts a
  URI, the result is an absolute path, none of the parts between its slashes is \<open>.\<close> or \<open>..\<close> (also if
  they were written with escapes), with merged slashes only the last part may be empty, and the
  result is no longer than the path it came from.
\<close>

theorem complex_uri_no_dot_segments:
  assumes "start < e" and "e \<le> length buf" and "buf ! start = asc CHR ''/''" and "\<not> empty_path_in_uri r"
    and "ngx_http_parse_complex_uri buf start e r merge = Some (Some cr)"
  shows "\<exists>parts last. split_slash (cr_uri cr) = [] # parts @ [last]
    \<and> (\<forall>x\<in>set (last # parts). x \<noteq> bytes ''.'' \<and> x \<noteq> bytes ''..'') \<and> (merge \<longrightarrow> [] \<notin> set parts)
    \<and> length (cr_uri cr) \<le> length (raw_path (seg buf start e))"
proof -
  have path: "raw_path (seg buf start e) = asc CHR ''/'' # raw_path (seg buf (Suc start) e)"
    using seg_Cons [OF assms(1,2)] assms(3) raw_path_slash by simp
  from complex_uri_spec [OF assms(1-4), of merge] assms(5) obtain u where
    u: "normalise merge (raw_path (seg buf start e)) = Some u" "cr_uri cr = u" by (auto split: option.splits)
  then obtain bs ys z where bs: "percent_decode (raw_path (seg buf (Suc start) e)) = Some bs"
    "resolve merge ([], []) bs = Some (ys, z)" "u = render (ys, z)"
    unfolding path by (auto simp: normalise_def split: option.splits)
  have "resolved merge ys \<and> segs_ok (ys, z) \<and> z \<noteq> bytes ''.'' \<and> z \<noteq> bytes ''..''"
    using resolve_resolved [OF _ _ bs(2)] by (simp add: resolved_def segs_ok_def)
  moreover have "length u \<le> length (raw_path (seg buf start e))"
    unfolding path using resolve_length [OF bs(2)] percent_decode_length [OF bs(1)] bs(3) by (simp add: render_def)
  ultimately show ?thesis
    using split_slash_render [of ys z] u(2) bs(3) by (intro exI [of _ ys] exI [of _ z]) (auto simp: resolved_def)
qed

theorem complex_uri_no_dot_segments_witness:
  "\<exists>cr parts last. ngx_http_parse_complex_uri (bytes ''/a/../b/. '') 0 9 ngx_http_create_request True = Some (Some cr)
     \<and> split_slash (cr_uri cr) = [] # parts @ [last] \<and> bytes ''..'' \<notin> set parts"
proof -
  let ?b = "bytes ''/a/../b/. ''"
  have h: "(0::nat) < 9" "9 \<le> length ?b" "?b ! 0 = asc CHR ''/''" "\<not> empty_path_in_uri ngx_http_create_request"
    by (simp_all add: ngx_http_create_request_def)
  have "normalise True (raw_path (seg ?b 0 9)) = Some (bytes ''/b/'')"
    by (simp add: seg_def raw_path_def normalise_def close_segment_def render_def)
  with complex_uri_spec [OF h, of True] obtain cr where cr: "ngx_http_parse_complex_uri ?b 0 9 ngx_http_create_request True = Some (Some cr)"
    by auto
  from complex_uri_no_dot_segments [OF h cr] cr show ?thesis by auto
qed

text \<open>
  C23. The machine never writes outside its output buffer. Take a URI as the request line parser or
  \<open>ngx_http_parse_uri\<close> leaves it: in every state that a run on it reaches, the bytes written so far fit the
  buffer that \<open>ngx_http_process_request_uri\<close> allocates, which has the length of the path without the arguments
  (and one byte more for a request without a path); at most one byte behind the URI is read.
\<close>

theorem complex_uri_writes_bounded:
  assumes "uri_parsed buf start e r" and "complex_reach buf e merge (complex_init buf start r) s"
  shows "length (cu_u s) \<le> request_uri_len start e r \<and> cu_p s \<le> e + 1"
  by (rule complex_reach_room [OF assms(2) uri_parsed_mark [OF assms(1)]])

text \<open>A run on \<open>/a?xyz\<close>, up to the question mark: the two bytes that were allocated have been written.\<close>

fun complex_run :: "nat \<Rightarrow> byte list \<Rightarrow> bool \<Rightarrow> complex_uri_t \<Rightarrow> complex_uri_t" where
  "complex_run 0 buf merge s = s"
| "complex_run (Suc n) buf merge s =
     (case complex_step buf merge s of CU_Next s' \<Rightarrow> complex_run n buf merge s' | _ \<Rightarrow> s)"

lemma complex_run_mono: "cu_p s \<le> cu_p (complex_run n buf merge s)"
proof (induction n arbitrary: s)
  case (Suc n)
  show ?case
  proof (cases "complex_step buf merge s")
    case (CU_Next s')
    then show ?thesis using complex_step_fetch [OF CU_Next] Suc.IH [of s'] by auto
  qed simp_all
qed simp

lemma complex_run_reach:
  "complex_reach buf e merge s0 s \<Longrightarrow> cu_p (complex_run n buf merge s) \<le> e \<Longrightarrow> complex_reach buf e merge s0 (complex_run n buf merge s)"
proof (induction n arbitrary: s)
  case (Suc n)
  show ?case
  proof (cases "complex_step buf merge s")
    case (CU_Next s')
    have "cu_p s \<le> e" using complex_run_mono [of s "Suc n" buf merge] Suc.prems(2) by simp
    from complex_reach_step [OF Suc.prems(1) this CU_Next] Suc show ?thesis by (simp add: CU_Next)
  qed (use Suc in simp_all)
qed simp

theorem complex_uri_writes_bounded_witness:
  "\<exists>r s. uri_parsed (bytes ''/a?xyz'') 0 6 r \<and> complex_reach (bytes ''/a?xyz'') 6 True (complex_init (bytes ''/a?xyz'') 0 r) s
     \<and> cu_u s = bytes ''/a'' \<and> request_uri_len 0 6 r = 2 \<and> length (cu_u s) \<le> 2 \<and> cu_p s \<le> 7"
proof -
  let ?b = "bytes ''/a?xyz''" and ?r = "ngx_http_create_request\<lparr>args_start := Some 3\<rparr>"
  have "ngx_http_parse_uri 0 (seg ?b 0 6) ngx_http_create_request = Some ?r"
    by (simp add: ngx_http_parse_uri_def seg_def uri_step_def usual_iff)
  then have p: "uri_parsed ?b 0 6 ?r" unfolding uri_parsed_def
    by (intro disjI2 exI [of _ ngx_http_create_request]) (simp add: ngx_http_create_request_def)
  have len: "request_uri_len 0 6 ?r = 2" by (simp add: request_uri_len_def ngx_http_create_request_def)
  let ?s = "complex_run (Suc (Suc 0)) ?b True (complex_init ?b 0 ?r)"
  have s: "cu_u ?s = bytes ''/a''" "cu_p ?s = 3"
    by (simp_all add: complex_step_def cu_usual_def cu_slash_def cu_defs complex_init_def ngx_http_create_request_def usual_iff)
  have reach: "complex_reach ?b 6 True (complex_init ?b 0 ?r) ?s"
    by (rule complex_run_reach [OF complex_reach_start]) (unfold s, simp)
  from complex_uri_writes_bounded [OF p reach] have "length (cu_u ?s) \<le> 2 \<and> cu_p ?s \<le> 7" unfolding len by simp
  with p len reach s(1) show ?thesis by blast
qed

text \<open>
  The check of a URI that comes from a rewrite, an internal redirect or a proxy request: when it
  accepts a URI and leaves \<open>complex_uri\<close> and \<open>quoted_uri\<close> clear, the path in front of the arguments is
  plain, so that using it without normalisation is sound; a URI without a leading slash is refused.
\<close>

theorem parse_uri_plain:
  assumes "ngx_http_parse_uri start uri r = Some r'" and "uri \<noteq> []"
    and "\<not> complex_uri r" and "\<not> quoted_uri r" and "args_start r = None"
  shows "hd uri = asc CHR ''/'' \<and> (\<not> complex_uri r' \<and> \<not> quoted_uri r' \<longrightarrow> uri_plain start uri r')"
proof -
  obtain c cs where uri: "uri = c # cs" using assms(2) by (cases uri) auto
  with assms(1) have c: "c = asc CHR ''/''" "uri_loop (start + length [c]) cs us_after_slash r = Some r'"
    by (auto simp: ngx_http_parse_uri_def uri_step_def split: if_splits)
  have "plain_path [c]" using c(1) by simp
  from uri_loop_path [OF this _ assms(3-5) c(2)] uri c(1) show ?thesis by simp
qed

theorem parse_uri_plain_witness:
  "\<exists>r. ngx_http_parse_uri 0 (bytes ''/a.b?c'') ngx_http_create_request = Some r \<and> uri_plain 0 (bytes ''/a.b?c'') r"
proof -
  have h: "\<exists>r. ngx_http_parse_uri 0 (bytes ''/a.b?c'') ngx_http_create_request = Some r \<and> \<not> complex_uri r \<and> \<not> quoted_uri r"
    by (simp add: ngx_http_parse_uri_def uri_step_def usual_iff ngx_http_create_request_def)
  then obtain r where r: "ngx_http_parse_uri 0 (bytes ''/a.b?c'') ngx_http_create_request = Some r" "\<not> complex_uri r" "\<not> quoted_uri r"
    by blast
  from parse_uri_plain [OF r(1)] r show ?thesis by (simp add: ngx_http_create_request_def)
qed

end
