(* ===== verification/Ngx_Strcmp.thy ===== *)
theory Ngx_Strcmp
  imports Prelude "HOL-Library.List_Lexorder" "HOL-Library.Multiset"
begin

unbundle bit_operations_syntax

text \<open>
  String comparison, searching and sorting of \<^verbatim>\<open>src/core/ngx_string.c\<close>. The comparison functions
  are used as the order of sorted arrays and search trees; the locale \<open>comparator\<close> states what
  such a use relies on, namely that a function orders its arguments by a key, and the insertion
  sort \<open>ngx_sort\<close> is proved stable in it once. A zero-terminated string is the list of its bytes
  without the zero; reading at its end gives the zero.
\<close>

section \<open>Characters and copying\<close>

definition ngx_tolower :: "byte \<Rightarrow> byte" where
  "ngx_tolower c = (if asc CHR ''A'' \<le> c \<and> c \<le> asc CHR ''Z'' then c OR 0x20 else c)"

definition deref :: "byte list \<Rightarrow> byte" where
  "deref s = (case s of [] \<Rightarrow> 0 | c # _ \<Rightarrow> c)"

lemma deref_simps [simp]: "deref [] = 0" "deref (c # s) = c"
  by (simp_all add: deref_def)

primrec ngx_strlow :: "nat \<Rightarrow> byte list \<Rightarrow> byte list" where
  "ngx_strlow 0 src = []"
| "ngx_strlow (Suc n) src = ngx_tolower (deref src) # ngx_strlow n (tl src)"

fun strnlen_loop :: "nat \<Rightarrow> byte list \<Rightarrow> nat \<Rightarrow> nat" where
  "strnlen_loop 0 p i = i"
| "strnlen_loop (Suc n) p i = (if deref p = 0 then i else strnlen_loop n (tl p) (Suc i))"

definition ngx_strnlen :: "byte list \<Rightarrow> nat \<Rightarrow> nat" where
  "ngx_strnlen p n = strnlen_loop n p 0"

text \<open>What \<open>ngx_cpystrn\<close> writes in front of the terminating zero.\<close>

fun cpystrn_loop :: "nat \<Rightarrow> byte list \<Rightarrow> byte list" where
  "cpystrn_loop 0 src = []"
| "cpystrn_loop (Suc n) src = (if deref src = 0 then [] else deref src # cpystrn_loop n (tl src))"

definition ngx_cpystrn :: "byte list \<Rightarrow> nat \<Rightarrow> byte list" where
  "ngx_cpystrn src n = (if n = 0 then [] else cpystrn_loop (n - 1) src @ [0])"

section \<open>Comparison\<close>

function ngx_strcasecmp :: "byte list \<Rightarrow> byte list \<Rightarrow> int" where
  "ngx_strcasecmp s1 s2 =
     (let c1 = ngx_tolower (deref s1); c2 = ngx_tolower (deref s2) in
      if c1 = c2 then (if c1 \<noteq> 0 then ngx_strcasecmp (tl s1) (tl s2) else 0)
      else uint c1 - uint c2)"
  by pat_completeness auto
termination
  by (relation "measure (\<lambda>(s1, s2). length s1)") (auto simp: ngx_tolower_def neq_Nil_conv deref_def split: list.splits)

fun ngx_strncasecmp :: "byte list \<Rightarrow> byte list \<Rightarrow> nat \<Rightarrow> int" where
  "ngx_strncasecmp s1 s2 0 = 0"
| "ngx_strncasecmp s1 s2 (Suc n) =
     (let c1 = ngx_tolower (deref s1); c2 = ngx_tolower (deref s2) in
      if c1 = c2 then (if c1 \<noteq> 0 then ngx_strncasecmp (tl s1) (tl s2) n else 0)
      else uint c1 - uint c2)"

function ngx_dns_strcmp :: "byte list \<Rightarrow> byte list \<Rightarrow> int" where
  "ngx_dns_strcmp s1 s2 =
     (let c1 = ngx_tolower (deref s1); c2 = ngx_tolower (deref s2) in
      if c1 = c2 then (if c1 \<noteq> 0 then ngx_dns_strcmp (tl s1) (tl s2) else 0)
      else uint (if c1 = asc CHR ''.'' then asc CHR '' '' else c1)
           - uint (if c2 = asc CHR ''.'' then asc CHR '' '' else c2))"
  by pat_completeness auto
termination
  by (relation "measure (\<lambda>(s1, s2). length s1)") (auto simp: ngx_tolower_def neq_Nil_conv deref_def split: list.splits)

fun ngx_filename_cmp :: "byte list \<Rightarrow> byte list \<Rightarrow> nat \<Rightarrow> int" where
  "ngx_filename_cmp s1 s2 0 = 0"
| "ngx_filename_cmp s1 s2 (Suc n) =
     (let c1 = deref s1; c2 = deref s2 in
      if c1 = c2 then (if c1 \<noteq> 0 then ngx_filename_cmp (tl s1) (tl s2) n else 0)
      else if c1 = 0 \<or> c2 = 0 then uint c1 - uint c2
      else uint (if c1 = asc CHR ''/'' then 0 else c1) - uint (if c2 = asc CHR ''/'' then 0 else c2))"

text \<open>The backward comparisons look at the last byte first.\<close>

primrec ngx_rstrncmp :: "byte list \<Rightarrow> byte list \<Rightarrow> nat \<Rightarrow> int" where
  "ngx_rstrncmp s1 s2 0 = 0"
| "ngx_rstrncmp s1 s2 (Suc n) =
     (if s1 ! n \<noteq> s2 ! n then uint (s1 ! n) - uint (s2 ! n) else ngx_rstrncmp s1 s2 n)"

definition rstr_upper :: "byte \<Rightarrow> byte" where
  "rstr_upper c = (if asc CHR ''a'' \<le> c \<and> c \<le> asc CHR ''z'' then c - (asc CHR ''a'' - asc CHR ''A'') else c)"

primrec ngx_rstrncasecmp :: "byte list \<Rightarrow> byte list \<Rightarrow> nat \<Rightarrow> int" where
  "ngx_rstrncasecmp s1 s2 0 = 0"
| "ngx_rstrncasecmp s1 s2 (Suc n) =
     (let c1 = rstr_upper (s1 ! n); c2 = rstr_upper (s2 ! n) in
      if c1 \<noteq> c2 then uint c1 - uint c2 else ngx_rstrncasecmp s1 s2 n)"

text \<open>
  The C library's \<open>memcmp\<close>: its sign is that of the difference of the first bytes that differ.
\<close>

primrec ngx_memcmp :: "byte list \<Rightarrow> byte list \<Rightarrow> nat \<Rightarrow> int" where
  "ngx_memcmp s1 s2 0 = 0"
| "ngx_memcmp s1 s2 (Suc n) =
     (if hd s1 \<noteq> hd s2 then uint (hd s1) - uint (hd s2) else ngx_memcmp (tl s1) (tl s2) n)"

definition ngx_memn2cmp :: "byte list \<Rightarrow> byte list \<Rightarrow> nat \<Rightarrow> nat \<Rightarrow> int" where
  "ngx_memn2cmp s1 s2 n1 n2 =
     (let (n, z) = (if n1 \<le> n2 then (n1, -1) else (n2, 1));
          m = ngx_memcmp s1 s2 n
      in if m \<noteq> 0 \<or> n1 = n2 then m else z)"

section \<open>Sorting\<close>

text \<open>
  The insertion sort on an array of \<open>n\<close> elements: the inner loop shifts the elements that are
  greater than the saved one to the right, from the position \<open>p2\<close> downwards.
\<close>

fun sort_shift :: "('a \<Rightarrow> 'a \<Rightarrow> int) \<Rightarrow> 'a \<Rightarrow> 'a list \<Rightarrow> nat \<Rightarrow> 'a list" where
  "sort_shift cmp p base 0 = base[0 := p]"
| "sort_shift cmp p base (Suc p2) =
     (if 0 < cmp (base ! p2) p then sort_shift cmp p (base[Suc p2 := base ! p2]) p2
      else base[Suc p2 := p])"

function sort_from :: "('a \<Rightarrow> 'a \<Rightarrow> int) \<Rightarrow> 'a list \<Rightarrow> nat \<Rightarrow> nat \<Rightarrow> 'a list" where
  "sort_from cmp base n p1 =
     (if p1 < n then sort_from cmp (sort_shift cmp (base ! p1) base p1) n (Suc p1) else base)"
  by pat_completeness auto
termination by (relation "measure (\<lambda>(cmp, base, n, p1). n - p1)") auto

definition ngx_sort :: "'a list \<Rightarrow> nat \<Rightarrow> ('a \<Rightarrow> 'a \<Rightarrow> int) \<Rightarrow> 'a list" where
  "ngx_sort base n cmp = sort_from cmp base n 1"

declare ngx_strcasecmp.simps [simp del] ngx_dns_strcmp.simps [simp del] sort_from.simps [simp del]

section \<open>Searching\<close>

text \<open>
  The search for a substring of \<open>n + 1\<close> bytes, without regard to case, that ends before \<open>lim\<close>.
\<close>

function strlcasestrn_loop :: "byte list \<Rightarrow> nat \<Rightarrow> nat \<Rightarrow> byte list \<Rightarrow> nat \<Rightarrow> nat option" where
  "strlcasestrn_loop buf s1 lim s2 n =
     (if lim \<le> s1 then None
      else if ngx_tolower (buf ! s1) = ngx_tolower (deref s2)
              \<and> ngx_strncasecmp (drop (Suc s1) buf) (tl s2) n = 0 then Some s1
      else strlcasestrn_loop buf (Suc s1) lim s2 n)"
  by pat_completeness auto
termination by (relation "measure (\<lambda>(buf, s1, lim, s2, n). lim - s1)") auto

declare strlcasestrn_loop.simps [simp del]

definition ngx_strlcasestrn :: "byte list \<Rightarrow> nat \<Rightarrow> nat \<Rightarrow> byte list \<Rightarrow> nat \<Rightarrow> nat option" where
  "ngx_strlcasestrn buf s1 lim s2 n = strlcasestrn_loop buf s1 (lim - n) s2 n"

lemma strlcasestrn_ge: "ngx_strlcasestrn buf s1 lim s2 n = Some q \<Longrightarrow> s1 \<le> q"
  unfolding ngx_strlcasestrn_def
proof (induction buf s1 "lim - n" s2 n rule: strlcasestrn_loop.induct)
  case (1 buf s1 s2 n)
  then show ?case by (auto simp: strlcasestrn_loop.simps [of buf s1] split: if_splits)
qed

function ngx_strlchr :: "byte list \<Rightarrow> nat \<Rightarrow> nat \<Rightarrow> byte \<Rightarrow> nat option" where
  "ngx_strlchr buf p lim c =
     (if p < lim then (if buf ! p = c then Some p else ngx_strlchr buf (Suc p) lim c) else None)"
  by pat_completeness auto
termination by (relation "measure (\<lambda>(buf, p, lim, c). lim - p)") auto

declare ngx_strlchr.simps [simp del]

section \<open>Comparators and the stable sort\<close>

lemma sort_shift_eq:
  "length xs = j \<Longrightarrow> sort_shift cmp p (xs @ h # ys) j =
     rev (dropWhile (\<lambda>x. 0 < cmp x p) (rev xs)) @ p # rev (takeWhile (\<lambda>x. 0 < cmp x p) (rev xs)) @ ys"
proof (induction xs arbitrary: j h ys rule: rev_induct)
  case (snoc x xs)
  show ?case
  proof (cases "0 < cmp x p")
    case True
    have "(xs @ x # h # ys)[Suc (length xs) := x] = xs @ x # x # ys" by (simp add: list_update_append)
    with True snoc show ?thesis by auto
  next
    case False
    with snoc.prems show ?thesis by (auto simp: list_update_append)
  qed
qed simp

locale comparator =
  fixes cmp :: "'a \<Rightarrow> 'a \<Rightarrow> int" and key :: "'a \<Rightarrow> 'k::linorder" and ok :: "'a \<Rightarrow> bool"
  assumes cmp_less: "ok x \<Longrightarrow> ok y \<Longrightarrow> cmp x y < 0 \<longleftrightarrow> key x < key y"
    and cmp_eq: "ok x \<Longrightarrow> ok y \<Longrightarrow> cmp x y = 0 \<longleftrightarrow> key x = key y"
begin

lemma cmp_greater: "ok x \<Longrightarrow> ok y \<Longrightarrow> 0 < cmp x y \<longleftrightarrow> key y < key x"
proof -
  assume "ok x" "ok y"
  then have "cmp x y < 0 \<longleftrightarrow> key x < key y" "cmp x y = 0 \<longleftrightarrow> key x = key y"
    by (rule cmp_less, rule cmp_eq)
  then show ?thesis by (metis linorder_cases order.asym)
qed

lemma cmp_total_preorder:
  assumes "ok x" "ok y" "ok z"
  shows "cmp x x = 0" "(cmp x y < 0) = (0 < cmp y x)" "cmp x y \<le> 0 \<Longrightarrow> cmp y z \<le> 0 \<Longrightarrow> cmp x z \<le> 0"
  using assms cmp_less cmp_eq cmp_greater by (auto simp: not_less [symmetric])

text \<open>One round of the outer loop inserts behind the elements that are not greater.\<close>

lemma insert_stable:
  assumes "\<forall>x\<in>set zs. ok x" "ok p"
  defines "Q \<equiv> \<lambda>x. 0 < cmp x p"
  assumes zs: "zs = sort_key key xs"
  shows "rev (dropWhile Q (rev zs)) @ p # rev (takeWhile Q (rev zs)) = sort_key key (xs @ [p])"
proof -
  define lo hi where "lo = rev (dropWhile Q (rev zs))" and "hi = rev (takeWhile Q (rev zs))"
  have split: "zs = lo @ hi" unfolding lo_def hi_def by (metis rev_append rev_rev_ident takeWhile_dropWhile_id)
  have sorted: "sorted (map key lo)" "sorted (map key hi)" "\<forall>x\<in>set lo. \<forall>y\<in>set hi. key x \<le> key y"
    using sorted_sort_key [of key xs] unfolding zs [symmetric] split by (auto simp: sorted_append)
  have hi: "key p < key x" if "x \<in> set hi" for x
  proof -
    from that have "Q x" unfolding hi_def by (auto dest: set_takeWhileD)
    then show ?thesis using assms(1,2) cmp_greater [of x p] that split unfolding Q_def by auto
  qed
  have lo: "key x \<le> key p" if "x \<in> set lo" for x
  proof -
    from that have ne: "dropWhile Q (rev zs) \<noteq> []" unfolding lo_def by (metis empty_iff empty_set rev.simps(1))
    then have "\<not> Q (last lo)" using hd_dropWhile [OF ne] by (simp add: lo_def last_rev)
    moreover from that have lst: "last lo \<in> set lo" by (metis empty_iff empty_set last_in_set)
    ultimately have "key (last lo) \<le> key p"
      using assms(1,2) cmp_greater [of "last lo" p] split unfolding Q_def by (auto simp: not_less)
    moreover have "key x \<le> key (last lo)"
    proof -
      have lo: "lo = butlast lo @ [last lo]" using that by (cases lo) auto
      have "sorted (map key (butlast lo @ [last lo]))" using sorted(1) lo by simp
      then have "\<forall>y\<in>set (butlast lo). key y \<le> key (last lo)" by (simp add: sorted_append)
      moreover have "x \<in> set (butlast lo) \<or> x = last lo"
        using that lo by (metis Un_iff empty_iff insert_iff list.set set_append)
      ultimately show ?thesis by auto
    qed
    ultimately show ?thesis by simp
  qed
  have st: "filter (\<lambda>x. key k = key x) zs = filter (\<lambda>x. key k = key x) xs" for k
    using sort_key_stable [of key "key k" xs] unfolding zs by (simp add: eq_commute)
  have "sort_key key (xs @ [p]) = lo @ p # hi"
  proof (rule properties_for_sort_key)
    show "mset (lo @ p # hi) = mset (xs @ [p])"
      using arg_cong [OF zs, of mset] by (simp add: split)
    show "sorted (map key (lo @ p # hi))" using sorted hi lo by (auto simp: sorted_append less_imp_le)
    fix k
    have "filter (\<lambda>x. key k = key x) hi = []" if "key k = key p" using hi that by (fastforce simp: filter_empty_conv)
    then show "filter (\<lambda>x. key k = key x) (lo @ p # hi) = filter (\<lambda>x. key k = key x) (xs @ [p])"
      using st [of k] unfolding split by (cases "key k = key p") simp_all
  qed
  then show ?thesis by (simp add: lo_def hi_def)
qed

lemma sort_from_sorts:
  assumes "\<forall>x\<in>set base. ok x" "i \<le> length base"
  shows "sort_from cmp (sort_key key (take i base) @ drop i base) (length base) i = sort_key key base"
  using assms(2)
proof (induction "length base - i" arbitrary: i)
  case 0
  then show ?case by (simp add: sort_from.simps)
next
  case (Suc d)
  then have i: "i < length base" by simp
  let ?zs = "sort_key key (take i base)"
  have len: "length ?zs = i" using i by simp
  have dr: "drop i base = base ! i # drop (Suc i) base" using i by (simp add: Cons_nth_drop_Suc)
  have "sort_shift cmp (base ! i) (?zs @ base ! i # drop (Suc i) base) i =
      sort_key key (take i base @ [base ! i]) @ drop (Suc i) base"
    unfolding sort_shift_eq [OF len]
    using insert_stable [OF _ _ refl, of "take i base" "base ! i"] assms(1) i
    by (auto dest: in_set_takeD)
  then have "sort_shift cmp ((?zs @ drop i base) ! i) (?zs @ drop i base) i =
      sort_key key (take (Suc i) base) @ drop (Suc i) base"
    using len i unfolding dr by (simp add: nth_append take_Suc_conv_app_nth)
  then show ?case
    using Suc.hyps(1) [of "Suc i"] Suc.hyps(2) i by (simp add: sort_from.simps [of _ _ _ i])
qed

lemma sorts: "\<forall>x\<in>set base. ok x \<Longrightarrow> ngx_sort base (length base) cmp = sort_key key base"
proof (cases "base = []")
  case True
  then show ?thesis by (simp add: ngx_sort_def sort_from.simps)
next
  case False
  assume ok: "\<forall>x\<in>set base. ok x"
  have "sort_key key (take 1 base) @ drop 1 base = base" using False by (cases base) simp_all
  then show ?thesis
    using sort_from_sorts [OF ok, of 1] False by (simp add: ngx_sort_def Suc_le_eq)
qed

end

section \<open>The comparison functions as comparators\<close>

lemma byte_diff:
  fixes a b :: byte
  shows "uint a - uint b < 0 \<longleftrightarrow> unat a < unat b" "uint a - uint b = 0 \<longleftrightarrow> a = b"
  by (simp_all add: word_less_nat_alt [symmetric] word_less_def word_uint_eq_iff)

lemma byte_cmp:
  fixes a b :: byte
  shows "uint a < uint b \<longleftrightarrow> a < b" "unat a < unat b \<longleftrightarrow> a < b"
    "uint a = uint b \<longleftrightarrow> a = b" "unat a = unat b \<longleftrightarrow> a = b"
  by (simp_all add: word_less_nat_alt [symmetric] word_less_def [symmetric] word_uint_eq_iff [symmetric]
      word_unat_eq_iff [symmetric])

lemma byte_pos: "0 < uint c \<longleftrightarrow> c \<noteq> 0" "uint c = 0 \<longleftrightarrow> c = 0" for c :: byte
  by (auto simp: uint_0_iff order.strict_iff_order)

lemma tolower_zero: "ngx_tolower c = 0 \<longleftrightarrow> c = 0"
  by (rule byte_exhaust [of _ c]) (simp add: ngx_tolower_def)

definition fold_case :: "byte list \<Rightarrow> nat list" where
  "fold_case s = map (\<lambda>c. unat (ngx_tolower c)) s"

definition no_nul :: "byte list \<Rightarrow> bool" where
  "no_nul s \<longleftrightarrow> 0 \<notin> set s"

lemma tolower_nul: "ngx_tolower 0 = 0"
  by (simp add: ngx_tolower_def)

lemmas cmp_simps = Let_def no_nul_def byte_diff byte_cmp byte_pos tolower_zero tolower_nul

lemma strcasecmp_sign:
  assumes "no_nul s1" "no_nul s2"
  shows "(ngx_strcasecmp s1 s2 < 0 \<longleftrightarrow> fold_case s1 < fold_case s2)
    \<and> (ngx_strcasecmp s1 s2 = 0 \<longleftrightarrow> fold_case s1 = fold_case s2)"
  using assms
proof (induction s1 arbitrary: s2)
  case Nil
  then show ?case
    by (cases s2) (auto simp: ngx_strcasecmp.simps fold_case_def cmp_simps)
next
  case (Cons c s1)
  show ?case
  proof (cases s2)
    case Nil
    with Cons.prems show ?thesis
      by (auto simp: ngx_strcasecmp.simps fold_case_def cmp_simps)
  next
    case (Cons d s2')
    with Cons.IH [of s2'] Cons.prems show ?thesis
      by (auto simp: ngx_strcasecmp.simps [of "c # s1"] fold_case_def cmp_simps)
  qed
qed

interpretation strcase: comparator ngx_strcasecmp fold_case no_nul
  by unfold_locales (simp_all add: strcasecmp_sign)

text \<open>
  Host names are ordered with the dot first; they consist of printable characters. File names are
  ordered with the slash first.
\<close>

definition dns_key :: "byte list \<Rightarrow> nat list" where
  "dns_key s = map (\<lambda>c. if ngx_tolower c = asc CHR ''.'' then 0 else unat (ngx_tolower c)) s"

definition dns_ok :: "byte list \<Rightarrow> bool" where
  "dns_ok s \<longleftrightarrow> list_all (\<lambda>c. 0x20 < c) s"

definition filename_key :: "byte list \<Rightarrow> nat list" where
  "filename_key s = map (\<lambda>c. if c = asc CHR ''/'' then 0 else unat c) s"

lemma dns_char:
  fixes c d :: byte
  assumes "0x20 < c" "0x20 < d"
  defines "k \<equiv> \<lambda>c. if ngx_tolower c = asc CHR ''.'' then 0 else unat (ngx_tolower c)"
    and "v \<equiv> \<lambda>c. if ngx_tolower c = asc CHR ''.'' then asc CHR '' '' else ngx_tolower c"
  shows "uint (v c) - uint (v d) < 0 \<longleftrightarrow> k c < k d" "uint (v c) = uint (v d) \<longleftrightarrow> k c = k d"
    "k c = k d \<longleftrightarrow> ngx_tolower c = ngx_tolower d" "0 < uint (v c)"
proof -
  have gt: "0x20 < unat (ngx_tolower x)" if "0x20 < x" for x
  proof -
    have "0x20 < x \<longrightarrow> 0x20 < ngx_tolower x"
      by (rule byte_exhaust [of _ x]) (simp add: ngx_tolower_def)
    with that show ?thesis by (simp add: word_less_nat_alt)
  qed
  show "k c = k d \<longleftrightarrow> ngx_tolower c = ngx_tolower d"
    using gt [OF assms(1)] gt [OF assms(2)] by (auto simp: k_def byte_cmp)
  show "uint (v c) - uint (v d) < 0 \<longleftrightarrow> k c < k d"
    using gt [OF assms(1)] gt [OF assms(2)] unfolding byte_diff by (auto simp: k_def v_def)
  show "uint (v c) = uint (v d) \<longleftrightarrow> k c = k d"
    using gt [OF assms(1)] gt [OF assms(2)] by (auto simp: k_def v_def byte_cmp)
  show "0 < uint (v c)"
    using gt [OF assms(1)] unfolding byte_pos by (auto simp: v_def)
qed

lemma dns_strcmp_sign:
  assumes "dns_ok s1" "dns_ok s2"
  shows "(ngx_dns_strcmp s1 s2 < 0 \<longleftrightarrow> dns_key s1 < dns_key s2)
    \<and> (ngx_dns_strcmp s1 s2 = 0 \<longleftrightarrow> dns_key s1 = dns_key s2)"
  using assms
proof (induction s1 arbitrary: s2)
  case Nil
  then show ?case
    using dns_char(4) [of "hd s2" "hd s2"]
    by (cases s2) (auto simp: ngx_dns_strcmp.simps dns_key_def dns_ok_def cmp_simps)
next
  case (Cons c s1)
  show ?case
  proof (cases s2)
    case Nil
    with Cons.prems show ?thesis
      using dns_char(4) [of c c]
      by (auto simp: ngx_dns_strcmp.simps dns_key_def dns_ok_def cmp_simps)
  next
    case (Cons d s2')
    with Cons.prems have "0x20 < c" "0x20 < d" by (simp_all add: dns_ok_def)
    note ch = dns_char [OF this]
    have nz: "ngx_tolower c \<noteq> 0" using \<open>0x20 < c\<close> by (auto simp: tolower_zero)
    show ?thesis
    proof (cases "ngx_tolower c = ngx_tolower d")
      case True
      with nz Cons.IH [of s2'] Cons Cons.prems show ?thesis
        by (simp add: ngx_dns_strcmp.simps [of "c # s1"] dns_key_def dns_ok_def Let_def)
    next
      case False
      with nz ch Cons show ?thesis
        by (simp add: ngx_dns_strcmp.simps [of "c # s1"] dns_key_def Let_def del: One_nat_def)
    qed
  qed
qed

interpretation dns: comparator ngx_dns_strcmp dns_key dns_ok
  by unfold_locales (simp_all add: dns_strcmp_sign)

lemma strncasecmp_sign:
  assumes "no_nul s1" "no_nul s2"
  shows "(ngx_strncasecmp s1 s2 n < 0 \<longleftrightarrow> fold_case (take n s1) < fold_case (take n s2))
    \<and> (ngx_strncasecmp s1 s2 n = 0 \<longleftrightarrow> fold_case (take n s1) = fold_case (take n s2))"
  using assms
proof (induction n arbitrary: s1 s2)
  case (Suc n)
  then show ?case
    by (cases s1; cases s2) (auto simp: fold_case_def cmp_simps)
qed (simp add: fold_case_def)

lemma filename_cmp_sign:
  assumes "no_nul s1" "no_nul s2"
  shows "(ngx_filename_cmp s1 s2 n < 0 \<longleftrightarrow> filename_key (take n s1) < filename_key (take n s2))
    \<and> (ngx_filename_cmp s1 s2 n = 0 \<longleftrightarrow> filename_key (take n s1) = filename_key (take n s2))"
  using assms
proof (induction n arbitrary: s1 s2)
  case (Suc n)
  then show ?case
    by (cases s1; cases s2) (auto simp: filename_key_def cmp_simps unat_gt_0 unat_eq_zero word_neq_0_conv split: if_splits)
qed (simp add: filename_key_def)

lemma memn2cmp_step:
  "ngx_memn2cmp [] s2 0 n2 = (if n2 = 0 then 0 else -1)"
  "ngx_memn2cmp (c # s1) [] (Suc n1) 0 = 1"
  "ngx_memn2cmp (c # s1) (d # s2) (Suc n1) (Suc n2) =
     (if c \<noteq> d then uint c - uint d else ngx_memn2cmp s1 s2 n1 n2)"
  by (simp_all add: ngx_memn2cmp_def Let_def byte_cmp)

lemma memn2cmp_sign:
  "(ngx_memn2cmp s1 s2 (length s1) (length s2) < 0 \<longleftrightarrow> map unat s1 < map unat s2)
   \<and> (ngx_memn2cmp s1 s2 (length s1) (length s2) = 0 \<longleftrightarrow> map unat s1 = map unat s2)"
proof (induction s1 arbitrary: s2)
  case Nil
  then show ?case by (cases s2) (simp_all add: memn2cmp_step)
next
  case (Cons c s1)
  show ?case
  proof (cases s2)
    case Nil
    then show ?thesis by (simp add: memn2cmp_step)
  next
    case s2: (Cons d s2')
    show ?thesis using Cons.IH [of s2'] by (simp add: s2 memn2cmp_step byte_cmp)
  qed
qed

interpretation memn2: comparator "\<lambda>s1 s2. ngx_memn2cmp s1 s2 (length s1) (length s2)" "map unat" "\<lambda>_. True"
  by unfold_locales (simp_all only: memn2cmp_sign)

interpretation strncase: comparator "\<lambda>s1 s2. ngx_strncasecmp s1 s2 n" "\<lambda>s. fold_case (take n s)" no_nul for n
  by unfold_locales (simp_all add: strncasecmp_sign)

interpretation filename: comparator "\<lambda>s1 s2. ngx_filename_cmp s1 s2 n" "\<lambda>s. filename_key (take n s)" no_nul for n
  by unfold_locales (simp_all add: filename_cmp_sign)

section \<open>Copying, backward comparison and searching\<close>

lemma cpystrn_exact:
  "ngx_cpystrn src n = (if n = 0 then [] else take (n - 1) (takeWhile (\<lambda>c. c \<noteq> 0) src) @ [0])"
proof -
  have "cpystrn_loop k src = take k (takeWhile (\<lambda>c. c \<noteq> 0) src)" for k
  proof (induction k arbitrary: src)
    case (Suc k)
    then show ?case by (cases src) simp_all
  qed simp
  then show ?thesis by (simp add: ngx_cpystrn_def)
qed

lemma strnlen_exact: "ngx_strnlen p n = min n (length (takeWhile (\<lambda>c. c \<noteq> 0) p))"
proof -
  have "strnlen_loop n p i = i + min n (length (takeWhile (\<lambda>c. c \<noteq> 0) p))" for i
  proof (induction n arbitrary: p i)
    case (Suc n)
    then show ?case by (cases p) simp_all
  qed simp
  then show ?thesis by (simp add: ngx_strnlen_def)
qed

lemma strlow_exact: "n \<le> length src \<Longrightarrow> ngx_strlow n src = map ngx_tolower (take n src)"
proof (induction n arbitrary: src)
  case (Suc n)
  then show ?case by (cases src) simp_all
qed simp

lemma rstrncmp_zero: "ngx_rstrncmp s1 s2 n = 0 \<longleftrightarrow> (\<forall>i<n. s1 ! i = s2 ! i)"
  by (induction n) (simp_all add: All_less_Suc byte_cmp)

lemma rstrncasecmp_zero:
  "ngx_rstrncasecmp s1 s2 n = 0 \<longleftrightarrow> (\<forall>i<n. rstr_upper (s1 ! i) = rstr_upper (s2 ! i))"
  by (induction n) (simp_all add: All_less_Suc byte_cmp Let_def)

definition occurs_at :: "byte list \<Rightarrow> byte list \<Rightarrow> nat \<Rightarrow> bool" where
  "occurs_at name buf i \<longleftrightarrow> map ngx_tolower (take (length name) (drop i buf)) = map ngx_tolower name"

lemma strncasecmp_zero:
  assumes "no_nul s2" "n \<le> length s2"
  shows "ngx_strncasecmp s1 s2 n = 0 \<longleftrightarrow> map ngx_tolower (take n s1) = map ngx_tolower (take n s2)"
  using assms
proof (induction n arbitrary: s1 s2)
  case (Suc n)
  then obtain d s2' where s2: "s2 = d # s2'" by (cases s2) auto
  with Suc.prems have nz: "ngx_tolower d \<noteq> 0" by (auto simp: tolower_zero no_nul_def)
  show ?case
  proof (cases s1)
    case Nil
    with nz s2 show ?thesis by (simp add: tolower_nul Let_def byte_pos)
  next
    case (Cons c s1')
    with Suc.IH [of s2' s1'] Suc.prems s2 nz show ?thesis
      by (auto simp: Let_def no_nul_def byte_cmp)
  qed
qed simp

lemma occurs_at_search:
  assumes "no_nul name" "name \<noteq> []" "i < length buf"
  shows "ngx_tolower (buf ! i) = ngx_tolower (deref name) \<and> ngx_strncasecmp (drop (Suc i) buf) (tl name) (length name - 1) = 0
    \<longleftrightarrow> occurs_at name buf i"
proof -
  obtain d ds where n: "name = d # ds" using assms(2) by (cases name) auto
  have "no_nul ds" using assms(1) n by (simp add: no_nul_def)
  moreover have "drop i buf = buf ! i # drop (Suc i) buf" using assms(3) by (simp add: Cons_nth_drop_Suc)
  ultimately show ?thesis using strncasecmp_zero [of ds "length ds" "drop (Suc i) buf"] by (simp add: n occurs_at_def)
qed

text \<open>The search returns the first occurrence that lies before the limit.\<close>

lemma strlcasestrn_first:
  assumes "no_nul name" "name \<noteq> []" "lim \<le> length buf"
  shows "ngx_strlcasestrn buf s lim name (length name - 1) =
    (let js = filter (occurs_at name buf) [s..<lim - (length name - 1)] in
     if js = [] then None else Some (hd js))"
proof -
  have "strlcasestrn_loop buf s l name (length name - 1) =
      (let js = filter (occurs_at name buf) [s..<l] in if js = [] then None else Some (hd js))"
    if "l \<le> length buf" for s l
  proof (induction "l - s" arbitrary: s)
    case 0
    then show ?case by (simp add: strlcasestrn_loop.simps)
  next
    case (Suc d)
    then have "s < l" "s < length buf" using that by simp_all
    moreover from this have "[s..<l] = s # [Suc s..<l]" by (simp add: upt_conv_Cons)
    ultimately show ?case
      using Suc.hyps(1) [of "Suc s"] Suc.hyps(2) occurs_at_search [OF assms(1,2), of s buf]
      by (simp add: strlcasestrn_loop.simps [of _ s] Let_def)
  qed
  from this [of "lim - (length name - 1)" s] assms(3) show ?thesis by (simp add: ngx_strlcasestrn_def)
qed

lemma strlchr_first:
  assumes "lim \<le> length buf" "p \<le> lim"
  shows "ngx_strlchr buf p lim c =
    (let k = length (takeWhile (\<lambda>x. x \<noteq> c) (drop p (take lim buf))) in
     if p + k < lim then Some (p + k) else None)"
  using assms(2)
proof (induction "lim - p" arbitrary: p)
  case 0
  then show ?case by (simp add: ngx_strlchr.simps)
next
  case (Suc d)
  then have lt: "p < lim" by simp
  then have "drop p (take lim buf) = buf ! p # drop (Suc p) (take lim buf)"
    using assms(1) by (subst Cons_nth_drop_Suc [symmetric]) simp_all
  with Suc.hyps(1) [of "Suc p"] Suc.hyps(2) lt show ?case
    by (simp add: ngx_strlchr.simps [of _ p] Let_def)
qed

text \<open>
  \<open>ngx_sort\<close> is a stable sort: whenever the comparison function orders the elements of the
  array by some key, the sorted array is the stable sort of the array by that key, so equal
  elements keep their order, as the comment in the source requires.
\<close>

theorem ngx_sort_stable:
  assumes "\<And>x y. x \<in> set base \<Longrightarrow> y \<in> set base \<Longrightarrow> cmp x y < 0 \<longleftrightarrow> key x < (key y :: 'k::linorder)"
    and "\<And>x y. x \<in> set base \<Longrightarrow> y \<in> set base \<Longrightarrow> cmp x y = 0 \<longleftrightarrow> key x = key y"
  shows "ngx_sort base (length base) cmp = sort_key key base"
  by (rule comparator.sorts [where ok = "\<lambda>x. x \<in> set base"]) (unfold_locales, use assms in auto)

theorem ngx_sort_stable_witness:
  "ngx_sort [bytes ''www'', bytes ''B'', bytes ''a'', bytes ''b''] 4 ngx_strcasecmp
     = [bytes ''a'', bytes ''B'', bytes ''b'', bytes ''www'']"
proof -
  let ?xs = "[bytes ''www'', bytes ''B'', bytes ''a'', bytes ''b'']"
  have ok: "no_nul x" if "x \<in> set ?xs" for x using that by (auto simp: no_nul_def)
  have "ngx_sort ?xs (length ?xs) ngx_strcasecmp = sort_key fold_case ?xs"
    by (rule ngx_sort_stable) (use ok strcase.cmp_less strcase.cmp_eq in blast)+
  also have "\<dots> = [bytes ''a'', bytes ''B'', bytes ''b'', bytes ''www'']"
    by (simp add: fold_case_def ngx_tolower_def)
  finally show ?thesis by (simp add: eval_nat_numeral)
qed

text \<open>
  The comparison functions order strings lexicographically by a key, so they are total
  preorders as search trees and sorted arrays need: \<open>ngx_strcasecmp\<close> and \<open>ngx_strncasecmp\<close> by the
  folded bytes, \<open>ngx_dns_strcmp\<close> with the dot below every character of a host name,
  \<open>ngx_filename_cmp\<close> with the slash below every character, and \<open>ngx_memn2cmp\<close> by the bytes.
\<close>

theorem string_comparison_orders:
  assumes "no_nul s1" "no_nul s2" "dns_ok h1" "dns_ok h2"
  shows "(ngx_strcasecmp s1 s2 < 0 \<longleftrightarrow> fold_case s1 < fold_case s2)
    \<and> (ngx_strcasecmp s1 s2 = 0 \<longleftrightarrow> fold_case s1 = fold_case s2)
    \<and> (ngx_strncasecmp s1 s2 n < 0 \<longleftrightarrow> fold_case (take n s1) < fold_case (take n s2))
    \<and> (ngx_strncasecmp s1 s2 n = 0 \<longleftrightarrow> fold_case (take n s1) = fold_case (take n s2))
    \<and> (ngx_dns_strcmp h1 h2 < 0 \<longleftrightarrow> dns_key h1 < dns_key h2)
    \<and> (ngx_dns_strcmp h1 h2 = 0 \<longleftrightarrow> dns_key h1 = dns_key h2)
    \<and> (ngx_filename_cmp s1 s2 n < 0 \<longleftrightarrow> filename_key (take n s1) < filename_key (take n s2))
    \<and> (ngx_filename_cmp s1 s2 n = 0 \<longleftrightarrow> filename_key (take n s1) = filename_key (take n s2))
    \<and> (ngx_memn2cmp m1 m2 (length m1) (length m2) < 0 \<longleftrightarrow> map unat m1 < map unat m2)
    \<and> (ngx_memn2cmp m1 m2 (length m1) (length m2) = 0 \<longleftrightarrow> m1 = m2)"
  using strcase.cmp_less [OF assms(1,2)] strcase.cmp_eq [OF assms(1,2)]
    strncase.cmp_less [OF assms(1,2)] strncase.cmp_eq [OF assms(1,2)]
    dns.cmp_less [OF assms(3,4)] dns.cmp_eq [OF assms(3,4)]
    filename.cmp_less [OF assms(1,2)] filename.cmp_eq [OF assms(1,2)]
    memn2.cmp_less memn2.cmp_eq inj_map_eq_map [of unat m1 m2]
  by (simp add: inj_def byte_cmp)

theorem string_comparison_orders_witness:
  "ngx_strcasecmp (bytes ''Host'') (bytes ''hoST'') = 0 \<and> ngx_dns_strcmp (bytes ''a.b'') (bytes ''a-b'') < 0
   \<and> ngx_filename_cmp (bytes ''a/b'') (bytes ''a-b'') 3 < 0"
  using string_comparison_orders [of "bytes ''Host''" "bytes ''hoST''" "bytes ''a.b''" "bytes ''a-b''" 3 "[]" "[]"]
    string_comparison_orders [of "bytes ''a/b''" "bytes ''a-b''" "[]" "[]" 3 "[]" "[]"]
  by (simp add: no_nul_def dns_ok_def fold_case_def ngx_tolower_def dns_key_def filename_key_def del: ngx_filename_cmp.simps)

end
