(* ===== verification/Http_Header_Line.thy ===== *)
theory Http_Header_Line
  imports Scanner Ngx_Strcmp
begin

text \<open>
  The parser of one header line, \<open>ngx_http_parse_header_line\<close> of \<^verbatim>\<open>src/src/http/ngx_http_parse.c\<close>. It
  computes the hash of the lowercased name while it reads the name, keeps the lowercased name in a
  ring of 32 bytes, and marks names with odd characters as invalid. The hash is an \<open>ngx_uint_t\<close> and
  wraps at 64 bits.
\<close>

section \<open>Data\<close>

datatype header_state =
    sw_start | sw_name | sw_space_before_value | sw_value | sw_space_after_value | sw_ignore_line
  | sw_almost_done | sw_header_almost_done

datatype header_rc = HL_OK | HL_AGAIN | HL_HEADER_DONE | HL_INVALID_HEADER

record header_req =
  header_hash :: "64 word"
  lowcase_index :: nat
  lowcase_header :: "byte list"
  invalid_header :: bool
  has_upstream :: bool
  header_name_start :: "nat option"
  header_name_end :: "nat option"
  header_start :: "nat option"
  header_end :: "nat option"

type_synonym header_action = "(header_state, header_req, header_rc) action"

definition NGX_HTTP_LC_HEADER_LEN :: nat where
  "NGX_HTTP_LC_HEADER_LEN = 32"

definition ngx_hash :: "64 word \<Rightarrow> byte \<Rightarrow> 64 word" where
  "ngx_hash key c = key * 31 + ucast c"

text \<open>The string constant \<open>lowcase\<close>: 256 bytes with its terminating zero.\<close>

definition lowcase_row :: "byte list" where
  "lowcase_row = [0] @ bytes ''abcdefghijklmnopqrstuvwxyz'' @ replicate 5 0"

definition lowcase_tbl :: "byte list" where
  "lowcase_tbl = replicate 32 0
     @ replicate 13 0 @ bytes ''-'' @ replicate 2 0 @ bytes ''0123456789'' @ replicate 6 0
     @ lowcase_row @ lowcase_row @ replicate 128 0"

definition lowcase :: "byte \<Rightarrow> byte" where
  "lowcase ch = lowcase_tbl ! unat ch"

section \<open>The name\<close>

definition hl_done :: "nat \<Rightarrow> header_req \<Rightarrow> header_action" where
  [sm_defs]: "hl_done p r = Done HL_OK sw_start r (p + 1)"

definition hl_header_done :: "nat \<Rightarrow> header_req \<Rightarrow> header_action" where
  [sm_defs]: "hl_header_done p r = Done HL_HEADER_DONE sw_start r (p + 1)"

text \<open>The first byte of a name, and a byte that is not part of a valid name.\<close>

definition hl_first :: "byte \<Rightarrow> header_req \<Rightarrow> header_req" where
  "hl_first c r = r\<lparr>header_hash := ngx_hash 0 c, lowcase_header := (lowcase_header r)[0 := c], lowcase_index := 1\<rparr>"

definition hl_first_invalid :: "header_req \<Rightarrow> header_req" where
  "hl_first_invalid r = r\<lparr>header_hash := 0, lowcase_index := 0, invalid_header := True\<rparr>"

definition hl_start :: "bool \<Rightarrow> nat \<Rightarrow> byte \<Rightarrow> header_req \<Rightarrow> header_action" where
  [sm_defs]: "hl_start allow_underscores p ch r =
     (let r = r\<lparr>header_name_start := Some p, invalid_header := False\<rparr> in
      if ch = CR then Next sw_header_almost_done (r\<lparr>header_end := Some p\<rparr>)
      else if ch = LF then hl_header_done p (r\<lparr>header_end := Some p\<rparr>)
      else if lowcase ch \<noteq> 0 then Next sw_name (hl_first (lowcase ch) r)
      else if ch = asc CHR ''_''
      then Next sw_name (if allow_underscores then hl_first ch r else hl_first_invalid r)
      else if ch \<le> 0x20 \<or> ch = 0x7f \<or> ch = asc CHR '':'' then Fail HL_INVALID_HEADER (r\<lparr>header_end := Some p\<rparr>)
      else Next sw_name (hl_first_invalid r))"

definition hl_more :: "byte \<Rightarrow> header_req \<Rightarrow> header_req" where
  "hl_more c r =
     r\<lparr>header_hash := ngx_hash (header_hash r) c, lowcase_header := (lowcase_header r)[lowcase_index r := c],
       lowcase_index := (lowcase_index r + 1) AND (NGX_HTTP_LC_HEADER_LEN - 1)\<rparr>"

definition hl_empty_value :: "nat \<Rightarrow> header_req \<Rightarrow> header_req" where
  "hl_empty_value p r = r\<lparr>header_start := Some p, header_end := Some p\<rparr>"

definition hl_name :: "bool \<Rightarrow> byte list \<Rightarrow> nat \<Rightarrow> byte \<Rightarrow> header_req \<Rightarrow> header_action" where
  [sm_defs]: "hl_name allow_underscores buf p ch r =
     (if lowcase ch \<noteq> 0 then Next sw_name (hl_more (lowcase ch) r)
      else if ch = asc CHR ''_''
      then Next sw_name (if allow_underscores then hl_more ch r else r\<lparr>invalid_header := True\<rparr>)
      else if ch = asc CHR '':'' then Next sw_space_before_value (r\<lparr>header_name_end := Some p\<rparr>)
      else if ch = CR then Next sw_almost_done (hl_empty_value p (r\<lparr>header_name_end := Some p\<rparr>))
      else if ch = LF then hl_done p (hl_empty_value p (r\<lparr>header_name_end := Some p\<rparr>))
      else if ch = asc CHR ''/'' \<and> has_upstream r
              \<and> (case header_name_start r of None \<Rightarrow> False
                  | Some s \<Rightarrow> p = s + 4 \<and> take 4 (drop s buf) = bytes ''HTTP'')
      then Next sw_ignore_line r
      else if ch \<le> 0x20 \<or> ch = 0x7f then Fail HL_INVALID_HEADER (r\<lparr>header_end := Some p\<rparr>)
      else Next sw_name (r\<lparr>invalid_header := True\<rparr>))"

section \<open>The value\<close>

definition hl_space_before_value :: "nat \<Rightarrow> byte \<Rightarrow> header_req \<Rightarrow> header_action" where
  [sm_defs]: "hl_space_before_value p ch r =
     (if ch = asc CHR '' '' then Next sw_space_before_value r
      else if ch = CR then Next sw_almost_done (hl_empty_value p r)
      else if ch = LF then hl_done p (hl_empty_value p r)
      else if ch = 0 then Fail HL_INVALID_HEADER (r\<lparr>header_end := Some p\<rparr>)
      else Next sw_value (r\<lparr>header_start := Some p\<rparr>))"

definition hl_value :: "nat \<Rightarrow> byte \<Rightarrow> header_req \<Rightarrow> header_action" where
  [sm_defs]: "hl_value p ch r =
     (if ch = asc CHR '' '' then Next sw_space_after_value (r\<lparr>header_end := Some p\<rparr>)
      else if ch = CR then Next sw_almost_done (r\<lparr>header_end := Some p\<rparr>)
      else if ch = LF then hl_done p (r\<lparr>header_end := Some p\<rparr>)
      else if ch = 0 then Fail HL_INVALID_HEADER (r\<lparr>header_end := Some p\<rparr>)
      else Next sw_value r)"

definition hl_space_after_value :: "nat \<Rightarrow> byte \<Rightarrow> header_req \<Rightarrow> header_action" where
  [sm_defs]: "hl_space_after_value p ch r =
     (if ch = asc CHR '' '' then Next sw_space_after_value r
      else if ch = CR then Next sw_almost_done r
      else if ch = LF then hl_done p r
      else if ch = 0 then Fail HL_INVALID_HEADER (r\<lparr>header_end := Some p\<rparr>)
      else Next sw_value r)"

definition hl_ignore_line :: "byte \<Rightarrow> header_req \<Rightarrow> header_action" where
  [sm_defs]: "hl_ignore_line ch r = Next (if ch = LF then sw_start else sw_ignore_line) r"

definition hl_almost_done :: "nat \<Rightarrow> byte \<Rightarrow> header_req \<Rightarrow> header_action" where
  [sm_defs]: "hl_almost_done p ch r =
     (if ch = LF then hl_done p r
      else if ch = CR then Next sw_almost_done r
      else Fail HL_INVALID_HEADER r)"

definition hl_header_almost_done :: "nat \<Rightarrow> byte \<Rightarrow> header_req \<Rightarrow> header_action" where
  [sm_defs]: "hl_header_almost_done p ch r =
     (if ch = LF then hl_header_done p r else Fail HL_INVALID_HEADER r)"

section \<open>The parser\<close>

definition header_step :: "bool \<Rightarrow> (header_state, header_req, header_rc) stepper" where
  "header_step allow_underscores buf p st r =
     (let ch = buf ! p in
      case st of
        sw_start \<Rightarrow> hl_start allow_underscores p ch r
      | sw_name \<Rightarrow> hl_name allow_underscores buf p ch r
      | sw_space_before_value \<Rightarrow> hl_space_before_value p ch r
      | sw_value \<Rightarrow> hl_value p ch r
      | sw_space_after_value \<Rightarrow> hl_space_after_value p ch r
      | sw_ignore_line \<Rightarrow> hl_ignore_line ch r
      | sw_almost_done \<Rightarrow> hl_almost_done p ch r
      | sw_header_almost_done \<Rightarrow> hl_header_almost_done p ch r)"

text \<open>
  The running hash and index are the local variables \<open>hash\<close> and \<open>i\<close>: they are stored in the request
  when the function returns \<open>NGX_OK\<close> or \<open>NGX_AGAIN\<close>, and only then.
\<close>

definition ngx_http_parse_header_line ::
  "byte list \<Rightarrow> nat \<Rightarrow> bool \<Rightarrow> header_state \<Rightarrow> header_req \<Rightarrow> header_rc \<times> header_state \<times> header_req \<times> nat" where
  "ngx_http_parse_header_line buf pos allow_underscores st r =
     (case scan (header_step allow_underscores) buf pos st r of
        Next st' r' \<Rightarrow> (HL_AGAIN, st', r', max pos (length buf))
      | Done rc st' r' q \<Rightarrow>
          (rc, st', (if rc = HL_OK then r'
                     else r'\<lparr>header_hash := header_hash r, lowcase_index := lowcase_index r\<rparr>), q)
      | Fail rc r' \<Rightarrow> (rc, st, r'\<lparr>header_hash := header_hash r, lowcase_index := lowcase_index r\<rparr>, pos))"

section \<open>Resumption\<close>

interpretation header_line: resumable "header_step u" for u
proof
  fix p :: nat and buf ys :: "byte list" and st r
  assume p: "p < length buf"
  have "take 4 (drop s (buf @ ys)) = take 4 (drop s buf)" if "p = s + 4" for s
    using p that by simp
  then have "hl_name u (buf @ ys) p c r = hl_name u buf p c r" for c
    by (auto simp: hl_name_def split: option.splits)
  with p show "header_step u (buf @ ys) p st r = header_step u buf p st r"
    by (cases st) (simp_all add: header_step_def nth_append)
qed

section \<open>Characters of a name\<close>

lemma lowcase_row_nth: "i < 32 \<Longrightarrow> lowcase_row ! i = (if 1 \<le> i \<and> i \<le> 26 then of_nat (i + 96) else 0)"
  by (simp add: lowcase_row_def less_Suc_eq numeral_eq_Suc) (elim disjE; simp)

lemma digits_nth: "i < 10 \<Longrightarrow> (bytes ''0123456789'' @ ys) ! i = of_nat (i + 48)"
  by (simp add: less_Suc_eq numeral_eq_Suc) (elim disjE; simp)

lemma lowcase_tbl_nth:
  assumes "n < 256"
  shows "lowcase_tbl ! n = (if n = 45 then 0x2d else if 48 \<le> n \<and> n < 58 then of_nat n
    else if 65 \<le> n \<and> n \<le> 90 then of_nat (n + 32) else if 97 \<le> n \<and> n \<le> 122 then of_nat n else 0)"
proof -
  have len: "length lowcase_row = 32" by (simp add: lowcase_row_def)
  consider "n < 45" | "n = 45" | "45 < n" "n < 48" | "48 \<le> n" "n < 58" | "58 \<le> n" "n < 64" | "64 \<le> n" "n < 96" | "96 \<le> n" "n < 128" | "128 \<le> n"
    by linarith
  then show ?thesis
  proof cases
    case 4
    then show ?thesis using digits_nth [of "n - 48" "replicate 6 0 @ lowcase_row @ lowcase_row @ replicate 128 0"] by (auto simp: lowcase_tbl_def nth_append len)
  next
    case 6
    then show ?thesis using lowcase_row_nth [of "n - 64"] by (auto simp: lowcase_tbl_def nth_append len)
  next
    case 7
    then show ?thesis using lowcase_row_nth [of "n - 96"] by (auto simp: lowcase_tbl_def nth_append len)
  qed (use assms in \<open>auto simp: lowcase_tbl_def nth_append len nth_Cons'\<close>)
qed

lemma lowcase_iff:
  "lowcase c = (if asc CHR ''A'' \<le> c \<and> c \<le> asc CHR ''Z'' then c OR 0x20
     else if asc CHR ''a'' \<le> c \<and> c \<le> asc CHR ''z'' \<or> asc CHR ''0'' \<le> c \<and> c \<le> asc CHR ''9'' \<or> c = asc CHR ''-'' then c else 0)"
proof -
  have "unat c < 256" using unsigned_less [of c, where ?'a = nat] by simp
  moreover have "asc CHR ''A'' \<le> c \<and> c \<le> asc CHR ''Z'' \<longrightarrow> of_nat (unat c + 32) = c OR 0x20"
    by (rule byte_exhaust) simp
  ultimately show ?thesis
    by (auto simp: lowcase_def lowcase_tbl_nth word_le_nat_alt word_unat_eq_iff)
qed

section \<open>The invariant of the machine\<close>

definition name_byte :: "byte \<Rightarrow> bool" where
  "name_byte c \<longleftrightarrow> 0x20 < c \<and> c \<noteq> 0x7f \<and> c \<noteq> asc CHR '':''"

definition value_byte :: "byte \<Rightarrow> bool" where
  "value_byte c \<longleftrightarrow> c \<noteq> CR \<and> c \<noteq> LF \<and> c \<noteq> 0"

definition all_in :: "(byte \<Rightarrow> bool) \<Rightarrow> byte list \<Rightarrow> nat \<Rightarrow> nat \<Rightarrow> bool" where
  "all_in P buf a b \<longleftrightarrow> (\<forall>i. a \<le> i \<longrightarrow> i < b \<longrightarrow> P (buf ! i))"

lemma all_in_Suc: "all_in P buf a (Suc b) \<longleftrightarrow> all_in P buf a b \<and> (a \<le> b \<longrightarrow> P (buf ! b))"
  by (auto simp: all_in_def less_Suc_eq)

lemma all_in_empty [simp]: "all_in P buf a a" by (simp add: all_in_def)

definition ring_ok :: "header_req \<Rightarrow> bool" where
  "ring_ok r \<longleftrightarrow> length (lowcase_header r) = NGX_HTTP_LC_HEADER_LEN \<and> lowcase_index r < NGX_HTTP_LC_HEADER_LEN"

definition named :: "byte list \<Rightarrow> nat \<Rightarrow> header_req \<Rightarrow> bool" where
  "named buf p r \<longleftrightarrow> (\<exists>s e. header_name_start r = Some s \<and> header_name_end r = Some e \<and> s < e \<and> e \<le> p \<and> all_in name_byte buf s e)"

definition valued :: "byte list \<Rightarrow> nat \<Rightarrow> header_req \<Rightarrow> bool" where
  "valued buf p r \<longleftrightarrow> named buf p r \<and> (\<exists>h e. header_start r = Some h \<and> header_end r = Some e \<and> the (header_name_end r) \<le> h
     \<and> h \<le> e \<and> e \<le> p \<and> all_in value_byte buf h e)"

definition header_inv :: "byte list \<Rightarrow> nat \<Rightarrow> header_state \<Rightarrow> header_req \<Rightarrow> bool" where
  "header_inv buf p st r \<longleftrightarrow> ring_ok r \<and>
     (case st of
        sw_name \<Rightarrow> (\<exists>s. header_name_start r = Some s \<and> s < p \<and> all_in name_byte buf s p)
      | sw_space_before_value \<Rightarrow> named buf p r
      | sw_value \<Rightarrow> named buf p r \<and> (\<exists>h. header_start r = Some h \<and> the (header_name_end r) \<le> h \<and> h < p \<and> all_in value_byte buf h p)
      | sw_space_after_value \<Rightarrow> valued buf p r \<and> (\<exists>h. header_start r = Some h \<and> h < p \<and> all_in value_byte buf h p)
      | sw_almost_done \<Rightarrow> valued buf p r
      | _ \<Rightarrow> True)"

lemma and_31: "(n AND 31 :: nat) < 32"
proof -
  have "n AND 31 = take_bit 5 n" by (simp add: take_bit_eq_mask mask_eq_exp_minus_1)
  also have "\<dots> < 2 ^ 5" by (rule take_bit_nat_less_exp)
  finally show ?thesis by simp
qed

lemma ring_frame [simp]:
  "ring_ok r \<Longrightarrow> ring_ok (hl_more c r)" "ring_ok r \<Longrightarrow> ring_ok (hl_first c r)" "ring_ok r \<Longrightarrow> ring_ok (hl_first_invalid r)"
  "ring_ok (hl_empty_value p r) = ring_ok r" "ring_ok (r\<lparr>invalid_header := b\<rparr>) = ring_ok r"
  "ring_ok (r\<lparr>header_name_start := x\<rparr>) = ring_ok r" "ring_ok (r\<lparr>header_name_end := x\<rparr>) = ring_ok r"
  "ring_ok (r\<lparr>header_start := x\<rparr>) = ring_ok r" "ring_ok (r\<lparr>header_end := x\<rparr>) = ring_ok r"
  by (simp_all add: ring_ok_def hl_more_def hl_first_def hl_first_invalid_def hl_empty_value_def NGX_HTTP_LC_HEADER_LEN_def and_31)

lemma name_byte_lowcase: "lowcase c \<noteq> 0 \<Longrightarrow> name_byte c"
  by (auto simp: lowcase_iff name_byte_def word_le_def word_less_def split: if_splits)

definition header_step_ok :: "byte list \<Rightarrow> nat \<Rightarrow> header_action \<Rightarrow> bool" where
  "header_step_ok buf p a =
     (case a of
        Next st r \<Rightarrow> header_inv buf (Suc p) st r
      | Done rc st r q \<Rightarrow> st = sw_start \<and> q = Suc p \<and> ring_ok r \<and> buf ! p = LF \<and> (rc = HL_OK \<and> valued buf p r \<or> rc = HL_HEADER_DONE)
      | Fail rc r \<Rightarrow> rc = HL_INVALID_HEADER \<and> ring_ok r)"

lemma header_name_ok:
  assumes "header_inv buf p sw_name r" and "p < length buf"
  shows "header_step_ok buf p (hl_name u buf p (buf ! p) r)"
proof -
  obtain s where s: "header_name_start r = Some s" "s < p" "all_in name_byte buf s p" and r: "ring_ok r"
    using assms(1) by (auto simp: header_inv_def)
  have more: "name_byte (buf ! p) \<Longrightarrow> header_name_start r' = Some s \<Longrightarrow> ring_ok r' \<Longrightarrow> header_inv buf (Suc p) sw_name r'" for r'
    using s by (auto simp: header_inv_def all_in_Suc)
  have nm: "named buf p (r\<lparr>header_name_end := Some p\<rparr>)" "named buf (Suc p) (r\<lparr>header_name_end := Some p\<rparr>)"
    using s by (auto simp: named_def)
  then have vl: "valued buf p (hl_empty_value p (r\<lparr>header_name_end := Some p\<rparr>))"
    "valued buf (Suc p) (hl_empty_value p (r\<lparr>header_name_end := Some p\<rparr>))"
    by (auto simp: valued_def hl_empty_value_def named_def)
  have eq: "header_name_start (hl_more c r) = header_name_start r" for c by (simp add: hl_more_def)
  have i: "header_inv buf (Suc p) sw_ignore_line r" using r by (simp add: header_inv_def)
  have nb: "\<not> (buf ! p \<le> 0x20 \<or> buf ! p = 0x7f) \<Longrightarrow> buf ! p \<noteq> asc CHR '':'' \<Longrightarrow> name_byte (buf ! p)"
    by (auto simp: name_byte_def)
  have us: "name_byte (asc CHR ''_'')" by (simp add: name_byte_def)
  show ?thesis
    using more r s(1) nm vl i nb name_byte_lowcase [of "buf ! p"] us
    by (auto simp: hl_name_def header_step_ok_def hl_done_def eq header_inv_def)
qed

lemma header_start_ok:
  assumes "ring_ok r"
  shows "header_step_ok buf p (hl_start u p (buf ! p) r)"
  using assms name_byte_lowcase [of "buf ! p"]
  by (auto simp: hl_start_def header_step_ok_def hl_header_done_def header_inv_def Let_def all_in_Suc name_byte_def
      hl_first_def hl_first_invalid_def ring_ok_def NGX_HTTP_LC_HEADER_LEN_def)

lemma named_Suc: "named buf p r \<Longrightarrow> named buf (Suc p) r"
  unfolding named_def by (blast intro: le_SucI)

lemma valued_Suc: "valued buf p r \<Longrightarrow> valued buf (Suc p) r"
  unfolding valued_def by (blast intro: le_SucI named_Suc)

lemma named_frame [simp]:
  "named buf p (r\<lparr>header_start := x\<rparr>) = named buf p r" "named buf p (r\<lparr>header_end := x\<rparr>) = named buf p r"
  by (simp_all add: named_def)

lemma header_value_ok:
  assumes "header_inv buf p st r" and "st \<in> {sw_space_before_value, sw_value, sw_space_after_value}"
  shows "header_step_ok buf p (header_step u buf p st r)"
proof -
  have r: "ring_ok r" and nm: "named buf p r" "named buf (Suc p) r"
    using assms named_Suc by (auto simp: header_inv_def valued_def)
  have le: "the (header_name_end r) \<le> p" using nm by (auto simp: named_def)
  consider "st = sw_space_before_value" | "st = sw_value" | "st = sw_space_after_value" using assms(2) by blast
  then show ?thesis
  proof cases
    case 1
    have "valued buf p (hl_empty_value p r)" "valued buf (Suc p) (hl_empty_value p r)"
      using nm le by (auto simp: valued_def hl_empty_value_def)
    with 1 r nm le show ?thesis
      by (auto simp: header_step_def hl_space_before_value_def header_step_ok_def header_inv_def hl_done_def all_in_Suc value_byte_def Let_def)
  next
    case 2
    then obtain h where h: "header_start r = Some h" "the (header_name_end r) \<le> h" "h < p" "all_in value_byte buf h p"
      using assms(1) by (auto simp: header_inv_def)
    have vl: "valued buf p (r\<lparr>header_end := Some p\<rparr>)" "valued buf (Suc p) (r\<lparr>header_end := Some p\<rparr>)"
      using h nm by (auto simp: valued_def)
    have h': "all_in value_byte buf h (Suc p)" if "value_byte (buf ! p)" using h(4) that by (simp add: all_in_Suc)
    have "buf ! p = 0x20 \<Longrightarrow> value_byte (buf ! p)" by (simp add: value_byte_def)
    then show ?thesis
      using 2 r nm h vl h'
      by (auto simp: header_step_def hl_value_def header_step_ok_def header_inv_def hl_done_def Let_def value_byte_def)
  next
    case 3
    then obtain h where h: "header_start r = Some h" "h < p" "all_in value_byte buf h p" and v: "valued buf p r"
      using assms(1) by (auto simp: header_inv_def)
    have hn: "the (header_name_end r) \<le> h" using v h(1) by (auto simp: valued_def)
    have h': "all_in value_byte buf h (Suc p)" if "value_byte (buf ! p)" using h(3) that by (simp add: all_in_Suc)
    have "buf ! p = 0x20 \<Longrightarrow> value_byte (buf ! p)" by (simp add: value_byte_def)
    then show ?thesis
      using 3 r nm h v h' hn valued_Suc [OF v]
      by (auto simp: header_step_def hl_space_after_value_def header_step_ok_def header_inv_def hl_done_def Let_def value_byte_def)
  qed
qed

lemma header_step_invariant:
  assumes "header_inv buf p st r" and "p < length buf"
  shows "header_step_ok buf p (header_step u buf p st r)"
proof (cases st)
  case sw_start
  then show ?thesis using header_start_ok assms(1) by (simp add: header_step_def header_inv_def)
next
  case sw_name
  then show ?thesis using header_name_ok assms by (simp add: header_step_def)
next
  case sw_ignore_line
  then show ?thesis using assms(1) by (simp add: header_step_def hl_ignore_line_def header_step_ok_def header_inv_def)
next
  case sw_almost_done
  then show ?thesis using assms(1) valued_Suc by (auto simp: header_step_def hl_almost_done_def hl_done_def header_step_ok_def header_inv_def Let_def)
next
  case sw_header_almost_done
  then show ?thesis using assms(1)
    by (auto simp: header_step_def hl_header_almost_done_def hl_header_done_def header_step_ok_def header_inv_def Let_def)
qed (use header_value_ok [OF assms(1)] in auto)

lemma header_scan_ok:
  assumes "header_inv buf p st r"
  shows "case scan (header_step u) buf p st r of
      Next st' r' \<Rightarrow> header_inv buf (max p (length buf)) st' r'
    | Done rc st' r' q \<Rightarrow> st' = sw_start \<and> 0 < q \<and> q \<le> length buf \<and> buf ! (q - 1) = LF \<and> ring_ok r'
        \<and> (rc = HL_OK \<and> valued buf (q - 1) r' \<or> rc = HL_HEADER_DONE)
    | Fail rc r' \<Rightarrow> rc = HL_INVALID_HEADER \<and> ring_ok r'"
proof (rule scan_invariant [where I = "header_inv buf", OF assms])
  fix p st r assume "p < length buf" and "header_inv buf p st r"
  with header_step_invariant [of buf p st r u]
  show "case header_step u buf p st r of
      Next st' r' \<Rightarrow> header_inv buf (Suc p) st' r'
    | Done rc st' r' q \<Rightarrow> st' = sw_start \<and> 0 < q \<and> q \<le> length buf \<and> buf ! (q - 1) = LF \<and> ring_ok r'
        \<and> (rc = HL_OK \<and> valued buf (q - 1) r' \<or> rc = HL_HEADER_DONE)
    | Fail rc r' \<Rightarrow> rc = HL_INVALID_HEADER \<and> ring_ok r'"
    by (auto simp: header_step_ok_def split: action.splits)
qed

section \<open>The hash of a name\<close>

definition ngx_hash_key_lc :: "byte list \<Rightarrow> 64 word" where
  "ngx_hash_key_lc data = foldl (\<lambda>key c. ngx_hash key (ngx_tolower c)) 0 data"

lemma lowcase_tolower: "lowcase c \<noteq> 0 \<Longrightarrow> lowcase c = ngx_tolower c"
  by (auto simp: lowcase_iff ngx_tolower_def split: if_splits)

section \<open>Reading back a header line\<close>

text \<open>The name read so far: its hash and the ring of its lowercased bytes.\<close>

definition name_read :: "byte list \<Rightarrow> header_req \<Rightarrow> bool" where
  "name_read name r \<longleftrightarrow> header_name_start r = Some 0 \<and> \<not> invalid_header r \<and> ring_ok r
     \<and> header_hash r = ngx_hash_key_lc name \<and> lowcase_index r = length name mod 32
     \<and> (length name \<le> 32 \<longrightarrow> take (length name) (lowcase_header r) = map ngx_tolower name)"

lemma and_31_mod: "(n AND 31 :: nat) = n mod 32"
proof -
  have "n AND 31 = take_bit 5 n" by (simp add: take_bit_eq_mask mask_eq_exp_minus_1)
  then show ?thesis by (simp add: take_bit_eq_mod)
qed

lemma name_read_more:
  assumes "name_read name r"
  shows "name_read (name @ [c]) (hl_more (ngx_tolower c) r)"
proof -
  let ?n = "length name"
  have "ring_ok (hl_more (ngx_tolower c) r)" using assms by (simp add: name_read_def)
  moreover have "take (Suc ?n) ((lowcase_header r)[?n mod 32 := ngx_tolower c]) = map ngx_tolower name @ [ngx_tolower c]"
    if "Suc ?n \<le> 32"
  proof -
    have "?n mod 32 = ?n" "?n < length (lowcase_header r)" "take ?n (lowcase_header r) = map ngx_tolower name"
      using assms that by (auto simp: name_read_def ring_ok_def NGX_HTTP_LC_HEADER_LEN_def)
    then show ?thesis by (simp add: take_Suc_conv_app_nth)
  qed
  ultimately show ?thesis
    using assms
    by (auto simp: name_read_def hl_more_def ngx_hash_key_lc_def NGX_HTTP_LC_HEADER_LEN_def and_31_mod mod_Suc_eq)
qed

lemma name_read_first:
  assumes "ring_ok r" and "header_name_start r = Some 0" and "\<not> invalid_header r"
  shows "name_read [c] (hl_first (ngx_tolower c) r)"
proof -
  have len: "length (lowcase_header r) = 32" using assms(1) by (simp add: ring_ok_def NGX_HTTP_LC_HEADER_LEN_def)
  then obtain x xs where "lowcase_header r = x # xs" by (cases "lowcase_header r") auto
  with len assms show ?thesis
    by (simp add: name_read_def hl_first_def ngx_hash_key_lc_def ring_ok_def NGX_HTTP_LC_HEADER_LEN_def)
qed

lemma scan_header_name:
  assumes "name \<noteq> []" and "\<forall>c\<in>set name. lowcase c \<noteq> 0" and "buf = name @ rest" and "ring_ok r"
  shows "\<exists>r'. name_read name r' \<and> scan (header_step u) buf 0 sw_start r = scan (header_step u) buf (length name) sw_name r'"
proof -
  let ?r = "r\<lparr>header_name_start := Some 0, invalid_header := False\<rparr>"
  obtain c cs where name: "name = c # cs" using assms(1) by (cases name) auto
  have lc: "lowcase (buf ! i) \<noteq> 0" "buf ! i = name ! i" if "i < length name" for i
    using that assms(2,3) by (simp_all add: nth_append)
  have nl: "d \<noteq> CR \<and> d \<noteq> LF" if "lowcase d \<noteq> 0" for d using that by (auto simp: lowcase_iff split: if_splits)
  have "header_step u buf 0 sw_start r = Next sw_name (hl_first (ngx_tolower c) ?r)"
    using lc [of 0] name nl [of c] lowcase_tolower [of c] by (simp add: header_step_def hl_start_def Let_def)
  then have one: "scan (header_step u) buf 0 sw_start r = scan (header_step u) buf 1 sw_name (hl_first (ngx_tolower c) ?r)"
    using assms(3) name by (subst scan_Next) auto
  have "\<exists>st' r'. (st' = sw_name \<and> name_read (take (length name) name) r')
      \<and> scan (header_step u) buf 1 sw_name (hl_first (ngx_tolower c) ?r) = scan (header_step u) buf (length name) st' r'"
  proof (rule scan_until [where I = "\<lambda>i st r. st = sw_name \<and> name_read (take i name) r"])
    show "1 \<le> length name" "length name \<le> length buf" using assms(3) name by auto
    show "sw_name = sw_name \<and> name_read (take 1 name) (hl_first (ngx_tolower c) ?r)"
      using name_read_first [of ?r c] assms(4) name by simp
    show "\<exists>st' r'. header_step u buf i st r = Next st' r' \<and> st' = sw_name \<and> name_read (take (Suc i) name) r'"
      if "1 \<le> i" "i < length name" "st = sw_name \<and> name_read (take i name) r" for i st r
      using that lc [OF that(2)] name_read_more [of "take i name" r "name ! i"] lowcase_tolower [of "name ! i"]
      by (simp add: header_step_def hl_name_def Let_def take_Suc_conv_app_nth)
  qed
  with one show ?thesis by auto
qed

text \<open>The value and what follows it.\<close>

definition vseg :: "byte list \<Rightarrow> nat option \<Rightarrow> nat option \<Rightarrow> byte list" where
  "vseg buf a b = (case (a, b) of (Some x, Some y) \<Rightarrow> take (y - x) (drop x buf) | _ \<Rightarrow> [])"

lemma header_step_value:
  assumes "value_byte (buf ! i)" and "st = sw_value \<or> st = sw_space_after_value"
  shows "header_step u buf i st r = Next (if buf ! i = 0x20 then sw_space_after_value else sw_value)
    (r\<lparr>header_end := (if st = sw_value \<and> buf ! i = 0x20 then Some i else header_end r)\<rparr>)"
  using assms by (auto simp: value_byte_def header_step_def hl_value_def hl_space_after_value_def Let_def)

lemma scan_value:
  assumes "h < e" and "e \<le> length buf" and "all_in value_byte buf h e" and "buf ! h \<noteq> 0x20" and "buf ! (e - 1) \<noteq> 0x20"
  shows "\<exists>x. scan (header_step u) buf h sw_space_before_value r =
    scan (header_step u) buf e sw_value (r\<lparr>header_start := Some h, header_end := x\<rparr>)"
proof -
  let ?I = "\<lambda>i st r'. (\<exists>x. r' = r\<lparr>header_start := Some h, header_end := x\<rparr>)
    \<and> (st = sw_value \<or> st = sw_space_after_value \<and> buf ! (i - 1) = 0x20)"
  have vb: "value_byte (buf ! i)" if "h \<le> i" "i < e" for i using assms(3) that by (simp add: all_in_def)
  have "header_step u buf h sw_space_before_value r = Next sw_value (r\<lparr>header_start := Some h\<rparr>)"
    using vb [of h] assms(1,4) by (simp add: header_step_def hl_space_before_value_def value_byte_def)
  then have one: "scan (header_step u) buf h sw_space_before_value r = scan (header_step u) buf (Suc h) sw_value (r\<lparr>header_start := Some h\<rparr>)"
    using assms(1,2) by (intro scan_Next) auto
  have "\<exists>st' r'. ?I e st' r' \<and> scan (header_step u) buf (Suc h) sw_value (r\<lparr>header_start := Some h\<rparr>) = scan (header_step u) buf e st' r'"
  proof (rule scan_until [where I = ?I])
    show "Suc h \<le> e" "e \<le> length buf" using assms by auto
    have "r\<lparr>header_start := Some h\<rparr> = r\<lparr>header_start := Some h, header_end := header_end r\<rparr>" by simp
    then show "?I (Suc h) sw_value (r\<lparr>header_start := Some h\<rparr>)" by blast
    show "\<exists>st2 r2. header_step u buf i st1 r1 = Next st2 r2 \<and> ?I (Suc i) st2 r2"
      if i: "Suc h \<le> i" "i < e" "?I i st1 r1" for i st1 r1
    proof -
      obtain x where r1: "r1 = r\<lparr>header_start := Some h, header_end := x\<rparr>" using i(3) by blast
      have "value_byte (buf ! i)" "st1 = sw_value \<or> st1 = sw_space_after_value" using i vb [of i] by auto
      from header_step_value [OF this, of u r1] r1 show ?thesis by auto
    qed
  qed
  then show ?thesis using one assms(5) by auto
qed

lemma scan_header_end:
  assumes "drop e buf = replicate j 0x20 @ [CR, LF]" and "e \<le> length buf"
  shows "scan (header_step u) buf e sw_value r = Done HL_OK sw_start (r\<lparr>header_end := Some e\<rparr>) (length buf)"
proof -
  have "length (drop e buf) = j + 2" using assms(1) by simp
  then have len: "length buf = e + j + 2" using assms(2) by simp
  have nth: "buf ! (e + i) = (replicate j 0x20 @ [CR, LF]) ! i" for i
    using assms(1,2) nth_drop [of e buf i] by simp
  have tail: "buf ! (e + j) = CR" "buf ! Suc (e + j) = LF"
    using nth [of j] nth [of "Suc j"] by (simp_all add: nth_append)
  have fin: "scan (header_step u) buf (Suc (e + j)) sw_almost_done r' = Done HL_OK sw_start r' (length buf)" for r'
    using tail len by (intro scan_Done) (simp_all add: header_step_def hl_almost_done_def hl_done_def)
  show ?thesis
  proof (cases j)
    case 0
    then have "scan (header_step u) buf e sw_value r = scan (header_step u) buf (Suc e) sw_almost_done (r\<lparr>header_end := Some e\<rparr>)"
      using tail len by (intro scan_Next) (simp_all add: header_step_def hl_value_def)
    with fin [of "r\<lparr>header_end := Some e\<rparr>"] 0 show ?thesis by simp
  next
    case (Suc k)
    let ?r = "r\<lparr>header_end := Some e\<rparr>"
    have sp: "buf ! i = 0x20" if "e \<le> i" "i < e + j" for i
      using nth [of "i - e"] that by (simp add: nth_append)
    have "scan (header_step u) buf e sw_value r = scan (header_step u) buf (Suc e) sw_space_after_value ?r"
      using sp [of e] Suc len by (intro scan_Next) (simp_all add: header_step_def hl_value_def)
    also have "\<dots> = scan (header_step u) buf (e + j) sw_space_after_value ?r"
      using sp Suc len by (intro scan_stay) (simp_all add: header_step_def hl_space_after_value_def)
    also have "\<dots> = scan (header_step u) buf (Suc (e + j)) sw_almost_done ?r"
      using tail len by (intro scan_Next) (simp_all add: header_step_def hl_space_after_value_def)
    finally show ?thesis using fin [of ?r] by simp
  qed
qed

section \<open>Properties\<close>

text \<open>
  C30. Round trip of a header line: a name of letters, digits and hyphens, a colon, any number of
  spaces, a value without control line bytes that neither starts nor ends with a space, any number
  of spaces and the line end are parsed back to exactly the name and the value; the name is marked
  valid, the hash is the one that the header tables are built with (\<open>ngx_hash_key_lc\<close>), and a name of
  at most 32 bytes is found lowercased in \<open>lowcase_header\<close>.
\<close>

theorem header_line_roundtrip:
  assumes "name \<noteq> []" and "\<forall>c\<in>set name. lowcase c \<noteq> 0"
    and "v \<noteq> []" and "\<forall>c\<in>set v. value_byte c" and "hd v \<noteq> 0x20" and "last v \<noteq> 0x20" and "ring_ok r"
    and "buf = name @ asc CHR '':'' # replicate k 0x20 @ v @ replicate j 0x20 @ [CR, LF]"
  shows "\<exists>r'. ngx_http_parse_header_line buf 0 u sw_start r = (HL_OK, sw_start, r', length buf)
    \<and> vseg buf (header_name_start r') (header_name_end r') = name \<and> vseg buf (header_start r') (header_end r') = v
    \<and> \<not> invalid_header r' \<and> header_hash r' = ngx_hash_key_lc name
    \<and> (length name \<le> 32 \<longrightarrow> take (length name) (lowcase_header r') = map ngx_tolower name)"
proof -
  let ?n = "length name" and ?h = "Suc (length name) + k" and ?e = "Suc (length name) + k + length v"
  obtain r1 where r1: "name_read name r1"
    "scan (header_step u) buf 0 sw_start r = scan (header_step u) buf ?n sw_name r1"
    using scan_header_name [OF assms(1,2,8,7)] by blast
  let ?r2 = "r1\<lparr>header_name_end := Some ?n\<rparr>"
  have len: "length buf = ?e + j + 2" using assms(8) by simp
  have colon: "buf ! ?n = asc CHR '':''" using assms(8) by simp
  have lc: "lowcase (asc CHR '':'') = 0" by (simp add: lowcase_iff)
  have "scan (header_step u) buf ?n sw_name r1 = scan (header_step u) buf (Suc ?n) sw_space_before_value ?r2"
    using colon lc len by (intro scan_Next) (simp_all add: header_step_def hl_name_def)
  also have "\<dots> = scan (header_step u) buf ?h sw_space_before_value ?r2"
  proof (rule scan_stay)
    show "header_step u buf i sw_space_before_value ?r2 = Next sw_space_before_value ?r2" if "Suc ?n \<le> i" "i < ?h" for i
    proof -
      have "i - Suc ?n < k" using that by simp
      moreover have "buf ! i = (replicate k 0x20 @ v @ replicate j 0x20 @ [CR, LF]) ! (i - Suc ?n)"
        using that assms(8) by (simp add: nth_append)
      ultimately have "buf ! i = 0x20" by (simp add: nth_append)
      then show ?thesis by (simp add: header_step_def hl_space_before_value_def)
    qed
  qed (use len in simp_all)
  also obtain x where "\<dots> = scan (header_step u) buf ?e sw_value (?r2\<lparr>header_start := Some ?h, header_end := x\<rparr>)"
  proof -
    have v: "buf ! (?h + i) = v ! i" if "i < length v" for i
      using that assms(8) by (simp add: nth_append nth_Cons')
    have "all_in value_byte buf ?h ?e"
      unfolding all_in_def
    proof (intro allI impI)
      fix i assume "?h \<le> i" "i < ?e"
      then show "value_byte (buf ! i)" using v [of "i - ?h"] assms(4) by simp
    qed
    moreover have "buf ! ?h \<noteq> 0x20" using v [of 0] assms(3,5) by (simp add: hd_conv_nth)
    moreover have "buf ! (?e - 1) \<noteq> 0x20"
      using v [of "length v - 1"] assms(3,6) by (cases v rule: rev_cases) (simp_all add: last_conv_nth)
    moreover have "?h < ?e" "?e \<le> length buf" using assms(3) len by simp_all
    ultimately show ?thesis using scan_value [of ?h ?e buf u ?r2] that by blast
  qed
  also have "\<dots> = Done HL_OK sw_start (?r2\<lparr>header_start := Some ?h, header_end := Some ?e\<rparr>) (length buf)"
    using scan_header_end [of ?e buf j u] assms(8) len by simp
  finally have "scan (header_step u) buf 0 sw_start r = \<dots>" using r1(2) by simp
  then show ?thesis
    using r1(1) assms(8) by (simp add: ngx_http_parse_header_line_def name_read_def vseg_def)
qed

theorem header_line_roundtrip_witness:
  "\<exists>r'. ngx_http_parse_header_line (bytes ''Host: a b '' @ [CR, LF]) 0 False sw_start
      \<lparr>header_hash = 0, lowcase_index = 0, lowcase_header = replicate 32 0, invalid_header = False, has_upstream = False,
       header_name_start = None, header_name_end = None, header_start = None, header_end = None\<rparr> = (HL_OK, sw_start, r', 12)
    \<and> vseg (bytes ''Host: a b '' @ [CR, LF]) (header_start r') (header_end r') = bytes ''a b''"
  using header_line_roundtrip [of "bytes ''Host''" "bytes ''a b''"
      "\<lparr>header_hash = 0, lowcase_index = 0, lowcase_header = replicate 32 0, invalid_header = False, has_upstream = False,
       header_name_start = None, header_name_end = None, header_start = None, header_end = None\<rparr>"
      "bytes ''Host: a b '' @ [CR, LF]" 1 1 False]
  by (auto simp: lowcase_iff value_byte_def ring_ok_def NGX_HTTP_LC_HEADER_LEN_def)

text \<open>
  C29. No header line smuggles another: however the bytes arrive, a line that the parser accepts has a
  name without spaces, colons or control bytes and a value without CR, LF or zero bytes, both inside
  the line and in this order; the ring of the lowercased name is never written out of its 32 bytes.
\<close>

theorem header_line_contained:
  assumes "feed (header_step u) [] sw_start r pieces = Done HL_OK st r' pos" and "ring_ok r"
  shows "\<exists>s e h d. header_name_start r' = Some s \<and> header_name_end r' = Some e \<and> header_start r' = Some h \<and> header_end r' = Some d
    \<and> s < e \<and> e \<le> h \<and> h \<le> d \<and> d < pos \<and> pos \<le> length (concat pieces) \<and> concat pieces ! (pos - 1) = LF
    \<and> (\<forall>i. s \<le> i \<and> i < e \<longrightarrow> name_byte (concat pieces ! i)) \<and> (\<forall>i. h \<le> i \<and> i < d \<longrightarrow> value_byte (concat pieces ! i))
    \<and> length (lowcase_header r') = 32 \<and> lowcase_index r' < 32"
proof -
  have "scan (header_step u) (concat pieces) 0 sw_start r = Done HL_OK st r' pos"
    using assms(1) header_line.feed_eq_scan [of u "[]"] by simp
  moreover have "header_inv (concat pieces) 0 sw_start r" using assms(2) by (simp add: header_inv_def)
  ultimately have "ring_ok r'" "valued (concat pieces) (pos - 1) r'" "0 < pos" "pos \<le> length (concat pieces)" "concat pieces ! (pos - 1) = LF"
    using header_scan_ok [of "concat pieces" 0 sw_start r u] by auto
  then show ?thesis
    by (auto simp: valued_def named_def all_in_def ring_ok_def NGX_HTTP_LC_HEADER_LEN_def)
qed

theorem header_line_contained_witness:
  "\<exists>r' s. feed (header_step True) [] sw_start
      \<lparr>header_hash = 0, lowcase_index = 0, lowcase_header = replicate 32 0, invalid_header = False, has_upstream = False,
       header_name_start = None, header_name_end = None, header_start = None, header_end = None\<rparr>
      [bytes ''a_'', bytes '':x'', [LF]] = Done HL_OK sw_start r' 5 \<and> header_name_start r' = Some s \<and> s < 5"
proof -
  let ?r = "\<lparr>header_hash = 0, lowcase_index = 0, lowcase_header = replicate 32 0, invalid_header = False, has_upstream = False,
       header_name_start = None, header_name_end = None, header_start = None, header_end = None\<rparr> :: header_req"
  have "\<exists>r'. feed (header_step True) [] sw_start ?r [bytes ''a_'', bytes '':x'', [LF]] = Done HL_OK sw_start r' 5"
    by (simp add: scan.simps header_step_def hl_start_def hl_name_def hl_space_before_value_def hl_value_def hl_done_def Let_def lowcase_iff)
  then obtain r' where r': "feed (header_step True) [] sw_start ?r [bytes ''a_'', bytes '':x'', [LF]] = Done HL_OK sw_start r' 5" by blast
  have "ring_ok ?r" by (simp add: ring_ok_def NGX_HTTP_LC_HEADER_LEN_def)
  from header_line_contained [OF r' this] r' show ?thesis by auto
qed

end
