(* ===== verification/Http_Status_Line.thy ===== *)
theory Http_Status_Line
  imports Scanner
begin

text \<open>
  The parser of the status line of an upstream server, \<open>ngx_http_parse_status_line\<close> of
  \<^verbatim>\<open>src/src/http/ngx_http_parse.c\<close>. The fields of \<open>ngx_http_status_t\<close> and the two version fields of
  the request that it uses are one record.
\<close>

section \<open>Data\<close>

datatype status_state =
    sw_start | sw_H | sw_HT | sw_HTT | sw_HTTP | sw_first_major_digit | sw_major_digit | sw_first_minor_digit
  | sw_minor_digit | sw_status | sw_space_after_status | sw_status_text | sw_almost_done

datatype status_rc = ST_OK | ST_AGAIN | ST_ERROR

record ngx_http_status_t =
  st_http_major :: int
  st_http_minor :: int
  st_code :: int
  st_count :: int
  st_start :: "nat option"
  st_end :: "nat option"
  st_http_version :: int

type_synonym status_action = "(status_state, ngx_http_status_t, status_rc) action"

section \<open>One byte\<close>

definition sl_expect :: "char \<Rightarrow> status_state \<Rightarrow> byte \<Rightarrow> ngx_http_status_t \<Rightarrow> status_action" where
  [sm_defs]: "sl_expect c next ch s = (if ch = asc c then Next next s else Fail ST_ERROR s)"

definition sl_done :: "nat \<Rightarrow> ngx_http_status_t \<Rightarrow> status_action" where
  [sm_defs]: "sl_done p s =
     (let s = (if st_end s = None then s\<lparr>st_end := Some p\<rparr> else s)
      in Done ST_OK sw_start (s\<lparr>st_http_version := st_http_major s * 1000 + st_http_minor s\<rparr>) (p + 1))"

definition sl_first_major_digit :: "byte \<Rightarrow> ngx_http_status_t \<Rightarrow> status_action" where
  [sm_defs]: "sl_first_major_digit ch s =
     (if ch < asc CHR ''1'' \<or> asc CHR ''9'' < ch then Fail ST_ERROR s
      else Next sw_major_digit (s\<lparr>st_http_major := digit_val ch\<rparr>))"

definition sl_major_digit :: "byte \<Rightarrow> ngx_http_status_t \<Rightarrow> status_action" where
  [sm_defs]: "sl_major_digit ch s =
     (if ch = asc CHR ''.'' then Next sw_first_minor_digit s
      else if \<not> is_digit ch then Fail ST_ERROR s
      else if st_http_major s > 99 then Fail ST_ERROR s
      else Next sw_major_digit (s\<lparr>st_http_major := st_http_major s * 10 + digit_val ch\<rparr>))"

definition sl_first_minor_digit :: "byte \<Rightarrow> ngx_http_status_t \<Rightarrow> status_action" where
  [sm_defs]: "sl_first_minor_digit ch s =
     (if \<not> is_digit ch then Fail ST_ERROR s else Next sw_minor_digit (s\<lparr>st_http_minor := digit_val ch\<rparr>))"

definition sl_minor_digit :: "byte \<Rightarrow> ngx_http_status_t \<Rightarrow> status_action" where
  [sm_defs]: "sl_minor_digit ch s =
     (if ch = asc CHR '' '' then Next sw_status s
      else if \<not> is_digit ch then Fail ST_ERROR s
      else if st_http_minor s > 99 then Fail ST_ERROR s
      else Next sw_minor_digit (s\<lparr>st_http_minor := st_http_minor s * 10 + digit_val ch\<rparr>))"

definition sl_status :: "nat \<Rightarrow> byte \<Rightarrow> ngx_http_status_t \<Rightarrow> status_action" where
  [sm_defs]: "sl_status p ch s =
     (if ch = asc CHR '' '' then Next sw_status s
      else if \<not> is_digit ch then Fail ST_ERROR s
      else let s = s\<lparr>st_code := st_code s * 10 + digit_val ch, st_count := st_count s + 1\<rparr> in
        if st_count s = 3 then Next sw_space_after_status (s\<lparr>st_start := Some (p - 2)\<rparr>) else Next sw_status s)"

definition sl_space_after_status :: "nat \<Rightarrow> byte \<Rightarrow> ngx_http_status_t \<Rightarrow> status_action" where
  [sm_defs]: "sl_space_after_status p ch s =
     (if ch = asc CHR '' '' \<or> ch = asc CHR ''.'' then Next sw_status_text s
      else if ch = CR then Next sw_almost_done s
      else if ch = LF then sl_done p s
      else Fail ST_ERROR s)"

definition sl_status_text :: "nat \<Rightarrow> byte \<Rightarrow> ngx_http_status_t \<Rightarrow> status_action" where
  [sm_defs]: "sl_status_text p ch s =
     (if ch = CR then Next sw_almost_done s
      else if ch = LF then sl_done p s
      else Next sw_status_text s)"

definition sl_almost_done :: "nat \<Rightarrow> byte \<Rightarrow> ngx_http_status_t \<Rightarrow> status_action" where
  [sm_defs]: "sl_almost_done p ch s =
     (let s = s\<lparr>st_end := Some (p - 1)\<rparr> in if ch = LF then sl_done p s else Fail ST_ERROR s)"

definition status_step :: "(status_state, ngx_http_status_t, status_rc) stepper" where
  "status_step buf p st s =
     (let ch = buf ! p in
      case st of
        sw_start \<Rightarrow> sl_expect CHR ''H'' sw_H ch s
      | sw_H \<Rightarrow> sl_expect CHR ''T'' sw_HT ch s
      | sw_HT \<Rightarrow> sl_expect CHR ''T'' sw_HTT ch s
      | sw_HTT \<Rightarrow> sl_expect CHR ''P'' sw_HTTP ch s
      | sw_HTTP \<Rightarrow> sl_expect CHR ''/'' sw_first_major_digit ch s
      | sw_first_major_digit \<Rightarrow> sl_first_major_digit ch s
      | sw_major_digit \<Rightarrow> sl_major_digit ch s
      | sw_first_minor_digit \<Rightarrow> sl_first_minor_digit ch s
      | sw_minor_digit \<Rightarrow> sl_minor_digit ch s
      | sw_status \<Rightarrow> sl_status p ch s
      | sw_space_after_status \<Rightarrow> sl_space_after_status p ch s
      | sw_status_text \<Rightarrow> sl_status_text p ch s
      | sw_almost_done \<Rightarrow> sl_almost_done p ch s)"

definition ngx_http_parse_status_line ::
  "byte list \<Rightarrow> nat \<Rightarrow> status_state \<Rightarrow> ngx_http_status_t \<Rightarrow> status_rc \<times> status_state \<times> ngx_http_status_t \<times> nat" where
  "ngx_http_parse_status_line buf pos st s =
     (case scan status_step buf pos st s of
        Next st' s' \<Rightarrow> (ST_AGAIN, st', s', max pos (length buf))
      | Done rc st' s' q \<Rightarrow> (rc, st', s', q)
      | Fail rc s' \<Rightarrow> (rc, st, s', pos))"

definition status_init :: ngx_http_status_t where
  "status_init = \<lparr>st_http_major = 0, st_http_minor = 0, st_code = 0, st_count = 0, st_start = None, st_end = None, st_http_version = 0\<rparr>"

interpretation status_line: resumable status_step
  by unfold_locales (simp add: status_step_def nth_append)

section \<open>The invariant of the machine\<close>

text \<open>The code is the number of the digits counted so far.\<close>

definition code_ok :: "ngx_http_status_t \<Rightarrow> bool" where
  "code_ok s \<longleftrightarrow> 0 \<le> st_count s \<and> st_count s \<le> 3 \<and> 0 \<le> st_code s \<and> st_code s < 10 ^ nat (st_count s)"

definition vers_ok :: "ngx_http_status_t \<Rightarrow> bool" where
  "vers_ok s \<longleftrightarrow> 0 \<le> st_http_major s \<and> st_http_major s \<le> 999 \<and> 0 \<le> st_http_minor s \<and> st_http_minor s \<le> 999"

definition after_code :: "nat \<Rightarrow> ngx_http_status_t \<Rightarrow> bool" where
  "after_code p s \<longleftrightarrow> st_count s = 3 \<and> (\<exists>a. st_start s = Some a \<and> a + 3 \<le> p)"

definition status_inv :: "byte list \<Rightarrow> nat \<Rightarrow> status_state \<Rightarrow> ngx_http_status_t \<Rightarrow> bool" where
  "status_inv buf p st s \<longleftrightarrow> vers_ok s \<and> code_ok s \<and> st_end s = None \<and>
     (case st of
        sw_space_after_status \<Rightarrow> after_code p s
      | sw_status_text \<Rightarrow> after_code p s
      | sw_almost_done \<Rightarrow> after_code p s \<and> the (st_start s) + 3 < p
      | sw_status \<Rightarrow> st_count s < 3 \<and> nat (st_count s) \<le> p
      | _ \<Rightarrow> st_count s = 0)"

definition status_result :: "byte list \<Rightarrow> status_rc \<Rightarrow> status_state \<Rightarrow> ngx_http_status_t \<Rightarrow> nat \<Rightarrow> bool" where
  "status_result buf rc st s q \<longleftrightarrow> rc = ST_OK \<and> st = sw_start \<and> 0 < q \<and> q \<le> length buf \<and> buf ! (q - 1) = LF
     \<and> vers_ok s \<and> code_ok s \<and> st_http_version s = st_http_major s * 1000 + st_http_minor s
     \<and> st_count s = 3 \<and> (\<exists>a e. st_start s = Some a \<and> st_end s = Some e \<and> a + 3 \<le> e \<and> e < q)"

lemma digit_val_first: "\<not> (ch < asc CHR ''1'' \<or> asc CHR ''9'' < ch) \<Longrightarrow> 0 \<le> digit_val ch \<and> digit_val ch \<le> 9"
  by (auto simp: digit_val_def word_less_def)

lemma code_ok_digit:
  assumes "code_ok s" and "st_count s < 3" and "is_digit c"
  shows "code_ok (s\<lparr>st_code := st_code s * 10 + digit_val c, st_count := st_count s + 1\<rparr>)"
proof -
  have n: "nat (st_count s + 1) = Suc (nat (st_count s))" using assms(1) by (simp add: code_ok_def nat_add_distrib)
  have "st_code s * 10 + digit_val c < 10 ^ Suc (nat (st_count s))"
    using assms digit_val_range [of c] by (simp add: code_ok_def)
  with assms digit_val_range [of c] show ?thesis by (simp add: code_ok_def n)
qed

lemma status_step_inv:
  assumes "status_inv buf p st s" and "p < length buf"
  shows "case status_step buf p st s of
      Next st' s' \<Rightarrow> status_inv buf (Suc p) st' s'
    | Done rc st' s' q \<Rightarrow> status_result buf rc st' s' q
    | Fail rc s' \<Rightarrow> rc = ST_ERROR"
proof -
  note d = digit_val_range [of "buf ! p"] digit_val_first [of "buf ! p"] code_ok_digit [of s "buf ! p"]
  note defs = status_step_def status_inv_def Let_def
  show ?thesis
  proof (cases st)
    case sw_first_major_digit
    with assms d show ?thesis by (auto simp: defs sl_first_major_digit_def vers_ok_def code_ok_def)
  next
    case sw_major_digit
    with assms d show ?thesis by (auto simp: defs sl_major_digit_def vers_ok_def code_ok_def)
  next
    case sw_first_minor_digit
    with assms d show ?thesis by (auto simp: defs sl_first_minor_digit_def vers_ok_def code_ok_def)
  next
    case sw_minor_digit
    with assms d show ?thesis by (auto simp: defs sl_minor_digit_def vers_ok_def code_ok_def)
  next
    case sw_status
    with assms d show ?thesis
      by (auto simp: defs sl_status_def vers_ok_def after_code_def code_ok_def split: if_splits)
  next
    case sw_space_after_status
    with assms show ?thesis
      by (auto simp: defs sl_space_after_status_def sl_done_def status_result_def after_code_def vers_ok_def code_ok_def)
  next
    case sw_status_text
    with assms show ?thesis
      by (auto simp: defs sl_status_text_def sl_done_def status_result_def after_code_def vers_ok_def code_ok_def)
  next
    case sw_almost_done
    with assms show ?thesis
      by (auto simp: defs sl_almost_done_def sl_done_def status_result_def after_code_def vers_ok_def code_ok_def)
  qed (use assms in \<open>auto simp: defs sl_expect_def\<close>)
qed

lemma status_scan_inv:
  assumes "status_inv buf p st s"
  shows "case scan status_step buf p st s of
      Next st' s' \<Rightarrow> status_inv buf (max p (length buf)) st' s'
    | Done rc st' s' q \<Rightarrow> status_result buf rc st' s' q
    | Fail rc s' \<Rightarrow> rc = ST_ERROR"
  by (rule scan_invariant [where I = "status_inv buf", OF assms]) (rule status_step_inv)

section \<open>Properties\<close>

text \<open>
  The bounds of an accepted status line, however it arrives: the status code has exactly three
  digits and is at most 999, the version numbers fit the 16-bit fields, and the status text pointers
  lie in order inside the line that ends in front of the new read position.
\<close>

theorem status_line_bounds:
  assumes "feed status_step [] sw_start status_init pieces = Done rc st s pos"
  shows "rc = ST_OK \<and> 0 \<le> st_code s \<and> st_code s \<le> 999 \<and> st_count s = 3
    \<and> 0 \<le> st_http_major s \<and> st_http_major s \<le> 999 \<and> 0 \<le> st_http_minor s \<and> st_http_minor s \<le> 999
    \<and> st_http_version s = st_http_major s * 1000 + st_http_minor s
    \<and> (\<exists>a e. st_start s = Some a \<and> st_end s = Some e \<and> a + 3 \<le> e \<and> e < pos \<and> pos \<le> length (concat pieces))"
proof -
  have "scan status_step (concat pieces) 0 sw_start status_init = Done rc st s pos"
    using assms status_line.feed_eq_scan [of "[]"] by simp
  moreover have "status_inv (concat pieces) 0 sw_start status_init"
    by (simp add: status_inv_def status_init_def vers_ok_def code_ok_def)
  ultimately have "status_result (concat pieces) rc st s pos"
    using status_scan_inv [of "concat pieces" 0 sw_start status_init] by simp
  then show ?thesis by (auto simp: status_result_def vers_ok_def code_ok_def)
qed

theorem status_line_bounds_witness:
  "\<exists>s. feed status_step [] sw_start status_init [bytes ''HTTP/1.1 20'', bytes ''0 OK'' @ [CR], [LF]] = Done ST_OK sw_start s 17
     \<and> st_code s \<le> 999"
proof -
  have "\<exists>s. feed status_step [] sw_start status_init [bytes ''HTTP/1.1 20'', bytes ''0 OK'' @ [CR], [LF]] = Done ST_OK sw_start s 17"
    by (simp add: scan.simps status_step_def sm_defs Let_def is_digit_def status_init_def)
  then show ?thesis using status_line_bounds by blast
qed

definition status_bytes :: "byte \<Rightarrow> byte list \<Rightarrow> byte list \<Rightarrow> byte list" where
  "status_bytes d code text = bytes ''HTTP/1.'' @ [d, 0x20] @ code @ [0x20] @ text @ [CR, LF]"

text \<open>The fixed part of the line, up to the space after the code.\<close>

lemma scan_status_prefix:
  assumes "is_digit d" and "is_digit a" and "is_digit b" and "is_digit c"
    and "buf = status_bytes d [a, b, c] text"
  shows "scan status_step buf 0 sw_start status_init = scan status_step buf 13 sw_status_text
    (status_init\<lparr>st_http_major := 1, st_http_minor := digit_val d,
       st_code := (digit_val a * 10 + digit_val b) * 10 + digit_val c, st_count := 3, st_start := Some 9\<rparr>)"
proof -
  have nths: "buf ! 0 = asc CHR ''H''" "buf ! (Suc 0) = asc CHR ''T''" "buf ! (Suc (Suc 0)) = asc CHR ''T''" "buf ! (Suc (Suc (Suc 0))) = asc CHR ''P''" "buf ! (Suc (Suc (Suc (Suc 0)))) = asc CHR ''/''" "buf ! (Suc (Suc (Suc (Suc (Suc 0))))) = asc CHR ''1''" "buf ! (Suc (Suc (Suc (Suc (Suc (Suc 0)))))) = asc CHR ''.''" "buf ! (Suc (Suc (Suc (Suc (Suc (Suc (Suc 0))))))) = d" "buf ! (Suc (Suc (Suc (Suc (Suc (Suc (Suc (Suc 0)))))))) = 0x20" "buf ! (Suc (Suc (Suc (Suc (Suc (Suc (Suc (Suc (Suc 0))))))))) = a" "buf ! (Suc (Suc (Suc (Suc (Suc (Suc (Suc (Suc (Suc (Suc 0)))))))))) = b" "buf ! (Suc (Suc (Suc (Suc (Suc (Suc (Suc (Suc (Suc (Suc (Suc 0))))))))))) = c" "buf ! (Suc (Suc (Suc (Suc (Suc (Suc (Suc (Suc (Suc (Suc (Suc (Suc 0)))))))))))) = 0x20"
    using assms(5) by (simp_all add: status_bytes_def)
  have len: "length buf = 15 + length text" using assms(5) by (simp add: status_bytes_def)
  have sp: "a \<noteq> 0x20" "b \<noteq> 0x20" "c \<noteq> 0x20" using assms(2-4) by (auto simp: is_digit_def)
  have one: "digit_val 49 = 1" by (simp add: digit_val_def)
  have e: "(13::nat) = Suc (Suc (Suc (Suc (Suc (Suc (Suc (Suc (Suc (Suc (Suc (Suc (Suc 0))))))))))))" "(9::nat) = Suc (Suc (Suc (Suc (Suc (Suc (Suc (Suc (Suc 0))))))))" by simp_all
  show ?thesis
    unfolding e
    using assms(1-4) sp
    by (simp add: scan.simps [of status_step buf "0"] scan.simps [of status_step buf "Suc 0"] scan.simps [of status_step buf "Suc (Suc 0)"] scan.simps [of status_step buf "Suc (Suc (Suc 0))"] scan.simps [of status_step buf "Suc (Suc (Suc (Suc 0)))"] scan.simps [of status_step buf "Suc (Suc (Suc (Suc (Suc 0))))"] scan.simps [of status_step buf "Suc (Suc (Suc (Suc (Suc (Suc 0)))))"] scan.simps [of status_step buf "Suc (Suc (Suc (Suc (Suc (Suc (Suc 0))))))"] scan.simps [of status_step buf "Suc (Suc (Suc (Suc (Suc (Suc (Suc (Suc 0)))))))"] scan.simps [of status_step buf "Suc (Suc (Suc (Suc (Suc (Suc (Suc (Suc (Suc 0))))))))"] scan.simps [of status_step buf "Suc (Suc (Suc (Suc (Suc (Suc (Suc (Suc (Suc (Suc 0)))))))))"] scan.simps [of status_step buf "Suc (Suc (Suc (Suc (Suc (Suc (Suc (Suc (Suc (Suc (Suc 0))))))))))"] scan.simps [of status_step buf "Suc (Suc (Suc (Suc (Suc (Suc (Suc (Suc (Suc (Suc (Suc (Suc 0)))))))))))"]
        len nths one status_step_def sl_expect_def sl_first_major_digit_def sl_major_digit_def sl_first_minor_digit_def
        sl_minor_digit_def sl_status_def sl_space_after_status_def Let_def status_init_def)
qed

text \<open>
  Round trip of a status line: the version digit, the three digits of the code and any text
  without line ends are accepted with exactly this code and version, and the recorded pointers
  delimit the code and the text.
\<close>

theorem status_line_roundtrip:
  assumes "is_digit d" and "is_digit a" and "is_digit b" and "is_digit c"
    and "CR \<notin> set text" and "LF \<notin> set text" and "buf = status_bytes d [a, b, c] text"
  shows "\<exists>s. ngx_http_parse_status_line buf 0 sw_start status_init = (ST_OK, sw_start, s, length buf)
    \<and> st_code s = digit_val a * 100 + digit_val b * 10 + digit_val c \<and> st_http_version s = 1000 + digit_val d
    \<and> st_start s = Some 9 \<and> st_end s = Some (length buf - 2) \<and> take (length buf - 11) (drop 9 buf) = [a, b, c, 0x20] @ text"
proof -
  let ?s = "status_init\<lparr>st_http_major := 1, st_http_minor := digit_val d,
       st_code := (digit_val a * 10 + digit_val b) * 10 + digit_val c, st_count := 3, st_start := Some 9\<rparr>"
  let ?e = "13 + length text"
  have len: "length buf = ?e + 2" using assms(7) by (simp add: status_bytes_def)
  have tx: "buf ! (13 + i) = (text @ [CR, LF]) ! i" for i
    using assms(7) by (simp add: status_bytes_def eval_nat_numeral)
  have "scan status_step buf 13 sw_status_text ?s = scan status_step buf ?e sw_status_text ?s"
  proof (rule scan_stay)
    show "status_step buf i sw_status_text ?s = Next sw_status_text ?s" if "13 \<le> i" "i < ?e" for i
    proof -
      have less: "i - 13 < length text" using that by linarith
      have "buf ! i = text ! (i - 13)" using tx [of "i - 13"] that(1) less by (simp add: nth_append)
      moreover have "text ! (i - 13) \<in> set text" using less by simp
      ultimately show ?thesis using assms(5,6) by (auto simp: status_step_def sl_status_text_def Let_def)
    qed
  qed (use len in simp_all)
  also have "\<dots> = scan status_step buf (Suc ?e) sw_almost_done ?s"
    using tx [of "length text"] len by (intro scan_Next) (simp_all add: status_step_def sl_status_text_def)
  also have "\<dots> = Done ST_OK sw_start (?s\<lparr>st_end := Some ?e, st_http_version := 1000 + digit_val d\<rparr>) (Suc ?e + 1)"
    using tx [of "Suc (length text)"] len
    by (intro scan_Done) (simp_all add: status_step_def sl_almost_done_def sl_done_def Let_def status_init_def nth_append)
  finally have "scan status_step buf 0 sw_start status_init = \<dots>"
    using scan_status_prefix [OF assms(1-4,7)] by simp
  then show ?thesis
    using len assms(7) by (simp add: ngx_http_parse_status_line_def status_bytes_def)
qed

theorem status_line_roundtrip_witness:
  "\<exists>s. ngx_http_parse_status_line (status_bytes (asc CHR ''1'') (bytes ''404'') (bytes ''Not Found'')) 0 sw_start status_init
      = (ST_OK, sw_start, s, 24) \<and> st_code s = 404 \<and> st_http_version s = 1001"
  using status_line_roundtrip [of "asc CHR ''1''" "asc CHR ''4''" "asc CHR ''0''" "asc CHR ''4''" "bytes ''Not Found''", OF _ _ _ _ _ _ refl]
  by (auto simp: is_digit_def digit_val_def status_bytes_def)

end
