(* ===== verification/Ngx_Escape.thy ===== *)
theory Ngx_Escape
  imports Prelude
begin

text \<open>
  The escaping routines of \<^verbatim>\<open>src/src/core/ngx_string.c\<close>: \<open>ngx_escape_uri\<close> with its seven character
  tables, \<open>ngx_unescape_uri\<close>, \<open>ngx_escape_html\<close> and \<open>ngx_escape_json\<close>.

  All escapers work in two passes: called with \<open>dst == NULL\<close> they return how much longer the output
  will be (\<open>ngx_escape_uri\<close> the number of bytes to escape), the caller allocates, and the second call
  writes. The locale \<open>two_pass\<close> states what makes the two passes agree, and \<open>decodable\<close> what makes an
  escaper invertible; both are interpreted on the escapers of the source.
\<close>

section \<open>The contract of a two-pass escaper\<close>

locale two_pass =
  fixes enc :: "byte \<Rightarrow> byte list" and extra :: "byte \<Rightarrow> nat"
  assumes enc_length: "length (enc c) = Suc (extra c)"
begin

lemma output_length: "length (concat (map enc xs)) = length xs + sum_list (map extra xs)"
  by (induction xs) (simp_all add: enc_length)

end

locale decodable = two_pass enc extra
  for enc :: "byte \<Rightarrow> byte list" and extra :: "byte \<Rightarrow> nat" +
  fixes dec :: "byte list \<Rightarrow> (byte \<times> byte list) option"
  assumes dec_enc: "dec (enc c @ ys) = Some (c, ys)"
begin

lemma output_inject: "concat (map enc xs) = concat (map enc ys) \<longleftrightarrow> xs = ys"
proof (induction xs arbitrary: ys)
  case Nil
  have "enc c \<noteq> []" for c using enc_length [of c] by auto
  then show ?case by (cases ys) auto
next
  case (Cons x xs)
  show ?case
  proof (cases ys)
    case Nil
    have "enc x \<noteq> []" using enc_length [of x] by auto
    then show ?thesis using Nil by simp
  next
    case ys: (Cons y ys')
    have "x = y \<and> concat (map enc xs) = concat (map enc ys')" if "concat (map enc (x # xs)) = concat (map enc (y # ys'))"
      using arg_cong [OF that, of dec] by (simp add: dec_enc)
    then show ?thesis using Cons.IH ys by auto
  qed
qed

end

section \<open>Percent escapes\<close>

definition uri_tbl :: "u32 list" where
  "uri_tbl = [0xffffffff, 0xd000002d, 0x50000000, 0xb8000001, 0xffffffff, 0xffffffff, 0xffffffff, 0xffffffff]"

definition args_tbl :: "u32 list" where
  "args_tbl = [0xffffffff, 0xd800086d, 0x50000000, 0xb8000001, 0xffffffff, 0xffffffff, 0xffffffff, 0xffffffff]"

definition uri_component_tbl :: "u32 list" where
  "uri_component_tbl = [0xffffffff, 0xfc009fff, 0x78000001, 0xb8000001, 0xffffffff, 0xffffffff, 0xffffffff, 0xffffffff]"

definition html_tbl :: "u32 list" where
  "html_tbl = [0xffffffff, 0x500000ad, 0x50000000, 0xb8000001, 0xffffffff, 0xffffffff, 0xffffffff, 0xffffffff]"

definition refresh_tbl :: "u32 list" where
  "refresh_tbl = [0xffffffff, 0x50000085, 0x50000000, 0xd8000001, 0xffffffff, 0xffffffff, 0xffffffff, 0xffffffff]"

definition memcached_tbl :: "u32 list" where
  "memcached_tbl = [0xffffffff, 0x00000021, 0, 0, 0, 0, 0, 0]"

datatype escape_type =
    NGX_ESCAPE_URI | NGX_ESCAPE_ARGS | NGX_ESCAPE_URI_COMPONENT | NGX_ESCAPE_HTML | NGX_ESCAPE_REFRESH
  | NGX_ESCAPE_MEMCACHED | NGX_ESCAPE_MAIL_AUTH

fun escape_map :: "escape_type \<Rightarrow> u32 list" where
  "escape_map NGX_ESCAPE_URI = uri_tbl"
| "escape_map NGX_ESCAPE_ARGS = args_tbl"
| "escape_map NGX_ESCAPE_URI_COMPONENT = uri_component_tbl"
| "escape_map NGX_ESCAPE_HTML = html_tbl"
| "escape_map NGX_ESCAPE_REFRESH = refresh_tbl"
| "escape_map NGX_ESCAPE_MEMCACHED = memcached_tbl"
| "escape_map NGX_ESCAPE_MAIL_AUTH = memcached_tbl"

definition hex_upper :: "byte list" where
  "hex_upper = bytes ''0123456789ABCDEF''"

text \<open>The first pass (\<open>dst == NULL\<close>) and the second pass.\<close>

fun ngx_escape_uri_count :: "byte list \<Rightarrow> escape_type \<Rightarrow> nat" where
  "ngx_escape_uri_count [] ty = 0"
| "ngx_escape_uri_count (c # cs) ty = (if tbl_bit (escape_map ty) c then 1 else 0) + ngx_escape_uri_count cs ty"

fun ngx_escape_uri :: "byte list \<Rightarrow> escape_type \<Rightarrow> byte list" where
  "ngx_escape_uri [] ty = []"
| "ngx_escape_uri (c # cs) ty =
     (if tbl_bit (escape_map ty) c
      then asc CHR ''%'' # hex_upper ! unat (drop_bit 4 c) # hex_upper ! unat (c AND 0xf) # ngx_escape_uri cs ty
      else c # ngx_escape_uri cs ty)"

section \<open>Unescaping\<close>

datatype unescape_state = sw_usual | sw_quoted | sw_quoted_second

definition NGX_UNESCAPE_URI :: nat where "NGX_UNESCAPE_URI = 1"
definition NGX_UNESCAPE_REDIRECT :: nat where "NGX_UNESCAPE_REDIRECT = 2"

text \<open>
  The loop: \<open>decoded\<close> is the value of the first digit and \<open>prev\<close> the byte \<^verbatim>\<open>*(s - 2)\<close> that a redirect
  writes back. The result is what is written and what is left unread when the function stops at a
  question mark.
\<close>

fun unescape_loop :: "nat \<Rightarrow> unescape_state \<Rightarrow> byte \<Rightarrow> byte \<Rightarrow> byte list \<Rightarrow> byte list \<times> byte list" where
  "unescape_loop ty st decoded prev [] = ([], [])"
| "unescape_loop ty st decoded prev (ch # cs) =
     (case st of
        sw_usual \<Rightarrow>
          (if ch = asc CHR ''?'' \<and> ty AND (NGX_UNESCAPE_URI OR NGX_UNESCAPE_REDIRECT) \<noteq> 0 then ([ch], cs)
           else if ch = asc CHR ''%'' then unescape_loop ty sw_quoted decoded ch cs
           else apfst ((@) [ch]) (unescape_loop ty sw_usual decoded ch cs))
      | sw_quoted \<Rightarrow>
          (if asc CHR ''0'' \<le> ch \<and> ch \<le> asc CHR ''9''
           then unescape_loop ty sw_quoted_second (ch - asc CHR ''0'') ch cs
           else if asc CHR ''a'' \<le> ch OR 0x20 \<and> ch OR 0x20 \<le> asc CHR ''f''
           then unescape_loop ty sw_quoted_second ((ch OR 0x20) - asc CHR ''a'' + 10) ch cs
           else apfst ((@) [ch]) (unescape_loop ty sw_usual decoded ch cs))
      | sw_quoted_second \<Rightarrow>
          (if asc CHR ''0'' \<le> ch \<and> ch \<le> asc CHR ''9''
           then (let d = push_bit 4 decoded + (ch - asc CHR ''0'') in
                 if ty AND NGX_UNESCAPE_REDIRECT \<noteq> 0
                 then (if asc CHR ''%'' < d \<and> d < 0x7f
                       then apfst ((@) [d]) (unescape_loop ty sw_usual decoded ch cs)
                       else apfst ((@) [asc CHR ''%'', prev, ch]) (unescape_loop ty sw_usual decoded ch cs))
                 else apfst ((@) [d]) (unescape_loop ty sw_usual decoded ch cs))
           else if asc CHR ''a'' \<le> ch OR 0x20 \<and> ch OR 0x20 \<le> asc CHR ''f''
           then (let d = push_bit 4 decoded + ((ch OR 0x20) - asc CHR ''a'') + 10 in
                 if ty AND NGX_UNESCAPE_URI \<noteq> 0
                 then (if d = asc CHR ''?'' then ([d], cs)
                       else apfst ((@) [d]) (unescape_loop ty sw_usual decoded ch cs))
                 else if ty AND NGX_UNESCAPE_REDIRECT \<noteq> 0
                 then (if d = asc CHR ''?'' then ([d], cs)
                       else if asc CHR ''%'' < d \<and> d < 0x7f
                       then apfst ((@) [d]) (unescape_loop ty sw_usual decoded ch cs)
                       else apfst ((@) [asc CHR ''%'', prev, ch]) (unescape_loop ty sw_usual decoded ch cs))
                 else apfst ((@) [d]) (unescape_loop ty sw_usual decoded ch cs))
           else unescape_loop ty sw_usual decoded ch cs))"

definition ngx_unescape_uri :: "byte list \<Rightarrow> nat \<Rightarrow> byte list \<times> byte list" where
  "ngx_unescape_uri src ty = unescape_loop ty sw_usual 0 0 src"

section \<open>HTML\<close>

fun html_extra :: "byte \<Rightarrow> nat" where
  "html_extra ch =
     (if ch = asc CHR ''<'' then 3
      else if ch = asc CHR ''>'' then 3
      else if ch = asc CHR ''&'' then 4
      else if ch = 0x22 then 5
      else 0)"

fun ngx_escape_html_len :: "byte list \<Rightarrow> nat" where
  "ngx_escape_html_len [] = 0"
| "ngx_escape_html_len (ch # cs) = html_extra ch + ngx_escape_html_len cs"

definition html_entity :: "byte \<Rightarrow> byte list" where
  "html_entity ch =
     (if ch = asc CHR ''<'' then bytes ''&lt;''
      else if ch = asc CHR ''>'' then bytes ''&gt;''
      else if ch = asc CHR ''&'' then bytes ''&amp;''
      else if ch = 0x22 then bytes ''&quot;''
      else [ch])"

fun ngx_escape_html :: "byte list \<Rightarrow> byte list" where
  "ngx_escape_html [] = []"
| "ngx_escape_html (ch # cs) = html_entity ch @ ngx_escape_html cs"

section \<open>JSON\<close>

text \<open>The bytes with a short escape: line feed, carriage return, tab, backspace and form feed.\<close>

fun json_extra :: "byte \<Rightarrow> nat" where
  "json_extra ch =
     (if ch = 0x5c \<or> ch = 0x22 then 1
      else if ch \<le> 0x1f
      then (if ch = 0x0a \<or> ch = 0x0d \<or> ch = 0x09 \<or> ch = 0x08 \<or> ch = 0x0c then 1 else 5)
      else 0)"

fun ngx_escape_json_len :: "byte list \<Rightarrow> nat" where
  "ngx_escape_json_len [] = 0"
| "ngx_escape_json_len (ch # cs) = json_extra ch + ngx_escape_json_len cs"

definition json_char :: "byte \<Rightarrow> byte list" where
  "json_char ch =
     (if 0x1f < ch then (if ch = 0x5c \<or> ch = 0x22 then [0x5c, ch] else [ch])
      else 0x5c #
        (if ch = 0x0a then bytes ''n''
         else if ch = 0x0d then bytes ''r''
         else if ch = 0x09 then bytes ''t''
         else if ch = 0x08 then bytes ''b''
         else if ch = 0x0c then bytes ''f''
         else bytes ''u00'' @
           [asc CHR ''0'' + drop_bit 4 ch,
            (let d = ch AND 0xf in if d < 10 then asc CHR ''0'' + d else asc CHR ''A'' + d - 10)]))"

fun ngx_escape_json :: "byte list \<Rightarrow> byte list" where
  "ngx_escape_json [] = []"
| "ngx_escape_json (ch # cs) = json_char ch @ ngx_escape_json cs"

section \<open>The two passes of the URI escaper\<close>

definition uri_enc :: "escape_type \<Rightarrow> byte \<Rightarrow> byte list" where
  "uri_enc ty c =
     (if tbl_bit (escape_map ty) c
      then [asc CHR ''%'', hex_upper ! unat (drop_bit 4 c), hex_upper ! unat (c AND 0xf)] else [c])"

definition uri_extra :: "escape_type \<Rightarrow> byte \<Rightarrow> nat" where
  "uri_extra ty c = (if tbl_bit (escape_map ty) c then 2 else 0)"

lemma ngx_escape_uri_concat: "ngx_escape_uri xs ty = concat (map (uri_enc ty) xs)"
  by (induction xs) (simp_all add: uri_enc_def)

lemma ngx_escape_uri_count_sum: "2 * ngx_escape_uri_count xs ty = sum_list (map (uri_extra ty) xs)"
  by (induction xs) (simp_all add: uri_extra_def)

interpretation uri_escaper: two_pass "uri_enc ty" "uri_extra ty" for ty
  by unfold_locales (simp add: uri_enc_def uri_extra_def)

section \<open>Reading escapes back\<close>

lemma hex_upper_digit: "n < 16 \<Longrightarrow> hex_digit (hex_upper ! n) = Some (of_nat n)"
  by (rule nibble_exhaust) (simp_all add: upt_rec_numeral hex_upper_def hex_digit_def)

text \<open>Both digits of an escape, for a reader without flags.\<close>

lemma unescape_quoted:
  "hex_digit h = Some x \<Longrightarrow> unescape_loop 0 sw_quoted d p (h # cs) = unescape_loop 0 sw_quoted_second x h cs"
  by (auto simp: hex_digit_def split: if_splits)

lemma unescape_quoted_second:
  "hex_digit l = Some y \<Longrightarrow> unescape_loop 0 sw_quoted_second x p (l # cs) =
     apfst ((@) [push_bit 4 x + y]) (unescape_loop 0 sw_usual x l cs)"
  by (auto simp: hex_digit_def Let_def split: if_splits)

lemma unescape_uri_enc:
  assumes "tbl_bit (escape_map ty) (asc CHR ''%'')"
  shows "\<exists>d p'. unescape_loop 0 sw_usual x p (uri_enc ty c @ ys) = apfst ((@) [c]) (unescape_loop 0 sw_usual d p' ys)"
proof (cases "tbl_bit (escape_map ty) c")
  case True
  let ?h = "hex_upper ! unat (drop_bit 4 c)" and ?l = "hex_upper ! unat (c AND 0xf)"
  have "unescape_loop 0 sw_usual x p (uri_enc ty c @ ys) = unescape_loop 0 sw_quoted x 0x25 (?h # ?l # ys)"
    using True by (simp add: uri_enc_def)
  also have "\<dots> = unescape_loop 0 sw_quoted_second (of_nat (unat (drop_bit 4 c))) ?h (?l # ys)"
    by (rule unescape_quoted) (rule hex_upper_digit [OF nibbles_less(1)])
  also have "\<dots> = apfst ((@) [push_bit 4 (of_nat (unat (drop_bit 4 c))) + of_nat (unat (c AND 0xf))])
      (unescape_loop 0 sw_usual (of_nat (unat (drop_bit 4 c))) ?l ys)"
    by (rule unescape_quoted_second) (rule hex_upper_digit [OF nibbles_less(2)])
  finally show ?thesis using nibbles_byte [of c] by auto
next
  case False
  with assms have "c \<noteq> 0x25" by auto
  with False show ?thesis by (auto simp: uri_enc_def)
qed

lemma unescape_escape:
  assumes "tbl_bit (escape_map ty) (asc CHR ''%'')"
  shows "unescape_loop 0 sw_usual x p (concat (map (uri_enc ty) xs)) = (xs, [])"
proof (induction xs arbitrary: x p)
  case Nil
  show ?case by simp
next
  case (Cons c xs)
  obtain d p' where "unescape_loop 0 sw_usual x p (uri_enc ty c @ concat (map (uri_enc ty) xs)) =
      apfst ((@) [c]) (unescape_loop 0 sw_usual d p' (concat (map (uri_enc ty) xs)))"
    using unescape_uri_enc [OF assms] by blast
  then show ?case by (simp add: Cons.IH)
qed

text \<open>No unescaper writes more than it has read, whatever its flags.\<close>

definition pending :: "unescape_state \<Rightarrow> nat" where
  "pending st = (case st of sw_usual \<Rightarrow> 0 | sw_quoted \<Rightarrow> 1 | sw_quoted_second \<Rightarrow> 2)"

lemma unescape_length:
  "length (fst (unescape_loop ty st d p cs)) + length (snd (unescape_loop ty st d p cs)) \<le> length cs + pending st"
proof (induction cs arbitrary: st d p)
  case Nil
  show ?case by simp
next
  case (Cons ch cs)
  note ih = Cons.IH [of sw_usual d ch] Cons.IH [of sw_quoted d ch] Cons.IH [of sw_quoted_second "ch - asc CHR ''0''" ch]
    Cons.IH [of sw_quoted_second "(ch OR 0x20) - asc CHR ''a'' + 10" ch]
  show ?case
  proof (cases st)
    case sw_usual
    then show ?thesis using ih(1,2) by (auto simp: pending_def)
  next
    case sw_quoted
    then show ?thesis using ih by (simp add: pending_def)
  next
    case sw_quoted_second
    then show ?thesis using ih(1) by (simp add: pending_def Let_def)
  qed
qed

lemma escapes_percent: "tbl_bit (escape_map ty) (asc CHR ''%'') \<longleftrightarrow> ty \<noteq> NGX_ESCAPE_REFRESH"
  by (cases ty) (simp_all add: tbl_bit_def uri_tbl_def args_tbl_def uri_component_tbl_def html_tbl_def refresh_tbl_def memcached_tbl_def)

section \<open>HTML and JSON\<close>

lemma ngx_escape_html_concat: "ngx_escape_html xs = concat (map html_entity xs)"
  by (induction xs) simp_all

lemma ngx_escape_html_len_sum: "ngx_escape_html_len xs = sum_list (map html_extra xs)"
  by (induction xs) simp_all

lemma ngx_escape_json_concat: "ngx_escape_json xs = concat (map json_char xs)"
  by (induction xs) simp_all

lemma ngx_escape_json_len_sum: "ngx_escape_json_len xs = sum_list (map json_extra xs)"
  by (induction xs) simp_all

text \<open>Decoders that show the escapers to be injective.\<close>

definition html_dec :: "byte list \<Rightarrow> (byte \<times> byte list) option" where
  "html_dec xs =
     (case xs of
        [] \<Rightarrow> None
      | c # cs \<Rightarrow>
          if c \<noteq> asc CHR ''&'' then Some (c, cs)
          else if take 3 cs = bytes ''lt;'' then Some (asc CHR ''<'', drop 3 cs)
          else if take 3 cs = bytes ''gt;'' then Some (asc CHR ''>'', drop 3 cs)
          else if take 4 cs = bytes ''amp;'' then Some (asc CHR ''&'', drop 4 cs)
          else Some (0x22, drop 5 cs))"

definition json_dec :: "byte list \<Rightarrow> (byte \<times> byte list) option" where
  "json_dec xs =
     (case xs of
        [] \<Rightarrow> None
      | c # cs \<Rightarrow>
          if c \<noteq> 0x5c then Some (c, cs)
          else (case cs of
            [] \<Rightarrow> None
          | d # ds \<Rightarrow>
              if d = 0x5c \<or> d = 0x22 then Some (d, ds)
              else if d = asc CHR ''n'' then Some (0x0a, ds)
              else if d = asc CHR ''r'' then Some (0x0d, ds)
              else if d = asc CHR ''t'' then Some (0x09, ds)
              else if d = asc CHR ''b'' then Some (0x08, ds)
              else if d = asc CHR ''f'' then Some (0x0c, ds)
              else (case (hex_digit (ds ! 2), hex_digit (ds ! 3)) of
                (Some x, Some y) \<Rightarrow> Some (push_bit 4 x + y, drop 4 ds)
              | _ \<Rightarrow> None)))"

interpretation html_escaper: decodable html_entity html_extra html_dec
proof
  show "length (html_entity c) = Suc (html_extra c)" for c by (simp add: html_entity_def)
  show "html_dec (html_entity c @ ys) = Some (c, ys)" for c ys by (simp add: html_dec_def html_entity_def)
qed

lemma hex_char:
  assumes "unat d < 16"
  shows "hex_digit (if d < 10 then asc CHR ''0'' + d else asc CHR ''A'' + d - 10) = Some d"
proof -
  have "hex_digit (if (of_nat n :: byte) < 10 then asc CHR ''0'' + of_nat n else asc CHR ''A'' + of_nat n - 10) = Some (of_nat n)"
    if "n < 16" for n
    by (rule nibble_exhaust [OF _ _ _ that]) (simp_all add: upt_rec_numeral hex_digit_def)
  from this [OF assms] show ?thesis by (simp only: of_nat_unat ucast_id)
qed

lemma json_hex:
  assumes "ch \<le> 0x1f"
  shows "hex_digit (asc CHR ''0'' + drop_bit 4 ch) = Some (drop_bit 4 ch)"
    and "hex_digit (if ch AND 0xf < 10 then asc CHR ''0'' + (ch AND 0xf) else asc CHR ''A'' + (ch AND 0xf) - 10) = Some (ch AND 0xf)"
proof -
  have "unat (drop_bit 4 ch) = unat ch div 16" by (simp only: unat_drop_bit_eq) (simp add: drop_bit_eq_div)
  also have "\<dots> < 10" using assms by (simp add: word_le_nat_alt)
  finally have "drop_bit 4 ch < 10" by (simp add: word_less_nat_alt)
  then show "hex_digit (asc CHR ''0'' + drop_bit 4 ch) = Some (drop_bit 4 ch)"
    using hex_char [OF nibbles_less(1) [of ch]] by simp
  show "hex_digit (if ch AND 0xf < 10 then asc CHR ''0'' + (ch AND 0xf) else asc CHR ''A'' + (ch AND 0xf) - 10) = Some (ch AND 0xf)"
    by (rule hex_char [OF nibbles_less(2)])
qed

interpretation json_escaper: decodable json_char json_extra json_dec
proof
  show "length (json_char c) = Suc (json_extra c)" for c by (auto simp: json_char_def)
  show "json_dec (json_char c @ ys) = Some (c, ys)" for c ys
  proof (cases "0x1f < c")
    case True
    then show ?thesis by (auto simp: json_dec_def json_char_def)
  next
    case False
    then have "c \<le> 0x1f" by simp
    then show ?thesis
      using json_hex [of c] nibbles_byte [of c] by (simp add: json_dec_def json_char_def Let_def)
  qed
qed

text \<open>What a JSON string literal may hold: no control byte, and no quote that is not escaped.\<close>

fun json_string_ok :: "byte list \<Rightarrow> bool" where
  "json_string_ok [] = True"
| "json_string_ok (c # cs) =
     (if c = 0x5c then (case cs of [] \<Rightarrow> False | d # ds \<Rightarrow> 0x1f < d \<and> json_string_ok ds)
      else 0x1f < c \<and> c \<noteq> 0x22 \<and> json_string_ok cs)"

lemma hex_digit_plain: "hex_digit c = Some x \<Longrightarrow> 0x1f < c \<and> c \<noteq> 0x5c \<and> c \<noteq> 0x22"
proof -
  have "asc CHR ''a'' \<le> c OR 0x20 \<and> c OR 0x20 \<le> asc CHR ''f'' \<longrightarrow> 0x1f < c \<and> c \<noteq> 0x5c \<and> c \<noteq> 0x22"
    by (rule byte_exhaust) simp
  moreover have "asc CHR ''0'' \<le> c \<and> c \<le> asc CHR ''9'' \<longrightarrow> 0x1f < c \<and> c \<noteq> 0x5c \<and> c \<noteq> 0x22"
    by (auto simp: word_le_def word_less_def)
  ultimately show "hex_digit c = Some x \<Longrightarrow> 0x1f < c \<and> c \<noteq> 0x5c \<and> c \<noteq> 0x22"
    by (simp add: hex_digit_def split: if_splits)
qed

lemma json_char_control:
  assumes "c \<le> 0x1f"
  shows "\<exists>d ds. json_char c = 0x5c # d # ds \<and> 0x1f < d \<and> (\<forall>x\<in>set ds. 0x1f < x \<and> x \<noteq> 0x5c \<and> x \<noteq> 0x22)"
proof -
  note h = hex_digit_plain [OF json_hex(1) [OF assms]] hex_digit_plain [OF json_hex(2) [OF assms]]
  have "\<not> 0x1f < c" using assms by simp
  moreover define a b where "a = asc CHR ''0'' + drop_bit 4 c"
    "b = (if c AND 0xf < 10 then asc CHR ''0'' + (c AND 0xf) else asc CHR ''A'' + (c AND 0xf) - 10)"
  ultimately have "json_char c = 0x5c # (if c = 0x0a then bytes ''n'' else if c = 0x0d then bytes ''r''
      else if c = 0x09 then bytes ''t'' else if c = 0x08 then bytes ''b'' else if c = 0x0c then bytes ''f'' else bytes ''u00'' @ [a, b])"
    by (simp only: json_char_def Let_def if_False)
  with h [folded a_b_def] show ?thesis by auto
qed

lemma json_string_ok_append:
  "\<forall>x\<in>set ds. 0x1f < x \<and> x \<noteq> 0x5c \<and> x \<noteq> 0x22 \<Longrightarrow> json_string_ok (ds @ ys) \<longleftrightarrow> json_string_ok ys"
  by (induction ds) auto

lemma json_string_ok_char: "json_string_ok (json_char c @ ys) \<longleftrightarrow> json_string_ok ys"
proof (cases "0x1f < c")
  case True
  then show ?thesis by (auto simp: json_char_def)
next
  case False
  then have "c \<le> 0x1f" by simp
  then obtain d ds where "json_char c = 0x5c # d # ds" "0x1f < d" "\<forall>x\<in>set ds. 0x1f < x \<and> x \<noteq> 0x5c \<and> x \<noteq> 0x22"
    using json_char_control by blast
  then show ?thesis by (simp add: json_string_ok_append)
qed

section \<open>Properties\<close>

text \<open>
  The two passes of the URI escaper agree: for every escape type the second call writes exactly the
  length of the source plus two bytes for each byte that the first call counts, which is what its
  callers allocate; every written byte is a percent sign, an upper-case hexadecimal digit or a
  source byte that the table allows.
\<close>

theorem escape_uri_two_pass:
  "length (ngx_escape_uri xs ty) = length xs + 2 * ngx_escape_uri_count xs ty
    \<and> (\<forall>c\<in>set (ngx_escape_uri xs ty). c = asc CHR ''%'' \<or> c \<in> set hex_upper \<or> c \<in> set xs \<and> \<not> tbl_bit (escape_map ty) c)"
proof
  show "length (ngx_escape_uri xs ty) = length xs + 2 * ngx_escape_uri_count xs ty"
    unfolding ngx_escape_uri_concat ngx_escape_uri_count_sum by (rule uri_escaper.output_length)
  have "length hex_upper = 16" by (simp add: hex_upper_def)
  then have "hex_upper ! unat (drop_bit 4 c) \<in> set hex_upper" "hex_upper ! unat (c AND 0xf) \<in> set hex_upper" for c :: byte
    using nibbles_less [of c] by simp_all
  then show "\<forall>c\<in>set (ngx_escape_uri xs ty). c = asc CHR ''%'' \<or> c \<in> set hex_upper \<or> c \<in> set xs \<and> \<not> tbl_bit (escape_map ty) c"
    unfolding ngx_escape_uri_concat by (auto simp: uri_enc_def split: if_splits)
qed

theorem escape_uri_two_pass_witness:
  "length (ngx_escape_uri (bytes ''a b'') NGX_ESCAPE_URI) = 3 + 2 * ngx_escape_uri_count (bytes ''a b'') NGX_ESCAPE_URI"
  using escape_uri_two_pass [of "bytes ''a b''" NGX_ESCAPE_URI] by simp

text \<open>
  C33. Round trip: what the URI escaper writes, the unescaper without flags reads back to the original
  bytes, for every escape type but the one for refresh headers, which leaves the percent sign alone.
\<close>

theorem escape_uri_roundtrip:
  assumes "ty \<noteq> NGX_ESCAPE_REFRESH"
  shows "ngx_unescape_uri (ngx_escape_uri xs ty) 0 = (xs, [])"
  unfolding ngx_unescape_uri_def ngx_escape_uri_concat
  by (intro unescape_escape escapes_percent [THEN iffD2] assms)

theorem escape_uri_roundtrip_witness:
  "ngx_unescape_uri (ngx_escape_uri (bytes ''a b%?'') NGX_ESCAPE_ARGS) 0 = (bytes ''a b%?'', [])"
  using escape_uri_roundtrip [of NGX_ESCAPE_ARGS "bytes ''a b%?''"] by simp

text \<open>
  Unescaping in place is safe: with every combination of flags, on well-formed and on damaged
  escapes, the bytes written and the bytes left unread together never exceed the bytes given.
\<close>

theorem unescape_uri_bounded:
  "length (fst (ngx_unescape_uri src ty)) + length (snd (ngx_unescape_uri src ty)) \<le> length src"
  using unescape_length [of ty sw_usual 0 0 src] by (simp add: ngx_unescape_uri_def pending_def)

text \<open>
  HTML escaping: the first pass gives the exact growth of the second, different texts are never
  escaped to the same bytes, and the output holds no angle bracket and no double quote.
\<close>

theorem escape_html_safe:
  "length (ngx_escape_html xs) = length xs + ngx_escape_html_len xs
    \<and> (ngx_escape_html xs = ngx_escape_html ys \<longleftrightarrow> xs = ys)
    \<and> (\<forall>c\<in>set (ngx_escape_html xs). c \<noteq> asc CHR ''<'' \<and> c \<noteq> asc CHR ''>'' \<and> c \<noteq> 0x22)"
  unfolding ngx_escape_html_concat ngx_escape_html_len_sum html_escaper.output_inject html_escaper.output_length
  by (auto simp: html_entity_def split: if_splits)

theorem escape_html_safe_witness: "asc CHR ''<'' \<notin> set (ngx_escape_html (bytes ''<a>''))"
  using escape_html_safe [of "bytes ''<a>''" "[]"] by blast

text \<open>
  JSON escaping: the first pass gives the exact growth of the second, different texts are never
  escaped to the same bytes, and the output is the inside of a JSON string: no control bytes and no
  double quote that is not escaped.
\<close>

theorem escape_json_safe:
  "length (ngx_escape_json xs) = length xs + ngx_escape_json_len xs
    \<and> (ngx_escape_json xs = ngx_escape_json ys \<longleftrightarrow> xs = ys) \<and> json_string_ok (ngx_escape_json xs)"
proof -
  have "json_string_ok (concat (map json_char xs))"
    by (induction xs) (simp_all add: json_string_ok_char)
  then show ?thesis
    unfolding ngx_escape_json_concat ngx_escape_json_len_sum json_escaper.output_inject json_escaper.output_length by simp
qed

text \<open>
  The table for refresh headers: it escapes the tilde, which the other tables and the list of
  unreserved characters leave alone, and lets the closing brace pass, although the bit pattern
  written beside the constant says the opposite.
\<close>

theorem refresh_table_divergence:
  "tbl_bit (escape_map NGX_ESCAPE_REFRESH) (asc CHR ''~'') \<and> \<not> tbl_bit (escape_map NGX_ESCAPE_REFRESH) (asc CHR ''}'')
    \<and> \<not> tbl_bit (escape_map NGX_ESCAPE_URI) (asc CHR ''~'') \<and> tbl_bit (escape_map NGX_ESCAPE_URI) (asc CHR ''}'')"
  by (simp add: tbl_bit_def refresh_tbl_def uri_tbl_def)

end
