(* ===== verification/Ngx_Number.thy ===== *)
theory Ngx_Number
  imports Prelude
begin

unbundle bit_operations_syntax

text \<open>
  The number conversions of \<^verbatim>\<open>src/core/ngx_string.c\<close>: the decimal, fixed point and hexadecimal
  readers \<open>ngx_atoi\<close>, \<open>ngx_atosz\<close>, \<open>ngx_atoof\<close>, \<open>ngx_atotm\<close>, \<open>ngx_atoll\<close>, \<open>ngx_atofp\<close> and
  \<open>ngx_hextoi\<close>, and the writers \<open>ngx_hex_dump\<close>, \<open>ngx_sprintf_num\<close> and \<open>ngx_sprintf_str\<close>. The
  readers are compared with the value of the digit string, read as a mathematical integer; the
  writers with the readers.
\<close>

section \<open>Machine integers\<close>

text \<open>
  The value that a 64-bit two's complement register holds after an operation with the exact
  result \<open>x\<close>. The loops below compute through it, so that a theorem that gives their exact
  result also shows that no operation of theirs overflows.
\<close>

definition i64 :: "int \<Rightarrow> int" where
  "i64 x = (x + 2 ^ 63) mod 2 ^ 64 - 2 ^ 63"

lemma i64_id: "- (2 ^ 63) \<le> x \<Longrightarrow> x < 2 ^ 63 \<Longrightarrow> i64 x = x"
  by (simp add: i64_def)

lemma i64_range: "- (2 ^ 63) \<le> i64 x" "i64 x < 2 ^ 63"
  using pos_mod_bound [of "2 ^ 64" "x + 2 ^ 63"] pos_mod_sign [of "2 ^ 64" "x + 2 ^ 63"]
  by (simp_all add: i64_def)

lemma i64_cong: "i64 x mod 2 ^ 64 = x mod 2 ^ 64"
proof -
  have "i64 x mod 2 ^ 64 = ((x + 2 ^ 63) mod 2 ^ 64 + (- (2 ^ 63))) mod 2 ^ 64"
    by (simp only: i64_def diff_conv_add_uminus)
  also have "\<dots> = (x + 2 ^ 63 + (- (2 ^ 63))) mod 2 ^ 64" by (simp only: mod_add_left_eq)
  finally show ?thesis by simp
qed

lemma i64_mod: "x mod 2 ^ 64 = y mod 2 ^ 64 \<Longrightarrow> i64 x = i64 y"
  unfolding i64_def by (drule mod_add_cong [OF _ refl, where b = "2 ^ 63"]) (simp only:)

lemma i64_step: "i64 (i64 x * a + b) = i64 (x * a + b)"
  by (rule i64_mod, rule mod_add_cong [OF mod_mult_cong [OF i64_cong refl] refl])

section \<open>Reading numbers\<close>

text \<open>
  The loop that the four decimal readers share. They differ in the type of the value and so in
  the limit from which the cutoff is computed.
\<close>

fun ato_loop :: "int \<Rightarrow> int \<Rightarrow> int \<Rightarrow> byte list \<Rightarrow> int option" where
  "ato_loop cutoff cutlim value [] = Some value"
| "ato_loop cutoff cutlim value (c # line) =
     (if c < asc CHR ''0'' \<or> asc CHR ''9'' < c then None
      else if cutoff \<le> value \<and> (cutoff < value \<or> cutlim < digit_val c) then None
      else ato_loop cutoff cutlim (i64 (value * 10 + digit_val c)) line)"

definition ngx_atoi :: "byte list \<Rightarrow> int option" where
  "ngx_atoi line =
     (if length line = 0 then None
      else ato_loop (NGX_MAX_INT_T_VALUE div 10) (NGX_MAX_INT_T_VALUE mod 10) 0 line)"

definition ngx_atosz :: "byte list \<Rightarrow> int option" where
  "ngx_atosz line =
     (if length line = 0 then None
      else ato_loop (NGX_MAX_SIZE_T_VALUE div 10) (NGX_MAX_SIZE_T_VALUE mod 10) 0 line)"

definition ngx_atoof :: "byte list \<Rightarrow> int option" where
  "ngx_atoof line =
     (if length line = 0 then None
      else ato_loop (NGX_MAX_OFF_T_VALUE div 10) (NGX_MAX_OFF_T_VALUE mod 10) 0 line)"

definition ngx_atotm :: "byte list \<Rightarrow> int option" where
  "ngx_atotm line =
     (if length line = 0 then None
      else ato_loop (NGX_MAX_TIME_T_VALUE div 10) (NGX_MAX_TIME_T_VALUE mod 10) 0 line)"

text \<open>The reader of the rewrite conditions has no cutoff: it looks at the sign of the result.\<close>

fun atoll_loop :: "int \<Rightarrow> byte list \<Rightarrow> int option" where
  "atoll_loop value [] = Some value"
| "atoll_loop value (c # line) =
     (if c < asc CHR ''0'' \<or> asc CHR ''9'' < c then None
      else atoll_loop (i64 (value * 10 + digit_val c)) line)"

definition ngx_atoll :: "byte list \<Rightarrow> int option" where
  "ngx_atoll line =
     (if length line = 0 then None
      else case atoll_loop 0 line of
        None \<Rightarrow> None
      | Some value \<Rightarrow> (if value < 0 then None else Some value))"

text \<open>
  The fixed point reader: \<open>point\<close> counts the decimals that are still to come, and the second loop
  supplies those that the text leaves out.
\<close>

fun atofp_loop :: "int \<Rightarrow> int \<Rightarrow> int \<Rightarrow> bool \<Rightarrow> nat \<Rightarrow> byte list \<Rightarrow> (int \<times> nat) option" where
  "atofp_loop cutoff cutlim value dot point [] = Some (value, point)"
| "atofp_loop cutoff cutlim value dot point (c # line) =
     (if point = 0 then None
      else if c = asc CHR ''.'' then
        (if dot then None else atofp_loop cutoff cutlim value True point line)
      else if c < asc CHR ''0'' \<or> asc CHR ''9'' < c then None
      else if cutoff \<le> value \<and> (cutoff < value \<or> cutlim < digit_val c) then None
      else atofp_loop cutoff cutlim (i64 (value * 10 + digit_val c)) dot (point - of_bool dot) line)"

fun atofp_scale :: "int \<Rightarrow> int \<Rightarrow> nat \<Rightarrow> int option" where
  "atofp_scale cutoff value 0 = Some value"
| "atofp_scale cutoff value (Suc point) =
     (if cutoff < value then None else atofp_scale cutoff (i64 (value * 10)) point)"

definition ngx_atofp :: "byte list \<Rightarrow> nat \<Rightarrow> int option" where
  "ngx_atofp line point =
     (if length line = 0 then None
      else case atofp_loop (NGX_MAX_INT_T_VALUE div 10) (NGX_MAX_INT_T_VALUE mod 10) 0 False point line of
        None \<Rightarrow> None
      | Some (value, point') \<Rightarrow> atofp_scale (NGX_MAX_INT_T_VALUE div 10) value point')"

fun hextoi_loop :: "int \<Rightarrow> int \<Rightarrow> byte list \<Rightarrow> int option" where
  "hextoi_loop cutoff value [] = Some value"
| "hextoi_loop cutoff value (ch # line) =
     (if cutoff < value then None
      else if asc CHR ''0'' \<le> ch \<and> ch \<le> asc CHR ''9'' then
        hextoi_loop cutoff (i64 (value * 16 + uint (ch - asc CHR ''0''))) line
      else let c = ch OR 0x20 in
        if asc CHR ''a'' \<le> c \<and> c \<le> asc CHR ''f'' then
          hextoi_loop cutoff (i64 (value * 16 + uint (c - asc CHR ''a'' + 10))) line
        else None)"

definition ngx_hextoi :: "byte list \<Rightarrow> int option" where
  "ngx_hextoi line =
     (if length line = 0 then None else hextoi_loop (NGX_MAX_INT_T_VALUE div 16) 0 line)"

section \<open>Writing numbers and bytes\<close>

definition hex_lower :: "byte list" where
  "hex_lower = bytes ''0123456789abcdef''"

definition hex_capital :: "byte list" where
  "hex_capital = bytes ''0123456789ABCDEF''"

fun ngx_hex_dump :: "byte list \<Rightarrow> byte list" where
  "ngx_hex_dump [] = []"
| "ngx_hex_dump (c # src) =
     hex_lower ! unat (drop_bit 4 c) # hex_lower ! unat (c AND 0xf) # ngx_hex_dump src"

definition NGX_INT64_LEN :: nat where
  [ngx_consts]: "NGX_INT64_LEN = 20"

definition NGX_MAX_UINT32_VALUE :: "64 word" where
  [ngx_consts]: "NGX_MAX_UINT32_VALUE = 0xffffffff"

text \<open>
  The digits are stored backwards from the end of \<open>temp\<close>; \<open>p\<close> is what has been stored so far. The
  unsigned divisions and remainders of the two loops act on the value of the register.
\<close>

fun dec_digits :: "nat \<Rightarrow> byte list \<Rightarrow> byte list" where
  "dec_digits u p =
     (let p = of_nat (u mod 10 + 48) # p in
      if u div 10 \<noteq> 0 then dec_digits (u div 10) p else p)"

fun hex_digits :: "byte list \<Rightarrow> nat \<Rightarrow> byte list \<Rightarrow> byte list" where
  "hex_digits hex u p =
     (let p = hex ! (u mod 16) # p in
      if u div 16 \<noteq> 0 then hex_digits hex (u div 16) p else p)"

declare dec_digits.simps [simp del] hex_digits.simps [simp del]

definition num_temp :: "64 word \<Rightarrow> nat \<Rightarrow> byte list" where
  "num_temp ui64 hexadecimal =
     (if hexadecimal = 0 then
        (if ui64 \<le> NGX_MAX_UINT32_VALUE then dec_digits (unat (ucast ui64 :: u32)) []
         else dec_digits (unat ui64) [])
      else if hexadecimal = 1 then hex_digits hex_lower (unat ui64) []
      else hex_digits hex_capital (unat ui64) [])"

text \<open>\<open>room\<close> is \<^verbatim>\<open>last - buf\<close>, the number of bytes that may still be written.\<close>

fun num_pad :: "nat \<Rightarrow> nat \<Rightarrow> nat \<Rightarrow> byte \<Rightarrow> byte list" where
  "num_pad len width 0 zero = []"
| "num_pad len width (Suc room) zero =
     (if len < width then zero # num_pad (Suc len) width room zero else [])"

definition ngx_sprintf_num :: "nat \<Rightarrow> 64 word \<Rightarrow> byte \<Rightarrow> nat \<Rightarrow> nat \<Rightarrow> byte list" where
  "ngx_sprintf_num room ui64 zero hexadecimal width =
     (let p = num_temp ui64 hexadecimal;
          pad = num_pad (length p) width room zero;
          room = room - length pad;
          len = (if room < length p then room else length p)
      in pad @ take len p)"

text \<open>
  The string conversions: with the length \<open>-1\<close> (\<open>None\<close>) the source ends at its first zero byte,
  and the hexadecimal loops need room for two digits.
\<close>

fun str_hex :: "byte list \<Rightarrow> nat \<Rightarrow> byte list \<Rightarrow> byte list" where
  "str_hex hex room [] = []"
| "str_hex hex room (c # src) =
     (if 1 < room then hex ! unat (drop_bit 4 c) # hex ! unat (c AND 0xf) # str_hex hex (room - 2) src
      else [])"

definition ngx_sprintf_str :: "nat \<Rightarrow> byte list \<Rightarrow> nat option \<Rightarrow> nat \<Rightarrow> byte list" where
  "ngx_sprintf_str room src len hexadecimal =
     (let s = (case len of None \<Rightarrow> takeWhile (\<lambda>c. c \<noteq> 0) src | Some n \<Rightarrow> take n src)
      in if hexadecimal = 0 then take room s
         else if hexadecimal = 1 then str_hex hex_lower room s
         else str_hex hex_capital room s)"

section \<open>The value of a digit string\<close>

definition dec_from :: "int \<Rightarrow> byte list \<Rightarrow> int" where
  "dec_from v xs = foldl (\<lambda>v c. v * 10 + digit_val c) v xs"

abbreviation dec_val :: "byte list \<Rightarrow> int" where
  "dec_val \<equiv> dec_from 0"

lemma dec_from_simps [simp]:
  "dec_from v [] = v"
  "dec_from v (c # xs) = dec_from (v * 10 + digit_val c) xs"
  "dec_from v (xs @ ys) = dec_from (dec_from v xs) ys"
  by (simp_all add: dec_from_def)

lemma dec_from_ge: "list_all is_digit xs \<Longrightarrow> 0 \<le> v \<Longrightarrow> v \<le> dec_from v xs"
proof (induction xs arbitrary: v)
  case (Cons c xs)
  then have "0 \<le> digit_val c" using digit_val_range by auto
  moreover from this Cons have "v * 10 + digit_val c \<le> dec_from v (c # xs)" by simp
  ultimately show ?case using Cons.prems(2) by linarith
qed simp

lemma not_digit: "c < 48 \<or> 57 < c \<longleftrightarrow> \<not> is_digit c"
  by (auto simp: is_digit_def not_le)

lemma cutoff_iff:
  assumes "0 \<le> d" "d \<le> (9::int)"
  shows "(M div 10 \<le> v \<and> (M div 10 < v \<or> M mod 10 < d)) \<longleftrightarrow> M < v * 10 + d"
proof -
  have "(q \<le> v \<and> (q < v \<or> r < d)) \<longleftrightarrow> 10 * q + r < v * 10 + d" if "0 \<le> r" "r < 10" for q r
    using assms that by (cases "q < v"; cases "q = v") auto
  from this [of "M mod 10" "M div 10"] show ?thesis by simp
qed

text \<open>The decimal step of every reader, once the cutoff test has been passed.\<close>

lemma dec_step:
  assumes "is_digit c" "0 \<le> v" "M < 2 ^ 63" "v * 10 + digit_val c \<le> M"
  shows "i64 (v * 10 + digit_val c) = v * 10 + digit_val c" "0 \<le> v * 10 + digit_val c"
proof -
  show nn: "0 \<le> v * 10 + digit_val c" using assms(2) digit_val_range [OF assms(1)] by simp
  show "i64 (v * 10 + digit_val c) = v * 10 + digit_val c"
    using nn assms(3,4) by (intro i64_id) simp_all
qed

lemma ato_loop_exact:
  assumes "0 \<le> v" "v \<le> M" "M < 2 ^ 63"
  shows "ato_loop (M div 10) (M mod 10) v xs =
    (if list_all is_digit xs \<and> dec_from v xs \<le> M then Some (dec_from v xs) else None)"
  using assms(1,2)
proof (induction xs arbitrary: v)
  case (Cons c xs)
  show ?case
  proof (cases "is_digit c")
    case True
    note r = digit_val_range [OF True] and cut = cutoff_iff [of "digit_val c" M v]
    show ?thesis
    proof (cases "M < v * 10 + digit_val c")
      case big: True
      have "M < dec_from v (c # xs)" if "list_all is_digit xs"
        using dec_from_ge [OF that, of "v * 10 + digit_val c"] big r Cons.prems by simp
      with True big r cut show ?thesis by (auto simp: not_digit)
    next
      case False
      then have le: "v * 10 + digit_val c \<le> M" by simp
      from True False r cut dec_step [OF True Cons.prems(1) assms(3) le] Cons.IH [OF _ le] show ?thesis
        by (auto simp: not_digit)
    qed
  qed (auto simp: not_digit)
qed simp

lemma atoll_loop_exact:
  "atoll_loop (i64 v) xs = (if list_all is_digit xs then Some (i64 (dec_from v xs)) else None)"
  by (induction xs arbitrary: v) (auto simp: not_digit i64_step)

lemma NGX_MAX_less: "NGX_MAX_INT_T_VALUE < 2 ^ 63" "NGX_MAX_SIZE_T_VALUE < 2 ^ 63"
  "NGX_MAX_OFF_T_VALUE < 2 ^ 63" "NGX_MAX_TIME_T_VALUE < 2 ^ 63"
  by (simp_all add: ngx_consts)

lemma NGX_MAX_nonneg: "0 \<le> NGX_MAX_INT_T_VALUE" "0 \<le> NGX_MAX_SIZE_T_VALUE"
  "0 \<le> NGX_MAX_OFF_T_VALUE" "0 \<le> NGX_MAX_TIME_T_VALUE"
  by (simp_all add: ngx_consts)

lemma ngx_atoi_exact:
  "ngx_atoi line =
     (if line \<noteq> [] \<and> list_all is_digit line \<and> dec_val line \<le> NGX_MAX_INT_T_VALUE
      then Some (dec_val line) else None)"
  unfolding ngx_atoi_def ato_loop_exact [OF order.refl NGX_MAX_nonneg(1) NGX_MAX_less(1)] by simp

text \<open>
  C37. The decimal readers \<open>ngx_atoi\<close>, \<open>ngx_atosz\<close>, \<open>ngx_atoof\<close> and \<open>ngx_atotm\<close> accept exactly the
  non-empty digit strings whose value does not exceed the largest value of the result's type, and
  return that value; every other input, the overflowing ones included, is \<open>NGX_ERROR\<close>. The loop
  works in 64-bit registers, so the theorem also shows that its cutoff test excludes overflow.
\<close>

theorem decimal_readers_exact:
  "ngx_atoi line =
     (if line \<noteq> [] \<and> list_all is_digit line \<and> dec_val line \<le> NGX_MAX_INT_T_VALUE
      then Some (dec_val line) else None)
   \<and> ngx_atosz line =
     (if line \<noteq> [] \<and> list_all is_digit line \<and> dec_val line \<le> NGX_MAX_SIZE_T_VALUE
      then Some (dec_val line) else None)
   \<and> ngx_atoof line =
     (if line \<noteq> [] \<and> list_all is_digit line \<and> dec_val line \<le> NGX_MAX_OFF_T_VALUE
      then Some (dec_val line) else None)
   \<and> ngx_atotm line =
     (if line \<noteq> [] \<and> list_all is_digit line \<and> dec_val line \<le> NGX_MAX_TIME_T_VALUE
      then Some (dec_val line) else None)"
  unfolding ngx_atoi_exact ngx_atosz_def ngx_atoof_def ngx_atotm_def
    ato_loop_exact [OF order.refl NGX_MAX_nonneg(2) NGX_MAX_less(2)]
    ato_loop_exact [OF order.refl NGX_MAX_nonneg(3) NGX_MAX_less(3)]
    ato_loop_exact [OF order.refl NGX_MAX_nonneg(4) NGX_MAX_less(4)]
  by simp

text \<open>
  \<open>ngx_atoll\<close>, which compares numbers in the rewrite module's conditions, has no cutoff: it
  returns the value of the digit string modulo \<^verbatim>\<open>2^64\<close> whenever that residue is not
  negative, so a number beyond the range can be accepted with another value.
\<close>

theorem atoll_wraps:
  "ngx_atoll line =
     (if line \<noteq> [] \<and> list_all is_digit line \<and> 0 \<le> i64 (dec_val line)
      then Some (i64 (dec_val line)) else None)
   \<and> ngx_atoll (bytes ''18446744073709551617'') = Some 1"
proof
  show *: "ngx_atoll line =
     (if line \<noteq> [] \<and> list_all is_digit line \<and> 0 \<le> i64 (dec_val line)
      then Some (i64 (dec_val line)) else None)" for line
    using atoll_loop_exact [of 0 line] by (auto simp: ngx_atoll_def i64_id)
  show "ngx_atoll (bytes ''18446744073709551617'') = Some 1"
    unfolding * by (simp add: is_digit_def digit_val_def i64_def)
qed
section \<open>Fixed point numbers\<close>

lemma atofp_loop_decimals:
  assumes "0 \<le> v" "v \<le> M" "M < 2 ^ 63"
  shows "atofp_loop (M div 10) (M mod 10) v True point xs =
    (if list_all is_digit xs \<and> length xs \<le> point \<and> dec_from v xs \<le> M
     then Some (dec_from v xs, point - length xs) else None)"
  using assms(1,2)
proof (induction xs arbitrary: v point)
  case (Cons c xs)
  show ?case
  proof (cases "is_digit c \<and> point \<noteq> 0")
    case True
    then have dig: "is_digit c" and pt: "point \<noteq> 0" and ndot: "c \<noteq> asc CHR ''.''"
      by (auto simp: is_digit_def)
    note r = digit_val_range [OF dig] and cut = cutoff_iff [of "digit_val c" M v]
    show ?thesis
    proof (cases "M < v * 10 + digit_val c")
      case big: True
      have "M < dec_from v (c # xs)" if "list_all is_digit xs"
        using dec_from_ge [OF that, of "v * 10 + digit_val c"] big r Cons.prems by simp
      with dig pt ndot big r cut show ?thesis by (auto simp: not_digit)
    next
      case False
      then have le: "v * 10 + digit_val c \<le> M" by simp
      note st = dec_step [OF dig Cons.prems(1) assms(3) le]
      have "atofp_loop (M div 10) (M mod 10) v True point (c # xs) =
          atofp_loop (M div 10) (M mod 10) (v * 10 + digit_val c) True (point - 1) xs"
        using dig pt ndot False r cut st(1) by (auto simp: not_digit)
      with pt dig Cons.IH [OF st(2) le, of "point - 1"] show ?thesis by auto
    qed
  qed (auto simp: not_digit is_digit_def)
qed simp

lemma atofp_loop_units:
  assumes "0 \<le> v" "v \<le> M" "M < 2 ^ 63" "0 < point" "asc CHR ''.'' \<notin> set xs"
  shows "atofp_loop (M div 10) (M mod 10) v False point (xs @ ys) =
    (if list_all is_digit xs \<and> dec_from v xs \<le> M
     then atofp_loop (M div 10) (M mod 10) (dec_from v xs) False point ys else None)"
  using assms(1,2,5)
proof (induction xs arbitrary: v)
  case (Cons c xs)
  then have ndot: "c \<noteq> asc CHR ''.''" by auto
  show ?case
  proof (cases "is_digit c")
    case True
    note r = digit_val_range [OF True] and cut = cutoff_iff [of "digit_val c" M v]
    show ?thesis
    proof (cases "M < v * 10 + digit_val c")
      case big: True
      have "M < dec_from v (c # xs)" if "list_all is_digit xs"
        using dec_from_ge [OF that, of "v * 10 + digit_val c"] big r Cons.prems by simp
      with True assms(4) ndot big r cut show ?thesis by (auto simp: not_digit)
    next
      case False
      then have le: "v * 10 + digit_val c \<le> M" by simp
      note st = dec_step [OF True Cons.prems(1) assms(3) le]
      have "atofp_loop (M div 10) (M mod 10) v False point ((c # xs) @ ys) =
          atofp_loop (M div 10) (M mod 10) (v * 10 + digit_val c) False point (xs @ ys)"
        using True assms(4) ndot False r cut st(1) by (auto simp: not_digit)
      with True Cons.IH [OF st(2) le] Cons.prems(3) show ?thesis by auto
    qed
  qed (use assms(4) ndot in \<open>auto simp: not_digit\<close>)
qed simp

lemma atofp_scale_exact:
  assumes "0 \<le> v" "v \<le> M" "M < 2 ^ 63"
  shows "atofp_scale (M div 10) v k = (if v * 10 ^ k \<le> M then Some (v * 10 ^ k) else None)"
  using assms(1,2)
proof (induction k arbitrary: v)
  case (Suc k)
  have grow: "v * 10 \<le> v * 10 ^ Suc k" using Suc.prems(1) by (simp add: mult_left_mono)
  show ?case
  proof (cases "M div 10 < v")
    case True
    then have "M < v * 10" by linarith
    with grow True show ?thesis by auto
  next
    case False
    then have le: "v * 10 \<le> M" by linarith
    then have "i64 (v * 10) = v * 10" using Suc.prems(1) assms(3) by (intro i64_id) simp_all
    with False Suc.IH [of "v * 10"] le Suc.prems(1) show ?thesis by (simp add: mult.assoc)
  qed
qed simp

text \<open>
  The value of a fixed point text: the digits before and after the dot, padded to \<open>point\<close>
  decimals.
\<close>

definition fp_units :: "byte list \<Rightarrow> byte list" where
  "fp_units line = takeWhile (\<lambda>c. c \<noteq> asc CHR ''.'') line"

definition fp_decimals :: "byte list \<Rightarrow> byte list" where
  "fp_decimals line = tl (dropWhile (\<lambda>c. c \<noteq> asc CHR ''.'') line)"

definition fp_val :: "nat \<Rightarrow> byte list \<Rightarrow> int" where
  "fp_val point line =
     dec_val (fp_units line @ fp_decimals line) * 10 ^ (point - length (fp_decimals line))"

lemma fp_val_grow:
  assumes "list_all is_digit (fp_units line)" "list_all is_digit (fp_decimals line)"
  shows "0 \<le> dec_val (fp_units line)"
    "dec_val (fp_units line) \<le> dec_val (fp_units line @ fp_decimals line)"
    "dec_val (fp_units line @ fp_decimals line) \<le> fp_val point line"
proof -
  show a: "0 \<le> dec_val (fp_units line)" using dec_from_ge [OF assms(1), of 0] by simp
  show b: "dec_val (fp_units line) \<le> dec_val (fp_units line @ fp_decimals line)"
    using dec_from_ge [OF assms(2) a] by simp
  have "dec_val (fp_units line @ fp_decimals line) * 1 \<le> fp_val point line"
    unfolding fp_val_def using a b by (intro mult_left_mono) simp_all
  then show "dec_val (fp_units line @ fp_decimals line) \<le> fp_val point line" by simp
qed

text \<open>
  \<open>ngx_atofp\<close> accepts exactly the texts with digits, at most one dot and at most \<open>point\<close>
  digits after it, for \<open>point\<close> positive, whose value scaled by \<^verbatim>\<open>10^point\<close> fits; it returns that
  value. An overflow of any intermediate product is an overflow of the result, and is refused.
\<close>

theorem atofp_exact:
  "ngx_atofp line point =
     (if line \<noteq> [] \<and> 0 < point \<and> list_all is_digit (fp_units line)
         \<and> list_all is_digit (fp_decimals line) \<and> length (fp_decimals line) \<le> point
         \<and> fp_val point line \<le> NGX_MAX_INT_T_VALUE
      then Some (fp_val point line) else None)"
proof (cases "line = [] \<or> point = 0")
  case True
  then show ?thesis by (cases line) (auto simp: ngx_atofp_def)
next
  case False
  let ?M = NGX_MAX_INT_T_VALUE
  let ?u = "fp_units line" and ?d = "fp_decimals line"
  let ?loop = "\<lambda>v dot ys. atofp_loop (?M div 10) (?M mod 10) v dot point ys"
  define rest where "rest = dropWhile (\<lambda>c. c \<noteq> asc CHR ''.'') line"
  have line: "line = ?u @ rest" by (simp add: fp_units_def rest_def)
  have nodot: "asc CHR ''.'' \<notin> set ?u" unfolding fp_units_def by (metis set_takeWhileD)
  note M = NGX_MAX_nonneg(1) NGX_MAX_less(1)
  have units: "?loop 0 False line =
      (if list_all is_digit ?u \<and> dec_val ?u \<le> ?M then ?loop (dec_val ?u) False rest else None)"
    using atofp_loop_units [OF order.refl M _ nodot, of point rest] False line by simp
  have rest: "?loop v False rest =
      (if list_all is_digit ?d \<and> length ?d \<le> point \<and> dec_from v ?d \<le> ?M
       then Some (dec_from v ?d, point - length ?d) else None)" if "0 \<le> v" "v \<le> ?M" for v
  proof (cases rest)
    case Nil
    moreover from this have "?d = []" unfolding fp_decimals_def rest_def [symmetric] by simp
    ultimately show ?thesis using that by simp
  next
    case (Cons c ys)
    then have "c = asc CHR ''.''" "?d = ys"
      using hd_dropWhile [of "\<lambda>c. c \<noteq> asc CHR ''.''" line] unfolding rest_def fp_decimals_def by auto
    with Cons False atofp_loop_decimals [OF that M(2)] show ?thesis by simp
  qed
  show ?thesis
  proof (cases "list_all is_digit ?u \<and> list_all is_digit ?d")
    case dig: True
    then have g: "0 \<le> dec_val ?u" "dec_val ?u \<le> dec_val (?u @ ?d)" "dec_val (?u @ ?d) \<le> fp_val point line"
      using fp_val_grow [of line] by auto
    from g(1,2) have "0 \<le> dec_val (?u @ ?d)" by linarith
    note sc = atofp_scale_exact [OF this _ M(2)]
    show ?thesis using dig g False sc [of "point - length ?d"] rest [OF g(1)] units
      by (auto simp: ngx_atofp_def fp_val_def)
  next
    case False
    have "0 \<le> dec_val ?u" if "list_all is_digit ?u" using dec_from_ge [OF that, of 0] by simp
    with False units rest show ?thesis by (auto simp: ngx_atofp_def)
  qed
qed
section \<open>Hexadecimal numbers\<close>

definition is_xdigit :: "byte \<Rightarrow> bool" where
  "is_xdigit c \<longleftrightarrow> hex_digit c \<noteq> None"

definition hex_from :: "int \<Rightarrow> byte list \<Rightarrow> int" where
  "hex_from v xs = foldl (\<lambda>v c. v * 16 + uint (the (hex_digit c))) v xs"

abbreviation hex_value :: "byte list \<Rightarrow> int" where
  "hex_value \<equiv> hex_from 0"

lemma hex_from_simps [simp]:
  "hex_from v [] = v"
  "hex_from v (c # xs) = hex_from (v * 16 + uint (the (hex_digit c))) xs"
  "hex_from v (xs @ ys) = hex_from (hex_from v xs) ys"
  by (simp_all add: hex_from_def)

lemma hex_from_ge: "0 \<le> v \<Longrightarrow> v \<le> hex_from v xs"
proof (induction xs arbitrary: v)
  case (Cons c xs)
  have nn: "0 \<le> uint (the (hex_digit c))" by simp
  with Cons have "v * 16 + uint (the (hex_digit c)) \<le> hex_from v (c # xs)" by simp
  with nn Cons.prems show ?case by linarith
qed simp

lemma hex_digit_less: "hex_digit c = Some d \<Longrightarrow> uint d < 16"
proof -
  have "\<forall>d. hex_digit c = Some d \<longrightarrow> uint d < 16"
    by (rule byte_exhaust [of _ c]) (simp add: hex_digit_def word_le_def)
  then show "hex_digit c = Some d \<Longrightarrow> uint d < 16" by blast
qed

lemma hextoi_loop_Cons:
  "hextoi_loop cutoff v (ch # line) =
     (if cutoff < v then None else case hex_digit ch of
        None \<Rightarrow> None
      | Some d \<Rightarrow> hextoi_loop cutoff (i64 (v * 16 + uint d)) line)"
  by (simp add: hex_digit_def Let_def)

declare hextoi_loop.simps(2) [simp del]

lemma hextoi_loop_exact:
  assumes "0 \<le> v" "v \<le> NGX_MAX_INT_T_VALUE"
  shows "hextoi_loop (NGX_MAX_INT_T_VALUE div 16) v xs =
    (if list_all is_xdigit xs \<and> hex_from v xs \<le> NGX_MAX_INT_T_VALUE then Some (hex_from v xs) else None)"
  using assms
proof (induction xs arbitrary: v)
  case (Cons c xs)
  show ?case
  proof (cases "hex_digit c")
    case None
    then show ?thesis by (simp add: hextoi_loop_Cons is_xdigit_def)
  next
    case (Some d)
    let ?v = "v * 16 + uint d"
    have d: "0 \<le> uint d" "uint d < 16" using hex_digit_less [OF Some] by simp_all
    show ?thesis
    proof (cases "NGX_MAX_INT_T_VALUE div 16 < v")
      case True
      then have "NGX_MAX_INT_T_VALUE < ?v" using d unfolding ngx_consts by linarith
      moreover have "?v \<le> hex_from ?v xs" using d Cons.prems by (intro hex_from_ge) simp
      ultimately show ?thesis using True Some by (auto simp: hextoi_loop_Cons is_xdigit_def)
    next
      case False
      then have le: "?v \<le> NGX_MAX_INT_T_VALUE" using d by (simp add: ngx_consts)
      have nn: "0 \<le> ?v" using d Cons.prems by simp
      from nn le have "i64 ?v = ?v" by (intro i64_id) (simp_all add: ngx_consts)
      with False Some Cons.IH [OF nn le] show ?thesis by (simp add: hextoi_loop_Cons is_xdigit_def)
    qed
  qed
qed simp

lemma ngx_hextoi_exact:
  "ngx_hextoi line =
     (if line \<noteq> [] \<and> list_all is_xdigit line \<and> hex_value line \<le> NGX_MAX_INT_T_VALUE
      then Some (hex_value line) else None)"
  unfolding ngx_hextoi_def hextoi_loop_exact [OF order.refl NGX_MAX_nonneg(1)] by simp

section \<open>Printed numbers\<close>

lemma hex_table_digit:
  assumes "n < 16"
  shows "hex_digit (hex_lower ! n) = Some (of_nat n)" "hex_digit (hex_capital ! n) = Some (of_nat n)"
  by (rule nibble_exhaust [OF _ _ _ assms];
      simp add: upt_rec_numeral hex_lower_def hex_capital_def hex_digit_def)+

lemma digit_of_nat:
  assumes "n < 10"
  shows "is_digit (of_nat (n + 48))" "digit_val (of_nat (n + 48)) = int n"
proof -
  have "uint (of_nat (n + 48) :: byte) = int n + 48"
    using assms by (simp add: unsigned_of_nat take_bit_eq_mod del: of_nat_add)
  then show "is_digit (of_nat (n + 48))" "digit_val (of_nat (n + 48)) = int n"
    using assms by (simp_all add: is_digit_def digit_val_def word_le_def)
qed

lemma dec_digits_append: "dec_digits u p = dec_digits u [] @ p"
proof (induction u arbitrary: p rule: less_induct)
  case (less u)
  show ?case
  proof (cases "u div 10 = 0")
    case False
    then have "u div 10 < u" by simp
    from less.IH [OF this, of "of_nat (u mod 10 + 48) # p"] less.IH [OF this, of "[of_nat (u mod 10 + 48)]"]
    show ?thesis using False by (simp add: dec_digits.simps [of u] Let_def)
  qed (simp add: dec_digits.simps [of u])
qed

lemma dec_digits_rec:
  "dec_digits u [] = (if u div 10 \<noteq> 0 then dec_digits (u div 10) [] else []) @ [of_nat (u mod 10 + 48)]"
  using dec_digits_append [of "u div 10" "[of_nat (u mod 10 + 48)]"]
  by (simp add: dec_digits.simps [of u] Let_def)

lemma dec_digits_value:
  "list_all is_digit (dec_digits u []) \<and> dec_val (dec_digits u []) = int u \<and> dec_digits u [] \<noteq> []"
proof (induction u rule: less_induct)
  case (less u)
  have d: "is_digit (of_nat (u mod 10 + 48))" "digit_val (of_nat (u mod 10 + 48)) = int (u mod 10)"
    by (rule digit_of_nat; simp)+
  show ?case
  proof (cases "u div 10 = 0")
    case False
    then have "u div 10 < u" by simp
    from less.IH [OF this] False d show ?thesis
      unfolding dec_digits_rec [of u] by (simp del: of_nat_add add: zdiv_int zmod_int)
  next
    case True
    then have "u < 10" by simp
    with d show ?thesis unfolding dec_digits_rec [of u] by (simp del: of_nat_add)
  qed
qed

lemma dec_digits_length: "u < 10 ^ Suc k \<Longrightarrow> length (dec_digits u []) \<le> Suc k"
proof (induction k arbitrary: u)
  case 0
  then show ?case by (simp add: dec_digits_rec [of u])
next
  case (Suc k)
  have "u div 10 < 10 ^ Suc k" using Suc.prems by (simp add: div_less_iff_less_mult mult.commute)
  from Suc.IH [OF this] show ?case by (simp add: dec_digits_rec [of u])
qed
lemma hex_digits_append: "hex_digits h u p = hex_digits h u [] @ p"
proof (induction u arbitrary: p rule: less_induct)
  case (less u)
  show ?case
  proof (cases "u div 16 = 0")
    case False
    then have "u div 16 < u" by simp
    from less.IH [OF this, of "h ! (u mod 16) # p"] less.IH [OF this, of "[h ! (u mod 16)]"]
    show ?thesis using False by (simp add: hex_digits.simps [of h u] Let_def)
  qed (simp add: hex_digits.simps [of h u])
qed

lemma hex_digits_rec:
  "hex_digits h u [] = (if u div 16 \<noteq> 0 then hex_digits h (u div 16) [] else []) @ [h ! (u mod 16)]"
  using hex_digits_append [of h "u div 16" "[h ! (u mod 16)]"]
  by (simp add: hex_digits.simps [of h u] Let_def)

lemma uint_nibble: "n < 16 \<Longrightarrow> uint (of_nat n :: byte) = int n"
  by (simp add: unsigned_of_nat take_bit_eq_mod)

lemma hex_digits_value:
  assumes "\<And>n. n < 16 \<Longrightarrow> hex_digit (h ! n) = Some (of_nat n)"
  shows "list_all is_xdigit (hex_digits h u []) \<and> hex_value (hex_digits h u []) = int u \<and> hex_digits h u [] \<noteq> []"
proof (induction u rule: less_induct)
  case (less u)
  have d: "hex_digit (h ! (u mod 16)) = Some (of_nat (u mod 16))" by (rule assms) simp
  have v: "uint (of_nat (u mod 16) :: byte) = int (u mod 16)" by (rule uint_nibble) simp
  show ?case
  proof (cases "u div 16 = 0")
    case False
    then have "u div 16 < u" by simp
    from less.IH [OF this] False d v show ?thesis
      unfolding hex_digits_rec [of h u] by (simp add: is_xdigit_def zdiv_int zmod_int)
  next
    case True
    then have "u < 16" by simp
    with d v show ?thesis unfolding hex_digits_rec [of h u] by (simp add: is_xdigit_def)
  qed
qed

lemma hex_digits_length: "u < 16 ^ Suc k \<Longrightarrow> length (hex_digits h u []) \<le> Suc k"
proof (induction k arbitrary: u)
  case 0
  then show ?case by (simp add: hex_digits_rec [of h u])
next
  case (Suc k)
  have "u div 16 < 16 ^ Suc k" using Suc.prems by (simp add: div_less_iff_less_mult mult.commute)
  from Suc.IH [OF this] show ?case by (simp add: hex_digits_rec [of h u])
qed

lemma u32_cast: "ui64 \<le> NGX_MAX_UINT32_VALUE \<Longrightarrow> unat (ucast ui64 :: u32) = unat ui64"
  by (simp add: ngx_consts word_le_nat_alt unsigned_ucast_eq take_bit_nat_eq_self)

lemma num_temp_decimal: "num_temp ui64 0 = dec_digits (unat ui64) []"
  by (simp add: num_temp_def u32_cast)

lemma num_pad_replicate: "num_pad len width room zero = replicate (min room (width - len)) zero"
proof (induction room arbitrary: len)
  case (Suc room)
  show ?case
  proof (cases "len < width")
    case True
    then have "width - len = Suc (width - Suc len)" by simp
    with True Suc.IH [of "Suc len"] show ?thesis by (simp del: diff_Suc_Suc)
  qed simp
qed simp

text \<open>The stack buffer \<open>temp\<close> holds the digits of every 64-bit value, in both bases.\<close>

lemma num_temp_fits: "length (num_temp ui64 hexadecimal) \<le> NGX_INT64_LEN"
proof -
  have lt: "unat ui64 < 2 ^ 64" using unsigned_less [of ui64, where ?'a = nat] by simp
  have "length (dec_digits (unat ui64) []) \<le> Suc 19" by (rule dec_digits_length) (use lt in simp)
  moreover have "length (hex_digits h (unat ui64) []) \<le> Suc 15" for h
    by (rule hex_digits_length) (use lt in simp)
  then have "length (hex_digits h (unat ui64) []) \<le> 20" for h by (rule order_trans) simp
  ultimately show ?thesis
    using num_temp_decimal [of ui64]
    by (cases "hexadecimal = 0") (simp_all add: num_temp_def ngx_consts)
qed

lemma sprintf_num_room: "length (ngx_sprintf_num room ui64 zero hexadecimal width) \<le> room"
  by (auto simp: ngx_sprintf_num_def Let_def num_pad_replicate)

lemma sprintf_num_full:
  assumes "max NGX_INT64_LEN width \<le> room"
  shows "ngx_sprintf_num room ui64 zero hexadecimal width =
    replicate (width - length (num_temp ui64 hexadecimal)) zero @ num_temp ui64 hexadecimal"
proof -
  have "length (num_temp ui64 hexadecimal) \<le> room" "width \<le> room"
    using assms num_temp_fits [of ui64 hexadecimal] by simp_all
  then show ?thesis
    by (auto simp: ngx_sprintf_num_def Let_def num_pad_replicate min_absorb2)
qed

lemma dec_zeros: "list_all is_digit (replicate n 48)" "dec_from 0 (replicate n 48) = 0"
  by (induction n) (simp_all add: is_digit_def digit_val_def)

lemma hex_zeros: "list_all is_xdigit (replicate n 48)" "hex_from 0 (replicate n 48) = 0"
  by (induction n) (simp_all add: is_xdigit_def hex_digit_def)

text \<open>
  Printing and reading are inverse: a number that \<open>ngx_sprintf_num\<close> writes in decimal, or in
  hexadecimal of either case, padded with zeros to any width, is read back as itself by
  \<open>ngx_atoi\<close> and by \<open>ngx_hextoi\<close>, whenever the buffer has room for the longest number and for the
  width and the number is an \<open>ngx_int_t\<close>. In every case the writer keeps to the room it has, and
  its stack buffer is long enough.
\<close>

theorem sprintf_num_roundtrip:
  assumes "max NGX_INT64_LEN width \<le> room" "uint ui64 \<le> NGX_MAX_INT_T_VALUE"
  shows "ngx_atoi (ngx_sprintf_num room ui64 (asc CHR ''0'') 0 width) = Some (uint ui64)
    \<and> ngx_hextoi (ngx_sprintf_num room ui64 (asc CHR ''0'') 1 width) = Some (uint ui64)
    \<and> ngx_hextoi (ngx_sprintf_num room ui64 (asc CHR ''0'') 2 width) = Some (uint ui64)
    \<and> length (ngx_sprintf_num room' ui64 zero hexadecimal width') \<le> room'
    \<and> length (num_temp ui64 hexadecimal) \<le> NGX_INT64_LEN"
proof (intro conjI)
  note full = sprintf_num_full [OF assms(1), of ui64 "asc CHR ''0''"]
  note hx = hex_digits_value [where u = "unat ui64"]
  show "ngx_atoi (ngx_sprintf_num room ui64 (asc CHR ''0'') 0 width) = Some (uint ui64)"
    using full [of 0] dec_digits_value [of "unat ui64"] assms(2)
    by (simp add: num_temp_decimal ngx_atoi_exact dec_zeros)
  show "ngx_hextoi (ngx_sprintf_num room ui64 (asc CHR ''0'') 1 width) = Some (uint ui64)"
    using full [of 1] hx [of hex_lower] hex_table_digit(1) assms(2)
    by (simp add: num_temp_def ngx_hextoi_exact hex_zeros)
  show "ngx_hextoi (ngx_sprintf_num room ui64 (asc CHR ''0'') 2 width) = Some (uint ui64)"
    using full [of 2] hx [of hex_capital] hex_table_digit(2) assms(2)
    by (simp add: num_temp_def ngx_hextoi_exact hex_zeros)
qed (rule sprintf_num_room num_temp_fits)+

theorem sprintf_num_roundtrip_witness:
  "ngx_atoi (ngx_sprintf_num 32 1234567 (asc CHR ''0'') 0 10) = Some 1234567"
  using sprintf_num_roundtrip [of 10 32 1234567]
  by (simp add: ngx_consts)

section \<open>Hexadecimal dumps\<close>

fun unhex :: "byte list \<Rightarrow> byte list" where
  "unhex (h # l # xs) = (push_bit 4 (the (hex_digit h)) + the (hex_digit l)) # unhex xs"
| "unhex xs = []"

definition be_from :: "int \<Rightarrow> byte list \<Rightarrow> int" where
  "be_from v xs = foldl (\<lambda>v c. v * 256 + uint c) v xs"

lemma nibble_digit:
  "hex_digit (hex_lower ! unat (drop_bit 4 c)) = Some (drop_bit 4 c)"
  "hex_digit (hex_lower ! unat (c AND 0xf)) = Some (c AND 0xf)" for c :: byte
  using hex_table_digit(1) [OF nibbles_less(1) [of c]] hex_table_digit(1) [OF nibbles_less(2) [of c]]
  by (simp_all only: of_nat_unat ucast_id)

lemma uint_nibbles: "uint (drop_bit 4 c) * 16 + uint (c AND 0xf) = uint c" for c :: byte
  by (rule byte_exhaust) simp

lemma hex_dump_value:
  "list_all is_xdigit (ngx_hex_dump src) \<and> hex_from v (ngx_hex_dump src) = be_from v src"
proof (induction src arbitrary: v)
  case (Cons c src)
  have "(v * 16 + uint (drop_bit 4 c)) * 16 + uint (c AND 0xf) = v * 256 + uint c"
    using uint_nibbles [of c] by simp
  with Cons [of "v * 256 + uint c"] show ?case
    by (simp add: is_xdigit_def nibble_digit be_from_def del: distrib_right_numeral)
qed (simp add: be_from_def)

lemma be_from_less: "0 \<le> v \<Longrightarrow> 0 \<le> be_from v src \<and> be_from v src < (v + 1) * 256 ^ length src"
proof (induction src arbitrary: v)
  case (Cons c src)
  have c: "0 \<le> uint c" "uint c < 256" using uint_bounded [of c] by simp_all
  then have "0 \<le> v * 256 + uint c" using Cons.prems by simp
  note IH = Cons.IH [OF this]
  from IH have "be_from (v * 256 + uint c) src < (v * 256 + uint c + 1) * 256 ^ length src" by simp
  also have "\<dots> \<le> ((v + 1) * 256) * 256 ^ length src"
    using c by (intro mult_right_mono) simp_all
  also have "\<dots> = (v + 1) * 256 ^ length (c # src)" by (simp add: mult.assoc)
  finally show ?case using IH by (simp add: be_from_def)
qed (simp add: be_from_def)

text \<open>
  A hexadecimal dump has two digits for every byte and is read back exactly: digit by digit it
  gives the bytes, and \<open>ngx_hextoi\<close> gives the big-endian number of up to seven bytes.
  \<open>ngx_hextoi\<close> itself accepts exactly the non-empty strings of hexadecimal digits of either case
  whose value fits, and returns the value.
\<close>

theorem hex_roundtrip:
  assumes "src \<noteq> []" "length src \<le> 7"
  shows "unhex (ngx_hex_dump any) = any \<and> length (ngx_hex_dump any) = 2 * length any
    \<and> ngx_hextoi (ngx_hex_dump src) = Some (be_from 0 src)
    \<and> ngx_hextoi line =
       (if line \<noteq> [] \<and> list_all is_xdigit line \<and> hex_value line \<le> NGX_MAX_INT_T_VALUE
        then Some (hex_value line) else None)"
proof (intro conjI)
  show "unhex (ngx_hex_dump any) = any"
    by (induction any) (simp_all add: nibble_digit nibbles_byte)
  show "length (ngx_hex_dump any) = 2 * length any" by (induction any) simp_all
  have "be_from 0 src < 256 ^ length src" using be_from_less [of 0 src] by simp
  also have "\<dots> \<le> 256 ^ 7" using assms(2) by (intro power_increasing) simp_all
  finally have "be_from 0 src \<le> NGX_MAX_INT_T_VALUE" by (simp add: ngx_consts)
  moreover have "ngx_hex_dump src \<noteq> []" using assms(1) by (cases src) simp_all
  ultimately show "ngx_hextoi (ngx_hex_dump src) = Some (be_from 0 src)"
    using hex_dump_value [of src 0] by (simp add: ngx_hextoi_exact)
qed (rule ngx_hextoi_exact)

theorem hex_roundtrip_witness:
  "ngx_hextoi (ngx_hex_dump (bytes ''nginx'')) = Some 474181365368"
proof -
  have "be_from 0 (bytes ''nginx'') = 474181365368" by (simp add: be_from_def)
  then show ?thesis using hex_roundtrip [of "bytes ''nginx''" "[]" "[]"] by simp
qed

end
