(* ===== verification/Ngx_Base64.thy ===== *)
theory Ngx_Base64
  imports Prelude
begin

unbundle bit_operations_syntax

text \<open>
  The base64 codecs of \<^verbatim>\<open>src/core/ngx_string.c\<close>: the shared encoder and decoder with the standard
  and the URL alphabet. A locale states what the two basis tables of a variant promise each other;
  the round trip and the length bounds are proved in it once and interpreted for both variants.
\<close>

section \<open>Encoding\<close>

fun ngx_encode_base64_internal :: "byte list \<Rightarrow> bool \<Rightarrow> byte list \<Rightarrow> byte list" where
  "ngx_encode_base64_internal basis padding (s0 # s1 # s2 # src) =
     basis ! unat (drop_bit 2 s0 AND 0x3f)
     # basis ! unat (push_bit 4 (s0 AND 3) OR drop_bit 4 s1)
     # basis ! unat (push_bit 2 (s1 AND 0x0f) OR drop_bit 6 s2)
     # basis ! unat (s2 AND 0x3f)
     # ngx_encode_base64_internal basis padding src"
| "ngx_encode_base64_internal basis padding [s0] =
     [basis ! unat (drop_bit 2 s0 AND 0x3f), basis ! unat (push_bit 4 (s0 AND 3))]
     @ (if padding then [asc CHR ''=''] else []) @ (if padding then [asc CHR ''=''] else [])"
| "ngx_encode_base64_internal basis padding [s0, s1] =
     [basis ! unat (drop_bit 2 s0 AND 0x3f),
      basis ! unat (push_bit 4 (s0 AND 3) OR drop_bit 4 s1),
      basis ! unat (push_bit 2 (s1 AND 0x0f))]
     @ (if padding then [asc CHR ''=''] else [])"
| "ngx_encode_base64_internal basis padding [] = []"

definition basis64 :: "byte list" where
  "basis64 = bytes ''ABCDEFGHIJKLMNOPQRSTUVWXYZabcdefghijklmnopqrstuvwxyz0123456789+/''"

definition basis64url :: "byte list" where
  "basis64url = bytes ''ABCDEFGHIJKLMNOPQRSTUVWXYZabcdefghijklmnopqrstuvwxyz0123456789-_''"

definition ngx_encode_base64 :: "byte list \<Rightarrow> byte list" where
  "ngx_encode_base64 src = ngx_encode_base64_internal basis64 True src"

definition ngx_encode_base64url :: "byte list \<Rightarrow> byte list" where
  "ngx_encode_base64url src = ngx_encode_base64_internal basis64url False src"

definition ngx_base64_encoded_length :: "nat \<Rightarrow> nat" where
  "ngx_base64_encoded_length len = ((len + 2) div 3) * 4"

definition ngx_base64_decoded_length :: "nat \<Rightarrow> nat" where
  "ngx_base64_decoded_length len = ((len + 3) div 4) * 3"

section \<open>Decoding\<close>

text \<open>The tables of the decoder, row by row; 77 marks a byte outside the alphabet.\<close>

definition basis64_dec :: "byte list" where
  "basis64_dec =
     [77, 77, 77, 77, 77, 77, 77, 77, 77, 77, 77, 77, 77, 77, 77, 77]
     @ [77, 77, 77, 77, 77, 77, 77, 77, 77, 77, 77, 77, 77, 77, 77, 77]
     @ [77, 77, 77, 77, 77, 77, 77, 77, 77, 77, 77, 62, 77, 77, 77, 63]
     @ [52, 53, 54, 55, 56, 57, 58, 59, 60, 61, 77, 77, 77, 77, 77, 77]
     @ [77, 0, 1, 2, 3, 4, 5, 6, 7, 8, 9, 10, 11, 12, 13, 14]
     @ [15, 16, 17, 18, 19, 20, 21, 22, 23, 24, 25, 77, 77, 77, 77, 77]
     @ [77, 26, 27, 28, 29, 30, 31, 32, 33, 34, 35, 36, 37, 38, 39, 40]
     @ [41, 42, 43, 44, 45, 46, 47, 48, 49, 50, 51, 77, 77, 77, 77, 77]
     @ replicate 128 77"

definition basis64url_dec :: "byte list" where
  "basis64url_dec =
     [77, 77, 77, 77, 77, 77, 77, 77, 77, 77, 77, 77, 77, 77, 77, 77]
     @ [77, 77, 77, 77, 77, 77, 77, 77, 77, 77, 77, 77, 77, 77, 77, 77]
     @ [77, 77, 77, 77, 77, 77, 77, 77, 77, 77, 77, 77, 77, 62, 77, 77]
     @ [52, 53, 54, 55, 56, 57, 58, 59, 60, 61, 77, 77, 77, 77, 77, 77]
     @ [77, 0, 1, 2, 3, 4, 5, 6, 7, 8, 9, 10, 11, 12, 13, 14]
     @ [15, 16, 17, 18, 19, 20, 21, 22, 23, 24, 25, 77, 77, 77, 77, 63]
     @ [77, 26, 27, 28, 29, 30, 31, 32, 33, 34, 35, 36, 37, 38, 39, 40]
     @ [41, 42, 43, 44, 45, 46, 47, 48, 49, 50, 51, 77, 77, 77, 77, 77]
     @ replicate 128 77"

text \<open>The first loop: the number of characters before the padding, or an error.\<close>

fun decode_len :: "byte list \<Rightarrow> byte list \<Rightarrow> nat option" where
  "decode_len basis [] = Some 0"
| "decode_len basis (c # src) =
     (if c = asc CHR ''='' then Some 0
      else if basis ! unat c = 77 then None
      else map_option Suc (decode_len basis src))"

fun decode_groups :: "byte list \<Rightarrow> byte list \<Rightarrow> byte list" where
  "decode_groups basis (s0 # s1 # s2 # s3 # src) =
     (push_bit 2 (basis ! unat s0) OR drop_bit 4 (basis ! unat s1))
     # (push_bit 4 (basis ! unat s1) OR drop_bit 2 (basis ! unat s2))
     # (push_bit 6 (basis ! unat s2) OR basis ! unat s3)
     # decode_groups basis src"
| "decode_groups basis src =
     (if 1 < length src
      then [push_bit 2 (basis ! unat (src ! 0)) OR drop_bit 4 (basis ! unat (src ! 1))] else [])
     @ (if 2 < length src
        then [push_bit 4 (basis ! unat (src ! 1)) OR drop_bit 2 (basis ! unat (src ! 2))] else [])"

definition ngx_decode_base64_internal :: "byte list \<Rightarrow> byte list \<Rightarrow> byte list option" where
  "ngx_decode_base64_internal basis src =
     (case decode_len basis src of
        None \<Rightarrow> None
      | Some len \<Rightarrow> (if len mod 4 = 1 then None else Some (decode_groups basis (take len src))))"

definition ngx_decode_base64 :: "byte list \<Rightarrow> byte list option" where
  "ngx_decode_base64 src = ngx_decode_base64_internal basis64_dec src"

definition ngx_decode_base64url :: "byte list \<Rightarrow> byte list option" where
  "ngx_decode_base64url src = ngx_decode_base64_internal basis64url_dec src"

section \<open>The codec of one alphabet\<close>

text \<open>The six-bit groups of the encoder.\<close>

lemma sextets_less:
  fixes a b :: byte
  shows "unat (drop_bit 2 a AND 0x3f) < 64"
    "unat (push_bit 4 (a AND 3) OR drop_bit 4 b) < 64"
    "unat (push_bit 4 (a AND 3)) < 64"
    "unat (push_bit 2 (a AND 0x0f) OR drop_bit 6 b) < 64"
    "unat (push_bit 2 (a AND 0x0f)) < 64"
    "unat (a AND 0x3f) < 64"
proof -
  have lt: "unat w < 64" if "w AND 0x3f = w" for w :: byte
  proof -
    from that have "w \<le> 0x3f" by (metis word_and_le1)
    then show ?thesis by (simp add: word_le_nat_alt)
  qed
  show "unat (drop_bit 2 a AND 0x3f) < 64" "unat (a AND 0x3f) < 64" by (rule lt; simp add: and.assoc)+
  have m: "push_bit 4 (a AND 3) AND 0x3f = push_bit 4 (a AND 3)"
    "push_bit 2 (a AND 0x0f) AND 0x3f = push_bit 2 (a AND 0x0f)"
    by (rule byte_exhaust [of _ a], simp)+
  have n: "drop_bit 4 b AND 0x3f = drop_bit 4 b" "drop_bit 6 b AND 0x3f = drop_bit 6 b"
    by (rule byte_exhaust [of _ b], simp)+
  show "unat (push_bit 4 (a AND 3)) < 64" "unat (push_bit 2 (a AND 0x0f)) < 64"
    by (rule lt, rule m)+
  show "unat (push_bit 4 (a AND 3) OR drop_bit 4 b) < 64"
    "unat (push_bit 2 (a AND 0x0f) OR drop_bit 6 b) < 64"
    by (rule lt, simp only: bit.conj_disj_distrib2 m n)+
qed

text \<open>Three bytes are put together again from their four groups.\<close>

lemma sextets_join:
  fixes a b c :: byte
  shows "push_bit 2 (drop_bit 2 a AND 0x3f) OR drop_bit 4 (push_bit 4 (a AND 3) OR drop_bit 4 b) = a"
    "push_bit 2 (drop_bit 2 a AND 0x3f) OR drop_bit 4 (push_bit 4 (a AND 3)) = a"
    "push_bit 4 (push_bit 4 (a AND 3) OR drop_bit 4 b) OR drop_bit 2 (push_bit 2 (b AND 0x0f) OR drop_bit 6 c) = b"
    "push_bit 4 (push_bit 4 (a AND 3) OR drop_bit 4 b) OR drop_bit 2 (push_bit 2 (b AND 0x0f)) = b"
    "push_bit 6 (push_bit 2 (b AND 0x0f) OR drop_bit 6 c) OR (c AND 0x3f) = c"
proof -
  have low: "drop_bit 4 (drop_bit 4 b) = 0" "drop_bit 2 (drop_bit 6 c) = 0"
    by (rule byte_exhaust [of _ b], simp, rule byte_exhaust [of _ c], simp)
  have high: "push_bit 4 (push_bit 4 (a AND 3)) = 0" "push_bit 6 (push_bit 2 (b AND 0x0f)) = 0"
    by (rule byte_exhaust [of _ a], simp, rule byte_exhaust [of _ b], simp)
  have one: "push_bit 2 (drop_bit 2 a AND 0x3f) OR drop_bit 4 (push_bit 4 (a AND 3)) = a"
    by (rule byte_exhaust) simp
  have two: "push_bit 4 (drop_bit 4 b) OR drop_bit 2 (push_bit 2 (b AND 0x0f)) = b"
    by (rule byte_exhaust) simp
  have three: "push_bit 6 (drop_bit 6 c) OR (c AND 0x3f) = c"
    by (rule byte_exhaust) simp
  note parts = low high one two three push_bit_or drop_bit_or or.left_neutral or.right_neutral
  show "push_bit 2 (drop_bit 2 a AND 0x3f) OR drop_bit 4 (push_bit 4 (a AND 3) OR drop_bit 4 b) = a"
    "push_bit 2 (drop_bit 2 a AND 0x3f) OR drop_bit 4 (push_bit 4 (a AND 3)) = a"
    "push_bit 4 (push_bit 4 (a AND 3) OR drop_bit 4 b) OR drop_bit 2 (push_bit 2 (b AND 0x0f) OR drop_bit 6 c) = b"
    "push_bit 4 (push_bit 4 (a AND 3) OR drop_bit 4 b) OR drop_bit 2 (push_bit 2 (b AND 0x0f)) = b"
    "push_bit 6 (push_bit 2 (b AND 0x0f) OR drop_bit 6 c) OR (c AND 0x3f) = c"
    by (simp_all only: parts)
qed

locale base64_codec =
  fixes enc dec :: "byte list" and padding :: bool
  assumes dec_enc: "i < 64 \<Longrightarrow> dec ! unat (enc ! i) = of_nat i"
    and enc_plain: "i < 64 \<Longrightarrow> enc ! i \<noteq> asc CHR ''=''"
begin

lemma sextet:
  fixes w :: byte
  assumes "unat w < 64"
  shows "dec ! unat (enc ! unat w) = w"
  using dec_enc [OF assms] by (simp only: of_nat_unat ucast_id)

lemma decode_len_sextet:
  fixes w :: byte
  assumes "unat w < 64"
  shows "decode_len dec (enc ! unat w # xs) = map_option Suc (decode_len dec xs)"
proof -
  have "w \<noteq> 77" using assms by auto
  then show ?thesis using enc_plain [OF assms] sextet [OF assms] by simp
qed

text \<open>What the decoder makes of four, three and two characters of the encoder.\<close>

lemma decode_four:
  fixes w0 w1 w2 w3 :: byte
  assumes "unat w0 < 64" "unat w1 < 64" "unat w2 < 64" "unat w3 < 64"
  shows "decode_len dec (enc ! unat w0 # enc ! unat w1 # enc ! unat w2 # enc ! unat w3 # xs) =
      map_option (\<lambda>n. Suc (Suc (Suc (Suc n)))) (decode_len dec xs)"
    "decode_groups dec (take (Suc (Suc (Suc (Suc n)))) (enc ! unat w0 # enc ! unat w1 # enc ! unat w2 # enc ! unat w3 # xs)) =
      (push_bit 2 w0 OR drop_bit 4 w1) # (push_bit 4 w1 OR drop_bit 2 w2) # (push_bit 6 w2 OR w3)
      # decode_groups dec (take n xs)"
  using assms
  by (simp_all add: decode_len_sextet sextet option.map_comp o_def del: decode_len.simps)

lemma decode_three:
  fixes w0 w1 w2 :: byte
  assumes "unat w0 < 64" "unat w1 < 64" "unat w2 < 64"
  shows "decode_len dec ([enc ! unat w0, enc ! unat w1, enc ! unat w2] @ (if pad then [asc CHR ''=''] else [])) = Some 3"
    "decode_groups dec (take 3 ([enc ! unat w0, enc ! unat w1, enc ! unat w2] @ xs)) =
      [push_bit 2 w0 OR drop_bit 4 w1, push_bit 4 w1 OR drop_bit 2 w2]"
  using assms
  by (simp_all add: decode_len_sextet sextet del: decode_len.simps(2)) simp

lemma decode_two:
  fixes w0 w1 :: byte
  assumes "unat w0 < 64" "unat w1 < 64"
  shows "decode_len dec ([enc ! unat w0, enc ! unat w1] @ (if pad then [asc CHR ''=''] else [])
      @ (if pad then [asc CHR ''=''] else [])) = Some 2"
    "decode_groups dec (take 2 ([enc ! unat w0, enc ! unat w1] @ xs)) = [push_bit 2 w0 OR drop_bit 4 w1]"
  using assms
  by (simp_all add: decode_len_sextet sextet del: decode_len.simps(2)) simp

lemma encode_decode:
  "\<exists>n. decode_len dec (ngx_encode_base64_internal enc padding src) = Some n \<and> n mod 4 \<noteq> 1
     \<and> decode_groups dec (take n (ngx_encode_base64_internal enc padding src)) = src"
proof (induction src rule: length_induct)
  case (1 src)
  consider s0 s1 s2 r where "src = s0 # s1 # s2 # r" | s0 s1 where "src = [s0, s1]"
    | s0 where "src = [s0]" | "src = []"
    by (metis neq_Nil_conv)
  then show ?case
  proof cases
    case (1 s0 s1 s2 r)
    then have "length r < length src" by simp
    with "1.IH" obtain n where "decode_len dec (ngx_encode_base64_internal enc padding r) = Some n"
      "n mod 4 \<noteq> 1" "decode_groups dec (take n (ngx_encode_base64_internal enc padding r)) = r"
      by blast
    moreover from this have "Suc (Suc (Suc (Suc n))) mod 4 \<noteq> 1"
      using mod_add_self2 [of n 4] by simp
    ultimately show ?thesis
      unfolding 1 ngx_encode_base64_internal.simps(1)
        decode_four(1) [OF sextets_less(1,2,4,6)]
      by (intro exI [of _ "Suc (Suc (Suc (Suc n)))"])
        (simp only: decode_four(2) [OF sextets_less(1,2,4,6)] sextets_join option.map simp_thms)
  next
    case (2 s0 s1)
    show ?thesis
      unfolding 2 ngx_encode_base64_internal.simps(3) decode_three(1) [OF sextets_less(1,2,5)]
      by (intro exI [of _ 3]) (simp only: decode_three(2) [OF sextets_less(1,2,5)] sextets_join, simp)
  next
    case (3 s0)
    show ?thesis
      unfolding 3 ngx_encode_base64_internal.simps(2) decode_two(1) [OF sextets_less(1,3)]
      by (intro exI [of _ 2]) (simp only: decode_two(2) [OF sextets_less(1,3)] sextets_join, simp)
  qed simp
qed

lemma roundtrip:
  "ngx_decode_base64_internal dec (ngx_encode_base64_internal enc padding src) = Some src"
  using encode_decode [of src] by (auto simp: ngx_decode_base64_internal_def)

end

lemma basis64_inverse:
  "map (\<lambda>c. basis64_dec ! unat c) basis64 = map of_nat [0..<64]"
  "map (\<lambda>c. basis64url_dec ! unat c) basis64url = map of_nat [0..<64]"
  by (simp_all add: basis64_def basis64_dec_def basis64url_def basis64url_dec_def upt_rec)

lemma basis64_shape:
  "length basis64 = 64" "asc CHR ''='' \<notin> set basis64"
  "length basis64url = 64" "asc CHR ''='' \<notin> set basis64url"
  by (simp_all add: basis64_def basis64url_def)

lemma nth_inverse:
  "map f xs = map of_nat [0..<n] \<Longrightarrow> length xs = n \<Longrightarrow> i < n \<Longrightarrow> f (xs ! i) = of_nat i"
  by (metis add_0 nth_map nth_upt length_upt diff_zero)

interpretation std: base64_codec basis64 basis64_dec True
proof
  show "basis64_dec ! unat (basis64 ! i) = of_nat i" if "i < 64" for i
    using nth_inverse [OF basis64_inverse(1) basis64_shape(1) that] .
  show "basis64 ! i \<noteq> asc CHR ''=''" if "i < 64" for i
    using nth_mem [of i basis64] that basis64_shape(1,2) by metis
qed

interpretation url: base64_codec basis64url basis64url_dec False
proof
  show "basis64url_dec ! unat (basis64url ! i) = of_nat i" if "i < 64" for i
    using nth_inverse [OF basis64_inverse(2) basis64_shape(3) that] .
  show "basis64url ! i \<noteq> asc CHR ''=''" if "i < 64" for i
    using nth_mem [of i basis64url] that basis64_shape(3,4) by metis
qed

section \<open>Lengths\<close>

lemma base64_length_step:
  "ngx_base64_decoded_length (Suc (Suc (Suc (Suc n)))) = Suc (Suc (Suc (ngx_base64_decoded_length n)))"
  "ngx_base64_encoded_length (Suc (Suc (Suc n))) = Suc (Suc (Suc (Suc (ngx_base64_encoded_length n))))"
proof -
  have "(n + 3 + 4) div 4 = (n + 3) div 4 + 1" "(n + 2 + 3) div 3 = (n + 2) div 3 + 1"
    by (simp_all only: div_add_self2 zero_neq_numeral simp_thms)
  then show "ngx_base64_decoded_length (Suc (Suc (Suc (Suc n)))) = Suc (Suc (Suc (ngx_base64_decoded_length n)))"
    "ngx_base64_encoded_length (Suc (Suc (Suc n))) = Suc (Suc (Suc (Suc (ngx_base64_encoded_length n))))"
    by (simp_all add: ngx_base64_decoded_length_def ngx_base64_encoded_length_def)
qed

lemma decode_groups_length: "length (decode_groups basis src) \<le> ngx_base64_decoded_length (length src)"
  by (induction basis src rule: decode_groups.induct)
    (simp_all add: base64_length_step, simp_all add: ngx_base64_decoded_length_def)

lemma decode_len_le: "decode_len basis src = Some n \<Longrightarrow> n \<le> length src"
  by (induction src arbitrary: n) (auto split: if_splits)

lemma decoded_length_mono: "m \<le> n \<Longrightarrow> ngx_base64_decoded_length m \<le> ngx_base64_decoded_length n"
  by (simp add: ngx_base64_decoded_length_def div_le_mono)

lemma decode_bounded:
  assumes "ngx_decode_base64_internal basis src = Some dst"
  shows "length dst \<le> ngx_base64_decoded_length (length src)"
proof -
  obtain n where n: "decode_len basis src = Some n" and dst: "dst = decode_groups basis (take n src)"
    using assms by (auto simp: ngx_decode_base64_internal_def split: option.splits if_splits)
  have "length dst \<le> ngx_base64_decoded_length (min (length src) n)"
    using decode_groups_length [of basis "take n src"] by (simp add: dst)
  also have "\<dots> \<le> ngx_base64_decoded_length (length src)" by (rule decoded_length_mono) simp
  finally show ?thesis .
qed

lemma encoded_length_rest: "ngx_base64_encoded_length (Suc 0) = 4" "ngx_base64_encoded_length (Suc (Suc 0)) = 4"
  "ngx_base64_encoded_length 0 = 0"
  by (simp_all add: ngx_base64_encoded_length_def)

lemma encode_length:
  "if padding then length (ngx_encode_base64_internal basis padding src) = ngx_base64_encoded_length (length src)
   else length (ngx_encode_base64_internal basis padding src) \<le> ngx_base64_encoded_length (length src)"
  by (induction basis padding src rule: ngx_encode_base64_internal.induct)
    (auto simp: base64_length_step encoded_length_rest split: if_splits)

lemma decode_len_alphabet:
  "decode_len basis src =
     (let cs = takeWhile (\<lambda>c. c \<noteq> asc CHR ''='') src in
      if list_all (\<lambda>c. basis ! unat c \<noteq> 77) cs then Some (length cs) else None)"
  by (induction src) (simp_all add: Let_def)

text \<open>
  C40. Decoding inverts encoding, with the padded standard alphabet and with the unpadded URL
  alphabet, for every input, the empty one included.
\<close>

theorem base64_roundtrip:
  "ngx_decode_base64 (ngx_encode_base64 src) = Some src
   \<and> ngx_decode_base64url (ngx_encode_base64url src) = Some src"
  unfolding ngx_decode_base64_def ngx_encode_base64_def ngx_decode_base64url_def ngx_encode_base64url_def
  by (simp only: std.roundtrip url.roundtrip)

text \<open>
  The buffers that callers size with \<open>ngx_base64_encoded_length\<close> and
  \<open>ngx_base64_decoded_length\<close> are never overrun, and the decoder fails exactly when a byte before
  the first equals sign is outside the alphabet or the number of characters there leaves the
  remainder one modulo four.
\<close>

theorem base64_bounds:
  "length (ngx_encode_base64 src) = ngx_base64_encoded_length (length src)
   \<and> length (ngx_encode_base64url src) \<le> ngx_base64_encoded_length (length src)
   \<and> length (case_option [] id (ngx_decode_base64 src)) \<le> ngx_base64_decoded_length (length src)
   \<and> length (case_option [] id (ngx_decode_base64url src)) \<le> ngx_base64_decoded_length (length src)
   \<and> (let cs = takeWhile (\<lambda>c. c \<noteq> asc CHR ''='') src in
      (ngx_decode_base64 src = None
         \<longleftrightarrow> length cs mod 4 = 1 \<or> list_ex (\<lambda>c. basis64_dec ! unat c = 77) cs)
    \<and> (ngx_decode_base64url src = None
         \<longleftrightarrow> length cs mod 4 = 1 \<or> list_ex (\<lambda>c. basis64url_dec ! unat c = 77) cs))"
proof -
  have "length (case_option [] id (ngx_decode_base64_internal b src)) \<le> ngx_base64_decoded_length (length src)" for b
    using decode_bounded [of b src] by (cases "ngx_decode_base64_internal b src") simp_all
  moreover have "ngx_decode_base64_internal b src = None \<longleftrightarrow>
      length cs mod 4 = 1 \<or> list_ex (\<lambda>c. b ! unat c = 77) cs"
    if "cs = takeWhile (\<lambda>c. c \<noteq> asc CHR ''='') src" for b cs
    unfolding ngx_decode_base64_internal_def decode_len_alphabet that [symmetric] Let_def
    by (auto simp: list_all_iff list_ex_iff)
  ultimately show ?thesis
    unfolding ngx_decode_base64_def ngx_encode_base64_def ngx_decode_base64url_def ngx_encode_base64url_def Let_def
    using encode_length [of True basis64 src] encode_length [of False basis64url src] by simp
qed

end
