(* ===== verification/Ngx_Utf8.thy ===== *)
theory Ngx_Utf8
  imports Prelude
begin

unbundle bit_operations_syntax

text \<open>
  The UTF-8 routines of \<^verbatim>\<open>src/core/ngx_string.c\<close>: the decoder of one multi-byte sequence, the
  character count and the bounded copy. They are compared with the UTF-8 encoding of code points.
\<close>

section \<open>Decoding\<close>

text \<open>
  The decoder is called with at least one byte, \<open>c\<close>, and the bytes after it; the result is the
  returned value and the number of bytes by which the pointer moves. \<open>utf8_lead\<close> gives the payload
  bits of the lead byte, the largest value that must be encoded with fewer bytes, and the number
  of bytes that follow.
\<close>

definition utf8_lead :: "u32 \<Rightarrow> (u32 \<times> u32 \<times> nat) option" where
  "utf8_lead u =
     (if 0xf0 \<le> u then Some (u AND 0x07, 0xffff, 3)
      else if 0xe0 \<le> u then Some (u AND 0x0f, 0x7ff, 2)
      else if 0xc2 \<le> u then Some (u AND 0x1f, 0x7f, 1)
      else None)"

fun utf8_tail :: "nat \<Rightarrow> u32 \<Rightarrow> byte list \<Rightarrow> nat \<Rightarrow> u32 option \<times> nat" where
  "utf8_tail 0 u p k = (Some u, k)"
| "utf8_tail (Suc len) u [] k = (None, k)"
| "utf8_tail (Suc len) u (i # p) k =
     (if (ucast i :: u32) < 0x80 then (None, Suc k)
      else utf8_tail len (push_bit 6 u OR (ucast i AND 0x3f)) p (Suc k))"

definition ngx_utf8_decode :: "byte \<Rightarrow> byte list \<Rightarrow> u32 \<times> nat" where
  "ngx_utf8_decode c p =
     (case utf8_lead (ucast c) of
        None \<Rightarrow> (0xffffffff, 1)
      | Some (u, valid, len) \<Rightarrow>
          (if length p < len then (0xfffffffe, 0)
           else (case utf8_tail len u p 1 of
                   (None, k) \<Rightarrow> (0xffffffff, k)
                 | (Some u, k) \<Rightarrow> (if valid < u then u else 0xffffffff, k))))"

fun utf8_length_loop :: "byte list \<Rightarrow> nat \<Rightarrow> nat option" where
  "utf8_length_loop [] len = Some len"
| "utf8_length_loop (c # p) len =
     (if c < 0x80 then utf8_length_loop p (Suc len)
      else let (u, k) = ngx_utf8_decode c p in
        if 0x10ffff < u then None else utf8_length_loop (drop (k - 1) p) (Suc len))"

definition ngx_utf8_length :: "byte list \<Rightarrow> nat" where
  "ngx_utf8_length p = (case utf8_length_loop p 0 of None \<Rightarrow> length p | Some len \<Rightarrow> len)"

text \<open>
  The bounded copy: \<open>n\<close> bounds the number of characters, not of bytes; the result is what stands
  before the terminating zero.
\<close>

fun utf8_cpystrn_loop :: "nat \<Rightarrow> byte list \<Rightarrow> byte list" where
  "utf8_cpystrn_loop 0 src = []"
| "utf8_cpystrn_loop (Suc n) [] = []"
| "utf8_cpystrn_loop (Suc n) (c # src) =
     (if c < 0x80 then (if c \<noteq> 0 then c # utf8_cpystrn_loop n src else [])
      else let (u, k) = ngx_utf8_decode c src in
        if 0x10ffff < u then []
        else take k (c # src) @ utf8_cpystrn_loop n (drop k (c # src)))"

definition ngx_utf8_cpystrn :: "byte list \<Rightarrow> nat \<Rightarrow> byte list" where
  "ngx_utf8_cpystrn src n = (if n = 0 then [] else utf8_cpystrn_loop (n - 1) src @ [0])"

section \<open>The encoding\<close>

definition utf8_enc :: "nat \<Rightarrow> byte list" where
  "utf8_enc cp =
     (if cp < 0x80 then [of_nat cp]
      else if cp < 0x800 then [of_nat (0xc0 + cp div 64), of_nat (0x80 + cp mod 64)]
      else if cp < 0x10000 then
        [of_nat (0xe0 + cp div 4096), of_nat (0x80 + cp div 64 mod 64), of_nat (0x80 + cp mod 64)]
      else
        [of_nat (0xf0 + cp div 262144), of_nat (0x80 + cp div 4096 mod 64),
         of_nat (0x80 + cp div 64 mod 64), of_nat (0x80 + cp mod 64)])"

lemma ucast_byte:
  assumes "n < 256"
  shows "(ucast (of_nat n :: byte) :: u32) = of_nat n"
  using assms by (simp add: unsigned_of_nat take_bit_nat_eq_self)

lemma and_mask:
  "(of_nat m AND 0x07 :: u32) = of_nat (m mod 8)" "(of_nat m AND 0x0f :: u32) = of_nat (m mod 16)"
  "(of_nat m AND 0x1f :: u32) = of_nat (m mod 32)" "(of_nat m AND 0x3f :: u32) = of_nat (m mod 64)"
proof -
  have *: "(of_nat m AND mask k :: u32) = of_nat (m mod 2 ^ k)" for k
    by (simp only: take_bit_eq_mask [symmetric] take_bit_of_nat take_bit_eq_mod [of k m, symmetric])
  show "(of_nat m AND 0x07 :: u32) = of_nat (m mod 8)" using * [of 3] by (simp add: mask_eq_exp_minus_1)
  show "(of_nat m AND 0x0f :: u32) = of_nat (m mod 16)" using * [of 4] by (simp add: mask_eq_exp_minus_1)
  show "(of_nat m AND 0x1f :: u32) = of_nat (m mod 32)" using * [of 5] by (simp add: mask_eq_exp_minus_1)
  show "(of_nat m AND 0x3f :: u32) = of_nat (m mod 64)" using * [of 6] by (simp add: mask_eq_exp_minus_1)
qed

lemma join_tail:
  assumes "n < 64"
  shows "push_bit 6 (of_nat v :: u32) OR (of_nat (0x80 + n) AND 0x3f) = of_nat (v * 64 + n)"
proof -
  have "(0x80 + n) mod 64 = n" using assms by (simp add: mod_add_eq [symmetric])
  then have low: "(of_nat (0x80 + n) AND 0x3f :: u32) = of_nat n" by (simp only: and_mask)
  have six: "(0x3f :: u32) = mask 6" by (simp add: mask_eq_exp_minus_1)
  have "push_bit 6 (of_nat v) AND of_nat n = push_bit 6 (of_nat v) AND (of_nat n AND (0x3f :: u32))"
    using and_mask(4) [of n] assms by simp
  also have "\<dots> = 0" unfolding six by (rule bit_word_eqI) (auto simp: bit_simps)
  finally have "push_bit 6 (of_nat v :: u32) + of_nat n = push_bit 6 (of_nat v) OR of_nat n"
    by (rule disjunctive_add_eq_or)
  then show ?thesis using low by (simp add: push_bit_eq_mult del: of_nat_add) (simp add: mult.commute)
qed

lemma utf8_tail_step:
  assumes "n < 64"
  shows "utf8_tail (Suc len) (of_nat v) (of_nat (0x80 + n) # p) k = utf8_tail len (of_nat (v * 64 + n)) p (Suc k)"
proof -
  have b: "(ucast (of_nat (0x80 + n) :: byte) :: u32) = of_nat (0x80 + n)" using assms by (intro ucast_byte) simp
  moreover have "\<not> (of_nat (0x80 + n) :: u32) < 0x80"
    using assms by (simp add: word_less_nat_alt unsigned_of_nat take_bit_nat_eq_self del: of_nat_add)
  ultimately show ?thesis using join_tail [OF assms] by (simp del: of_nat_add)
qed

lemma u32_of_nat:
  assumes "a < 2 ^ 32" "b < 2 ^ 32"
  shows "(of_nat a :: u32) < of_nat b \<longleftrightarrow> a < b" "(of_nat a :: u32) \<le> of_nat b \<longleftrightarrow> a \<le> b"
  using assms by (simp_all add: word_less_nat_alt word_le_nat_alt unsigned_of_nat take_bit_nat_eq_self)

lemma utf8_lead_two: "2 \<le> n \<Longrightarrow> n < 32 \<Longrightarrow> utf8_lead (of_nat (0xc0 + n)) = Some (of_nat n, 0x7f, 1)"
  and utf8_lead_three: "n < 16 \<Longrightarrow> utf8_lead (of_nat (0xe0 + n)) = Some (of_nat n, 0x7ff, 2)"
  and utf8_lead_four: "n < 8 \<Longrightarrow> utf8_lead (of_nat (0xf0 + n)) = Some (of_nat n, 0xffff, 3)"
proof -
  have c: "(numeral k :: u32) = of_nat (numeral k)" for k by simp
  have lt: "(numeral k \<le> (of_nat m :: u32)) \<longleftrightarrow> numeral k \<le> m" if "numeral k < (2 ^ 32 :: nat)" "m < 2 ^ 32" for k m
    using that by (simp only: c u32_of_nat)
  show "utf8_lead (of_nat (0xc0 + n)) = Some (of_nat n, 0x7f, 1)" if "2 \<le> n" "n < 32"
    using that lt [of _ "0xc0 + n"] mod_add_eq [of "0xc0" 32 n]
    by (simp add: utf8_lead_def and_mask del: of_nat_add)
  show "utf8_lead (of_nat (0xe0 + n)) = Some (of_nat n, 0x7ff, 2)" if "n < 16"
    using that lt [of _ "0xe0 + n"] mod_add_eq [of "0xe0" 16 n]
    by (simp add: utf8_lead_def and_mask del: of_nat_add)
  show "utf8_lead (of_nat (0xf0 + n)) = Some (of_nat n, 0xffff, 3)" if "n < 8"
    using that lt [of _ "0xf0 + n"] mod_add_eq [of "0xf0" 8 n]
    by (simp add: utf8_lead_def and_mask del: of_nat_add)
qed

lemma utf8_tail_mod:
  "utf8_tail (Suc len) (of_nat v) (of_nat (0x80 + x mod 64) # p) k = utf8_tail len (of_nat (v * 64 + x mod 64)) p (Suc k)"
  by (rule utf8_tail_step) simp

lemma u32_less_of_nat: "cp \<le> 0x10ffff \<Longrightarrow> numeral k < (2 ^ 32 :: nat) \<Longrightarrow> (numeral k :: u32) < of_nat cp \<longleftrightarrow> numeral k < cp"
  using u32_of_nat(1) [of "numeral k" cp] by simp

lemma utf8_decode_enc:
  assumes "0x80 \<le> cp" "cp \<le> 0x10ffff" "utf8_enc cp = c # p"
  shows "ngx_utf8_decode c (p @ q) = (of_nat cp, Suc (length p))"
proof -
  note val = u32_less_of_nat [OF assms(2)]
  have d: "cp div 4096 = cp div 64 div 64" "cp div 262144 = cp div 4096 div 64"
    by (simp_all add: div_mult2_eq [symmetric])
  have j: "cp div 64 div 64 * 64 + cp div 64 mod 64 = cp div 64" "cp div 4096 div 64 * 64 + cp div 4096 mod 64 = cp div 4096"
    by simp_all
  consider "cp < 0x800" | "0x800 \<le> cp" "cp < 0x10000" | "0x10000 \<le> cp" by linarith
  then show ?thesis
  proof cases
    case 1
    have r: "2 \<le> cp div 64" "cp div 64 < 32" using 1 assms(1) by simp_all
    have c: "c = of_nat (0xc0 + cp div 64)" and p: "p = [of_nat (0x80 + cp mod 64)]"
      using assms(1,3) 1 by (auto simp: utf8_enc_def simp del: of_nat_add)
    have uc: "(ucast c :: u32) = of_nat (0xc0 + cp div 64)" unfolding c using r by (intro ucast_byte) simp
    have "utf8_tail 1 (of_nat (cp div 64)) (p @ q) 1 = (Some (of_nat cp), 2)"
      unfolding p One_nat_def append.simps utf8_tail_mod by (simp add: numeral_2_eq_2)
    then show ?thesis
      using assms(1) val unfolding ngx_utf8_decode_def uc utf8_lead_two [OF r] by (simp add: p)
  next
    case 2
    have r: "cp div 4096 < 16" using 2 by simp
    have c: "c = of_nat (0xe0 + cp div 4096)"
      and p: "p = [of_nat (0x80 + cp div 64 mod 64), of_nat (0x80 + cp mod 64)]"
      using assms(1,3) 2 by (auto simp: utf8_enc_def simp del: of_nat_add)
    have uc: "(ucast c :: u32) = of_nat (0xe0 + cp div 4096)" unfolding c using r by (intro ucast_byte) simp
    have "utf8_tail 2 (of_nat (cp div 4096)) (p @ q) 1 = (Some (of_nat cp), 3)"
      unfolding p numeral_2_eq_2 append.simps utf8_tail_mod by (simp add: d(1) j numeral_3_eq_3)
    then show ?thesis
      using 2 val unfolding ngx_utf8_decode_def uc utf8_lead_three [OF r] by (simp add: p)
  next
    case 3
    have r: "cp div 262144 < 8" using assms(2) by simp
    have c: "c = of_nat (0xf0 + cp div 262144)"
      and p: "p = [of_nat (0x80 + cp div 4096 mod 64), of_nat (0x80 + cp div 64 mod 64), of_nat (0x80 + cp mod 64)]"
      using assms(1,3) 3 by (auto simp: utf8_enc_def simp del: of_nat_add)
    have uc: "(ucast c :: u32) = of_nat (0xf0 + cp div 262144)" unfolding c using r by (intro ucast_byte) simp
    have "utf8_tail 3 (of_nat (cp div 262144)) (p @ q) 1 = (Some (of_nat cp), 4)"
      unfolding p numeral_3_eq_3 append.simps utf8_tail_mod by (simp add: d j del: div_mult_mod_eq)
    then show ?thesis
      using 3 val unfolding ngx_utf8_decode_def uc utf8_lead_four [OF r] by (simp add: p)
  qed
qed

section \<open>Whole characters\<close>

lemma utf8_tail_local:
  assumes "utf8_tail len u p k = (Some v, k')"
  shows "k' = k + len \<and> len \<le> length p \<and> utf8_tail len u (take len p @ q) k = (Some v, k')"
  using assms
  by (induction len u p k rule: utf8_tail.induct) (auto split: if_splits)

lemma utf8_decode_local:
  assumes "ngx_utf8_decode c p = (u, k)" "\<not> 0x10ffff < u"
  shows "\<exists>len. k = Suc len \<and> len \<le> length p \<and> (\<forall>q. ngx_utf8_decode c (take len p @ q) = (u, k))"
proof -
  have "u \<noteq> 0xffffffff" "u \<noteq> 0xfffffffe" using assms(2) by auto
  with assms(1) obtain w valid len where lead: "utf8_lead (ucast c) = Some (w, valid, len)"
    and tail: "utf8_tail len w p 1 = (Some u, k)" and v: "valid < u"
    unfolding ngx_utf8_decode_def by (auto split: option.splits prod.splits if_splits)
  have "k = Suc len \<and> len \<le> length p \<and> ngx_utf8_decode c (take len p @ q) = (u, k)" for q
    using utf8_tail_local [OF tail, of q] lead v by (auto simp: ngx_utf8_decode_def)
  then show ?thesis by blast
qed

lemma utf8_length_ascii:
  assumes "cp < 0x80"
  shows "utf8_length_loop (utf8_enc cp @ q) n = utf8_length_loop q (Suc n)"
proof -
  have "(of_nat cp :: byte) < 0x80"
    using assms by (simp add: word_less_nat_alt unsigned_of_nat take_bit_nat_eq_self)
  with assms show ?thesis by (simp add: utf8_enc_def)
qed

lemma utf8_enc_lead: "0x80 \<le> cp \<Longrightarrow> cp \<le> 0x10ffff \<Longrightarrow> \<exists>c p. utf8_enc cp = c # p \<and> \<not> c < 0x80"
proof -
  have ge: "\<not> (of_nat (0xc0 + n) :: byte) < 0x80" if "n < 64" for n
    using that by (simp add: word_less_nat_alt unsigned_of_nat take_bit_nat_eq_self del: of_nat_add)
  assume "0x80 \<le> cp" "cp \<le> 0x10ffff"
  then show ?thesis
    using ge [of "cp div 64"] ge [of "0x20 + cp div 4096"] ge [of "0x30 + cp div 262144"]
    by (simp add: utf8_enc_def del: of_nat_add)
qed

lemma utf8_length_enc:
  assumes "cp \<le> 0x10ffff"
  shows "utf8_length_loop (utf8_enc cp @ q) n = utf8_length_loop q (Suc n)"
proof (cases "cp < 0x80")
  case False
  then have ge: "0x80 \<le> cp" by simp
  from utf8_enc_lead [OF ge assms] obtain c p where cp: "utf8_enc cp = c # p" and c: "\<not> c < 0x80" by blast
  have "\<not> (0x10ffff :: u32) < of_nat cp" using u32_less_of_nat [OF assms] assms by simp
  then show ?thesis using utf8_decode_enc [OF ge assms cp, of q] by (simp add: cp c)
qed (rule utf8_length_ascii)

lemma utf8_length_concat:
  assumes "list_all (\<lambda>cp. cp \<le> 0x10ffff) cps"
  shows "utf8_length_loop (concat (map utf8_enc cps)) n = Some (n + length cps)"
  using assms by (induction cps arbitrary: n) (simp_all add: utf8_length_enc)

lemma utf8_cpystrn_whole:
  "\<exists>m rest. src = utf8_cpystrn_loop n src @ rest \<and> m \<le> n
     \<and> utf8_length_loop (utf8_cpystrn_loop n src) k = Some (k + m)"
proof (induction n src arbitrary: k rule: utf8_cpystrn_loop.induct)
  case (3 n c src)
  obtain u j where dec: "ngx_utf8_decode c src = (u, j)" by fastforce
  consider "c < 0x80" "c \<noteq> 0" | "c = 0" | "\<not> c < 0x80" "0x10ffff < u" | "\<not> c < 0x80" "\<not> 0x10ffff < u" by blast
  then show ?case
  proof cases
    case 1
    with "3.IH"(1) [of "Suc k"] obtain m rest where "src = utf8_cpystrn_loop n src @ rest" "m \<le> n"
      "utf8_length_loop (utf8_cpystrn_loop n src) (Suc k) = Some (Suc k + m)" by blast
    with 1 show ?thesis by (intro exI [of _ "Suc m"] exI [of _ rest]) simp
  next
    case 4
    from utf8_decode_local [OF dec 4(2)] obtain len where j: "j = Suc len" and len: "len \<le> length src"
      and loc: "\<And>q. ngx_utf8_decode c (take len src @ q) = (u, j)" by blast
    have "\<exists>m rest. drop len src = utf8_cpystrn_loop n (drop len src) @ rest \<and> m \<le> n
        \<and> utf8_length_loop (utf8_cpystrn_loop n (drop len src)) (Suc k) = Some (Suc k + m)"
      using "3.IH"(2) [OF 4(1) dec [symmetric] refl 4(2), of "Suc k"] by (simp add: j)
    then obtain m rest where *: "drop len src = utf8_cpystrn_loop n (drop len src) @ rest" "m \<le> n"
      "utf8_length_loop (utf8_cpystrn_loop n (drop len src)) (Suc k) = Some (Suc k + m)" by blast
    have "src = take len src @ utf8_cpystrn_loop n (drop len src) @ rest"
      using *(1) by (metis append_take_drop_id)
    moreover have "utf8_cpystrn_loop (Suc n) (c # src) = c # take len src @ utf8_cpystrn_loop n (drop len src)"
      using 4 by (simp add: dec j)
    moreover have "utf8_length_loop (c # take len src @ utf8_cpystrn_loop n (drop len src)) k = Some (Suc k + m)"
      using 4 *(3) len by (simp add: loc j)
    ultimately show ?thesis using *(2) by (intro exI [of _ "Suc m"] exI [of _ rest]) simp
  qed (auto simp: dec)
qed simp_all

text \<open>
  \<open>ngx_utf8_decode\<close> inverts the UTF-8 encoding: on the encoding of any code point from U+0080
  to U+10FFFF, followed by anything, it returns the code point and moves past exactly the bytes of
  the encoding; and \<open>ngx_utf8_length\<close> counts the characters of every encoded text.
\<close>

theorem utf8_roundtrip:
  assumes "0x80 \<le> cp" "cp \<le> 0x10ffff" "list_all (\<lambda>cp. cp \<le> 0x10ffff) cps"
  shows "ngx_utf8_decode (hd (utf8_enc cp)) (tl (utf8_enc cp) @ q) = (of_nat cp, length (utf8_enc cp))
    \<and> ngx_utf8_length (concat (map utf8_enc cps)) = length cps"
proof
  from utf8_enc_lead [OF assms(1,2)] obtain c p where cp: "utf8_enc cp = c # p" by blast
  then show "ngx_utf8_decode (hd (utf8_enc cp)) (tl (utf8_enc cp) @ q) = (of_nat cp, length (utf8_enc cp))"
    using utf8_decode_enc [OF assms(1,2) cp] by simp
  show "ngx_utf8_length (concat (map utf8_enc cps)) = length cps"
    using utf8_length_concat [OF assms(3), of 0] by (simp add: ngx_utf8_length_def)
qed

theorem utf8_roundtrip_witness:
  "ngx_utf8_decode 0xe2 [0x82, 0xac, 0x21] = (0x20ac, 3)
   \<and> ngx_utf8_length (concat (map utf8_enc [0x20ac, 0x31, 0x1f600])) = 3"
  using utf8_roundtrip [of "0x20ac" "[0x20ac, 0x31, 0x1f600]" "[0x21]"]
  by (simp add: utf8_enc_def)

text \<open>
  The bounded copy of \<open>ngx_utf8_cpystrn\<close> never splits a character: whatever the source, what it
  writes before the terminating zero is a beginning of the source that consists of complete
  characters, at most \<^verbatim>\<open>n - 1\<close> of them.
\<close>

theorem utf8_cpystrn_complete:
  "\<exists>m rest. src = butlast (ngx_utf8_cpystrn src (Suc n)) @ rest \<and> m \<le> n
     \<and> utf8_length_loop (butlast (ngx_utf8_cpystrn src (Suc n))) 0 = Some m
     \<and> last (ngx_utf8_cpystrn src (Suc n)) = 0"
  using utf8_cpystrn_whole [of src n 0] by (simp add: ngx_utf8_cpystrn_def)

text \<open>
  The decoder is laxer than UTF-8: it takes the lead bytes F8 to FF for those of four-byte
  sequences, and every byte from C0 on for a continuation byte, so such malformed sequences are
  returned as valid characters.
\<close>

theorem utf8_accepts_malformed:
  "ngx_utf8_decode 0xf8 [0x90, 0x80, 0x80] = (0x10000, 4)
   \<and> ngx_utf8_decode 0xff [0x90, 0x80, 0x80] = ngx_utf8_decode 0xf7 [0x90, 0x80, 0x80]
   \<and> ngx_utf8_decode 0xc3 [0xe9] = (0xe9, 2)"
  by (simp add: ngx_utf8_decode_def utf8_lead_def numeral_3_eq_3)

end
