(* ===== verification/Http_Args.thy ===== *)
theory Http_Args
  imports Http_Uri Ngx_Escape Ngx_Strcmp
begin

text \<open>
  The routines of \<^verbatim>\<open>src/http/ngx_http_parse.c\<close> that work on URIs and header values which did not
  come through the request line: the check of internal redirect targets \<open>ngx_http_parse_unsafe_uri\<close>,
  the separation of arguments \<open>ngx_http_split_args\<close>, the argument lookup \<open>ngx_http_arg\<close>, and the
  lookups in \<open>Cookie\<close> and \<open>Set-Cookie\<close> values. A failed allocation is not modelled.
\<close>

section \<open>Unsafe URIs\<close>

definition ngx_path_separator :: "byte \<Rightarrow> bool" where
  "ngx_path_separator c \<longleftrightarrow> c = asc CHR ''/''"

text \<open>The test for a leading parent reference; the caller knows that the string is not empty.\<close>

definition leading_dots :: "byte list \<Rightarrow> bool" where
  "leading_dots p \<longleftrightarrow>
     p \<noteq> [] \<and> p ! 0 = asc CHR ''.'' \<and> 1 < length p \<and> p ! 1 = asc CHR ''.''
     \<and> (length p = 2 \<or> ngx_path_separator (p ! 2))"

text \<open>The test after a separator; \<open>p\<close> is what follows it up to the end of the string.\<close>

definition dots_after :: "byte \<Rightarrow> byte list \<Rightarrow> bool" where
  "dots_after ch p \<longleftrightarrow>
     ngx_path_separator ch \<and> 2 < Suc (length p)
     \<and> p ! 0 = asc CHR ''.'' \<and> p ! 1 = asc CHR ''.''
     \<and> (Suc (length p) = 3 \<or> ngx_path_separator (p ! 2))"

text \<open>
  The first loop: the bytes of the path so far (reversed), whether an escape was met; the result
  is the path, the arguments when a question mark ended it, and the flag.
\<close>

fun unsafe_loop :: "byte list \<Rightarrow> bool \<Rightarrow> byte list \<Rightarrow> (byte list \<times> byte list option \<times> bool) option" where
  "unsafe_loop path quoted [] = Some (rev path, None, quoted)"
| "unsafe_loop path quoted (ch # p) =
     (if ch = asc CHR ''%'' then unsafe_loop (ch # path) True p
      else if tbl_bit usual ch then unsafe_loop (ch # path) quoted p
      else if ch = asc CHR ''?'' then Some (rev path, Some p, quoted)
      else if ch = 0 then None
      else if dots_after ch p then None
      else unsafe_loop (ch # path) quoted p)"

fun unsafe_decoded :: "byte list \<Rightarrow> bool" where
  "unsafe_decoded [] = False"
| "unsafe_decoded (ch # p) = (if ch = 0 then True else if dots_after ch p then True else unsafe_decoded p)"

definition ngx_http_parse_unsafe_uri :: "byte list \<Rightarrow> (byte list \<times> byte list option) option" where
  "ngx_http_parse_unsafe_uri uri =
     (if length uri = 0 \<or> uri ! 0 = asc CHR ''?'' then None
      else if leading_dots uri then None
      else case unsafe_loop [] False uri of
        None \<Rightarrow> None
      | Some (path, args, quoted) \<Rightarrow>
          (if quoted then
             (let dst = fst (ngx_unescape_uri path 0) in
              if leading_dots dst then None
              else if unsafe_decoded dst then None
              else Some (dst, args))
           else Some (path, args)))"

section \<open>Arguments\<close>

definition ngx_http_split_args :: "byte list \<Rightarrow> byte list \<times> byte list" where
  "ngx_http_split_args uri =
     (case ngx_strlchr uri 0 (length uri) (asc CHR ''?'') of
        Some p \<Rightarrow> (take p uri, drop (Suc p) uri)
      | None \<Rightarrow> (uri, []))"

text \<open>
  The lookup of one argument; the result is the offset and the length of the value in the
  argument string.
\<close>

function arg_loop :: "byte list \<Rightarrow> nat \<Rightarrow> byte list \<Rightarrow> (nat \<times> nat) option" where
  "arg_loop args p name =
     (if p < length args then
        (case ngx_strlcasestrn args p (length args - 1) name (length name - 1) of
           None \<Rightarrow> None
         | Some q \<Rightarrow>
             (if (q = 0 \<or> args ! (q - 1) = asc CHR ''&'') \<and> args ! (q + length name) = asc CHR ''=''
              then (let data = q + length name + 1 in
                    case ngx_strlchr args q (length args) (asc CHR ''&'') of
                      None \<Rightarrow> Some (data, length args - data)
                    | Some e \<Rightarrow> Some (data, e - data))
              else arg_loop args (Suc q) name))
      else None)"
  by pat_completeness auto
termination
  by (relation "measure (\<lambda>(args, p, name). length args - p)") (auto dest: strlcasestrn_ge)

declare arg_loop.simps [simp del]

definition ngx_http_arg :: "byte list \<Rightarrow> byte list \<Rightarrow> byte list option" where
  "ngx_http_arg args name =
     (if length args = 0 then None
      else map_option (\<lambda>(data, len). take len (drop data args)) (arg_loop args 0 name))"

section \<open>Cookies\<close>

text \<open>
  What is left of a header value at the label \<open>skip\<close>: the rest of the item with its separator and
  the spaces that follow are dropped.
\<close>

definition skip_item :: "byte list \<Rightarrow> byte list" where
  "skip_item s =
     dropWhile (\<lambda>c. c = asc CHR '' '') (tl (dropWhile (\<lambda>c. c \<noteq> asc CHR '';'' \<and> c \<noteq> asc CHR '','') s))"

lemma skip_item_length: "length (skip_item s) \<le> length s - 1"
proof -
  have "length (skip_item s) \<le> length (tl (dropWhile (\<lambda>c. c \<noteq> asc CHR '';'' \<and> c \<noteq> asc CHR '','') s))"
    unfolding skip_item_def by (rule length_dropWhile_le)
  moreover have "length (dropWhile (\<lambda>c. c \<noteq> asc CHR '';'' \<and> c \<noteq> asc CHR '','') s) \<le> length s"
    by (rule length_dropWhile_le)
  ultimately show ?thesis by simp
qed

lemma skip_item_less: "s \<noteq> [] \<Longrightarrow> length s' \<le> length s \<Longrightarrow> length (skip_item s') < length s"
  using skip_item_length [of s'] by (cases s) auto

text \<open>
  The scan of one value; \<open>want\<close> says that the caller passed a place for the value. The string
  comparison stops at the zero that ends the header value. The result \<open>Some v\<close> is a match with the
  value \<open>v\<close> (empty when no value was asked for).
\<close>

function multi_scan :: "byte list \<Rightarrow> bool \<Rightarrow> byte list \<Rightarrow> byte list option" where
  "multi_scan name want s =
     (if s = [] then None
      else if ngx_strncasecmp s name (length name) \<noteq> 0 then multi_scan name want (skip_item s)
      else let s1 = dropWhile (\<lambda>c. c = asc CHR '' '') (drop (length name) s) in
        if \<not> want then
          (if s1 = [] \<or> hd s1 = asc CHR '','' then Some [] else multi_scan name want (skip_item s1))
        else if s1 = [] then multi_scan name want (skip_item s1)
        else if hd s1 \<noteq> asc CHR ''='' then multi_scan name want (skip_item (tl s1))
        else Some (takeWhile (\<lambda>c. c \<noteq> asc CHR '';'') (dropWhile (\<lambda>c. c = asc CHR '' '') (tl s1))))"
  by pat_completeness auto
termination
proof (relation "measure (\<lambda>(name, want, s). length s)")
  have le: "length (dropWhile P (drop k s)) \<le> length s" for P and k and s :: "byte list"
    using length_dropWhile_le [of P "drop k s"] by simp
  show "((name, want, skip_item s1), name, want, s) \<in> measure (\<lambda>(name, want, s). length s)"
    if "s \<noteq> []" "s1 = dropWhile (\<lambda>c. c = asc CHR '' '') (drop (length name) s)" for name want s s1
    using skip_item_less [OF that(1), of s1] le that(2) by simp
  show "((name, want, skip_item s1), name, want, s) \<in> measure (\<lambda>(name, want, s). length s)"
    if "s \<noteq> []" "s1 = dropWhile (\<lambda>c. c = asc CHR '' '') (drop (length name) s)" for name want s s1
    using skip_item_less [OF that(1), of s1] le that(2) by simp
  show "((name, want, skip_item (tl s1)), name, want, s) \<in> measure (\<lambda>(name, want, s). length s)"
    if "s \<noteq> []" "s1 = dropWhile (\<lambda>c. c = asc CHR '' '') (drop (length name) s)" for name want s s1
    using skip_item_less [OF that(1), of "tl s1"] le [of _ "length name" s] that(2) by (simp add: le_diff_conv le_SucI)
qed (auto simp: skip_item_less)

declare multi_scan.simps [simp del]

fun ngx_http_parse_multi_header_lines ::
  "byte list list \<Rightarrow> nat \<Rightarrow> byte list \<Rightarrow> bool \<Rightarrow> (nat \<times> byte list) option" where
  "ngx_http_parse_multi_header_lines [] i name want = None"
| "ngx_http_parse_multi_header_lines (h # headers) i name want =
     (if length h < length name then ngx_http_parse_multi_header_lines headers (Suc i) name want
      else case multi_scan name want h of
        None \<Rightarrow> ngx_http_parse_multi_header_lines headers (Suc i) name want
      | Some v \<Rightarrow> Some (i, v))"

definition set_cookie_value :: "byte list \<Rightarrow> byte list \<Rightarrow> byte list option" where
  "set_cookie_value name h =
     (if length h \<le> length name then None
      else if ngx_strncasecmp h name (length name) \<noteq> 0 then None
      else let s1 = dropWhile (\<lambda>c. c = asc CHR '' '') (drop (length name) h) in
        if s1 = [] \<or> hd s1 \<noteq> asc CHR ''='' then None
        else Some (takeWhile (\<lambda>c. c \<noteq> asc CHR '';'') (dropWhile (\<lambda>c. c = asc CHR '' '') (tl s1))))"

fun ngx_http_parse_set_cookie_lines :: "byte list list \<Rightarrow> nat \<Rightarrow> byte list \<Rightarrow> (nat \<times> byte list) option" where
  "ngx_http_parse_set_cookie_lines [] i name = None"
| "ngx_http_parse_set_cookie_lines (h # headers) i name =
     (case set_cookie_value name h of
        None \<Rightarrow> ngx_http_parse_set_cookie_lines headers (Suc i) name
      | Some v \<Rightarrow> Some (i, v))"

section \<open>Parent references\<close>

lemma split_slash_ne [simp]: "split_slash p \<noteq> []"
  by (induction p) (auto split: list.splits)

lemma split_slash_hd: "hd (split_slash p) = takeWhile (\<lambda>c. c \<noteq> asc CHR ''/'') p"
  by (induction p) (auto split: list.splits)

lemma leading_dots_hd: "leading_dots p \<longleftrightarrow> hd (split_slash p) = bytes ''..''"
  unfolding leading_dots_def split_slash_hd ngx_path_separator_def
  by (cases p rule: list.exhaust; cases "tl p" rule: list.exhaust; cases "tl (tl p)" rule: list.exhaust) auto

lemma dots_after_hd: "dots_after ch p \<longleftrightarrow> ch = asc CHR ''/'' \<and> hd (split_slash p) = bytes ''..''"
  unfolding leading_dots_hd [symmetric]
  by (auto simp: leading_dots_def dots_after_def ngx_path_separator_def)

lemma split_slash_tl:
  "tl (split_slash (c # p)) = (if c = asc CHR ''/'' then split_slash p else tl (split_slash p))"
  by (auto split: list.splits)

lemma unsafe_decoded_safe:
  "\<not> unsafe_decoded p \<Longrightarrow> 0 \<notin> set p \<and> bytes ''..'' \<notin> set (tl (split_slash p))"
proof (induction p)
  case (Cons ch p)
  then have IH: "0 \<notin> set p" "bytes ''..'' \<notin> set (tl (split_slash p))" and nz: "ch \<noteq> 0"
    and nd: "\<not> dots_after ch p" by (auto split: if_splits)
  have "bytes ''..'' \<notin> set (split_slash p)" if "ch = asc CHR ''/''"
    using nd that IH(2) by (cases "split_slash p") (auto simp: dots_after_hd)
  with IH nz show ?case by (auto simp: split_slash_tl simp del: split_slash.simps)
qed simp

lemma unsafe_loop_path:
  assumes "unsafe_loop path q xs = Some (path', args, q')"
  shows "\<exists>y. path' = rev path @ y \<and> 0 \<notin> set y \<and> q' = (q \<or> asc CHR ''%'' \<in> set y)
    \<and> xs = (case args of None \<Rightarrow> y | Some a \<Rightarrow> y @ asc CHR ''?'' # a) \<and> asc CHR ''?'' \<notin> set y
    \<and> bytes ''..'' \<notin> set (butlast (tl (split_slash y)))
    \<and> (args = None \<longrightarrow> bytes ''..'' \<notin> set (tl (split_slash y)))"
  using assms
proof (induction path q xs rule: unsafe_loop.induct)
  case (2 path q ch p)
  show ?case
  proof (cases "ch = asc CHR ''?''")
    case True
    have "\<not> tbl_bit usual ch" using True by (simp add: usual_iff)
    with True 2 show ?thesis by auto
  next
    case False
    have pass: "ch \<noteq> 0" "\<not> dots_after ch p"
      using "2.prems" False by (auto simp: usual_iff dots_after_def ngx_path_separator_def split: if_splits)
    have "\<exists>y. path' = rev (ch # path) @ y \<and> 0 \<notin> set y \<and> q' = (q \<or> ch = asc CHR ''%'' \<or> asc CHR ''%'' \<in> set y)
      \<and> p = (case args of None \<Rightarrow> y | Some a \<Rightarrow> y @ asc CHR ''?'' # a) \<and> asc CHR ''?'' \<notin> set y
      \<and> bytes ''..'' \<notin> set (butlast (tl (split_slash y)))
      \<and> (args = None \<longrightarrow> bytes ''..'' \<notin> set (tl (split_slash y)))"
      using 2 False pass by (auto split: if_splits)
    then obtain y where y: "path' = rev (ch # path) @ y" "0 \<notin> set y"
      "q' = (q \<or> ch = asc CHR ''%'' \<or> asc CHR ''%'' \<in> set y)"
      "p = (case args of None \<Rightarrow> y | Some a \<Rightarrow> y @ asc CHR ''?'' # a)" "asc CHR ''?'' \<notin> set y"
      "bytes ''..'' \<notin> set (butlast (tl (split_slash y)))"
      "args = None \<longrightarrow> bytes ''..'' \<notin> set (tl (split_slash y))" by blast
    have sep: "bytes ''..'' \<notin> set (butlast (split_slash y))
      \<and> (args = None \<longrightarrow> bytes ''..'' \<notin> set (split_slash y))" if sl: "ch = asc CHR ''/''"
    proof -
      from pass(2) sl have hd: "hd (split_slash p) \<noteq> bytes ''..''" by (simp add: dots_after_hd)
      have hdy: "hd (split_slash p) = hd (split_slash y)" if "tl (split_slash y) \<noteq> [] \<or> args = None"
      proof (cases args)
        case (Some a)
        with that have "asc CHR ''/'' \<in> set y" by (metis list.sel(3) option.distinct(1) split_slash_none)
        then show ?thesis unfolding split_slash_hd y(4) Some by (simp add: takeWhile_append1)
      qed (simp add: y(4))
      obtain z zs where zs: "split_slash y = z # zs" by (cases "split_slash y") auto
      with hdy hd y(6,7) show ?thesis by (cases "zs = []"; cases "args = None") auto
    qed
    show ?thesis
      using y False pass sep by (intro exI [of _ "ch # y"]) (auto simp: split_slash_tl split: option.splits simp del: split_slash.simps)
  qed
qed auto

lemma unsafe_uri_safe:
  assumes "ngx_http_parse_unsafe_uri uri = Some (u, args)"
  shows "0 \<notin> set u" "bytes ''..'' \<notin> set (butlast (split_slash u))"
    "args = None \<or> asc CHR ''%'' \<in> set (takeWhile (\<lambda>c. c \<noteq> asc CHR ''?'') uri) \<Longrightarrow> bytes ''..'' \<notin> set (split_slash u)"
proof -
  have whole: "bytes ''..'' \<notin> set (split_slash v)" if "\<not> leading_dots v" "bytes ''..'' \<notin> set (tl (split_slash v))" for v
    using that by (cases "split_slash v") (auto simp: leading_dots_hd)
  from assms obtain path quoted where lo: "\<not> leading_dots uri"
    and loop: "unsafe_loop [] False uri = Some (path, args, quoted)"
    and res: "if quoted then u = fst (ngx_unescape_uri path 0) \<and> \<not> leading_dots u \<and> \<not> unsafe_decoded u else u = path"
    by (auto simp: ngx_http_parse_unsafe_uri_def Let_def split: option.splits if_splits)
  from unsafe_loop_path [OF loop] have path: "0 \<notin> set path" "quoted = (asc CHR ''%'' \<in> set path)"
    "uri = (case args of None \<Rightarrow> path | Some a \<Rightarrow> path @ asc CHR ''?'' # a)" "asc CHR ''?'' \<notin> set path"
    "bytes ''..'' \<notin> set (butlast (tl (split_slash path)))"
    "args = None \<longrightarrow> bytes ''..'' \<notin> set (tl (split_slash path))" by auto
  have pre: "takeWhile (\<lambda>c. c \<noteq> asc CHR ''?'') uri = path"
    using path(3,4) by (cases args) (auto simp: takeWhile_append takeWhile_eq_all_conv)
  show "0 \<notin> set u" using res path(1) unsafe_decoded_safe [of u] by (auto split: if_splits)
  have q: "bytes ''..'' \<notin> set (split_slash u)" if quoted
    using that res unsafe_decoded_safe [of u] whole [of u] by auto
  show last: "bytes ''..'' \<notin> set (split_slash u)"
    if "args = None \<or> asc CHR ''%'' \<in> set (takeWhile (\<lambda>c. c \<noteq> asc CHR ''?'') uri)"
    using that q res path lo whole [of path] unfolding pre by (cases quoted) auto
  show "bytes ''..'' \<notin> set (butlast (split_slash u))"
  proof (cases quoted)
    case True
    then show ?thesis using q by (auto dest: in_set_butlastD)
  next
    case False
    then have u: "u = path" using res by simp
    obtain z zs where zs: "split_slash path = z # zs" by (cases "split_slash path") auto
    have "z \<noteq> bytes ''..''" if "zs \<noteq> []"
    proof
      assume "z = bytes ''..''"
      moreover have "asc CHR ''/'' \<in> set path" using zs that split_slash_none [of path] by auto
      then have "hd (split_slash uri) = hd (split_slash path)"
        unfolding split_slash_hd path(3) by (cases args) (simp_all add: takeWhile_append1)
      ultimately show False using lo zs by (simp add: leading_dots_hd)
    qed
    then show ?thesis using path(5) zs unfolding u by (cases "zs = []") auto
  qed
qed

text \<open>
  C17. A target that \<open>ngx_http_parse_unsafe_uri\<close> accepts has no zero byte and no parent reference in
  any segment but the last; when it has no arguments, or has an escape in its path, no segment at
  all is a parent reference, also after unescaping.
\<close>

theorem unsafe_uri_contained:
  assumes "ngx_http_parse_unsafe_uri uri = Some (u, args)"
  shows "0 \<notin> set u \<and> bytes ''..'' \<notin> set (butlast (split_slash u))
    \<and> (args = None \<or> asc CHR ''%'' \<in> set (takeWhile (\<lambda>c. c \<noteq> asc CHR ''?'') uri)
       \<longrightarrow> bytes ''..'' \<notin> set (split_slash u))"
  using unsafe_uri_safe [OF assms] by blast

theorem unsafe_uri_contained_witness:
  "bytes ''..'' \<notin> set (split_slash (bytes ''/img/a b''))"
proof -
  have "ngx_http_parse_unsafe_uri (bytes ''/img/a%20b?x'') = Some (bytes ''/img/a b'', Some (bytes ''x''))"
    by (simp add: ngx_http_parse_unsafe_uri_def leading_dots_def dots_after_def ngx_path_separator_def usual_iff
        ngx_unescape_uri_def Let_def)
  from unsafe_uri_contained [OF this] show ?thesis by simp
qed

text \<open>
  The exception in the previous theorem is real: the length test that detects a final parent
  reference counts the arguments, so a target whose path ends in one is accepted when arguments
  follow.
\<close>

theorem unsafe_uri_final_dots:
  "ngx_http_parse_unsafe_uri (bytes ''/files/..'') = None
   \<and> ngx_http_parse_unsafe_uri (bytes ''/files/..?x'') = Some (bytes ''/files/..'', Some (bytes ''x''))
   \<and> ngx_http_parse_unsafe_uri (bytes ''..?x'') = Some (bytes ''..'', Some (bytes ''x''))"
  by (simp add: ngx_http_parse_unsafe_uri_def leading_dots_def dots_after_def ngx_path_separator_def usual_iff)
section \<open>Argument lookup\<close>

lemma split_args_exact:
  "asc CHR ''?'' \<notin> set p \<Longrightarrow> ngx_http_split_args (p @ asc CHR ''?'' # a) = (p, a)"
  "asc CHR ''?'' \<notin> set p \<Longrightarrow> ngx_http_split_args p = (p, [])"
proof -
  assume "asc CHR ''?'' \<notin> set p"
  then have all: "c \<noteq> asc CHR ''?''" if "c \<in> set p" for c using that by blast
  have "takeWhile (\<lambda>c. c \<noteq> asc CHR ''?'') (p @ asc CHR ''?'' # a) = p"
    by (subst takeWhile_append2) (use all in auto)
  moreover have "takeWhile (\<lambda>c. c \<noteq> asc CHR ''?'') p = p"
    by (subst takeWhile_eq_all_conv) (use all in auto)
  ultimately show "ngx_http_split_args (p @ asc CHR ''?'' # a) = (p, a)" "ngx_http_split_args p = (p, [])"
    by (simp_all add: ngx_http_split_args_def strlchr_first Let_def del: takeWhile_eq_all_conv)
qed

definition is_arg :: "byte list \<Rightarrow> byte list \<Rightarrow> bool" where
  "is_arg name f \<longleftrightarrow> length name < length f
     \<and> map ngx_tolower (take (length name) f) = map ngx_tolower name \<and> f ! length name = asc CHR ''=''"

fun arg_fields :: "byte list \<Rightarrow> byte list list" where
  "arg_fields [] = [[]]"
| "arg_fields (c # cs) =
     (if c = asc CHR ''&'' then [] # arg_fields cs
      else case arg_fields cs of [] \<Rightarrow> [[c]] | x # xs \<Rightarrow> (c # x) # xs)"

lemma arg_fields_append: "asc CHR ''&'' \<notin> set f \<Longrightarrow> arg_fields (f @ asc CHR ''&'' # r) = f # arg_fields r"
  by (induction f) auto

lemma arg_fields_single: "asc CHR ''&'' \<notin> set f \<Longrightarrow> arg_fields f = [f]"
  by (induction f) auto

definition hit :: "byte list \<Rightarrow> byte list \<Rightarrow> nat \<Rightarrow> bool" where
  "hit name args q \<longleftrightarrow> q + length name < length args \<and> occurs_at name args q
     \<and> (q = 0 \<or> args ! (q - 1) = asc CHR ''&'') \<and> args ! (q + length name) = asc CHR ''=''"

definition first_hit :: "byte list \<Rightarrow> byte list \<Rightarrow> nat \<Rightarrow> nat option" where
  "first_hit name args p = (case filter (hit name args) [p..<length args] of [] \<Rightarrow> None | q # _ \<Rightarrow> Some q)"

definition arg_value :: "byte list \<Rightarrow> nat \<Rightarrow> nat \<Rightarrow> byte list" where
  "arg_value args len q = takeWhile (\<lambda>c. c \<noteq> asc CHR ''&'') (drop (q + len + 1) args)"

lemma hit_name_amp:
  assumes "occurs_at name args q" "asc CHR ''&'' \<notin> set name"
  shows "asc CHR ''&'' \<notin> set (take (length name) (drop q args))"
proof
  assume "asc CHR ''&'' \<in> set (take (length name) (drop q args))"
  then have "ngx_tolower (asc CHR ''&'') \<in> set (map ngx_tolower name)"
    using assms(1) unfolding occurs_at_def by (metis image_eqI set_map)
  then obtain c where "c \<in> set name" "ngx_tolower c = ngx_tolower (asc CHR ''&'')" by auto
  moreover have "ngx_tolower c = ngx_tolower (asc CHR ''&'') \<longrightarrow> c = asc CHR ''&''"
    by (rule byte_exhaust [of _ c]) (simp add: ngx_tolower_def)
  ultimately show False using assms(2) by blast
qed

lemma strlchr_value:
  assumes h: "hit name args q" and amp: "asc CHR ''&'' \<notin> set name"
  shows "(let data = q + length name + 1 in
      case ngx_strlchr args q (length args) (asc CHR ''&'') of
        None \<Rightarrow> Some (data, length args - data) | Some e \<Rightarrow> Some (data, e - data)) =
    Some (q + length name + 1, length (arg_value args (length name) q))"
proof -
  let ?P = "\<lambda>c. c \<noteq> asc CHR ''&''"
  from h have q: "q + length name < length args" "occurs_at name args q" "args ! (q + length name) = asc CHR ''=''"
    by (auto simp: hit_def)
  define nm where "nm = take (length name) (drop q args)"
  define rest where "rest = drop (q + length name + 1) args"
  have "drop q args = nm @ drop (q + length name) args" unfolding nm_def by (metis add.commute append_take_drop_id drop_drop)
  also have "drop (q + length name) args = asc CHR ''='' # rest"
    unfolding rest_def using q(1,3) by (metis Cons_nth_drop_Suc Suc_eq_plus1)
  finally have dr: "drop q args = nm @ asc CHR ''='' # rest" .
  have nmamp: "asc CHR ''&'' \<notin> set nm" unfolding nm_def by (rule hit_name_amp [OF q(2) amp])
  have len: "length nm = length name" using q(1) by (simp add: nm_def)
  have val: "arg_value args (length name) q = takeWhile ?P rest" by (simp add: arg_value_def rest_def)
  have k: "length (takeWhile ?P (drop q args)) = length name + 1 + length (takeWhile ?P rest)"
    unfolding dr using nmamp len by (subst takeWhile_append2) auto
  have tot: "length args = q + length name + 1 + length rest" using q(1) by (simp add: rest_def)
  have "length (takeWhile ?P rest) \<le> length rest" by (rule length_takeWhile_le)
  then show ?thesis
    using k tot q(1) strlchr_first [of "length args" args q "asc CHR ''&''"]
    by (auto simp: val Let_def)
qed

lemma first_hit_skip:
  assumes "p \<le> q" "\<And>i. p \<le> i \<Longrightarrow> i < q \<Longrightarrow> \<not> hit name args i"
  shows "first_hit name args p = first_hit name args q"
proof (cases "q \<le> length args")
  case True
  have "[p..<length args] = [p..<q] @ [q..<length args]"
    using upt_add_eq_append [OF assms(1), of "length args - q"] True by simp
  moreover have "filter (hit name args) [p..<q] = []" using assms(2) by (simp add: filter_empty_conv)
  ultimately show ?thesis by (simp add: first_hit_def)
next
  case False
  then have "filter (hit name args) [p..<length args] = []" using assms(2) by (simp add: filter_empty_conv)
  with False show ?thesis by (simp add: first_hit_def)
qed

lemma first_hit_here: "hit name args q \<Longrightarrow> first_hit name args q = Some q"
  by (simp add: first_hit_def hit_def upt_conv_Cons)

lemma first_hit_none: "(\<And>i. p \<le> i \<Longrightarrow> \<not> hit name args i) \<Longrightarrow> first_hit name args p = None"
proof -
  assume "\<And>i. p \<le> i \<Longrightarrow> \<not> hit name args i"
  then have "filter (hit name args) [p..<length args] = []" by (simp add: filter_empty_conv)
  then show ?thesis by (simp add: first_hit_def)
qed

lemma filter_upt_hd:
  assumes "filter P [a..<b] \<noteq> []"
  shows "P (hd (filter P [a..<b]))" "a \<le> hd (filter P [a..<b])" "hd (filter P [a..<b]) < b"
    "a \<le> i \<Longrightarrow> i < hd (filter P [a..<b]) \<Longrightarrow> \<not> P i"
proof -
  have mem: "hd (filter P [a..<b]) \<in> set (filter P [a..<b])" by (rule hd_in_set [OF assms])
  then show "P (hd (filter P [a..<b]))" "a \<le> hd (filter P [a..<b])" "hd (filter P [a..<b]) < b" by auto
  show "\<not> P i" if "a \<le> i" "i < hd (filter P [a..<b])"
  proof
    assume "P i"
    let ?h = "hd (filter P [a..<b])"
    from mem have "?h < b" by simp
    with that \<open>P i\<close> have "i \<in> set (filter P [a..<b])" by simp
    moreover have "sorted (filter P [a..<b])" by (simp add: sorted_wrt_filter)
    ultimately have "?h \<le> i" by (cases "filter P [a..<b]") auto
    with that show False by simp
  qed
qed

lemma arg_loop_first:
  assumes "no_nul name" "name \<noteq> []" and amp: "asc CHR ''&'' \<notin> set name"
  shows "arg_loop args p name =
    map_option (\<lambda>q. (q + length name + 1, length (arg_value args (length name) q))) (first_hit name args p)"
proof (induction "length args - p" arbitrary: p rule: less_induct)
  case less
  show ?case
  proof (cases "p < length args")
    case False
    then have "first_hit name args p = None" by (intro first_hit_none) (simp add: hit_def)
    with False show ?thesis by (simp add: arg_loop.simps)
  next
    case True
    let ?js = "filter (occurs_at name args) [p..<length args - 1 - (length name - 1)]"
    have search: "ngx_strlcasestrn args p (length args - 1) name (length name - 1) = (if ?js = [] then None else Some (hd ?js))"
      using strlcasestrn_first [OF assms(1,2), of "length args - 1" args p] by (simp add: Let_def)
    have lim: "i < length args - 1 - (length name - 1)" if "hit name args i" for i
      using that assms(2) by (cases name) (auto simp: hit_def)
    show ?thesis
    proof (cases "?js = []")
      case nil: True
      have "\<not> hit name args i" if "p \<le> i" for i
      proof
        assume h: "hit name args i"
        then have "i \<in> set ?js" using lim [OF h] that by (simp add: hit_def)
        with nil show False by simp
      qed
      with nil True search show ?thesis by (simp add: arg_loop.simps first_hit_none)
    next
      case False
      define q where "q = hd ?js"
      note hd = filter_upt_hd [OF False, folded q_def]
      have sq: "ngx_strlcasestrn args p (length args - 1) name (length name - 1) = Some q"
        using search False by (simp add: q_def)
      have skip: "\<not> hit name args i" if "p \<le> i" "i < q" for i using hd(4) [OF that] by (simp add: hit_def)
      have inr: "q + length name < length args" using hd(3) assms(2) by (cases name) auto
      show ?thesis
      proof (cases "hit name args q")
        case yes: True
        then have "first_hit name args p = Some q" using first_hit_skip [OF hd(2) skip] first_hit_here by simp
        moreover from yes have "q = 0 \<or> args ! (q - 1) = asc CHR ''&''" "args ! (q + length name) = asc CHR ''=''"
          by (simp_all add: hit_def)
        ultimately show ?thesis
          using True strlchr_value [OF yes amp] unfolding arg_loop.simps [of args p] sq by auto
      next
        case no: False
        have "first_hit name args p = first_hit name args (Suc q)"
          by (rule first_hit_skip) (use skip no hd(2) in \<open>auto simp: less_Suc_eq\<close>)
        moreover have "\<not> ((q = 0 \<or> args ! (q - 1) = asc CHR ''&'') \<and> args ! (q + length name) = asc CHR ''='')"
          using no inr hd(1) by (auto simp: hit_def)
        moreover have "length args - Suc q < length args - p" using True hd(2) by simp
        note less [OF this]
        ultimately show ?thesis
          using True unfolding arg_loop.simps [of args p] sq by auto
      qed
    qed
  qed
qed

lemma hit_shift:
  "hit name (f @ asc CHR ''&'' # r) (Suc (q + length f)) \<longleftrightarrow> hit name r q"
proof -
  have "drop (Suc (q + length f)) (f @ asc CHR ''&'' # r) = drop q r" by simp
  moreover have "(f @ asc CHR ''&'' # r) ! (Suc (q + length f) + k) = r ! (q + k)" for k by (simp add: nth_append)
  moreover have "(f @ asc CHR ''&'' # r) ! (Suc (q + length f) - 1) = asc CHR ''&'' \<longleftrightarrow> q = 0 \<or> r ! (q - 1) = asc CHR ''&''"
    by (cases q) (simp_all add: nth_append)
  ultimately show ?thesis by (auto simp: hit_def occurs_at_def)
qed

lemma hit_field:
  assumes "asc CHR ''&'' \<notin> set f" "rest = [] \<or> hd rest = asc CHR ''&''" "asc CHR ''&'' \<notin> set name"
  shows "hit name (f @ rest) 0 \<longleftrightarrow> is_arg name f" "0 < i \<Longrightarrow> i \<le> length f \<Longrightarrow> \<not> hit name (f @ rest) i"
proof -
  have lt: "length name < length f" if h: "hit name (f @ rest) 0"
  proof (rule ccontr)
    assume "\<not> length name < length f"
    with h assms(2) have ge: "length f \<le> length name" and r: "rest \<noteq> []" "hd rest = asc CHR ''&''"
      by (auto simp: hit_def)
    have eq: "(f @ rest) ! length name = asc CHR ''=''" using h by (simp add: hit_def)
    show False
    proof (cases "length f = length name")
      case True
      with eq r show False by (cases rest) (simp_all add: nth_append)
    next
      case False
      then have "asc CHR ''&'' \<in> set (take (length name) (f @ rest))" using ge r by (cases rest) (auto simp: take_Cons')
      with hit_name_amp [of name "f @ rest" 0] h assms(3) show False by (simp add: hit_def)
    qed
  qed
  then show "hit name (f @ rest) 0 \<longleftrightarrow> is_arg name f"
    by (auto simp: hit_def is_arg_def occurs_at_def nth_append)
  show "\<not> hit name (f @ rest) i" if "0 < i" "i \<le> length f"
  proof
    assume "hit name (f @ rest) i"
    with that have "(f @ rest) ! (i - 1) = asc CHR ''&''" by (simp add: hit_def)
    moreover have "i - 1 < length f" using that by simp
    ultimately have "f ! (i - 1) = asc CHR ''&''" "i - 1 < length f" by (simp_all add: nth_append)
    with assms(1) show False by (metis nth_mem)
  qed
qed

lemma first_hit_shift:
  "first_hit name (f @ asc CHR ''&'' # r) (Suc (length f)) = map_option (\<lambda>q. Suc (q + length f)) (first_hit name r 0)"
proof -
  have u: "[Suc (length f)..<length (f @ asc CHR ''&'' # r)] = map (\<lambda>q. Suc (q + length f)) [0..<length r]"
    using map_add_upt [of "Suc (length f)" "length r"] by (simp add: add.commute)
  show ?thesis
    unfolding first_hit_def u filter_map o_def hit_shift by (auto split: list.splits)
qed

lemma arg_value_shift: "arg_value (f @ c # r) len (Suc (q + length f)) = arg_value r len q"
  by (simp add: arg_value_def)

lemma arg_value_field:
  assumes "asc CHR ''&'' \<notin> set f" "rest = [] \<or> hd rest = asc CHR ''&''" "len < length f"
  shows "arg_value (f @ rest) len 0 = drop (Suc len) f"
proof -
  have "\<forall>c\<in>set (drop (Suc len) f). c \<noteq> asc CHR ''&''" using assms(1) by (auto dest: in_set_dropD)
  moreover have "takeWhile (\<lambda>c. c \<noteq> asc CHR ''&'') rest = []" using assms(2) by (cases rest) auto
  ultimately show ?thesis using assms(3) by (simp add: arg_value_def takeWhile_append2)
qed

lemma first_hit_fields:
  assumes "asc CHR ''&'' \<notin> set name"
  shows "map_option (arg_value args (length name)) (first_hit name args 0) =
    (case filter (is_arg name) (arg_fields args) of [] \<Rightarrow> None | f # _ \<Rightarrow> Some (drop (length name + 1) f))"
proof (induction args rule: length_induct)
  case (1 args)
  show ?case
  proof (cases "asc CHR ''&'' \<in> set args")
    case False
    note f = hit_field [OF False disjI1 [OF refl] assms, unfolded append_Nil2]
    show ?thesis
    proof (cases "is_arg name args")
      case True
      then show ?thesis
        using first_hit_here [of name args 0] f(1) arg_value_field [OF False, of "[]" "length name"]
        by (simp add: arg_fields_single [OF False] is_arg_def)
    next
      case no: False
      then have "first_hit name args 0 = None"
        using f by (intro first_hit_none) (metis add_lessD1 hit_def less_imp_le not_gr_zero)
      with no show ?thesis by (simp add: arg_fields_single [OF False])
    qed
  next
    case True
    then obtain f r where args: "args = f @ asc CHR ''&'' # r" and f: "asc CHR ''&'' \<notin> set f"
      using split_list_first [OF True] by blast
    have "asc CHR ''&'' # r = [] \<or> hd (asc CHR ''&'' # r) = asc CHR ''&''" by simp
    note h = hit_field [OF f this assms]
    have IH: "map_option (arg_value r (length name)) (first_hit name r 0) =
      (case filter (is_arg name) (arg_fields r) of [] \<Rightarrow> None | f # _ \<Rightarrow> Some (drop (length name + 1) f))"
      using "1.IH" args by simp
    show ?thesis
    proof (cases "is_arg name f")
      case yes: True
      then have "first_hit name args 0 = Some 0" using h(1) by (simp add: args first_hit_here)
      moreover have "arg_value args (length name) 0 = drop (length name + 1) f"
        using arg_value_field [OF f, of "asc CHR ''&'' # r" "length name"] yes by (simp add: args is_arg_def)
      ultimately show ?thesis using yes unfolding args arg_fields_append [OF f] by simp
    next
      case no: False
      have "first_hit name args 0 = first_hit name args (Suc (length f))"
      proof (rule first_hit_skip)
        show "\<not> hit name args i" if "i < Suc (length f)" for i
          using h no that unfolding args by (cases "i = 0") simp_all
      qed simp
      also have "\<dots> = map_option (\<lambda>q. Suc (q + length f)) (first_hit name r 0)"
        unfolding args by (rule first_hit_shift)
      finally show ?thesis
        using IH no unfolding args arg_fields_append [OF f] by (simp add: option.map_comp o_def arg_value_shift)
    qed
  qed
qed

text \<open>
  C31. \<open>ngx_http_arg\<close> looks an argument up as expected: it returns the value of the first field of
  the query string, as separated by ampersands, whose name is the given one without regard to
  case, and declines when there is none. The search for a substring that implements it never
  takes a match inside a name or a value for an argument. \<open>ngx_http_split_args\<close> separates a URI at
  its first question mark.
\<close>

theorem http_arg_lookup:
  assumes "no_nul name" "name \<noteq> []" "asc CHR ''&'' \<notin> set name" "asc CHR ''?'' \<notin> set p"
  shows "ngx_http_arg args name =
      (case filter (is_arg name) (arg_fields args) of [] \<Rightarrow> None | f # _ \<Rightarrow> Some (drop (length name + 1) f))
    \<and> ngx_http_split_args (p @ asc CHR ''?'' # args) = (p, args) \<and> ngx_http_split_args p = (p, [])"
proof (intro conjI)
  have val: "take (length (arg_value args len q)) (drop (q + len + 1) args) = arg_value args len q" for len q
    unfolding arg_value_def by (rule takeWhile_eq_take [symmetric])
  have "ngx_http_arg args name = map_option (arg_value args (length name)) (first_hit name args 0)"
    using arg_loop_first [OF assms(1-3), of args 0] val [of "length name"]
    by (cases args) (simp_all add: ngx_http_arg_def option.map_comp o_def first_hit_def)
  then show "ngx_http_arg args name =
      (case filter (is_arg name) (arg_fields args) of [] \<Rightarrow> None | f # _ \<Rightarrow> Some (drop (length name + 1) f))"
    by (simp only: first_hit_fields [OF assms(3)])
qed (rule split_args_exact [OF assms(4)])+

theorem http_arg_lookup_witness:
  "ngx_http_arg (bytes ''xid=3&ID=42&id=7'') (bytes ''id'') = Some (bytes ''42'')"
  using http_arg_lookup [of "bytes ''id''" "[]" "bytes ''xid=3&ID=42&id=7''"]
  by (simp add: no_nul_def is_arg_def ngx_tolower_def)
section \<open>Cookie lookup\<close>

text \<open>
  The contents of a header line: items with a name and mostly a value. A name has no zero, no space and
  no separator, a value no separator and no space at its start.
\<close>

type_synonym cookie = "byte list \<times> byte list option"

definition token :: "byte list \<Rightarrow> bool" where
  "token n \<longleftrightarrow> list_all (\<lambda>x. x \<notin> {0, asc CHR '' '', asc CHR '','', asc CHR '';'', asc CHR ''=''}) n"

definition cookie_ok :: "cookie \<Rightarrow> bool" where
  "cookie_ok c \<longleftrightarrow> token (fst c)
     \<and> (case snd c of None \<Rightarrow> True
        | Some v \<Rightarrow> list_all (\<lambda>x. x \<notin> {asc CHR '','', asc CHR '';''}) v \<and> (v = [] \<or> hd v \<noteq> asc CHR '' ''))"

definition item_text :: "cookie \<Rightarrow> byte list" where
  "item_text c = (case snd c of None \<Rightarrow> fst c | Some v \<Rightarrow> fst c @ asc CHR ''='' # v)"

fun render_cookies :: "cookie list \<Rightarrow> byte list" where
  "render_cookies [] = []"
| "render_cookies [c] = item_text c"
| "render_cookies (c # cs) = item_text c @ bytes ''; '' @ render_cookies cs"

text \<open>The value of the first item with the name, in the first line that has one, with the number of the line.\<close>

definition same_name :: "byte list \<Rightarrow> byte list \<Rightarrow> bool" where
  "same_name n m \<longleftrightarrow> map ngx_tolower n = map ngx_tolower m"

fun first_cookie :: "byte list \<Rightarrow> cookie list \<Rightarrow> byte list option" where
  "first_cookie name [] = None"
| "first_cookie name ((n, v) # cs) = (if same_name n name then v else first_cookie name cs)"

fun first_line :: "byte list \<Rightarrow> nat \<Rightarrow> cookie list list \<Rightarrow> (nat \<times> byte list) option" where
  "first_line name i [] = None"
| "first_line name i (cs # css) =
     (case first_cookie name cs of Some v \<Rightarrow> Some (i, v) | None \<Rightarrow> first_line name (Suc i) css)"

lemma skip_item_rest:
  assumes "\<forall>c\<in>set xs. c \<noteq> asc CHR '';'' \<and> c \<noteq> asc CHR '',''" "rest = [] \<or> hd rest = asc CHR '';''"
  shows "skip_item (xs @ rest) = dropWhile (\<lambda>c. c = asc CHR '' '') (tl rest)"
proof -
  have "dropWhile (\<lambda>c. c \<noteq> asc CHR '';'' \<and> c \<noteq> asc CHR '','') (xs @ rest) = rest"
    using assms by (subst dropWhile_append2) (auto simp: dropWhile_eq_self_iff)
  then show ?thesis by (simp add: skip_item_def)
qed

lemma prefix_name:
  assumes "map ngx_tolower (take (length name) (n @ r)) = map ngx_tolower name" "r = [] \<or> hd r = c"
    "\<And>x. ngx_tolower x = ngx_tolower c \<Longrightarrow> x = c" "c \<notin> set name" "\<not> same_name n name"
  shows "length name < length n"
proof (rule ccontr)
  assume "\<not> length name < length n"
  moreover have "length name \<noteq> length n" using assms(1,5) by (auto simp: same_name_def)
  ultimately have lt: "length n < length name" by simp
  have len: "length (take (length name) (n @ r)) = length name" using assms(1) by (metis length_map)
  then have r: "r \<noteq> []" "hd r = c" using lt assms(2) by auto
  have "map ngx_tolower (take (length name) (n @ r)) ! length n = ngx_tolower c"
    using lt len r by (simp add: nth_append hd_conv_nth)
  then have "ngx_tolower (name ! length n) = ngx_tolower c" using assms(1) lt by simp
  then have "name ! length n = c" by (rule assms(3))
  with lt assms(4) show False by (metis nth_mem)
qed

lemma tolower_separators:
  "ngx_tolower x = ngx_tolower (asc CHR ''='') \<Longrightarrow> x = asc CHR ''=''"
  "ngx_tolower x = ngx_tolower (asc CHR '';'') \<Longrightarrow> x = asc CHR '';''"
proof -
  have "ngx_tolower x = ngx_tolower (asc CHR ''='') \<longrightarrow> x = asc CHR ''=''"
    "ngx_tolower x = ngx_tolower (asc CHR '';'') \<longrightarrow> x = asc CHR '';''"
    by (rule byte_exhaust [of _ x]; simp add: ngx_tolower_def)+
  then show "ngx_tolower x = ngx_tolower (asc CHR ''='') \<Longrightarrow> x = asc CHR ''=''"
    "ngx_tolower x = ngx_tolower (asc CHR '';'') \<Longrightarrow> x = asc CHR '';''" by blast+
qed

text \<open>An item whose name is not the one looked for is passed over, also if it begins with that name.\<close>

lemma multi_scan_pass:
  assumes n: "token n" and name: "token name" "\<not> same_name n name"
    and r: "r = [] \<or> hd r = asc CHR ''='' \<or> hd r = asc CHR '';''"
    and w: "r = w @ rest" "\<forall>c\<in>set w. c \<noteq> asc CHR '','' \<and> c \<noteq> asc CHR '';''" "rest = [] \<or> hd rest = asc CHR '';''"
  shows "multi_scan name True (n @ r) = multi_scan name True (dropWhile (\<lambda>c. c = asc CHR '' '') (tl rest))"
proof -
  let ?s = "n @ r" and ?next = "dropWhile (\<lambda>c. c = asc CHR '' '') (tl rest)"
  have nc: "\<forall>c\<in>set n. c \<noteq> 0 \<and> c \<noteq> asc CHR '' '' \<and> c \<noteq> asc CHR '','' \<and> c \<noteq> asc CHR '';'' \<and> c \<noteq> asc CHR ''=''"
    using n by (simp add: token_def list_all_iff)
  have nm: "no_nul name" "asc CHR ''='' \<notin> set name" "asc CHR '';'' \<notin> set name"
    using name(1) by (auto simp: token_def list_all_iff no_nul_def)
  have eq: "ngx_strncasecmp ?s name (length name) = 0 \<longleftrightarrow> map ngx_tolower (take (length name) ?s) = map ngx_tolower name"
    using strncasecmp_zero [OF nm(1) order.refl, of ?s] by simp
  have skip: "skip_item (xs @ r) = ?next" if "set xs \<subseteq> set n" for xs
    using skip_item_rest [of "xs @ w" rest] w nc that by auto
  show ?thesis
  proof (cases "?s = []")
    case True
    then show ?thesis using w(1) by simp
  next
    case s: False
    show ?thesis
    proof (cases "map ngx_tolower (take (length name) ?s) = map ngx_tolower name")
      case True
      have zero: "ngx_strncasecmp ?s name (length name) = 0" using True unfolding eq .
      have lt: "length name < length n"
        using prefix_name [OF True _ tolower_separators(1) nm(2) name(2)] prefix_name [OF True _ tolower_separators(2) nm(3) name(2)] r
        by blast
      then have d: "drop (length name) ?s = n ! length name # drop (Suc (length name)) n @ r" by (simp add: Cons_nth_drop_Suc)
      have mem: "n ! length name \<in> set n" using lt by simp
      have s1: "dropWhile (\<lambda>c. c = asc CHR '' '') (drop (length name) ?s) = drop (length name) ?s"
        unfolding d using nc mem by auto
      have "hd (drop (length name) ?s) \<noteq> asc CHR ''=''" "drop (length name) ?s \<noteq> []" unfolding d using nc mem by auto
      moreover have "skip_item (tl (drop (length name) ?s)) = ?next"
        unfolding d list.sel by (rule skip) (meson set_drop_subset)
      ultimately show ?thesis
        using s zero s1 unfolding multi_scan.simps [of name True ?s] Let_def by (simp del: drop_append append_is_Nil_conv)
    next
      case False
      then show ?thesis using s skip [of n] unfolding eq [symmetric] multi_scan.simps [of name True ?s] by (simp del: append_is_Nil_conv)
    qed
  qed
qed

lemma multi_scan_found:
  assumes ok: "cookie_ok (n, Some v)" and rest: "rest = [] \<or> hd rest = asc CHR '';''"
    and name: "token name" "same_name n name"
  shows "multi_scan name True (n @ asc CHR ''='' # v @ rest) = Some v"
proof -
  let ?s = "n @ asc CHR ''='' # v @ rest"
  have v: "\<forall>c\<in>set v. c \<noteq> asc CHR '','' \<and> c \<noteq> asc CHR '';''" "v = [] \<or> hd v \<noteq> asc CHR '' ''"
    using ok by (auto simp: cookie_ok_def list_all_iff)
  have nm: "no_nul name" using name(1) by (auto simp: token_def list_all_iff no_nul_def)
  have len: "length n = length name" using name(2) unfolding same_name_def by (metis length_map)
  have zero: "ngx_strncasecmp ?s name (length name) = 0"
    using strncasecmp_zero [OF nm order.refl, of ?s] len name(2) by (simp add: same_name_def)
  have s1: "dropWhile (\<lambda>c. c = asc CHR '' '') (drop (length name) ?s) = asc CHR ''='' # v @ rest"
    using len by simp
  have s2: "dropWhile (\<lambda>c. c = asc CHR '' '') (v @ rest) = v @ rest"
    using v(2) rest by (cases v; cases rest) auto
  have "takeWhile (\<lambda>c. c \<noteq> asc CHR '';'') (v @ rest) = v"
    using v(1) rest by (subst takeWhile_append2) (auto simp: takeWhile_eq_Nil_iff)
  with zero s1 s2 show ?thesis
    unfolding multi_scan.simps [of name True ?s] Let_def by (simp del: drop_append)
qed

lemma render_cookies_Cons:
  "\<exists>rest. render_cookies (c # cs) = item_text c @ rest \<and> (rest = [] \<or> hd rest = asc CHR '';'')
     \<and> dropWhile (\<lambda>c. c = asc CHR '' '') (tl rest) = dropWhile (\<lambda>c. c = asc CHR '' '') (render_cookies cs)"
proof (cases cs)
  case Nil
  then show ?thesis by (intro exI [of _ "[]"]) simp
next
  case (Cons d cs')
  then show ?thesis by (intro exI [of _ "bytes ''; '' @ render_cookies cs"]) simp
qed

lemma render_cookies_start:
  "list_all cookie_ok cs \<Longrightarrow> dropWhile (\<lambda>c. c = asc CHR '' '') (render_cookies cs) = render_cookies cs"
proof (cases cs)
  case (Cons c cs')
  assume ok: "list_all cookie_ok cs"
  obtain rest where r: "render_cookies cs = item_text c @ rest" "rest = [] \<or> hd rest = asc CHR '';''"
    using render_cookies_Cons [of c cs'] Cons by auto
  have "item_text c @ rest = [] \<or> hd (item_text c @ rest) \<noteq> asc CHR '' ''"
    using ok Cons r(2) by (cases "fst c") (auto simp: cookie_ok_def token_def item_text_def hd_append split: option.splits)
  then show ?thesis unfolding r(1) by (cases "item_text c @ rest") auto
qed simp

text \<open>No item has the name and no value.\<close>

definition no_bare :: "byte list \<Rightarrow> cookie list \<Rightarrow> bool" where
  "no_bare name cs \<longleftrightarrow> list_all (\<lambda>(n, v). v = None \<longrightarrow> \<not> same_name n name) cs"

lemma multi_scan_cookies:
  assumes "list_all cookie_ok cs" "no_bare name cs" "token name"
  shows "multi_scan name True (render_cookies cs) = first_cookie name cs"
  using assms(1,2)
proof (induction cs)
  case Nil
  then show ?case by (simp add: multi_scan.simps)
next
  case (Cons c cs)
  obtain n v where c: "c = (n, v)" by (cases c)
  obtain rest where r: "render_cookies (c # cs) = item_text c @ rest" "rest = [] \<or> hd rest = asc CHR '';''"
    "dropWhile (\<lambda>c. c = asc CHR '' '') (tl rest) = dropWhile (\<lambda>c. c = asc CHR '' '') (render_cookies cs)"
    using render_cookies_Cons [of c cs] by blast
  have ok: "cookie_ok (n, v)" "list_all cookie_ok cs" "no_bare name cs" using Cons.prems c by (auto simp: no_bare_def)
  have IH: "multi_scan name True (dropWhile (\<lambda>c. c = asc CHR '' '') (tl rest)) = first_cookie name cs"
    using r(3) render_cookies_start [OF ok(2)] Cons.IH [OF ok(2,3)] by simp
  show ?case
  proof (cases "same_name n name")
    case True
    then obtain w where w: "v = Some w" using Cons.prems(2) c by (auto simp: no_bare_def)
    show ?thesis
      using multi_scan_found [OF ok(1) [unfolded w] r(2) assms(3) True] True unfolding r(1) by (simp add: c w item_text_def)
  next
    case False
    have n: "token n" using ok(1) by (simp add: cookie_ok_def)
    show ?thesis
    proof (cases v)
      case None
      have "multi_scan name True (n @ rest) = multi_scan name True (dropWhile (\<lambda>c. c = asc CHR '' '') (tl rest))"
        by (rule multi_scan_pass [OF n assms(3) False, of rest "[]" rest]) (use r(2) in auto)
      then show ?thesis using IH False unfolding r(1) by (simp add: c None item_text_def)
    next
      case (Some w)
      have "\<forall>c\<in>set (asc CHR ''='' # w). c \<noteq> asc CHR '','' \<and> c \<noteq> asc CHR '';''"
        using ok(1) Some by (auto simp: cookie_ok_def list_all_iff)
      then have "multi_scan name True (n @ (asc CHR ''='' # w) @ rest) = multi_scan name True (dropWhile (\<lambda>c. c = asc CHR '' '') (tl rest))"
        by (intro multi_scan_pass [OF n assms(3) False, of _ "asc CHR ''='' # w" rest]) (use r(2) in auto)
      then show ?thesis using IH False unfolding r(1) by (simp add: c Some item_text_def)
    qed
  qed
qed

lemma first_cookie_length: "first_cookie name cs = Some v \<Longrightarrow> length name \<le> length (render_cookies cs)"
proof (induction cs)
  case (Cons c cs)
  obtain rest where r: "render_cookies (c # cs) = item_text c @ rest" using render_cookies_Cons [of c cs] by blast
  show ?case
  proof (cases "same_name (fst c) name")
    case True
    then have "length (fst c) = length name" unfolding same_name_def by (metis length_map)
    then show ?thesis unfolding r by (auto simp: item_text_def split: option.splits)
  next
    case False
    then have "length name \<le> length (render_cookies cs)" using Cons by (cases c) auto
    then show ?thesis by (cases cs) auto
  qed
qed simp

lemma multi_lines:
  assumes "list_all (\<lambda>cs. list_all cookie_ok cs \<and> no_bare name cs) css" "token name"
  shows "ngx_http_parse_multi_header_lines (map render_cookies css) i name True = first_line name i css"
  using assms(1)
proof (induction css arbitrary: i)
  case (Cons cs css)
  have "multi_scan name True (render_cookies cs) = first_cookie name cs" using multi_scan_cookies [OF _ _ assms(2)] Cons.prems by simp
  moreover have "first_cookie name cs = None" if "length (render_cookies cs) < length name"
    using first_cookie_length [of name cs] that by (cases "first_cookie name cs") auto
  ultimately show ?case using Cons by (auto split: option.splits)
qed simp

text \<open>
  C32. Cookies are found. Take any number of \<open>Cookie\<close> header lines, each made of items joined by a semicolon
  and a space, most of them with a name and a value; names have no zero, space, comma, semicolon or equals sign,
  values no comma or semicolon. If no item consists of the name looked for without a value,
  \<open>ngx_http_parse_multi_header_lines\<close> returns the value of the first item with the name, without regard to
  case, and the number of its line, and declines when there is none. Names that only begin with the given
  one do not match. (An item of the bare name hides the next item, as the theorem below shows.)
\<close>

theorem cookie_lookup:
  assumes "list_all (\<lambda>cs. list_all cookie_ok cs \<and> no_bare name cs) css" "token name"
  shows "ngx_http_parse_multi_header_lines (map render_cookies css) 0 name True = first_line name 0 css"
  by (rule multi_lines [OF assms])

theorem cookie_lookup_witness:
  "ngx_http_parse_multi_header_lines [bytes ''a=1; sidx; sid2=x'', bytes ''b; SID=a=b; sid=2''] 0 (bytes ''sid'') True
   = Some (1, bytes ''a=b'')"
  using cookie_lookup [of "bytes ''sid''"
      "[[(bytes ''a'', Some (bytes ''1'')), (bytes ''sidx'', None), (bytes ''sid2'', Some (bytes ''x''))],
        [(bytes ''b'', None), (bytes ''SID'', Some (bytes ''a=b'')), (bytes ''sid'', Some (bytes ''2''))]]"]
  by (simp add: cookie_ok_def token_def no_bare_def same_name_def item_text_def ngx_tolower_def)

text \<open>
  An item without a value that has the name looked for hides the item after it: the byte that is
  tested for the equals sign is skipped even when it is the separator.
\<close>

theorem cookie_hidden_by_bare_name:
  "ngx_http_parse_multi_header_lines [bytes ''sid; sid=1''] 0 (bytes ''sid'') True = None
   \<and> ngx_http_parse_multi_header_lines [bytes ''x; sid=1''] 0 (bytes ''sid'') True = Some (0, bytes ''1'')"
  by (simp add: multi_scan.simps skip_item_def ngx_tolower_def numeral_3_eq_3 Let_def)

end
