(* ===== verification/Ngx_Queue.thy ===== *)
theory Ngx_Queue
  imports Ngx_Strcmp
begin

text \<open>
  The intrusive doubly linked queue of \<^verbatim>\<open>src/core/ngx_queue.h\<close> and \<^verbatim>\<open>src/core/ngx_queue.c\<close>. The macros
  assign to the links of nodes that other nodes point at, so the model keeps the store explicit:
  a heap maps the address of a node to its links. A queue is represented by its sentinel, and the
  refinement relation \<open>queue\<close> says which list of nodes a sentinel stands for; every operation is
  proved to act on that list as expected and to leave the other queues alone.
\<close>

section \<open>The heap and the macros\<close>

type_synonym addr = nat

record queue_heap =
  q_prev :: "addr \<Rightarrow> addr"
  q_next :: "addr \<Rightarrow> addr"

definition set_prev :: "addr \<Rightarrow> addr \<Rightarrow> queue_heap \<Rightarrow> queue_heap" where
  "set_prev a b H = H\<lparr>q_prev := (q_prev H)(a := b)\<rparr>"

definition set_next :: "addr \<Rightarrow> addr \<Rightarrow> queue_heap \<Rightarrow> queue_heap" where
  "set_next a b H = H\<lparr>q_next := (q_next H)(a := b)\<rparr>"

definition ngx_queue_init :: "addr \<Rightarrow> queue_heap \<Rightarrow> queue_heap" where
  "ngx_queue_init q H = set_next q q (set_prev q q H)"

definition ngx_queue_empty :: "addr \<Rightarrow> queue_heap \<Rightarrow> bool" where
  "ngx_queue_empty h H \<longleftrightarrow> h = q_prev H h"

definition ngx_queue_insert_head :: "addr \<Rightarrow> addr \<Rightarrow> queue_heap \<Rightarrow> queue_heap" where
  "ngx_queue_insert_head h x H =
     (let H = set_next x (q_next H h) H;
          H = set_prev (q_next H x) x H;
          H = set_prev x h H
      in set_next h x H)"

definition ngx_queue_insert_tail :: "addr \<Rightarrow> addr \<Rightarrow> queue_heap \<Rightarrow> queue_heap" where
  "ngx_queue_insert_tail h x H =
     (let H = set_prev x (q_prev H h) H;
          H = set_next (q_prev H x) x H;
          H = set_next x h H
      in set_prev h x H)"

definition ngx_queue_remove :: "addr \<Rightarrow> queue_heap \<Rightarrow> queue_heap" where
  "ngx_queue_remove x H =
     (let H = set_prev (q_next H x) (q_prev H x) H
      in set_next (q_prev H x) (q_next H x) H)"

definition ngx_queue_split :: "addr \<Rightarrow> addr \<Rightarrow> addr \<Rightarrow> queue_heap \<Rightarrow> queue_heap" where
  "ngx_queue_split h q n H =
     (let H = set_prev n (q_prev H h) H;
          H = set_next (q_prev H n) n H;
          H = set_next n q H;
          H = set_prev h (q_prev H q) H;
          H = set_next (q_prev H h) h H
      in set_prev q n H)"

definition ngx_queue_add :: "addr \<Rightarrow> addr \<Rightarrow> queue_heap \<Rightarrow> queue_heap" where
  "ngx_queue_add h n H =
     (let H = set_next (q_prev H h) (q_next H n) H;
          H = set_prev (q_next H n) (q_prev H h) H;
          H = set_prev h (q_prev H n) H
      in set_next (q_prev H h) h H)"

section \<open>The middle element and sorting\<close>

partial_function (option) middle_loop :: "queue_heap \<Rightarrow> addr \<Rightarrow> addr \<Rightarrow> addr \<Rightarrow> addr option" where
  "middle_loop H queue middle next =
     (let middle = q_next H middle; next = q_next H next in
      if next = q_prev H queue then Some middle
      else let next = q_next H next in
        if next = q_prev H queue then Some middle
        else middle_loop H queue middle next)"

definition ngx_queue_middle :: "queue_heap \<Rightarrow> addr \<Rightarrow> addr option" where
  "ngx_queue_middle H queue =
     (let middle = q_next H queue in
      if middle = q_prev H queue then Some middle
      else middle_loop H queue middle (q_next H queue))"

text \<open>The inner loop of the sort walks back to the place after which the node belongs.\<close>

partial_function (option) sort_place ::
  "queue_heap \<Rightarrow> (addr \<Rightarrow> addr \<Rightarrow> int) \<Rightarrow> addr \<Rightarrow> addr \<Rightarrow> addr \<Rightarrow> addr option" where
  "sort_place H cmp queue q prev =
     (if cmp prev q \<le> 0 then Some prev
      else let prev = q_prev H prev in
        if prev \<noteq> queue then sort_place H cmp queue q prev else Some prev)"

partial_function (option) queue_sort_loop ::
  "(addr \<Rightarrow> addr \<Rightarrow> int) \<Rightarrow> addr \<Rightarrow> addr \<Rightarrow> queue_heap \<Rightarrow> queue_heap option" where
  "queue_sort_loop cmp queue q H =
     (if q \<noteq> queue then
        (let prev = q_prev H q; next = q_next H q; H = ngx_queue_remove q H in
         case sort_place H cmp queue q prev of
           None \<Rightarrow> None
         | Some prev \<Rightarrow> queue_sort_loop cmp queue next (ngx_queue_insert_head prev q H))
      else Some H)"

definition ngx_queue_sort :: "(addr \<Rightarrow> addr \<Rightarrow> int) \<Rightarrow> addr \<Rightarrow> queue_heap \<Rightarrow> queue_heap option" where
  "ngx_queue_sort cmp queue H =
     (let q = q_next H queue in
      if q = q_prev H queue then Some H
      else queue_sort_loop cmp queue (q_next H q) H)"

section \<open>The list that a queue represents\<close>

definition edge :: "queue_heap \<Rightarrow> addr \<Rightarrow> addr \<Rightarrow> bool" where
  "edge H a b \<longleftrightarrow> q_next H a = b \<and> q_prev H b = a"

fun chain :: "queue_heap \<Rightarrow> addr list \<Rightarrow> bool" where
  "chain H [] \<longleftrightarrow> True"
| "chain H [x] \<longleftrightarrow> True"
| "chain H (x # y # xs) \<longleftrightarrow> edge H x y \<and> chain H (y # xs)"

definition queue :: "queue_heap \<Rightarrow> addr \<Rightarrow> addr list \<Rightarrow> bool" where
  "queue H h xs \<longleftrightarrow> distinct (h # xs) \<and> chain H (h # xs @ [h])"

lemma heap_simps [simp]:
  "q_next (set_next a b H) = (q_next H)(a := b)" "q_prev (set_next a b H) = q_prev H"
  "q_prev (set_prev a b H) = (q_prev H)(a := b)" "q_next (set_prev a b H) = q_next H"
  by (simp_all add: set_next_def set_prev_def)

lemma chain_append:
  "chain H (xs @ ys) \<longleftrightarrow> chain H xs \<and> chain H ys \<and> (xs = [] \<or> ys = [] \<or> edge H (last xs) (hd ys))"
proof (induction H xs rule: chain.induct)
  case (3 H x y xs)
  then show ?case by auto
next
  case (2 H x)
  then show ?case by (cases ys) auto
qed auto

text \<open>
  A chain is kept when the forward links of all its nodes but the last, and the backward links of
  all but the first, are kept.
\<close>

lemma chain_cong:
  assumes "\<And>x. x \<in> set (butlast xs) \<Longrightarrow> q_next H' x = q_next H x"
    and "\<And>x. x \<in> set (tl xs) \<Longrightarrow> q_prev H' x = q_prev H x"
  shows "chain H' xs = chain H xs"
  using assms
proof (induction H xs rule: chain.induct)
  case (3 H x y xs)
  have "chain H' (y # xs) = chain H (y # xs)"
    by (rule "3.IH") (use "3.prems" in \<open>auto split: if_splits\<close>)
  with "3.prems" show ?case by (simp add: edge_def)
qed simp_all

lemma queue_chain:
  "queue H h (as @ bs) \<longleftrightarrow> distinct (h # as @ bs) \<and> chain H (h # as) \<and> chain H (bs @ [h])
     \<and> edge H (last (h # as)) (hd (bs @ [h]))"
  using chain_append [of H "h # as" "bs @ [h]"] by (auto simp: queue_def)

lemma queue_ends:
  assumes "queue H h xs"
  shows "q_next H h = hd (xs @ [h])" "q_prev H h = last (h # xs)"
  using assms queue_chain [of H h "[]" xs] queue_chain [of H h xs "[]"] by (auto simp: edge_def)

lemma last_distinct: "distinct (x # xs) \<Longrightarrow> last (x # xs) \<notin> set (butlast (x # xs))"
  by (induction xs arbitrary: x) auto

lemma hd_distinct: "distinct (xs @ [x]) \<Longrightarrow> hd (xs @ [x]) \<notin> set (tl (xs @ [x]))"
  by (cases xs) auto

lemma last_end: "distinct (x # xs) \<Longrightarrow> last (x # xs) \<in> set (x # xs) \<and> last (x # xs) \<notin> set (butlast (x # xs))"
  by (rule conjI, rule last_in_set, simp, rule last_distinct)

lemma hd_end: "distinct (xs @ [x]) \<Longrightarrow> hd (xs @ [x]) \<in> set (xs @ [x]) \<and> hd (xs @ [x]) \<notin> set (tl (xs @ [x]))"
  by (rule conjI, rule hd_in_set, simp, rule hd_distinct)

lemma queue_init: "queue (ngx_queue_init h H) h []"
  by (simp add: queue_def ngx_queue_init_def edge_def)

lemma queue_empty: "queue H h xs \<Longrightarrow> ngx_queue_empty h H \<longleftrightarrow> xs = []"
  using queue_ends(2) [of H h xs] by (auto simp: ngx_queue_empty_def queue_def)

text \<open>Insertion behind the node at the end of \<open>as\<close>, the sentinel when \<open>as\<close> is empty.\<close>

lemma in_set_tlD: "x \<in> set (tl xs) \<Longrightarrow> x \<in> set xs"
  by (cases xs) auto

lemma queue_cut:
  assumes "queue H h (as @ bs)"
  obtains p n where "last (h # as) = p" "hd (bs @ [h]) = n" "edge H p n"
    "chain H (h # as)" "chain H (bs @ [h])" "distinct (h # as @ bs)"
    "p \<in> set (h # as)" "p \<notin> set (butlast (h # as))" "n \<in> set (bs @ [h])" "n \<notin> set (tl (bs @ [h]))"
proof
  show "edge H (last (h # as)) (hd (bs @ [h]))" "chain H (h # as)" "chain H (bs @ [h])" and d: "distinct (h # as @ bs)"
    using assms by (simp_all only: queue_chain simp_thms)
  show "last (h # as) \<in> set (h # as)" "hd (bs @ [h]) \<in> set (bs @ [h])" by (rule last_in_set hd_in_set; simp)+
  show "last (h # as) \<notin> set (butlast (h # as))" "hd (bs @ [h]) \<notin> set (tl (bs @ [h]))"
    using d by (auto intro!: last_distinct hd_distinct simp del: last.simps butlast.simps)
qed (rule refl)+

lemma queue_insert_after:
  assumes q: "queue H h (as @ bs)" and x: "x \<notin> set (h # as @ bs)"
  shows "queue (ngx_queue_insert_head (last (h # as)) x H) h (as @ x # bs)"
proof -
  obtain p n where pn: "last (h # as) = p" "hd (bs @ [h]) = n" "edge H p n"
    "chain H (h # as)" "chain H (bs @ [h])" "distinct (h # as @ bs)"
    "p \<in> set (h # as)" "p \<notin> set (butlast (h # as))" "n \<in> set (bs @ [h])" "n \<notin> set (tl (bs @ [h]))"
    by (rule queue_cut [OF q])
  define H' where "H' = ngx_queue_insert_head p x H"
  have xx: "x \<noteq> p" "x \<noteq> n" using x pn(7,9) by auto
  have H: "q_next H' = (q_next H)(x := n, p := x)" "q_prev H' = (q_prev H)(n := x, x := p)"
    using pn(3) xx by (auto simp: H'_def ngx_queue_insert_head_def Let_def edge_def)
  have "chain H' (h # as) = chain H (h # as)"
    by (rule chain_cong) (use pn x in \<open>auto simp: H dest: in_set_butlastD split: if_splits\<close>)
  moreover have "chain H' (bs @ [h]) = chain H (bs @ [h])"
    by (rule chain_cong) (use pn x in \<open>auto simp: H butlast_append dest: in_set_tlD\<close>)
  moreover have "edge H' p x" "edge H' x n" using xx by (auto simp: edge_def H)
  ultimately show ?thesis
    unfolding pn(1) H'_def [symmetric]
    using pn(1,2,4-6) x chain_append [of H' "h # as" "x # bs @ [h]"] chain_append [of H' "[x]" "bs @ [h]"]
    by (simp add: queue_def)
qed

lemma queue_insert_head: "queue H h xs \<Longrightarrow> x \<notin> set (h # xs) \<Longrightarrow> queue (ngx_queue_insert_head h x H) h (x # xs)"
  using queue_insert_after [of H h "[]" xs x] by simp

text \<open>The macro for the tail is the one for the head with the directions exchanged.\<close>

lemma insert_tail_head:
  assumes q: "queue H h xs" and x: "x \<notin> set (h # xs)"
  shows "ngx_queue_insert_tail h x H = ngx_queue_insert_head (last (h # xs)) x H"
proof -
  define p where "p = last (h # xs)"
  have e: "edge H p h" using q queue_chain [of H h xs "[]"] by (simp add: p_def)
  have "p \<in> set (h # xs)" unfolding p_def by (rule last_in_set) simp
  then have "x \<noteq> p" "x \<noteq> h" using x by auto
  then show ?thesis
    unfolding p_def [symmetric]
    by (intro queue_heap.equality)
      (use e in \<open>auto simp: ngx_queue_insert_tail_def ngx_queue_insert_head_def Let_def edge_def fun_upd_twist
         set_next_def set_prev_def\<close>)
qed

lemma queue_insert_tail:
  "queue H h xs \<Longrightarrow> x \<notin> set (h # xs) \<Longrightarrow> queue (ngx_queue_insert_tail h x H) h (xs @ [x])"
  using insert_tail_head [of H h xs x] queue_insert_after [of H h xs "[]" x] by simp

lemma queue_remove:
  assumes q: "queue H h (as @ x # bs)"
  shows "queue (ngx_queue_remove x H) h (as @ bs)"
proof -
  obtain p where pn: "last (h # as) = p" "edge H p x"
    "chain H (h # as)" "chain H (x # bs @ [h])" "distinct (h # as @ x # bs)"
    "p \<in> set (h # as)" "p \<notin> set (butlast (h # as))"
    by (rule queue_cut [OF q]) simp
  define n where "n = hd (bs @ [h])"
  define H' where "H' = ngx_queue_remove x H"
  have c: "chain H (bs @ [h])" "edge H x n" using pn(4) by (cases bs; simp add: n_def)+
  have nmem: "n \<in> set (bs @ [h])" "n \<notin> set (tl (bs @ [h]))"
    unfolding n_def using pn(5) hd_end [of bs h] by simp_all
  have xx: "x \<noteq> p" "x \<noteq> n" using pn(5,6) nmem by auto
  have H: "q_next H' = (q_next H)(p := n)" "q_prev H' = (q_prev H)(n := p)"
    using pn(2) c(2) xx by (auto simp: H'_def ngx_queue_remove_def Let_def edge_def)
  have "chain H' (h # as) = chain H (h # as)"
    by (rule chain_cong) (use pn nmem in \<open>auto simp: H dest: in_set_butlastD split: if_splits\<close>)
  moreover have "chain H' (bs @ [h]) = chain H (bs @ [h])"
    by (rule chain_cong) (use pn nmem in \<open>auto simp: H butlast_append dest: in_set_tlD\<close>)
  moreover have "edge H' p n" by (simp add: edge_def H)
  ultimately show ?thesis
    unfolding H'_def [symmetric] using pn(1,3,5) c(1) by (simp add: queue_chain n_def)
qed

text \<open>Splitting before the node \<open>q\<close>: the sentinel \<open>n\<close> takes over \<open>q\<close> and what follows.\<close>

lemma queue_split:
  assumes q: "queue H h (as @ q # bs)" and n: "n \<notin> set (h # as @ q # bs)"
  shows "queue (ngx_queue_split h q n H) h as \<and> queue (ngx_queue_split h q n H) n (q # bs)"
proof -
  obtain p where pn: "last (h # as) = p" "edge H p q"
    "chain H (h # as)" "chain H (q # bs @ [h])" "distinct (h # as @ q # bs)"
    "p \<in> set (h # as)" "p \<notin> set (butlast (h # as))"
    by (rule queue_cut [OF q]) simp
  define l where "l = last (q # bs)"
  define H' where "H' = ngx_queue_split h q n H"
  have c: "chain H (q # bs)" "edge H l h"
    using pn(4) chain_append [of H "q # bs" "[h]"] by (auto simp: l_def)
  have lmem: "l \<in> set (q # bs)" "l \<notin> set (butlast (q # bs))"
    unfolding l_def using pn(5) last_end [of q bs] by (simp_all only: distinct_append distinct.simps simp_thms)
  have xx: "n \<noteq> h" "n \<noteq> q" "n \<noteq> p" "n \<noteq> l" "h \<noteq> q" "h \<noteq> l" "p \<noteq> l" "p \<noteq> q" using pn(5,6) lmem n by auto
  have H: "q_next H' = (q_next H)(l := n, n := q, p := h)" "q_prev H' = (q_prev H)(n := l, h := p, q := n)"
    using pn(2) c(2) xx by (auto simp: H'_def ngx_queue_split_def Let_def edge_def)
  have "chain H' (h # as) = chain H (h # as)"
    by (rule chain_cong) (use pn lmem n in \<open>auto simp: H dest: in_set_butlastD split: if_splits\<close>)
  moreover have "chain H' (q # bs) = chain H (q # bs)"
    by (rule chain_cong) (use pn lmem n in \<open>auto simp: H dest: in_set_butlastD split: if_splits\<close>)
  moreover have "edge H' p h" "edge H' l n" "edge H' n q" using xx by (auto simp: edge_def H)
  ultimately show ?thesis
    unfolding H'_def [symmetric]
    using pn(1,3,5) c(1) n chain_append [of H' "q # bs" "[n]"] chain_append [of H' "h # as" "[h]"]
    by (auto simp: queue_def l_def)
qed

text \<open>Joining: the nodes of the queue \<open>n\<close> are appended to the queue \<open>h\<close>.\<close>

lemma queue_add:
  assumes q: "queue H h xs" "queue H n ys" and dis: "set (h # xs) \<inter> set (n # ys) = {}"
  shows "queue (ngx_queue_add h n H) h (xs @ ys)"
proof -
  define p l f where "p = last (h # xs)" and "l = last (n # ys)" and "f = hd (ys @ [n])"
  define H' where "H' = ngx_queue_add h n H"
  have c: "chain H (h # xs)" "edge H p h" "chain H (n # ys)" "edge H l n" "edge H n f" "chain H (ys @ [n])"
    and d: "distinct (h # xs)" "distinct (n # ys)"
    using q queue_chain [of H h xs "[]"] queue_chain [of H n ys "[]"] queue_chain [of H n "[]" ys]
    by (simp_all add: p_def l_def f_def)
  have pm: "p \<in> set (h # xs)" "p \<notin> set (butlast (h # xs))"
    unfolding p_def using last_end [OF d(1)] by (simp_all only: simp_thms)
  show ?thesis
  proof (cases "ys = []")
    case True
    then have "l = n" "f = n" by (simp_all add: l_def f_def)
    have "p \<noteq> n" "h \<noteq> n" using pm dis by auto
    have H: "q_next H' = (q_next H)(p := h)" "q_prev H' = (q_prev H)(n := p, h := p)"
      using c \<open>l = n\<close> \<open>f = n\<close> \<open>p \<noteq> n\<close> \<open>h \<noteq> n\<close> by (auto simp: H'_def ngx_queue_add_def Let_def edge_def)
    have "chain H' (h # xs) = chain H (h # xs)"
      by (rule chain_cong) (use pm d dis in \<open>auto simp: H dest: in_set_butlastD split: if_splits\<close>)
    moreover have "edge H' p h" by (simp add: edge_def H)
    ultimately show ?thesis
      unfolding H'_def [symmetric] using True c(1) d queue_chain [of H' h xs "[]"] by (simp add: p_def)
  next
    case False
    have lm: "l \<in> set ys" "l \<notin> set (butlast ys)" "f \<in> set ys" "f \<notin> set (tl ys)"
      unfolding l_def f_def using False d(2) last_distinct [of "hd ys" "tl ys"] hd_distinct [of ys n]
      by (cases ys; auto)+
    have xx: "p \<noteq> n" "h \<noteq> n" "l \<noteq> n" "f \<noteq> n" "p \<noteq> l" "h \<noteq> l" "p \<noteq> f" "h \<noteq> f" using pm dis lm d by auto
    have H: "q_next H' = (q_next H)(p := f, l := h)" "q_prev H' = (q_prev H)(f := p, h := l)"
      using c xx by (auto simp: H'_def ngx_queue_add_def Let_def edge_def)
    have "chain H' (h # xs) = chain H (h # xs)"
      by (rule chain_cong) (use pm d dis lm in \<open>auto simp: H dest: in_set_butlastD split: if_splits\<close>)
    moreover have "chain H' ys = chain H ys"
      by (rule chain_cong) (use pm d dis lm in \<open>auto simp: H dest: in_set_butlastD in_set_tlD split: if_splits\<close>)
    moreover have "chain H ys" using c(3) False by (cases ys) simp_all
    moreover have "edge H' p f" "edge H' l h" using xx by (auto simp: edge_def H)
    moreover have "l = last ys" "f = hd ys" using False by (simp_all add: l_def f_def)
    ultimately show ?thesis
      unfolding H'_def [symmetric]
      using c(1) d dis False chain_append [of H' ys "[h]"] by (auto simp: queue_chain p_def)
  qed
qed
section \<open>Frame\<close>

definition same_links :: "addr set \<Rightarrow> queue_heap \<Rightarrow> queue_heap \<Rightarrow> bool" where
  "same_links A H H' \<longleftrightarrow> (\<forall>a\<in>A. q_next H' a = q_next H a \<and> q_prev H' a = q_prev H a)"

lemma queue_frame: "queue H k zs \<Longrightarrow> same_links (set (k # zs)) H H' \<Longrightarrow> queue H' k zs"
proof -
  assume "queue H k zs" "same_links (set (k # zs)) H H'"
  moreover from this(2) have "chain H' (k # zs @ [k]) = chain H (k # zs @ [k])"
    by (intro chain_cong) (auto simp: same_links_def butlast_append)
  ultimately show ?thesis by (simp add: queue_def)
qed

lemma ends_in_queue:
  assumes "queue H h (as @ x # bs)"
  shows "q_prev H x \<in> set (h # as)" "q_next H x \<in> set (bs @ [h])"
proof -
  have p: "q_prev H x = last (h # as)" and n: "q_next H x = hd (bs @ [h])"
    using queue_chain [of H h as "x # bs"] queue_chain [of H h "as @ [x]" bs] assms by (simp_all add: edge_def)
  show "q_prev H x \<in> set (h # as)" unfolding p by (rule last_in_set) simp
  show "q_next H x \<in> set (bs @ [h])" unfolding n by (rule hd_in_set) simp
qed

lemma insert_frame:
  assumes "queue H h xs" "x \<notin> set (h # xs)" "p \<in> set (h # xs)"
  shows "same_links (- insert x (set (h # xs))) H (ngx_queue_insert_head p x H)"
proof -
  have "q_next H p \<in> set (h # xs)"
  proof (cases "p = h")
    case True
    then show ?thesis using queue_ends(1) [OF assms(1)] by (cases xs) auto
  next
    case False
    then obtain as bs where "xs = as @ p # bs" using assms(3) by (auto dest: split_list)
    then show ?thesis using ends_in_queue(2) [of H h as p bs] assms(1) by auto
  qed
  then show ?thesis using assms(2,3) by (auto simp: same_links_def ngx_queue_insert_head_def Let_def)
qed

lemma remove_frame:
  assumes "queue H h (as @ x # bs)"
  shows "same_links (- set (h # as @ bs)) H (ngx_queue_remove x H)"
proof -
  have "distinct (h # as @ x # bs)" using assms by (simp add: queue_def)
  then show ?thesis
    using ends_in_queue [OF assms] by (auto simp: same_links_def ngx_queue_remove_def Let_def)
qed

section \<open>The middle element\<close>

lemma chain_nth: "chain H ys \<Longrightarrow> Suc i < length ys \<Longrightarrow> edge H (ys ! i) (ys ! Suc i)"
proof (induction H ys arbitrary: i rule: chain.induct)
  case (3 H x y xs)
  then show ?case by (cases i) auto
qed auto

lemma queue_nth: "queue H h xs \<Longrightarrow> Suc i < length xs \<Longrightarrow> q_next H (xs ! i) = xs ! Suc i"
  using chain_nth [of H "h # xs @ [h]" "Suc i"] by (simp add: queue_def edge_def nth_append)

lemma middle_loop_index:
  assumes q: "queue H h xs"
  shows "2 * i + 1 < length xs \<Longrightarrow> middle_loop H h (xs ! i) (xs ! (2 * i)) = Some (xs ! (length xs div 2))"
proof (induction "length xs - 2 * i" arbitrary: i rule: less_induct)
  case less
  have d: "distinct xs" and l: "q_prev H h = xs ! (length xs - 1)"
    using q queue_ends(2) [OF q] less.prems by (auto simp: queue_def last_conv_nth split: if_splits)
  have m: "q_next H (xs ! i) = xs ! Suc i" and n1: "q_next H (xs ! (2 * i)) = xs ! Suc (2 * i)"
    using queue_nth [OF q] less.prems by simp_all
  have lst: "xs ! j = q_prev H h \<longleftrightarrow> j = length xs - 1" if "j < length xs" for j
    unfolding l using nth_eq_iff_index_eq [OF d, of j "length xs - 1"] that by simp
  have "length xs = 2 * i + 2 \<or> length xs = 2 * i + 3 \<or> 2 * Suc i + 1 < length xs" using less.prems by auto
  then consider "length xs = 2 * i + 2" | "length xs = 2 * i + 3" | "2 * Suc i + 1 < length xs" by blast
  then show ?case
  proof cases
    case 1
    then show ?thesis using m n1 lst [of "Suc (2 * i)"] by (simp add: middle_loop.simps Let_def)
  next
    case 2
    then have "q_next H (xs ! Suc (2 * i)) = xs ! Suc (Suc (2 * i))" using queue_nth [OF q] by simp
    with 2 show ?thesis using m n1 lst [of "Suc (2 * i)"] lst [of "Suc (Suc (2 * i))"]
      by (simp add: middle_loop.simps Let_def)
  next
    case 3
    then have "q_next H (xs ! Suc (2 * i)) = xs ! Suc (Suc (2 * i))" using queue_nth [OF q] by simp
    moreover have "middle_loop H h (xs ! Suc i) (xs ! (2 * Suc i)) = Some (xs ! (length xs div 2))"
      using less.hyps [of "Suc i"] 3 by simp
    moreover have "Suc (2 * i) \<noteq> length xs - 1" "Suc (Suc (2 * i)) \<noteq> length xs - 1" using 3 by auto
    ultimately show ?thesis
      using 3 m n1 lst [of "Suc (2 * i)"] lst [of "Suc (Suc (2 * i))"]
      by (simp add: middle_loop.simps [of H h "xs ! i"] Let_def)
  qed
qed

lemma queue_middle:
  assumes q: "queue H h xs" "xs \<noteq> []"
  shows "ngx_queue_middle H h = Some (xs ! (length xs div 2))"
proof -
  have e: "q_next H h = xs ! 0" "q_prev H h = last xs"
    using queue_ends [OF q(1)] q(2) by (simp_all add: hd_conv_nth nth_append)
  show ?thesis
  proof (cases "length xs = 1")
    case True
    then show ?thesis using e by (cases xs) (auto simp: ngx_queue_middle_def)
  next
    case False
    with q(2) have len: "1 < length xs" by (cases xs) auto
    then have "xs ! 0 \<noteq> last xs"
      using q nth_eq_iff_index_eq [of xs 0 "length xs - 1"] by (auto simp: queue_def last_conv_nth)
    then show ?thesis
      using middle_loop_index [OF q(1), of 0] len e by (simp add: ngx_queue_middle_def)
  qed
qed

section \<open>Sorting\<close>

lemma sort_place_found:
  assumes "queue H h (ys @ rest)" "ys \<noteq> []"
  shows "sort_place H cmp h q (last ys) = Some (last (h # rev (dropWhile (\<lambda>x. 0 < cmp x q) (rev ys))))"
  using assms
proof (induction ys arbitrary: rest rule: rev_induct)
  case (snoc y ys)
  have q: "queue H h (ys @ y # rest)" using snoc.prems(1) by simp
  have p: "q_prev H y = last (h # ys)"
    using q queue_chain [of H h ys "y # rest"] by (simp add: edge_def)
  show ?case
  proof (cases "0 < cmp y q")
    case False
    then show ?thesis by (simp add: sort_place.simps)
  next
    case True
    show ?thesis
    proof (cases "ys = []")
      case nil: True
      with True p show ?thesis by (simp add: sort_place.simps)
    next
      case ne: False
      have "last ys \<noteq> h" using q ne last_in_set [OF ne] by (auto simp: queue_def)
      with True p ne snoc.IH [OF q ne] show ?thesis
        by (simp add: sort_place.simps [of H cmp h q y] Let_def)
    qed
  qed
qed simp

lemma queue_sort_loop_sorts:
  assumes c: "comparator cmp key ok" and ok: "\<forall>x\<in>set (xs @ rest). ok x"
    and q: "queue H h (sort_key key xs @ rest)" and xs: "xs \<noteq> []"
  shows "\<exists>H'. queue_sort_loop cmp h (hd (rest @ [h])) H = Some H' \<and> queue H' h (sort_key key (xs @ rest))
    \<and> same_links (- set (h # xs @ rest)) H H'"
  using ok q xs
proof (induction rest arbitrary: xs H)
  case Nil
  then show ?case by (auto simp: queue_sort_loop.simps same_links_def)
next
  case (Cons x rest)
  let ?zs = "sort_key key xs"
  define lo hi where "lo = rev (dropWhile (\<lambda>y. 0 < cmp y x) (rev ?zs))"
    and "hi = rev (takeWhile (\<lambda>y. 0 < cmp y x) (rev ?zs))"
  have zs: "?zs = lo @ hi" unfolding lo_def hi_def by (metis rev_append rev_rev_ident takeWhile_dropWhile_id)
  have ne: "?zs \<noteq> []" using Cons.prems(3) by (metis length_0_conv length_sort)
  have sets: "set ?zs = set xs" by simp
  have ins: "lo @ x # hi = sort_key key (xs @ [x])"
    unfolding lo_def hi_def using comparator.insert_stable [OF c, of ?zs x xs] Cons.prems(1) by simp
  define H1 where "H1 = ngx_queue_remove x H"
  have q1: "queue H1 h (?zs @ rest)" unfolding H1_def by (rule queue_remove [OF Cons.prems(2)])
  have d: "distinct (h # ?zs @ x # rest)" using Cons.prems(2) by (simp only: queue_def)
  have pr: "q_prev H x = last ?zs" "q_next H x = hd (rest @ [h])"
    using Cons.prems(2) queue_chain [of H h ?zs "x # rest"] queue_chain [of H h "?zs @ [x]" rest] ne
    by (simp_all add: edge_def)
  have place: "sort_place H1 cmp h x (last ?zs) = Some (last (h # lo))"
    using sort_place_found [OF q1 ne] by (simp only: lo_def)
  define H2 where "H2 = ngx_queue_insert_head (last (h # lo)) x H1"
  have q1': "queue H1 h (lo @ hi @ rest)" using q1 unfolding zs by simp
  have xn: "x \<notin> set (h # lo @ hi @ rest)" using d unfolding zs by auto
  have q2: "queue H2 h (sort_key key (xs @ [x]) @ rest)"
    using queue_insert_after [OF q1' xn] unfolding H2_def ins [symmetric] by simp
  have step: "queue_sort_loop cmp h x H = queue_sort_loop cmp h (hd (rest @ [h])) H2"
    using d pr place by (simp add: queue_sort_loop.simps [of cmp h x] H1_def [symmetric] H2_def Let_def del: last.simps)
  have "\<exists>H'. queue_sort_loop cmp h (hd (rest @ [h])) H2 = Some H' \<and> queue H' h (sort_key key ((xs @ [x]) @ rest))
      \<and> same_links (- set (h # (xs @ [x]) @ rest)) H2 H'"
    by (rule Cons.IH) (use Cons.prems(1) q2 in auto)
  then obtain H' where H': "queue_sort_loop cmp h (hd (rest @ [h])) H2 = Some H'"
    "queue H' h (sort_key key (xs @ x # rest))" "same_links (- set (h # xs @ x # rest)) H2 H'" by auto
  have "same_links (- set (h # xs @ x # rest)) H H1"
    using remove_frame [OF Cons.prems(2)] unfolding H1_def same_links_def sets set_simps set_append by auto
  moreover have "last (h # lo) \<in> set (h # lo @ hi @ rest)" by (metis Cons_eq_appendI Un_iff last_in_set list.distinct(1) set_append)
  then have "same_links (- set (h # xs @ x # rest)) H1 H2"
    using insert_frame [OF q1' xn, of "last (h # lo)"] arg_cong [OF zs, of set] unfolding H2_def same_links_def by auto
  ultimately have "same_links (- set (h # xs @ x # rest)) H H'" using H'(3) by (simp add: same_links_def)
  with H' step show ?case by auto
qed

lemma queue_sort_sorts:
  assumes c: "comparator cmp key ok" and ok: "\<forall>x\<in>set xs. ok x" and q: "queue H h xs"
  shows "\<exists>H'. ngx_queue_sort cmp h H = Some H' \<and> queue H' h (sort_key key xs)
    \<and> same_links (- set (h # xs)) H H'"
proof (cases "length xs \<le> 1")
  case True
  then have "q_next H h = q_prev H h" "sort_key key xs = xs"
    using queue_ends [OF q] by (cases xs; auto)+
  then show ?thesis using q by (simp add: ngx_queue_sort_def same_links_def)
next
  case False
  then obtain x y rest where xs: "xs = x # y # rest" by (cases xs; cases "tl xs") auto
  have ne: "q_next H h \<noteq> q_prev H h" "q_next H h = x" "q_next H x = y"
    using queue_ends [OF q] q unfolding xs by (auto simp: queue_def edge_def split: if_splits)
  have "queue H h (sort_key key [x] @ y # rest)" using q by (simp add: xs)
  from queue_sort_loop_sorts [OF c _ this] ok ne show ?thesis
    by (simp add: ngx_queue_sort_def xs)
qed

section \<open>Several queues in one memory\<close>

text \<open>
  The abstract state maps each sentinel in use to the list of its nodes. An operation names the queue it
  works on; the macros that get a node instead of a sentinel do not see it.
\<close>

type_synonym queues = "addr \<rightharpoonup> addr list"

datatype queue_op =
  Q_init addr
| Q_insert_head addr addr
| Q_insert_tail addr addr
| Q_insert_after addr addr addr
| Q_remove addr addr
| Q_split addr addr addr
| Q_add addr addr

fun queue_op_run :: "queue_op \<Rightarrow> queue_heap \<Rightarrow> queue_heap" where
  "queue_op_run (Q_init h) = ngx_queue_init h"
| "queue_op_run (Q_insert_head h x) = ngx_queue_insert_head h x"
| "queue_op_run (Q_insert_tail h x) = ngx_queue_insert_tail h x"
| "queue_op_run (Q_insert_after h y x) = ngx_queue_insert_head y x"
| "queue_op_run (Q_remove h x) = ngx_queue_remove x"
| "queue_op_run (Q_split h q n) = ngx_queue_split h q n"
| "queue_op_run (Q_add h n) = ngx_queue_add h n"

fun insert_behind :: "addr \<Rightarrow> addr \<Rightarrow> addr list \<Rightarrow> addr list" where
  "insert_behind y x [] = []"
| "insert_behind y x (z # zs) = (if z = y then z # x # zs else z # insert_behind y x zs)"

fun queue_op_spec :: "queue_op \<Rightarrow> queues \<Rightarrow> queues" where
  "queue_op_spec (Q_init h) M = M(h \<mapsto> [])"
| "queue_op_spec (Q_insert_head h x) M = M(h \<mapsto> x # the (M h))"
| "queue_op_spec (Q_insert_tail h x) M = M(h \<mapsto> the (M h) @ [x])"
| "queue_op_spec (Q_insert_after h y x) M = M(h \<mapsto> insert_behind y x (the (M h)))"
| "queue_op_spec (Q_remove h x) M = M(h \<mapsto> remove1 x (the (M h)))"
| "queue_op_spec (Q_split h q n) M = M(h \<mapsto> takeWhile (\<lambda>x. x \<noteq> q) (the (M h)), n \<mapsto> dropWhile (\<lambda>x. x \<noteq> q) (the (M h)))"
| "queue_op_spec (Q_add h n) M = M(h \<mapsto> the (M h) @ the (M n), n := None)"

definition unused :: "addr \<Rightarrow> queues \<Rightarrow> bool" where
  "unused x M \<longleftrightarrow> (\<forall>h xs. M h = Some xs \<longrightarrow> x \<notin> set (h # xs))"

definition member :: "addr \<Rightarrow> addr \<Rightarrow> queues \<Rightarrow> bool" where
  "member x h M \<longleftrightarrow> (case M h of None \<Rightarrow> False | Some xs \<Rightarrow> x \<in> set xs)"

fun queue_op_legal :: "queue_op \<Rightarrow> queues \<Rightarrow> bool" where
  "queue_op_legal (Q_init h) M \<longleftrightarrow> unused h M"
| "queue_op_legal (Q_insert_head h x) M \<longleftrightarrow> M h \<noteq> None \<and> unused x M"
| "queue_op_legal (Q_insert_tail h x) M \<longleftrightarrow> M h \<noteq> None \<and> unused x M"
| "queue_op_legal (Q_insert_after h y x) M \<longleftrightarrow> member y h M \<and> unused x M"
| "queue_op_legal (Q_remove h x) M \<longleftrightarrow> member x h M"
| "queue_op_legal (Q_split h q n) M \<longleftrightarrow> member q h M \<and> unused n M"
| "queue_op_legal (Q_add h n) M \<longleftrightarrow> h \<noteq> n \<and> M h \<noteq> None \<and> M n \<noteq> None"

fun queue_ops_legal :: "queue_op list \<Rightarrow> queues \<Rightarrow> bool" where
  "queue_ops_legal [] M \<longleftrightarrow> True"
| "queue_ops_legal (x # xs) M \<longleftrightarrow> queue_op_legal x M \<and> queue_ops_legal xs (queue_op_spec x M)"

definition queues :: "queue_heap \<Rightarrow> queues \<Rightarrow> bool" where
  "queues H M \<longleftrightarrow> (\<forall>h xs. M h = Some xs \<longrightarrow> queue H h xs)
     \<and> (\<forall>h k xs ys. h \<noteq> k \<longrightarrow> M h = Some xs \<longrightarrow> M k = Some ys \<longrightarrow> set (h # xs) \<inter> set (k # ys) = {})"

lemma queuesD:
  assumes "queues H M" "M h = Some xs"
  shows "queue H h xs" "distinct (h # xs)" "k \<noteq> h \<Longrightarrow> M k = Some ys \<Longrightarrow> set (k # ys) \<inter> set (h # xs) = {}"
proof -
  show "queue H h xs" using assms by (simp add: queues_def)
  then show "distinct (h # xs)" by (simp add: queue_def)
  show "k \<noteq> h \<Longrightarrow> M k = Some ys \<Longrightarrow> set (k # ys) \<inter> set (h # xs) = {}"
    using assms unfolding queues_def by blast
qed

text \<open>An operation that only changes links in \<open>A\<close> and only the lists of the queues in \<open>D\<close>.\<close>

lemma queues_change:
  assumes q: "queues H M" and fr: "same_links (- A) H H'" and eq: "\<And>k. k \<notin> D \<Longrightarrow> M' k = M k"
    and out: "\<And>k ys. k \<notin> D \<Longrightarrow> M k = Some ys \<Longrightarrow> set (k # ys) \<inter> A = {}"
    and new: "\<And>h xs. h \<in> D \<Longrightarrow> M' h = Some xs \<Longrightarrow> queue H' h xs \<and> set (h # xs) \<subseteq> A"
    and dis: "\<And>h k xs ys. h \<in> D \<Longrightarrow> k \<in> D \<Longrightarrow> h \<noteq> k \<Longrightarrow> M' h = Some xs \<Longrightarrow> M' k = Some ys \<Longrightarrow> set (h # xs) \<inter> set (k # ys) = {}"
  shows "queues H' M'"
  unfolding queues_def
proof (intro conjI allI impI)
  fix h xs assume h: "M' h = Some xs"
  show "queue H' h xs"
  proof (cases "h \<in> D")
    case True
    then show ?thesis using new h by blast
  next
    case False
    then have m: "M h = Some xs" using h eq by simp
    then have "set (h # xs) \<subseteq> - A" using out [OF False] by blast
    then have "same_links (set (h # xs)) H H'" using fr unfolding same_links_def by blast
    then show ?thesis by (rule queue_frame [OF queuesD(1) [OF q m]])
  qed
next
  fix h k xs ys assume a: "h \<noteq> k" "M' h = Some xs" "M' k = Some ys"
  consider "h \<in> D" "k \<in> D" | "h \<in> D" "k \<notin> D" | "h \<notin> D" "k \<in> D" | "h \<notin> D" "k \<notin> D" by blast
  then show "set (h # xs) \<inter> set (k # ys) = {}"
  proof cases
    case 1
    then show ?thesis using dis a by blast
  next
    case 2
    then show ?thesis using new [of h xs] out [of k ys] eq [of k] a by auto
  next
    case 3
    then show ?thesis using new [of k ys] out [of h xs] eq [of h] a by auto
  next
    case 4
    then show ?thesis using queuesD(3) [OF q, of k ys h xs] eq a by auto
  qed
qed

lemma queues_change_one:
  assumes q: "queues H M" and h: "M h = Some xs" and x: "\<forall>x\<in>X. unused x M"
    and fr: "same_links (- (set (h # xs) \<union> X)) H H'" and new: "queue H' h xs'" "set xs' \<subseteq> set xs \<union> X"
  shows "queues H' (M(h \<mapsto> xs'))"
proof (rule queues_change [OF q fr, where D = "{h}"])
  show "set (k # ys) \<inter> (set (h # xs) \<union> X) = {}" if "k \<notin> {h}" "M k = Some ys" for k ys
    using queuesD(3) [OF q h _ that(2)] that x unfolding unused_def by blast
qed (use new in auto)

lemma split_frame:
  assumes q: "queue H h (as @ x # bs)" and n: "n \<notin> set (h # as @ x # bs)"
  shows "same_links (- insert n (set (h # as @ x # bs))) H (ngx_queue_split h x n H)"
proof -
  have p: "q_prev H x \<in> set (h # as)" by (rule ends_in_queue(1) [OF q])
  have l: "q_prev H h \<in> set (h # as @ x # bs)" using queue_ends(2) [OF q] last_in_set [of "x # bs"] by auto
  have "distinct (h # as @ x # bs)" using q by (simp add: queue_def)
  then show ?thesis using p l n by (auto simp: same_links_def ngx_queue_split_def Let_def)
qed

lemma add_frame:
  assumes q: "queue H h xs" "queue H n ys"
  shows "same_links (- (set (h # xs) \<union> set (n # ys))) H (ngx_queue_add h n H)"
proof -
  have e: "q_prev H k \<in> set (k # zs)" "q_next H k \<in> set (k # zs)" if "queue H k zs" for k zs
    using queue_ends [OF that] by (cases zs; auto)+
  show ?thesis using e [OF q(1)] e [OF q(2)] by (auto simp: same_links_def ngx_queue_add_def Let_def)
qed

lemma insert_behind_split: "y \<notin> set as \<Longrightarrow> insert_behind y x (as @ y # bs) = as @ y # x # bs"
  by (induction as) auto

lemma split_while: "y \<notin> set as \<Longrightarrow> takeWhile (\<lambda>x. x \<noteq> y) (as @ y # bs) = as \<and> dropWhile (\<lambda>x. x \<noteq> y) (as @ y # bs) = y # bs"
  by (induction as) auto

lemma member_split:
  assumes "queues H M" "member x h M"
  obtains as bs where "M h = Some (as @ x # bs)" "x \<notin> set as"
proof -
  obtain xs where xs: "M h = Some xs" "x \<in> set xs" using assms(2) by (auto simp: member_def split: option.splits)
  then obtain as bs where "xs = as @ x # bs" "x \<notin> set as" by (auto dest: split_list_first)
  then show ?thesis using that xs by blast
qed

lemma unusedD: "unused x M \<Longrightarrow> M h = Some xs \<Longrightarrow> x \<notin> set (h # xs)"
  by (simp add: unused_def)

lemma queues_insert_after:
  assumes q: "queues H M" and h: "M h = Some (as @ bs)" and x: "unused x M"
  shows "queues (ngx_queue_insert_head (last (h # as)) x H) (M(h \<mapsto> as @ x # bs))"
proof (rule queues_change_one [OF q h, where X = "{x}"])
  note Q = queuesD(1) [OF q h] and n = unusedD [OF x h]
  have l: "last (h # as) \<in> set (h # as @ bs)" using last_in_set [of "h # as"] by (auto simp del: last.simps)
  have "set (h # as @ bs) \<union> {x} = insert x (set (h # as @ bs))" by auto
  then show "same_links (- (set (h # as @ bs) \<union> {x})) H (ngx_queue_insert_head (last (h # as)) x H)"
    using insert_frame [OF Q n l] by (simp only:)
  show "queue (ngx_queue_insert_head (last (h # as)) x H) h (as @ x # bs)" by (rule queue_insert_after [OF Q n])
qed (use x in auto)

lemma queues_split:
  assumes q: "queues H M" and h: "M h = Some (as @ x # bs)" and n: "unused n M"
  shows "queues (ngx_queue_split h x n H) (M(h \<mapsto> as, n \<mapsto> x # bs))"
proof -
  note Q = queuesD(1) [OF q h] and nn = unusedD [OF n h]
  have d: "distinct (h # as @ x # bs)" by (rule queuesD(2) [OF q h])
  show ?thesis
  proof (rule queues_change [OF q split_frame [OF Q nn], where D = "{h, n}"])
    fix k ys assume "k \<notin> {h, n}" "M k = Some ys"
    then show "set (k # ys) \<inter> insert n (set (h # as @ x # bs)) = {}"
      using queuesD(3) [OF q h, of k ys] unusedD [OF n, of k ys] by auto
  next
    fix k xs assume k: "k \<in> {h, n}" "(M(h \<mapsto> as, n \<mapsto> x # bs)) k = Some xs"
    then show "queue (ngx_queue_split h x n H) k xs \<and> set (k # xs) \<subseteq> insert n (set (h # as @ x # bs))"
      using queue_split [OF Q nn] nn by (auto split: if_splits)
  next
    fix k l xs ys
    assume "k \<in> {h, n}" "l \<in> {h, n}" "k \<noteq> l" "(M(h \<mapsto> as, n \<mapsto> x # bs)) k = Some xs" "(M(h \<mapsto> as, n \<mapsto> x # bs)) l = Some ys"
    then show "set (k # xs) \<inter> set (l # ys) = {}" using d nn by (auto split: if_splits)
  qed auto
qed

lemma queues_add:
  assumes q: "queues H M" and h: "M h = Some xs" "M n = Some ys" "h \<noteq> n"
  shows "queues (ngx_queue_add h n H) (M(h \<mapsto> xs @ ys, n := None))"
proof -
  note Q = queuesD(1) [OF q h(1)] queuesD(1) [OF q h(2)]
  have d: "set (h # xs) \<inter> set (n # ys) = {}" by (rule queuesD(3) [OF q h(2) h(3) h(1)])
  show ?thesis
  proof (rule queues_change [OF q add_frame [OF Q], where D = "{h, n}"])
    fix k zs assume "k \<notin> {h, n}" "M k = Some zs"
    then show "set (k # zs) \<inter> (set (h # xs) \<union> set (n # ys)) = {}"
      using queuesD(3) [OF q h(1), of k zs] queuesD(3) [OF q h(2), of k zs] by blast
  next
    fix k zs assume k: "k \<in> {h, n}" "(M(h \<mapsto> xs @ ys, n := None)) k = Some zs"
    then show "queue (ngx_queue_add h n H) k zs \<and> set (k # zs) \<subseteq> set (h # xs) \<union> set (n # ys)"
      using queue_add [OF Q d] by (auto split: if_splits)
  qed (auto split: if_splits)
qed

lemma queues_init:
  assumes q: "queues H M" and h: "unused h M"
  shows "queues (ngx_queue_init h H) (M(h \<mapsto> []))"
proof (rule queues_change [OF q, where D = "{h}" and A = "{h}"])
  show "same_links (- {h}) H (ngx_queue_init h H)" by (simp add: same_links_def ngx_queue_init_def)
  show "set (k # ys) \<inter> {h} = {}" if "M k = Some ys" for k ys using unusedD [OF h that] by auto
qed (use queue_init in \<open>auto split: if_splits\<close>)

lemma queue_op_simulates:
  assumes q: "queues H M" and l: "queue_op_legal x M"
  shows "queues (queue_op_run x H) (queue_op_spec x M)"
proof (cases x)
  case (Q_init h)
  then show ?thesis using queues_init [OF q] l by simp
next
  case (Q_insert_head h a)
  then obtain xs where "M h = Some xs" "unused a M" using l by auto
  then show ?thesis using queues_insert_after [OF q, of h "[]" xs a] Q_insert_head by simp
next
  case (Q_insert_tail h a)
  then obtain xs where h: "M h = Some xs" "unused a M" using l by auto
  then show ?thesis using queues_insert_after [OF q, of h xs "[]" a] Q_insert_tail
      insert_tail_head [OF queuesD(1) [OF q h(1)] unusedD [OF h(2,1)]] by simp
next
  case (Q_insert_after h y a)
  obtain as bs where h: "M h = Some (as @ y # bs)" "y \<notin> set as" by (rule member_split [OF q]) (use l Q_insert_after in auto)
  then show ?thesis using queues_insert_after [OF q, of h "as @ [y]" bs a] l Q_insert_after insert_behind_split [OF h(2)] by simp
next
  case (Q_remove h a)
  obtain as bs where h: "M h = Some (as @ a # bs)" "a \<notin> set as" by (rule member_split [OF q]) (use l Q_remove in auto)
  note Q = queuesD(1) [OF q h(1)]
  have "queues (ngx_queue_remove a H) (M(h \<mapsto> as @ bs))"
  proof (rule queues_change_one [OF q h(1), where X = "{}"])
    show "same_links (- (set (h # as @ a # bs) \<union> {})) H (ngx_queue_remove a H)"
      using remove_frame [OF Q] by (auto simp: same_links_def)
  qed (use queue_remove [OF Q] in auto)
  then show ?thesis using h Q_remove by (simp add: remove1_append)
next
  case (Q_split h a n)
  obtain as bs where h: "M h = Some (as @ a # bs)" "a \<notin> set as" by (rule member_split [OF q]) (use l Q_split in auto)
  then show ?thesis using queues_split [OF q h(1)] l Q_split split_while [OF h(2)] by simp
next
  case (Q_add h n)
  then obtain xs ys where "M h = Some xs" "M n = Some ys" "h \<noteq> n" using l by auto
  then show ?thesis using queues_add [OF q] Q_add by simp
qed

lemma queue_ops_simulate: "queues H M \<Longrightarrow> queue_ops_legal xs M \<Longrightarrow> queues (fold queue_op_run xs H) (fold queue_op_spec xs M)"
  by (induction xs arbitrary: H M) (auto intro: queue_op_simulates)

text \<open>
  C10. For every sequence of initialisations, insertions at the head, at the tail and behind a node,
  removals, splits and joins on any number of queues in one memory, each queue stands for its list of
  nodes in both directions, an empty one included, the emptiness test and the first and last node are
  those of the list, and no operation disturbs a queue it does not name.
\<close>

theorem queue_refines_list:
  assumes "queue_ops_legal ops Map.empty" "fold queue_op_spec ops Map.empty h = Some xs"
  shows "queue (fold queue_op_run ops H) h xs \<and> (ngx_queue_empty h (fold queue_op_run ops H) \<longleftrightarrow> xs = [])
    \<and> q_next (fold queue_op_run ops H) h = hd (xs @ [h]) \<and> q_prev (fold queue_op_run ops H) h = last (h # xs)"
proof -
  have "queues H Map.empty" by (simp add: queues_def)
  then have "queues (fold queue_op_run ops H) (fold queue_op_spec ops Map.empty)" using assms(1) by (rule queue_ops_simulate)
  from queuesD(1) [OF this assms(2)] show ?thesis using queue_empty queue_ends by blast
qed

definition queue_0123 :: queue_heap where
  "queue_0123 = \<lparr>q_prev = (\<lambda>a. a)(0 := 3, 1 := 0, 2 := 1, 3 := 2), q_next = (\<lambda>a. a)(0 := 1, 1 := 2, 2 := 3, 3 := 0)\<rparr>"

lemma queue_0123: "queue queue_0123 0 [1, 2, 3]" "queue queue_0123 9 []"
  by (simp_all add: queue_def edge_def queue_0123_def)

definition queue_example :: "queue_op list" where
  "queue_example = [Q_init 0, Q_insert_tail 0 1, Q_init 9, Q_insert_head 0 2, Q_insert_after 0 2 3, Q_split 0 3 5, Q_add 9 5, Q_remove 9 1]"

theorem queue_refines_list_witness:
  "queue (fold queue_op_run queue_example queue_0123) 0 [2] \<and> queue (fold queue_op_run queue_example queue_0123) 9 [3]"
proof -
  have l: "queue_ops_legal queue_example Map.empty" by (simp add: queue_example_def unused_def member_def)
  have s: "fold queue_op_spec queue_example Map.empty 0 = Some [2]" "fold queue_op_spec queue_example Map.empty 9 = Some [3]"
    by (simp_all add: queue_example_def)
  show ?thesis using queue_refines_list [OF l s(1)] queue_refines_list [OF l s(2)] by blast
qed

text \<open>
  C38. The sort of a queue terminates: whenever the comparison function orders the nodes by some key,
  it ends with the queue in the stable order of that key and every other queue unchanged; and the
  search for the middle element of a queue that is not empty ends with the element whose index is
  half the length, the first one of the second half when the length is even.
\<close>

theorem queue_sort_terminates:
  assumes q: "queue H h xs" and ne: "xs \<noteq> []" and other: "queue H n ys" "set (h # xs) \<inter> set (n # ys) = {}"
    and order: "\<And>x y. x \<in> set xs \<Longrightarrow> y \<in> set xs \<Longrightarrow> cmp x y < 0 \<longleftrightarrow> key x < (key y :: 'k::linorder)"
      "\<And>x y. x \<in> set xs \<Longrightarrow> y \<in> set xs \<Longrightarrow> cmp x y = 0 \<longleftrightarrow> key x = key y"
  shows "(\<exists>H'. ngx_queue_sort cmp h H = Some H' \<and> queue H' h (sort_key key xs) \<and> queue H' n ys)
    \<and> ngx_queue_middle H h = Some (xs ! (length xs div 2))"
proof
  have "comparator cmp key (\<lambda>x. x \<in> set xs)" by unfold_locales (use order in auto)
  from queue_sort_sorts [OF this _ q] obtain H' where H': "ngx_queue_sort cmp h H = Some H'"
    "queue H' h (sort_key key xs)" "same_links (- set (h # xs)) H H'" by blast
  have "same_links (set (n # ys)) H H'" using H'(3) other(2) by (auto simp: same_links_def)
  with H' queue_frame [OF other(1)] show "\<exists>H'. ngx_queue_sort cmp h H = Some H' \<and> queue H' h (sort_key key xs) \<and> queue H' n ys"
    by blast
  show "ngx_queue_middle H h = Some (xs ! (length xs div 2))" by (rule queue_middle [OF q ne])
qed

theorem queue_sort_terminates_witness:
  "(\<exists>H'. ngx_queue_sort (\<lambda>a b. int b - int a) 0 queue_0123 = Some H' \<and> queue H' 0 [3, 2, 1])
   \<and> ngx_queue_middle queue_0123 0 = Some 2"
  using queue_sort_terminates [OF queue_0123(1) _ queue_0123(2), of "\<lambda>a b. int b - int a" "\<lambda>a. - int a"]
  by auto

end
