(* ===== verification/Http_Round_Robin.thy ===== *)
theory Http_Round_Robin
  imports Prelude
begin

unbundle bit_operations_syntax

text \<open>
  The balancer of \<^verbatim>\<open>src/http/ngx_http_upstream_round_robin.c\<close>: selection of a peer by smooth weighted
  round robin, the fall back to the backup group, and the bookkeeping when a request releases its
  peer. The linked list of peers of a group is a list, and a pointer to a peer is its index in it.
  The configured start of the ring (\<open>init_number\<close>, chosen at random once) is part of a group; the
  verdict of the active health check, \<open>ngx_http_upstream_check_peer_down\<close>, is a parameter. Weights
  are mathematical integers; the theorems bound them.
\<close>

section \<open>Data\<close>

record rr_peer =
  current_weight :: int
  effective_weight :: int
  weight :: int
  conns :: nat
  max_conns :: nat
  fails :: nat
  accessed :: int
  checked :: int
  max_fails :: nat
  fail_timeout :: int
  down :: bool
  check_index :: nat

record rr_peers =
  peer :: "rr_peer list"
  init_number :: "nat option"
  single :: bool

text \<open>The set of peers that a request has tried, a bit array of machine words.\<close>

type_synonym tried_bits = "64 word list"

definition is_tried :: "tried_bits \<Rightarrow> nat \<Rightarrow> bool" where
  "is_tried tried i \<longleftrightarrow> tried ! (i div 64) AND push_bit (i mod 64) 1 \<noteq> 0"

definition mark_tried :: "tried_bits \<Rightarrow> nat \<Rightarrow> tried_bits" where
  "mark_tried tried i = tried[i div 64 := tried ! (i div 64) OR push_bit (i mod 64) 1]"

definition tried_words :: "nat \<Rightarrow> nat" where
  "tried_words number = (number + 63) div 64"

section \<open>Selection\<close>

text \<open>The conditions under which the loop passes over a peer.\<close>

definition rr_skip :: "(nat \<Rightarrow> bool) \<Rightarrow> int \<Rightarrow> tried_bits \<Rightarrow> nat \<Rightarrow> rr_peer \<Rightarrow> bool" where
  "rr_skip check_down now tried i p \<longleftrightarrow>
     is_tried tried i
     \<or> down p
     \<or> check_down (check_index p)
     \<or> (max_fails p \<noteq> 0 \<and> max_fails p \<le> fails p \<and> now - checked p \<le> fail_timeout p)
     \<or> (max_conns p \<noteq> 0 \<and> max_conns p \<le> conns p)"

definition rr_credit :: "rr_peer \<Rightarrow> rr_peer" where
  "rr_credit p =
     (let p = p\<lparr>current_weight := current_weight p + effective_weight p\<rparr> in
      if effective_weight p < weight p then p\<lparr>effective_weight := effective_weight p + 1\<rparr> else p)"

text \<open>The loop over the ring of peers; the state is the peers, the best one so far and the tot.\<close>

fun rr_loop :: "(nat \<Rightarrow> bool) \<Rightarrow> int \<Rightarrow> tried_bits \<Rightarrow> nat list
    \<Rightarrow> rr_peer list \<times> nat option \<times> int \<Rightarrow> rr_peer list \<times> nat option \<times> int" where
  "rr_loop check_down now tried [] st = st"
| "rr_loop check_down now tried (i # ring) (ps, best, tot) =
     (if rr_skip check_down now tried i (ps ! i) then rr_loop check_down now tried ring (ps, best, tot)
      else let tot = tot + effective_weight (ps ! i);
               ps = ps[i := rr_credit (ps ! i)];
               best = (case best of
                         None \<Rightarrow> Some i
                       | Some b \<Rightarrow> (if current_weight (ps ! b) < current_weight (ps ! i) then Some i else Some b))
           in rr_loop check_down now tried ring (ps, best, tot))"

definition rr_ring :: "nat \<Rightarrow> nat \<Rightarrow> nat list" where
  "rr_ring init number = map (\<lambda>k. (init + k) mod number) [0..<number]"

definition ngx_http_upstream_get_peer ::
  "(nat \<Rightarrow> bool) \<Rightarrow> int \<Rightarrow> nat \<Rightarrow> rr_peers \<Rightarrow> tried_bits \<Rightarrow> nat option \<times> rr_peers \<times> tried_bits" where
  "ngx_http_upstream_get_peer check_down now random peers tried =
     (let number = length (peer peers);
          init = (case init_number peers of None \<Rightarrow> random mod number | Some i \<Rightarrow> i);
          peers = peers\<lparr>init_number := Some init\<rparr>
      in case rr_loop check_down now tried (rr_ring init number) (peer peers, None, 0) of
           (ps, None, tot) \<Rightarrow> (None, peers\<lparr>peer := ps\<rparr>, tried)
         | (ps, Some b, tot) \<Rightarrow>
             (let best = ps ! b;
                  best = best\<lparr>current_weight := current_weight best - tot\<rparr>;
                  best = (if fail_timeout best < now - checked best then best\<lparr>checked := now\<rparr> else best)
              in (Some b, peers\<lparr>peer := ps[b := best]\<rparr>, mark_tried tried b)))"

text \<open>
  The handler tries the groups in turn, the primary one and then the backup; the result names the
  group, counted from the first, and the peer, or is \<open>NGX_BUSY\<close> (\<open>None\<close>).
\<close>

definition rr_take :: "nat \<Rightarrow> rr_peers \<Rightarrow> rr_peers" where
  "rr_take i peers = peers\<lparr>peer := (peer peers)[i := (peer peers ! i)\<lparr>conns := conns (peer peers ! i) + 1\<rparr>]\<rparr>"

definition rr_try ::
  "(nat \<Rightarrow> bool) \<Rightarrow> int \<Rightarrow> nat \<Rightarrow> rr_peers \<Rightarrow> tried_bits \<Rightarrow> nat option \<times> rr_peers \<times> tried_bits" where
  "rr_try check_down now random peers tried =
     (if single peers then
        (let p = peer peers ! 0 in
         if down p then (None, peers, tried)
         else if max_conns p \<noteq> 0 \<and> max_conns p \<le> conns p then (None, peers, tried)
         else if check_down (check_index p) then (None, peers, tried)
         else (Some 0, peers, tried))
      else ngx_http_upstream_get_peer check_down now random peers tried)"

fun ngx_http_upstream_get_round_robin_peer ::
  "(nat \<Rightarrow> bool) \<Rightarrow> int \<Rightarrow> nat \<Rightarrow> rr_peers list \<Rightarrow> tried_bits
   \<Rightarrow> (nat \<times> nat) option \<times> rr_peers list \<times> tried_bits" where
  "ngx_http_upstream_get_round_robin_peer check_down now random [] tried = (None, [], tried)"
| "ngx_http_upstream_get_round_robin_peer check_down now random (peers # next) tried =
     (case rr_try check_down now random peers tried of
        (Some i, peers, tried) \<Rightarrow> (Some (0, i), rr_take i peers # next, tried)
      | (None, peers, tried) \<Rightarrow>
          (case next of
             [] \<Rightarrow> (None, [peers], tried)
           | backup # _ \<Rightarrow>
               (case ngx_http_upstream_get_round_robin_peer check_down now random next
                       (map (\<lambda>n. if n < tried_words (length (peer backup)) then 0 else tried ! n) [0..<length tried]) of
                  (res, next, tried) \<Rightarrow> (map_option (apfst Suc) res, peers # next, tried))))"

section \<open>Release\<close>

definition rr_failed :: "int \<Rightarrow> rr_peer \<Rightarrow> rr_peer" where
  "rr_failed now p =
     (let p = p\<lparr>fails := fails p + 1, accessed := now, checked := now\<rparr>;
          p = (if max_fails p \<noteq> 0
               then p\<lparr>effective_weight := effective_weight p - weight p div int (max_fails p)\<rparr> else p)
      in if effective_weight p < 0 then p\<lparr>effective_weight := 0\<rparr> else p)"

definition rr_passed :: "rr_peer \<Rightarrow> rr_peer" where
  "rr_passed p = (if accessed p < checked p then p\<lparr>fails := 0\<rparr> else p)"

text \<open>The result is the group after the release and the number of tries that are left.\<close>

definition ngx_http_upstream_free_round_robin_peer ::
  "int \<Rightarrow> rr_peers \<Rightarrow> nat \<Rightarrow> bool \<Rightarrow> nat \<Rightarrow> rr_peers \<times> nat" where
  "ngx_http_upstream_free_round_robin_peer now peers current failed tries =
     (let p = peer peers ! current in
      if single peers
      then (peers\<lparr>peer := (peer peers)[current := p\<lparr>conns := conns p - 1\<rparr>]\<rparr>, 0)
      else (let p = (if failed then rr_failed now p else rr_passed p);
                p = p\<lparr>conns := conns p - 1\<rparr>
            in (peers\<lparr>peer := (peer peers)[current := p]\<rparr>, if tries \<noteq> 0 then tries - 1 else 0)))"

section \<open>The loop\<close>

lemma rr_credit_simps [simp]:
  "current_weight (rr_credit p) = current_weight p + effective_weight p"
  "weight (rr_credit p) = weight p" "conns (rr_credit p) = conns p" "max_conns (rr_credit p) = max_conns p"
  "fails (rr_credit p) = fails p" "checked (rr_credit p) = checked p" "accessed (rr_credit p) = accessed p"
  "max_fails (rr_credit p) = max_fails p" "fail_timeout (rr_credit p) = fail_timeout p"
  "down (rr_credit p) = down p" "check_index (rr_credit p) = check_index p"
  "effective_weight (rr_credit p) = (if effective_weight p < weight p then effective_weight p + 1 else effective_weight p)"
  by (simp_all add: rr_credit_def Let_def)

text \<open>The peers that take part in a round, and what the loop makes of the list.\<close>

definition rr_turn :: "(nat \<Rightarrow> bool) \<Rightarrow> int \<Rightarrow> tried_bits \<Rightarrow> rr_peer list \<Rightarrow> nat \<Rightarrow> bool" where
  "rr_turn chk now tried ps i \<longleftrightarrow> \<not> rr_skip chk now tried i (ps ! i)"

lemma rr_skip_credit: "rr_skip chk now tried i (rr_credit p) = rr_skip chk now tried i p"
  by (simp add: rr_skip_def)

lemma rr_turn_update:
  "i \<noteq> j \<Longrightarrow> rr_turn chk now tried (ps[i := p]) j = rr_turn chk now tried ps j"
  by (simp add: rr_turn_def)

definition rr_best_ok :: "rr_peer list \<Rightarrow> nat set \<Rightarrow> nat option \<Rightarrow> bool" where
  "rr_best_ok ps A best \<longleftrightarrow>
     (case best of None \<Rightarrow> A = {} | Some b \<Rightarrow> b \<in> A \<and> (\<forall>j\<in>A. current_weight (ps ! j) \<le> current_weight (ps ! b)))"

lemma rr_loop_spec:
  assumes "rr_loop chk now tried ring (ps, best, tot) = (ps', best', tot')"
    "distinct ring" "set ring \<subseteq> {..<length ps}" "rr_best_ok ps A best" "A \<inter> set ring = {}" "A \<subseteq> {..<length ps}"
  shows "length ps' = length ps
    \<and> (\<forall>j<length ps. ps' ! j = (if j \<in> set ring \<and> rr_turn chk now tried ps j then rr_credit (ps ! j) else ps ! j))
    \<and> tot' = tot + (\<Sum>j\<leftarrow>filter (rr_turn chk now tried ps) ring. effective_weight (ps ! j))
    \<and> rr_best_ok ps' (A \<union> set (filter (rr_turn chk now tried ps) ring)) best'"
  using assms
proof (induction ring arbitrary: ps best tot A)
  case (Cons i ring)
  have il: "i < length ps" "i \<notin> set ring" "i \<notin> A" using Cons.prems by auto
  have tail: "distinct ring" "set ring \<subseteq> {..<length ps}" "A \<inter> set ring = {}" using Cons.prems by auto
  show ?case
  proof (cases "rr_turn chk now tried ps i")
    case False
    then have "rr_loop chk now tried ring (ps, best, tot) = (ps', best', tot')"
      using Cons.prems(1) by (simp add: rr_turn_def)
    from Cons.IH [OF this tail(1,2) Cons.prems(4) tail(3) Cons.prems(6)] False show ?thesis by auto
  next
    case True
    let ?q = "ps[i := rr_credit (ps ! i)]"
    let ?best = "case best of None \<Rightarrow> Some i
      | Some b \<Rightarrow> (if current_weight (?q ! b) < current_weight (?q ! i) then Some i else Some b)"
    have loop: "rr_loop chk now tried ring (?q, ?best, tot + effective_weight (ps ! i)) = (ps', best', tot')"
      using Cons.prems(1) True by (simp add: rr_turn_def Let_def)
    have same: "?q ! j = ps ! j" if "j \<in> A \<union> set ring" for j
      using that il by (metis Un_iff nth_list_update_neq)
    have turn: "rr_turn chk now tried ?q j = rr_turn chk now tried ps j" if "j \<in> set ring" for j
      using that il by (intro rr_turn_update) auto
    have ok: "rr_best_ok ?q (insert i A) ?best"
      using Cons.prems(4) il same by (force simp: rr_best_ok_def split: option.splits)
    have f: "filter (rr_turn chk now tried ?q) ring = filter (rr_turn chk now tried ps) ring"
      using turn by (rule filter_cong [OF refl])
    have m: "map (\<lambda>j. effective_weight (?q ! j)) (filter (rr_turn chk now tried ps) ring) =
      map (\<lambda>j. effective_weight (ps ! j)) (filter (rr_turn chk now tried ps) ring)"
      using same by (intro map_cong) auto
    have "length ps' = length ?q
      \<and> (\<forall>j<length ?q. ps' ! j = (if j \<in> set ring \<and> rr_turn chk now tried ?q j then rr_credit (?q ! j) else ?q ! j))
      \<and> tot' = tot + effective_weight (ps ! i) + (\<Sum>j\<leftarrow>filter (rr_turn chk now tried ?q) ring. effective_weight (?q ! j))
      \<and> rr_best_ok ps' (insert i A \<union> set (filter (rr_turn chk now tried ?q) ring)) best'"
      by (rule Cons.IH [OF loop]) (use tail ok Cons.prems(6) il in auto)
    then show ?thesis
      using True il turn unfolding f m by (auto simp: nth_list_update)
  qed
qed simp

lemma rr_ring_perm: "distinct (rr_ring init n) \<and> set (rr_ring init n) = {..<n}"
proof (cases "n = 0")
  case False
  have inj: "inj_on (\<lambda>k. (init + k) mod n) {..<n}"
  proof (rule inj_onI)
    have le: "a = b" if "a \<le> b" "b < n" "(init + b) mod n = (init + a) mod n" for a b
    proof -
      have "n dvd (init + b) - (init + a)" using that by (subst (asm) mod_eq_dvd_iff_nat) auto
      with that show ?thesis by (auto dest: dvd_imp_le)
    qed
    fix a b assume "a \<in> {..<n}" "b \<in> {..<n}" "(init + a) mod n = (init + b) mod n"
    then show "a = b" using le [of a b] le [of b a] by (cases "a \<le> b") auto
  qed
  have "set (rr_ring init n) = (\<lambda>k. (init + k) mod n) ` {..<n}" by (auto simp: rr_ring_def atLeast0LessThan)
  also have "\<dots> = {..<n}"
    using inj False by (intro card_subset_eq) (auto simp: card_image)
  finally show ?thesis using inj by (simp add: rr_ring_def distinct_map atLeast0LessThan)
qed (simp add: rr_ring_def)

definition cw_sum :: "rr_peer list \<Rightarrow> int" where
  "cw_sum ps = (\<Sum>p\<leftarrow>ps. current_weight p)"

lemma cw_sum_nth: "cw_sum ps = (\<Sum>j<length ps. current_weight (ps ! j))"
  by (simp add: cw_sum_def sum_list_sum_nth atLeast0LessThan)

text \<open>What a call of \<open>ngx_http_upstream_get_peer\<close> does, in terms of the peers that take part.\<close>

lemma get_peer_spec:
  assumes "ngx_http_upstream_get_peer chk now rnd g tried = (res, g', tried')"
  defines "ps \<equiv> peer g" and "ps' \<equiv> peer g'" and "E \<equiv> {j. j < length (peer g) \<and> rr_turn chk now tried (peer g) j}"
  shows "length ps' = length ps \<and> single g' = single g"
    "res = None \<Longrightarrow> E = {} \<and> ps' = ps \<and> tried' = tried"
    "res = Some b \<Longrightarrow> b \<in> E \<and> tried' = mark_tried tried b
       \<and> (\<forall>j<length ps. current_weight (ps' ! j) =
            (if j \<in> E then current_weight (ps ! j) + effective_weight (ps ! j) else current_weight (ps ! j))
            - (if j = b then (\<Sum>j\<in>E. effective_weight (ps ! j)) else 0))
       \<and> (\<forall>j\<in>E. current_weight (ps ! j) + effective_weight (ps ! j) \<le> current_weight (ps ! b) + effective_weight (ps ! b))"
    "j < length ps \<Longrightarrow> effective_weight (ps' ! j) =
       (if j \<in> E \<and> effective_weight (ps ! j) < weight (ps ! j) then effective_weight (ps ! j) + 1 else effective_weight (ps ! j))
       \<and> weight (ps' ! j) = weight (ps ! j) \<and> conns (ps' ! j) = conns (ps ! j) \<and> max_conns (ps' ! j) = max_conns (ps ! j)
       \<and> fails (ps' ! j) = fails (ps ! j) \<and> max_fails (ps' ! j) = max_fails (ps ! j)
       \<and> down (ps' ! j) = down (ps ! j) \<and> check_index (ps' ! j) = check_index (ps ! j)"
proof -
  define init where "init = (case init_number g of None \<Rightarrow> rnd mod length (peer g) | Some i \<Rightarrow> i)"
  define ring where "ring = rr_ring init (length ps)"
  obtain qs best tot where loop: "rr_loop chk now tried ring (ps, None, 0) = (qs, best, tot)"
    by (metis prod_cases3)
  have ring: "distinct ring" "set ring = {..<length ps}" using rr_ring_perm unfolding ring_def by auto
  have E: "E = set (filter (rr_turn chk now tried ps) ring)" unfolding E_def ps_def [symmetric] using ring(2) by auto
  have "rr_best_ok ps {} None" by (simp add: rr_best_ok_def)
  from rr_loop_spec [OF loop ring(1) _ this] ring(2)
  have sp: "length qs = length ps"
    "\<And>j. j < length ps \<Longrightarrow> qs ! j = (if j \<in> E then rr_credit (ps ! j) else ps ! j)"
    "tot = (\<Sum>j\<leftarrow>filter (rr_turn chk now tried ps) ring. effective_weight (ps ! j))"
    "rr_best_ok qs E best"
    unfolding E by auto
  have tot: "tot = (\<Sum>j\<in>E. effective_weight (ps ! j))"
    unfolding sp(3) E using ring(1) by (simp add: sum_list_distinct_conv_sum_set)
  note call = assms(1) [unfolded ngx_http_upstream_get_peer_def Let_def init_def [symmetric]]
  have Elt: "j < length ps" if "j \<in> E" for j using that by (simp add: E_def ps_def)
  show "length ps' = length ps \<and> single g' = single g"
    using call loop sp(1) unfolding ps'_def ring_def ps_def by (auto split: option.splits)
  show "res = None \<Longrightarrow> E = {} \<and> ps' = ps \<and> tried' = tried"
  proof -
    assume "res = None"
    then have "best = None" "ps' = qs" "tried' = tried"
      using call loop unfolding ps'_def ring_def ps_def by (auto split: option.splits)
    moreover from this sp(4) have "E = {}" by (simp add: rr_best_ok_def)
    ultimately show ?thesis using sp(1,2) by (simp add: list_eq_iff_nth_eq)
  qed
  have upd: "best = Some b \<and> tried' = mark_tried tried b \<and>
      (\<exists>t. ps' = qs[b := (qs ! b)\<lparr>current_weight := current_weight (qs ! b) - tot, checked := t\<rparr>])" if "res = Some b" for b
    using call loop that unfolding ps'_def ring_def ps_def
    by (auto split: option.splits if_splits intro: exI [of _ now] exI [of _ "checked (qs ! b)"])
  show "b \<in> E \<and> tried' = mark_tried tried b
       \<and> (\<forall>j<length ps. current_weight (ps' ! j) =
            (if j \<in> E then current_weight (ps ! j) + effective_weight (ps ! j) else current_weight (ps ! j))
            - (if j = b then (\<Sum>j\<in>E. effective_weight (ps ! j)) else 0))
       \<and> (\<forall>j\<in>E. current_weight (ps ! j) + effective_weight (ps ! j) \<le> current_weight (ps ! b) + effective_weight (ps ! b))"
    if r: "res = Some b"
  proof -
    obtain t where u: "best = Some b" "tried' = mark_tried tried b"
      "ps' = qs[b := (qs ! b)\<lparr>current_weight := current_weight (qs ! b) - tot, checked := t\<rparr>]"
      using upd [OF r] by blast
    have b: "b \<in> E" "\<forall>j\<in>E. current_weight (qs ! j) \<le> current_weight (qs ! b)" using sp(4) u(1) by (auto simp: rr_best_ok_def)
    show ?thesis
      using b sp(1,2) Elt u(2) unfolding u(3) tot [symmetric] by (auto simp: nth_list_update)
  qed
  show "effective_weight (ps' ! j) =
       (if j \<in> E \<and> effective_weight (ps ! j) < weight (ps ! j) then effective_weight (ps ! j) + 1 else effective_weight (ps ! j))
       \<and> weight (ps' ! j) = weight (ps ! j) \<and> conns (ps' ! j) = conns (ps ! j) \<and> max_conns (ps' ! j) = max_conns (ps ! j)
       \<and> fails (ps' ! j) = fails (ps ! j) \<and> max_fails (ps' ! j) = max_fails (ps ! j)
       \<and> down (ps' ! j) = down (ps ! j) \<and> check_index (ps' ! j) = check_index (ps ! j)"
    if "j < length ps"
  proof (cases res)
    case None
    then have "ps' = qs" using call loop unfolding ps'_def ring_def ps_def by (auto split: option.splits)
    with sp(2) [OF that] show ?thesis by auto
  next
    case (Some b)
    from upd [OF this] obtain t where "ps' = qs[b := (qs ! b)\<lparr>current_weight := current_weight (qs ! b) - tot, checked := t\<rparr>]" by blast
    with sp(1) sp(2) [OF that] that show ?thesis by (cases "j = b") auto
  qed
qed

section \<open>Invariants\<close>

text \<open>
  The effective weight of a peer lies between zero and its weight, and the current weights of a
  group add up to zero.
\<close>

definition rr_wf :: "rr_peer list \<Rightarrow> bool" where
  "rr_wf ps \<longleftrightarrow> list_all (\<lambda>p. 0 \<le> effective_weight p \<and> effective_weight p \<le> weight p) ps \<and> cw_sum ps = 0"

lemma get_peer_conserves:
  assumes "ngx_http_upstream_get_peer chk now rnd g tried = (res, g', tried')"
  shows "cw_sum (peer g') = cw_sum (peer g)"
proof (cases res)
  case None
  then show ?thesis using get_peer_spec(2) [OF assms] by simp
next
  case (Some b)
  let ?n = "length (peer g)"
  let ?E = "{j. j < ?n \<and> rr_turn chk now tried (peer g) j}"
  let ?t = "\<Sum>j\<in>?E. effective_weight (peer g ! j)"
  note sp = get_peer_spec(3) [OF assms Some]
  have "cw_sum (peer g') = (\<Sum>j<?n. current_weight (peer g ! j) + (if j \<in> ?E then effective_weight (peer g ! j) else 0)
      - (if j = b then ?t else 0))"
    unfolding cw_sum_nth using sp get_peer_spec(1) [OF assms] by (intro sum.cong) auto
  also have "\<dots> = cw_sum (peer g) + (\<Sum>j<?n. if j \<in> ?E then effective_weight (peer g ! j) else 0) - (\<Sum>j<?n. if j = b then ?t else 0)"
    by (simp add: cw_sum_nth sum.distrib sum_subtractf)
  also have "(\<Sum>j<?n. if j = b then ?t else 0) = ?t" using sp by (simp add: sum.delta)
  also have "(\<Sum>j<?n. if j \<in> ?E then effective_weight (peer g ! j) else 0) = ?t"
    by (simp add: sum.inter_filter [symmetric])
  finally show ?thesis by simp
qed

lemma get_peer_wf:
  assumes "ngx_http_upstream_get_peer chk now rnd g tried = (res, g', tried')" "rr_wf (peer g)"
  shows "rr_wf (peer g')"
  using assms(2) get_peer_conserves [OF assms(1)] get_peer_spec(1,4) [OF assms(1)]
  by (auto simp: rr_wf_def list_all_length)

lemma free_peer_wf:
  assumes "i < length (peer g)" "rr_wf (peer g)"
  shows "rr_wf (peer (fst (ngx_http_upstream_free_round_robin_peer now g i failed tries)))"
proof -
  let ?p = "peer g ! i"
  have p: "0 \<le> effective_weight ?p" "effective_weight ?p \<le> weight ?p"
    using assms by (auto simp: rr_wf_def list_all_length)
  have d: "0 \<le> weight ?p div int (max_fails ?p)" using p by (intro div_int_pos_iff [THEN iffD2]) auto
  have upd: "rr_wf ((peer g)[i := q])"
    if "current_weight q = current_weight ?p" "0 \<le> effective_weight q" "effective_weight q \<le> weight q" for q
  proof -
    have "cw_sum ((peer g)[i := q]) = cw_sum (peer g)"
      unfolding cw_sum_nth using that(1) assms(1) by (intro sum.cong) (auto simp: nth_list_update)
    with that assms show ?thesis by (auto simp: rr_wf_def list_all_length nth_list_update)
  qed
  show ?thesis
    using p d assms(1)
    by (auto simp: ngx_http_upstream_free_round_robin_peer_def Let_def rr_failed_def rr_passed_def intro!: upd)
qed

lemma is_tried_bit: "is_tried tried i \<longleftrightarrow> bit (tried ! (i div 64)) (i mod 64)"
  by (simp add: is_tried_def bit_iff_and_push_bit_not_eq_0)

lemma is_tried_mark:
  assumes "b div 64 < length tried"
  shows "is_tried (mark_tried tried b) j \<longleftrightarrow> j = b \<or> is_tried tried j"
proof -
  have one: "bit (push_bit (b mod 64) (1 :: 64 word)) (j mod 64) \<longleftrightarrow> j mod 64 = b mod 64"
    by (auto simp: bit_simps)
  have "j = b \<longleftrightarrow> j div 64 = b div 64 \<and> j mod 64 = b mod 64" by (metis div_mod_decomp)
  with assms one show ?thesis
    by (cases "j div 64 = b div 64") (auto simp: is_tried_bit mark_tried_def bit_or_iff nth_list_update)
qed

section \<open>Fairness\<close>

text \<open>A sequence of requests, each of which starts with no peer tried.\<close>

fun rr_requests :: "(nat \<Rightarrow> bool) \<Rightarrow> (nat \<Rightarrow> int) \<Rightarrow> nat \<Rightarrow> nat \<Rightarrow> rr_peers \<Rightarrow> nat list \<times> rr_peers" where
  "rr_requests chk time rnd 0 g = ([], g)"
| "rr_requests chk time rnd (Suc n) g =
     (case ngx_http_upstream_get_round_robin_peer chk (time n) rnd [g] (replicate (tried_words (length (peer g))) 0) of
        (Some (k, i), g' # _, tried) \<Rightarrow> apfst ((#) i) (rr_requests chk time rnd n g')
      | (_, _, _) \<Rightarrow> ([], g))"

definition healthy :: "(nat \<Rightarrow> bool) \<Rightarrow> rr_peer \<Rightarrow> bool" where
  "healthy chk p \<longleftrightarrow> \<not> down p \<and> \<not> chk (check_index p) \<and> (max_fails p = 0 \<or> fails p < max_fails p)
     \<and> max_conns p = 0 \<and> effective_weight p = weight p \<and> 0 \<le> weight p"

definition total_weight :: "rr_peer list \<Rightarrow> int" where
  "total_weight ps = (\<Sum>j<length ps. weight (ps ! j))"

definition rr_steady :: "(nat \<Rightarrow> bool) \<Rightarrow> rr_peers \<Rightarrow> bool" where
  "rr_steady chk g \<longleftrightarrow> \<not> single g \<and> list_all (healthy chk) (peer g) \<and> cw_sum (peer g) = 0 \<and> 0 < total_weight (peer g)
     \<and> list_all (\<lambda>p. - total_weight (peer g) < current_weight p) (peer g)"

lemma fresh_not_tried: "i < number \<Longrightarrow> \<not> is_tried (replicate (tried_words number) 0) i"
proof -
  assume "i < number"
  then have "i div 64 < tried_words number" by (simp add: tried_words_def less_eq_div_iff_mult_less_eq Suc_le_eq [symmetric])
  then show ?thesis by (simp add: is_tried_def)
qed

lemma steady_pick:
  assumes st: "rr_steady chk g"
    and call: "ngx_http_upstream_get_peer chk now rnd g (replicate (tried_words (length (peer g))) 0) = (res, g', tried')"
  obtains b where "res = Some b" "b < length (peer g)" "rr_steady chk g'" "length (peer g') = length (peer g)"
    "\<And>j. j < length (peer g) \<Longrightarrow> weight (peer g' ! j) = weight (peer g ! j)"
    "\<And>j. j < length (peer g) \<Longrightarrow> current_weight (peer g' ! j) =
       current_weight (peer g ! j) + weight (peer g ! j) - (if j = b then total_weight (peer g) else 0)"
proof -
  let ?ps = "peer g" and ?n = "length (peer g)" and ?W = "total_weight (peer g)"
  let ?tried = "replicate (tried_words ?n) (0 :: 64 word)"
  let ?E = "{j. j < ?n \<and> rr_turn chk now ?tried ?ps j}"
  have h: "healthy chk (?ps ! j)" "- ?W < current_weight (?ps ! j)" if "j < ?n" for j
    using st that by (auto simp: rr_steady_def list_all_length)
  have pos: "0 < ?W" and zero: "cw_sum ?ps = 0" using st by (auto simp: rr_steady_def)
  have "rr_turn chk now ?tried ?ps j" if "j < ?n" for j
    using h(1) [OF that] fresh_not_tried [OF that] by (auto simp: rr_turn_def rr_skip_def healthy_def)
  then have E: "?E = {..<?n}" by auto
  have eff: "(\<Sum>j\<in>?E. effective_weight (?ps ! j)) = ?W"
    unfolding E total_weight_def using h by (intro sum.cong) (auto simp: healthy_def)
  have ne: "?n \<noteq> 0" using pos by (auto simp: total_weight_def)
  have "res \<noteq> None" using get_peer_spec(2) [OF call] E ne by auto
  then obtain b where res: "res = Some b" by blast
  note sp = get_peer_spec(3) [OF call res] and keep = get_peer_spec(4) [OF call] and len = get_peer_spec(1) [OF call]
  have bn: "b < ?n" using sp by auto
  have cw: "current_weight (peer g' ! j) = current_weight (?ps ! j) + weight (?ps ! j) - (if j = b then ?W else 0)"
    if "j < ?n" for j using sp h [OF that] that E eff by (auto simp: healthy_def)
  have W': "total_weight (peer g') = ?W" using keep len by (auto simp: total_weight_def intro!: sum.cong)
  have best: "0 < current_weight (?ps ! b) + weight (?ps ! b)"
  proof (rule ccontr)
    assume "\<not> ?thesis"
    moreover have "j \<in> ?E" if "j < ?n" for j using that E by blast
    then have mx: "current_weight (?ps ! j) + effective_weight (?ps ! j) \<le> current_weight (?ps ! b) + effective_weight (?ps ! b)"
      if "j < ?n" for j using that sp by blast
    have "current_weight (?ps ! j) + weight (?ps ! j) \<le> current_weight (?ps ! b) + weight (?ps ! b)" if "j < ?n" for j
      using mx [OF that] h(1) [OF that] h(1) [OF bn] by (simp add: healthy_def)
    ultimately have "current_weight (?ps ! j) + weight (?ps ! j) \<le> 0" if "j < ?n" for j
      using that by (meson not_less order_trans)
    then have "(\<Sum>j<?n. current_weight (?ps ! j) + weight (?ps ! j)) \<le> 0" by (intro sum_nonpos) auto
    with zero pos show False by (simp add: sum.distrib cw_sum_nth total_weight_def)
  qed
  have "- ?W < current_weight (peer g' ! j)" if "j < ?n" for j
    using cw [OF that] h [OF that] best by (cases "j = b") (auto simp: healthy_def)
  moreover have "healthy chk (peer g' ! j)" if "j < ?n" for j
    using keep [OF that] h(1) [OF that] by (auto simp: healthy_def)
  ultimately have "rr_steady chk g'"
    using st len W' get_peer_conserves [OF call] by (auto simp: rr_steady_def list_all_length)
  with res bn len cw keep show thesis by (intro that) auto
qed

lemma take_nth:
  assumes "i < length (peer g)" "j < length (peer g)"
  shows "current_weight (peer (rr_take i g) ! j) = current_weight (peer g ! j)"
    "weight (peer (rr_take i g) ! j) = weight (peer g ! j)"
    "healthy chk (peer (rr_take i g) ! j) = healthy chk (peer g ! j)"
    "length (peer (rr_take i g)) = length (peer g)"
  using assms by (auto simp: rr_take_def nth_list_update healthy_def)

lemma steady_take:
  assumes "rr_steady chk g" "i < length (peer g)"
  shows "rr_steady chk (rr_take i g)"
proof -
  note t = take_nth [OF assms(2)]
  have "length (peer (rr_take i g)) = length (peer g)" "single (rr_take i g) = single g" by (simp_all add: rr_take_def)
  moreover from this(1) have "cw_sum (peer (rr_take i g)) = cw_sum (peer g)" "total_weight (peer (rr_take i g)) = total_weight (peer g)"
    using t unfolding cw_sum_nth total_weight_def by (auto intro!: sum.cong)
  ultimately show ?thesis using assms(1) t by (auto simp: rr_steady_def list_all_length)
qed

lemma steady_requests:
  assumes "rr_steady chk g"
  shows "case rr_requests chk time rnd n g of (picks, g') \<Rightarrow>
    length picks = n \<and> set picks \<subseteq> {..<length (peer g)} \<and> rr_steady chk g' \<and> length (peer g') = length (peer g)
    \<and> (\<forall>j<length (peer g). weight (peer g' ! j) = weight (peer g ! j)
         \<and> current_weight (peer g' ! j) = current_weight (peer g ! j) + int n * weight (peer g ! j)
             - int (count_list picks j) * total_weight (peer g))"
  using assms
proof (induction n arbitrary: g)
  case (Suc n)
  let ?tried = "replicate (tried_words (length (peer g))) (0 :: 64 word)"
  obtain res g1 tried' where call: "ngx_http_upstream_get_peer chk (time n) rnd g ?tried = (res, g1, tried')"
    by (metis prod_cases3)
  obtain b where b: "res = Some b" "b < length (peer g)" "rr_steady chk g1" "length (peer g1) = length (peer g)"
    "\<And>j. j < length (peer g) \<Longrightarrow> weight (peer g1 ! j) = weight (peer g ! j)"
    "\<And>j. j < length (peer g) \<Longrightarrow> current_weight (peer g1 ! j) =
       current_weight (peer g ! j) + weight (peer g ! j) - (if j = b then total_weight (peer g) else 0)"
    using steady_pick [OF Suc.prems call] by blast
  let ?g = "rr_take b g1"
  have st: "rr_steady chk ?g" using steady_take [OF b(3)] b(2,4) by simp
  have tk: "length (peer ?g) = length (peer g)" "\<And>j. j < length (peer g) \<Longrightarrow> weight (peer ?g ! j) = weight (peer g ! j)"
    "\<And>j. j < length (peer g) \<Longrightarrow> current_weight (peer ?g ! j) =
       current_weight (peer g ! j) + weight (peer g ! j) - (if j = b then total_weight (peer g) else 0)"
    using take_nth [of b g1] b by simp_all
  have W: "total_weight (peer ?g) = total_weight (peer g)"
    using tk(1,2) by (auto simp: total_weight_def intro!: sum.cong)
  have run: "rr_requests chk time rnd (Suc n) g = apfst ((#) b) (rr_requests chk time rnd n ?g)"
    using call b(1) Suc.prems by (simp add: rr_try_def rr_steady_def)
  obtain picks g' where rest: "rr_requests chk time rnd n ?g = (picks, g')" by fastforce
  from Suc.IH [OF st] rest tk W b(2) show ?case
    unfolding run by (auto simp: algebra_simps)
qed auto

lemma steady_round:
  assumes "rr_steady chk g" "list_all (\<lambda>p. current_weight p = 0) (peer g)" "j < length (peer g)"
    and run: "rr_requests chk time rnd (nat (total_weight (peer g))) g = (picks, g')"
  shows "int (count_list picks j) = weight (peer g ! j) \<and> current_weight (peer g' ! j) = 0"
proof -
  let ?n = "length (peer g)" and ?W = "total_weight (peer g)"
  have pos: "0 < ?W" using assms(1) by (simp add: rr_steady_def)
  from steady_requests [OF assms(1), where time = time and rnd = rnd and n = "nat ?W"] run pos
  have r: "int (length picks) = ?W" "set picks \<subseteq> {..<?n}" "rr_steady chk g'" "length (peer g') = ?n"
    "\<And>j. j < ?n \<Longrightarrow> weight (peer g' ! j) = weight (peer g ! j)"
    "\<And>j. j < ?n \<Longrightarrow> current_weight (peer g' ! j) = current_weight (peer g ! j) + ?W * weight (peer g ! j) - int (count_list picks j) * ?W"
    by auto
  have z: "current_weight (peer g ! j) = 0" if "j < ?n" for j using assms(2) that by (simp add: list_all_length)
  have W': "total_weight (peer g') = ?W" using r(4,5) by (auto simp: total_weight_def intro!: sum.cong)
  have cw: "current_weight (peer g' ! j) = ?W * (weight (peer g ! j) - int (count_list picks j))" if "j < ?n" for j
    using r(6) [OF that] z [OF that] by (simp add: algebra_simps)
  have le: "int (count_list picks j) \<le> weight (peer g ! j)" if "j < ?n" for j
  proof (rule ccontr)
    assume "\<not> ?thesis"
    then have "?W * (weight (peer g ! j) - int (count_list picks j)) \<le> ?W * (-1)"
      using pos by (intro mult_left_mono) auto
    moreover have "- ?W < current_weight (peer g' ! j)"
      using r(3,4) W' that by (auto simp: rr_steady_def list_all_length)
    ultimately show False using cw [OF that] by simp
  qed
  have "(\<Sum>j<?n. int (count_list picks j)) = int (length picks)"
    using sum_count_set [OF r(2)] by (simp flip: of_nat_sum)
  also have "\<dots> = (\<Sum>j<?n. weight (peer g ! j))" unfolding r(1) total_weight_def ..
  finally have "int (count_list picks j) = weight (peer g ! j)" if "j < ?n" for j
    by (rule sum_mono_inv) (use le that in auto)
  with assms(3) cw show ?thesis by simp
qed

text \<open>
  C11. The balancer is fair: in a group whose peers are all available and which starts with all
  current weights zero, among as many consecutive requests as the total weight, wherever the ring
  starts and whatever the times of the requests, every peer is chosen exactly as often as its
  weight says, and the current weights are zero again, so the same holds of the next round.
\<close>

theorem rr_fair:
  assumes "\<not> single g" "list_all (healthy chk) (peer g)" "list_all (\<lambda>p. current_weight p = 0) (peer g)"
    and "0 < total_weight (peer g)" "j < length (peer g)"
  shows "case rr_requests chk time rnd (nat (total_weight (peer g))) g of (picks, g') \<Rightarrow>
    int (count_list picks j) = weight (peer g ! j) \<and> current_weight (peer g' ! j) = 0"
proof -
  have "cw_sum (peer g) = 0" unfolding cw_sum_nth using assms(3) by (auto simp: list_all_length intro!: sum.neutral)
  then have "rr_steady chk g" using assms(1-4) by (simp add: rr_steady_def list_all_length)
  from steady_round [OF this assms(3,5)] show ?thesis by (auto split: prod.split)
qed

definition peer_of_weight :: "int \<Rightarrow> rr_peer" where
  "peer_of_weight w = \<lparr>current_weight = 0, effective_weight = w, weight = w, conns = 0, max_conns = 0, fails = 0,
     accessed = 0, checked = 0, max_fails = 1, fail_timeout = 10, down = False, check_index = 0\<rparr>"

theorem rr_fair_witness:
  "case rr_requests (\<lambda>_. False) (\<lambda>_. 0) 0 7 \<lparr>peer = [peer_of_weight 5, peer_of_weight 1, peer_of_weight 1], init_number = None, single = False\<rparr>
   of (picks, g') \<Rightarrow> count_list picks 0 = 5 \<and> current_weight (peer g' ! 0) = 0"
proof -
  let ?g = "\<lparr>peer = [peer_of_weight 5, peer_of_weight 1, peer_of_weight 1], init_number = None, single = False\<rparr>"
  have W: "total_weight (peer ?g) = 7" by (simp add: total_weight_def peer_of_weight_def lessThan_Suc)
  show ?thesis
    using rr_fair [of ?g "\<lambda>_. False" 0 "\<lambda>_. 0" 0] unfolding W
    by (simp add: healthy_def peer_of_weight_def split: prod.splits)
qed

text \<open>
  C12. The bookkeeping keeps its invariant through every selection and release, failed or not: the
  effective weight of a peer stays between zero and its weight, and the current weights of a group
  add up to zero, so none of them can drift.
\<close>

theorem rr_invariant:
  assumes "rr_wf (peer g)" "i < length (peer g)"
  shows "rr_wf (peer (fst (snd (ngx_http_upstream_get_peer chk now rnd g tried))))
    \<and> rr_wf (peer (fst (snd (rr_try chk now rnd g tried))))
    \<and> rr_wf (peer (fst (ngx_http_upstream_free_round_robin_peer now g i failed tries)))"
proof -
  obtain res g' tried' where call: "ngx_http_upstream_get_peer chk now rnd g tried = (res, g', tried')" by (metis prod_cases3)
  then have "rr_wf (peer g')" by (rule get_peer_wf [OF _ assms(1)])
  with call assms free_peer_wf [OF assms(2,1)] show ?thesis by (simp add: rr_try_def Let_def)
qed

theorem rr_invariant_witness:
  "rr_wf (peer (fst (ngx_http_upstream_free_round_robin_peer 5
     \<lparr>peer = [peer_of_weight 5, peer_of_weight 1], init_number = None, single = False\<rparr> 0 True 2)))"
  using rr_invariant [of "\<lparr>peer = [peer_of_weight 5, peer_of_weight 1], init_number = None, single = False\<rparr>" 0
      "\<lambda>_. False" 5 0 "[0]" True 2]
  by (simp add: rr_wf_def cw_sum_def peer_of_weight_def)

text \<open>
  What an administrator may expect of a peer that serves a request, written over the fields of the
  peer and apart from the code: it is in service and healthy, it has not reached its number of failures
  or the time to leave it alone is over, and it has a connection to spare. The set of the peers that a
  request has tried is read off the bits of the machine words.
\<close>

definition may_serve :: "(nat \<Rightarrow> bool) \<Rightarrow> int \<Rightarrow> rr_peer \<Rightarrow> bool" where
  "may_serve unhealthy now p \<longleftrightarrow>
     \<not> down p \<and> \<not> unhealthy (check_index p)
     \<and> (0 < max_fails p \<and> max_fails p \<le> fails p \<longrightarrow> checked p + fail_timeout p < now)
     \<and> (0 < max_conns p \<longrightarrow> conns p < max_conns p)"

definition tried_set :: "tried_bits \<Rightarrow> nat set" where
  "tried_set tried = {j. bit (tried ! (j div 64)) (j mod 64)}"

lemma rr_turn_may_serve:
  "rr_turn chk now tried ps j \<longleftrightarrow> j \<notin> tried_set tried \<and> may_serve chk now (ps ! j)"
  by (auto simp: rr_turn_def rr_skip_def may_serve_def tried_set_def is_tried_bit)

text \<open>
  C13. A peer that is chosen exists, has not been tried by the request before, is neither marked down nor
  found down by the health check, is not within its failure timeout with too many failures, and has a
  connection to spare; among the peers that satisfy this it has the largest weight after the round's
  credit, and exactly it is added to the peers that the request has tried. The request is refused
  only when no peer of the group satisfies the conditions.
\<close>

theorem rr_choice_allowed:
  assumes "tried_words (length (peer g)) \<le> length tried"
  shows "case ngx_http_upstream_get_peer chk now rnd g tried of
      (None, _, _) \<Rightarrow> \<forall>j<length (peer g). j \<in> tried_set tried \<or> \<not> may_serve chk now (peer g ! j)
    | (Some b, g', tried') \<Rightarrow> b < length (peer g) \<and> b \<notin> tried_set tried \<and> may_serve chk now (peer g ! b)
        \<and> (\<forall>j<length (peer g). j \<notin> tried_set tried \<and> may_serve chk now (peer g ! j) \<longrightarrow>
             current_weight (peer g ! j) + effective_weight (peer g ! j)
               \<le> current_weight (peer g ! b) + effective_weight (peer g ! b))
        \<and> tried_set tried' = insert b (tried_set tried)"
proof -
  obtain res g' tried' where call: "ngx_http_upstream_get_peer chk now rnd g tried = (res, g', tried')" by (metis prod_cases3)
  show ?thesis
  proof (cases res)
    case None
    then show ?thesis using get_peer_spec(2) [OF call] by (auto simp: call rr_turn_may_serve)
  next
    case (Some b)
    note sp = get_peer_spec(3) [OF call Some, unfolded rr_turn_may_serve]
    then have "b < 64 * length tried" using assms by (auto simp: tried_words_def)
    then have "tried_set (mark_tried tried b) = insert b (tried_set tried)"
      using is_tried_mark [of b tried] by (auto simp: tried_set_def is_tried_bit less_mult_imp_div_less mult.commute)
    with sp call Some show ?thesis by simp
  qed
qed

text \<open>The second peer has failed too often, the third one is down; the first one is chosen, and then none.\<close>

definition three_peers :: rr_peers where
  "three_peers = \<lparr>peer = [peer_of_weight 5, (peer_of_weight 7)\<lparr>max_fails := 1, fails := 1, checked := 95, fail_timeout := 10\<rparr>,
     (peer_of_weight 9)\<lparr>down := True\<rparr>], init_number = None, single = False\<rparr>"

theorem rr_choice_allowed_witness:
  "(case ngx_http_upstream_get_peer (\<lambda>_. False) 100 0 three_peers [0] of
      (res, g', tried') \<Rightarrow> res = Some 0 \<and> tried_set tried' = insert 0 (tried_set [0]))
   \<and> (case ngx_http_upstream_get_peer (\<lambda>_. False) 100 0 three_peers [1] of (res, g', tried') \<Rightarrow> res = None)"
proof -
  have len: "length (peer three_peers) = 3" by (simp add: three_peers_def)
  have serve: "\<not> may_serve (\<lambda>_. False) 100 (peer three_peers ! 1)" "\<not> may_serve (\<lambda>_. False) 100 (peer three_peers ! 2)"
    "may_serve (\<lambda>_. False) 100 (peer three_peers ! 0)"
    by (simp_all add: three_peers_def may_serve_def peer_of_weight_def)
  have tr: "0 \<notin> tried_set [0]" "0 \<in> tried_set [1]" by (simp_all add: tried_set_def)
  have three: "b < 3 \<longleftrightarrow> b = 0 \<or> b = 1 \<or> b = 2" for b :: nat by auto
  have words: "tried_words 3 = 1" by (simp add: tried_words_def)
  note w = rr_choice_allowed [of three_peers _ "\<lambda>_. False" 100 0, unfolded len words three]
  show ?thesis using w [of "[0]"] w [of "[1]"] serve tr
    by (auto split: prod.splits option.splits)
qed

end
