(* ===== verification/Interleaving.thy ===== *)
theory Interleaving
  imports Prelude
begin

text \<open>
  Processes that share memory. A system is a shared part and, for every process identifier, the
  point at which that process stands in the code it runs; a step lets one process execute one
  atomic action (a read, a store, a compare-and-set, a fetch-and-add or a semaphore operation).
  The memory is sequentially consistent, as the atomic primitives of the source are full barriers.
  The locale \<open>transition_system\<close> carries invariants from single steps to all reachable states,
  and the counting lemmas say how many processes stand at a kind of point after one has moved.
\<close>

section \<open>Process identifiers\<close>

text \<open>A \<open>pid_t\<close> is a positive 32-bit signed number, stored in an atomic word of 64 bits.\<close>

type_synonym pid = "64 word"
type_synonym atomic = "64 word"

definition is_pid :: "pid \<Rightarrow> bool" where
  "is_pid p \<longleftrightarrow> 0 < p \<and> p < 2 ^ 31"

lemma is_pid_nonzero: "is_pid p \<Longrightarrow> p \<noteq> 0"
  by (auto simp: is_pid_def)

lemma card_pids: "(\<And>p. P p \<Longrightarrow> is_pid p) \<Longrightarrow> card {p. P p} < 2 ^ 31"
proof -
  assume P: "\<And>p. P p \<Longrightarrow> is_pid p"
  have "unat ` {p. P p} \<subseteq> {1..<2 ^ 31}"
    using P by (auto simp: is_pid_def word_less_nat_alt Suc_le_eq)
  then have "card (unat ` {p. P p}) \<le> card {1..<2 ^ 31 :: nat}"
    by (intro card_mono) simp_all
  moreover have "card (unat ` {p. P p}) = card {p. P p}"
    by (rule card_image) (simp add: inj_on_def word_unat_eq_iff)
  ultimately show ?thesis by simp
qed

section \<open>Counting processes\<close>

definition count :: "('c \<Rightarrow> bool) \<Rightarrow> (pid \<Rightarrow> 'c) \<Rightarrow> nat" where
  "count P f = card {p. P (f p)}"

lemma count_upd:
  "int (count P (f(p := c))) = int (count P f) + of_bool (P c) - of_bool (P (f p))"
proof -
  have fin: "finite (A :: pid set)" for A by simp
  have "{q. P ((f(p := c)) q)} = (if P c then insert p ({q. P (f q)} - {p}) else {q. P (f q)} - {p})"
    by auto
  moreover have "card {q. P (f q)} = card ({q. P (f q)} - {p}) + of_bool (P (f p))"
  proof (cases "P (f p)")
    case True
    then show ?thesis using card.remove [OF fin, of p "{q. P (f q)}"] by simp
  next
    case False
    then have "{q. P (f q)} - {p} = {q. P (f q)}" by auto
    with False show ?thesis by simp
  qed
  ultimately show ?thesis
    using card_insert_disjoint [OF fin, of p "{q. P (f q)} - {p}"]
    by (simp add: count_def del: card_Diff_insert)
qed

lemma count_zero: "count P f = 0 \<longleftrightarrow> (\<forall>p. \<not> P (f p))"
  by (auto simp: count_def card_eq_0_iff)

lemma count_pos: "P (f p) \<Longrightarrow> 0 < count P f"
  using count_zero [of P f] by auto

lemma count_one:
  "count P f = 1 \<Longrightarrow> P (f p) \<Longrightarrow> P (f q) \<Longrightarrow> p = q"
  unfolding count_def One_nat_def card_1_singleton_iff set_eq_iff by auto

lemma count_pids: "(\<And>p. P (f p) \<Longrightarrow> is_pid p) \<Longrightarrow> count P f < 2 ^ 31"
  unfolding count_def by (rule card_pids)

section \<open>Reachable states\<close>

inductive reach :: "('s \<Rightarrow> 's \<Rightarrow> bool) \<Rightarrow> 's \<Rightarrow> 's \<Rightarrow> bool" for step and init where
  reach_init: "reach step init init"
| reach_step: "reach step init s \<Longrightarrow> step s t \<Longrightarrow> reach step init t"

locale transition_system =
  fixes step :: "'s \<Rightarrow> 's \<Rightarrow> bool" and init :: 's and inv :: "'s \<Rightarrow> bool"
  assumes inv_init: "inv init"
    and inv_step: "step s t \<Longrightarrow> inv s \<Longrightarrow> inv t"
begin

lemma inv_reach: "reach step init s \<Longrightarrow> inv s"
  by (induction rule: reach.induct) (blast intro: inv_init inv_step)+

end

section \<open>The retry loop of the locks\<close>

text \<open>
  Every lock first tries once, then, on a machine with more than one processor, once more after
  1, 2, 4 \dots pauses while the number of pauses is below the limit \<open>spin\<close>.
\<close>

datatype attempt = First | Spin "64 word"

fun spin_next :: "64 word \<Rightarrow> 64 word \<Rightarrow> attempt \<Rightarrow> attempt option" where
  "spin_next ncpu spin First = (if 1 < ncpu \<and> 1 < spin then Some (Spin 1) else None)"
| "spin_next ncpu spin (Spin n) =
     (if push_bit 1 n < spin then Some (Spin (push_bit 1 n)) else None)"

end
