(* ===== verification/Ngx_Rwlock.thy ===== *)
theory Ngx_Rwlock
  imports Interleaving
begin

text \<open>
  The readers-writer lock of \<^verbatim>\<open>src/core/ngx_rwlock.c\<close>, which guards the shared memory zones of
  the upstream balancers: one atomic word that is zero when the lock is free, all ones while a
  process writes, and otherwise the number of readers.

  Each function of the source is a function from the lock word and the point at which the calling
  process stands to the word and the point after its next atomic action. The mode that a point
  carries is not looked at by the code: it records how the process holds the lock, so that the
  theorems can speak of readers and writers. The relation \<open>rw_step\<close> interleaves any number of
  processes that call these functions in any order that respects the pairing of lock and unlock.
\<close>

section \<open>Model\<close>

definition NGX_RWLOCK_SPIN :: "64 word" where
  [ngx_consts]: "NGX_RWLOCK_SPIN = 2048"

definition NGX_RWLOCK_WLOCK :: atomic where
  [ngx_consts]: "NGX_RWLOCK_WLOCK = - 1"

datatype mode = Reading | Writing

datatype rw_pc =
    RW_outside
  | WL_read attempt
  | WL_cas attempt
  | RL_read attempt
  | RL_cas attempt atomic
  | RW_holds mode
  | UN_read mode
  | UN_cas mode
  | UN_add mode
  | DG_read mode
  | DG_store mode

text \<open>Where the loop goes when an attempt has failed: the next attempt, or the first one again
  after \<open>ngx_sched_yield\<close>.\<close>

definition rw_retry :: "64 word \<Rightarrow> (attempt \<Rightarrow> rw_pc) \<Rightarrow> attempt \<Rightarrow> rw_pc" where
  "rw_retry ncpu read a =
     (case spin_next ncpu NGX_RWLOCK_SPIN a of Some b \<Rightarrow> read b | None \<Rightarrow> read First)"

fun ngx_rwlock_wlock :: "64 word \<Rightarrow> atomic \<Rightarrow> rw_pc \<Rightarrow> (atomic \<times> rw_pc) option" where
  "ngx_rwlock_wlock ncpu lock (WL_read a) =
     Some (lock, if lock = 0 then WL_cas a else rw_retry ncpu WL_read a)"
| "ngx_rwlock_wlock ncpu lock (WL_cas a) =
     Some (if lock = 0 then (NGX_RWLOCK_WLOCK, RW_holds Writing)
           else (lock, rw_retry ncpu WL_read a))"
| "ngx_rwlock_wlock ncpu lock _ = None"

fun ngx_rwlock_rlock :: "64 word \<Rightarrow> atomic \<Rightarrow> rw_pc \<Rightarrow> (atomic \<times> rw_pc) option" where
  "ngx_rwlock_rlock ncpu lock (RL_read a) =
     Some (lock, if lock \<noteq> NGX_RWLOCK_WLOCK then RL_cas a lock else rw_retry ncpu RL_read a)"
| "ngx_rwlock_rlock ncpu lock (RL_cas a readers) =
     Some (if lock = readers then (readers + 1, RW_holds Reading)
           else (lock, rw_retry ncpu RL_read a))"
| "ngx_rwlock_rlock ncpu lock _ = None"

fun ngx_rwlock_unlock :: "atomic \<Rightarrow> rw_pc \<Rightarrow> (atomic \<times> rw_pc) option" where
  "ngx_rwlock_unlock lock (UN_read m) =
     Some (lock, if lock = NGX_RWLOCK_WLOCK then UN_cas m else UN_add m)"
| "ngx_rwlock_unlock lock (UN_cas m) =
     Some (if lock = NGX_RWLOCK_WLOCK then 0 else lock, RW_outside)"
| "ngx_rwlock_unlock lock (UN_add m) = Some (lock - 1, RW_outside)"
| "ngx_rwlock_unlock lock _ = None"

fun ngx_rwlock_downgrade :: "atomic \<Rightarrow> rw_pc \<Rightarrow> (atomic \<times> rw_pc) option" where
  "ngx_rwlock_downgrade lock (DG_read m) =
     Some (lock, if lock = NGX_RWLOCK_WLOCK then DG_store m else RW_holds m)"
| "ngx_rwlock_downgrade lock (DG_store m) = Some (1, RW_holds Reading)"
| "ngx_rwlock_downgrade lock _ = None"

record rw_sys =
  rw_lock :: atomic
  rw_pcs :: "pid \<Rightarrow> rw_pc"

definition rw_move :: "pid \<Rightarrow> rw_pc \<Rightarrow> rw_sys \<Rightarrow> rw_sys" where
  "rw_move p c s = s\<lparr>rw_pcs := (rw_pcs s)(p := c)\<rparr>"

definition rw_init :: rw_sys where
  "rw_init = \<lparr>rw_lock = 0, rw_pcs = (\<lambda>_. RW_outside)\<rparr>"

inductive rw_step :: "64 word \<Rightarrow> rw_sys \<Rightarrow> rw_sys \<Rightarrow> bool" for ncpu where
  call_wlock: "is_pid p \<Longrightarrow> rw_pcs s p = RW_outside \<Longrightarrow> rw_step ncpu s (rw_move p (WL_read First) s)"
| call_rlock: "is_pid p \<Longrightarrow> rw_pcs s p = RW_outside \<Longrightarrow> rw_step ncpu s (rw_move p (RL_read First) s)"
| call_unlock: "rw_pcs s p = RW_holds m \<Longrightarrow> rw_step ncpu s (rw_move p (UN_read m) s)"
| call_downgrade: "rw_pcs s p = RW_holds m \<Longrightarrow> rw_step ncpu s (rw_move p (DG_read m) s)"
| run_wlock: "ngx_rwlock_wlock ncpu (rw_lock s) (rw_pcs s p) = Some (l, c) \<Longrightarrow>
    rw_step ncpu s (rw_move p c (s\<lparr>rw_lock := l\<rparr>))"
| run_rlock: "ngx_rwlock_rlock ncpu (rw_lock s) (rw_pcs s p) = Some (l, c) \<Longrightarrow>
    rw_step ncpu s (rw_move p c (s\<lparr>rw_lock := l\<rparr>))"
| run_unlock: "ngx_rwlock_unlock (rw_lock s) (rw_pcs s p) = Some (l, c) \<Longrightarrow>
    rw_step ncpu s (rw_move p c (s\<lparr>rw_lock := l\<rparr>))"
| run_downgrade: "ngx_rwlock_downgrade (rw_lock s) (rw_pcs s p) = Some (l, c) \<Longrightarrow>
    rw_step ncpu s (rw_move p c (s\<lparr>rw_lock := l\<rparr>))"

text \<open>The processes that hold the lock for writing and for reading.\<close>

fun rw_writes :: "rw_pc \<Rightarrow> bool" where
  "rw_writes (RW_holds m) = (m = Writing)"
| "rw_writes (UN_read m) = (m = Writing)"
| "rw_writes (UN_cas m) = (m = Writing)"
| "rw_writes (UN_add m) = (m = Writing)"
| "rw_writes (DG_read m) = (m = Writing)"
| "rw_writes (DG_store m) = (m = Writing)"
| "rw_writes _ = False"

fun rw_reads :: "rw_pc \<Rightarrow> bool" where
  "rw_reads (RW_holds m) = (m = Reading)"
| "rw_reads (UN_read m) = (m = Reading)"
| "rw_reads (UN_cas m) = (m = Reading)"
| "rw_reads (UN_add m) = (m = Reading)"
| "rw_reads (DG_read m) = (m = Reading)"
| "rw_reads (DG_store m) = (m = Reading)"
| "rw_reads _ = False"

text \<open>What a process knows at a point of the code: the branch it has taken fits the way it holds
  the lock.\<close>

fun rw_local_ok :: "rw_pc \<Rightarrow> bool" where
  "rw_local_ok (UN_cas m) = (m = Writing)"
| "rw_local_ok (UN_add m) = (m = Reading)"
| "rw_local_ok (DG_store m) = (m = Writing)"
| "rw_local_ok (RL_cas a readers) = (readers \<noteq> NGX_RWLOCK_WLOCK)"
| "rw_local_ok _ = True"

definition rw_counts :: "rw_sys \<Rightarrow> bool" where
  "rw_counts s \<longleftrightarrow>
     (count rw_writes (rw_pcs s) = 0 \<and> rw_lock s = of_nat (count rw_reads (rw_pcs s))
      \<or> count rw_writes (rw_pcs s) = 1 \<and> count rw_reads (rw_pcs s) = 0 \<and> rw_lock s = NGX_RWLOCK_WLOCK)"

definition rw_inv :: "rw_sys \<Rightarrow> bool" where
  "rw_inv s \<longleftrightarrow> rw_counts s \<and> (\<forall>p. rw_local_ok (rw_pcs s p))
     \<and> (\<forall>p. rw_pcs s p \<noteq> RW_outside \<longrightarrow> is_pid p)"

section \<open>The invariant\<close>

lemma rw_move_simps [simp]:
  "rw_lock (rw_move p c s) = rw_lock s"
  "rw_pcs (rw_move p c s) = (rw_pcs s)(p := c)"
  by (simp_all add: rw_move_def)

lemma rw_reads_outside: "rw_reads c \<or> rw_writes c \<Longrightarrow> c \<noteq> RW_outside"
  by (cases c) simp_all

lemma rw_not_both: "rw_writes c \<Longrightarrow> \<not> rw_reads c"
  by (cases c) simp_all

lemma rw_holder_pid:
  assumes "rw_inv s" "rw_reads (rw_pcs s p) \<or> rw_writes (rw_pcs s p)"
  shows "is_pid p"
  using assms rw_reads_outside [OF assms(2)] by (simp add: rw_inv_def)

lemma rw_readers_bound:
  assumes "rw_inv s"
  shows "count rw_reads (rw_pcs s) < 2 ^ 31"
  using rw_holder_pid [OF assms] by (intro count_pids) blast

lemma of_nat_readers:
  assumes "n < 2 ^ 31"
  shows "of_nat n \<noteq> NGX_RWLOCK_WLOCK" and "of_nat n = (0 :: atomic) \<longleftrightarrow> n = 0"
proof -
  have u: "unat (of_nat n :: atomic) = n"
    using assms by (simp add: unsigned_of_nat take_bit_nat_eq_self)
  have "unat (of_nat (Suc n) :: atomic) = Suc n"
    using assms by (simp add: unsigned_of_nat take_bit_nat_eq_self del: of_nat_Suc)
  then show "of_nat n \<noteq> NGX_RWLOCK_WLOCK" by (auto simp: NGX_RWLOCK_WLOCK_def)
  show "of_nat n = (0 :: atomic) \<longleftrightarrow> n = 0" using u by auto
qed

lemma rw_counts_upd:
  "int (count rw_writes ((rw_pcs s)(p := c))) =
     int (count rw_writes (rw_pcs s)) + of_bool (rw_writes c) - of_bool (rw_writes (rw_pcs s p))"
  "int (count rw_reads ((rw_pcs s)(p := c))) =
     int (count rw_reads (rw_pcs s)) + of_bool (rw_reads c) - of_bool (rw_reads (rw_pcs s p))"
  by (rule count_upd)+

text \<open>The six ways in which a move can change who holds the lock.\<close>

lemma rw_stay:
  assumes "rw_counts s" "rw_writes c = rw_writes (rw_pcs s p)" "rw_reads c = rw_reads (rw_pcs s p)"
  shows "rw_counts (rw_move p c (s\<lparr>rw_lock := rw_lock s\<rparr>))"
proof -
  have "count rw_writes ((rw_pcs s)(p := c)) = count rw_writes (rw_pcs s)"
    "count rw_reads ((rw_pcs s)(p := c)) = count rw_reads (rw_pcs s)"
    using rw_counts_upd [of s p c] assms(2,3) by simp_all
  with assms(1) show ?thesis by (simp add: rw_counts_def)
qed

lemma rw_take_write:
  assumes "rw_inv s" "rw_lock s = 0" "\<not> rw_writes (rw_pcs s p)" "\<not> rw_reads (rw_pcs s p)"
    "rw_writes c" "\<not> rw_reads c"
  shows "rw_counts (rw_move p c (s\<lparr>rw_lock := NGX_RWLOCK_WLOCK\<rparr>))"
proof -
  have "count rw_writes (rw_pcs s) = 0 \<and> count rw_reads (rw_pcs s) = 0"
    using assms(1,2) of_nat_readers(2) [OF rw_readers_bound [OF assms(1)]]
    by (auto simp: rw_inv_def rw_counts_def NGX_RWLOCK_WLOCK_def)
  then have "count rw_writes ((rw_pcs s)(p := c)) = 1 \<and> count rw_reads ((rw_pcs s)(p := c)) = 0"
    using rw_counts_upd [of s p c] assms(3-6) by simp
  then show ?thesis by (simp add: rw_counts_def)
qed

lemma rw_take_read:
  assumes "rw_counts s" "rw_lock s \<noteq> NGX_RWLOCK_WLOCK"
    "\<not> rw_writes (rw_pcs s p)" "\<not> rw_reads (rw_pcs s p)" "\<not> rw_writes c" "rw_reads c"
  shows "rw_counts (rw_move p c (s\<lparr>rw_lock := rw_lock s + 1\<rparr>))"
proof -
  have n: "count rw_writes (rw_pcs s) = 0" "rw_lock s = of_nat (count rw_reads (rw_pcs s))"
    using assms(1,2) by (auto simp: rw_counts_def)
  have "count rw_writes ((rw_pcs s)(p := c)) = 0"
    "count rw_reads ((rw_pcs s)(p := c)) = Suc (count rw_reads (rw_pcs s))"
    using rw_counts_upd [of s p c] n(1) assms(3-6) by simp_all
  with n show ?thesis by (simp add: rw_counts_def)
qed

lemma rw_writer_lock:
  assumes "rw_counts s" "rw_writes (rw_pcs s p)"
  shows "count rw_writes (rw_pcs s) = 1 \<and> count rw_reads (rw_pcs s) = 0 \<and> rw_lock s = NGX_RWLOCK_WLOCK"
  using assms count_pos [of rw_writes "rw_pcs s" p] by (auto simp: rw_counts_def)

lemma rw_reader_lock:
  assumes "rw_inv s" "rw_reads (rw_pcs s p)"
  shows "count rw_writes (rw_pcs s) = 0 \<and> rw_lock s = of_nat (count rw_reads (rw_pcs s))
    \<and> rw_lock s \<noteq> NGX_RWLOCK_WLOCK \<and> 0 < count rw_reads (rw_pcs s)"
  using assms count_pos [of rw_reads "rw_pcs s" p]
    of_nat_readers(1) [OF rw_readers_bound [OF assms(1)]]
  by (auto simp: rw_inv_def rw_counts_def)

lemma rw_drop_write:
  assumes "rw_counts s" "rw_writes (rw_pcs s p)" "\<not> rw_writes c" "\<not> rw_reads c"
  shows "rw_counts (rw_move p c (s\<lparr>rw_lock := 0\<rparr>))"
  using rw_counts_upd [of s p c] rw_writer_lock [OF assms(1,2)] assms rw_not_both [OF assms(2)]
  by (auto simp: rw_counts_def)

lemma rw_drop_read:
  assumes "rw_inv s" "rw_reads (rw_pcs s p)" "\<not> rw_writes c" "\<not> rw_reads c"
  shows "rw_counts (rw_move p c (s\<lparr>rw_lock := rw_lock s - 1\<rparr>))"
proof -
  note l = rw_reader_lock [OF assms(1,2)]
  have nw: "\<not> rw_writes (rw_pcs s p)" using rw_not_both assms(2) by blast
  have "count rw_writes ((rw_pcs s)(p := c)) = 0"
    "Suc (count rw_reads ((rw_pcs s)(p := c))) = count rw_reads (rw_pcs s)"
    using rw_counts_upd [of s p c] l nw assms(2-4) by simp_all
  moreover from this(2) [symmetric] have "rw_lock s - 1 = of_nat (count rw_reads ((rw_pcs s)(p := c)))"
    using l by simp
  ultimately show ?thesis by (simp add: rw_counts_def)
qed

lemma rw_write_to_read:
  assumes "rw_counts s" "rw_writes (rw_pcs s p)" "\<not> rw_writes c" "rw_reads c"
  shows "rw_counts (rw_move p c (s\<lparr>rw_lock := 1\<rparr>))"
proof -
  have "count rw_writes ((rw_pcs s)(p := c)) = 0" "count rw_reads ((rw_pcs s)(p := c)) = 1"
    using rw_counts_upd [of s p c] rw_writer_lock [OF assms(1,2)] assms rw_not_both [OF assms(2)]
    by auto
  then show ?thesis by (simp add: rw_counts_def)
qed

lemma rw_retry_ok:
  "rw_local_ok (rw_retry n WL_read a)" "\<not> rw_writes (rw_retry n WL_read a)" "\<not> rw_reads (rw_retry n WL_read a)"
  "rw_local_ok (rw_retry n RL_read a)" "\<not> rw_writes (rw_retry n RL_read a)" "\<not> rw_reads (rw_retry n RL_read a)"
  by (simp_all add: rw_retry_def split: option.split)

lemma rw_inv_moveI:
  assumes "rw_inv s" "rw_counts (rw_move p c (s\<lparr>rw_lock := l\<rparr>))" "rw_local_ok c" "is_pid p"
  shows "rw_inv (rw_move p c (s\<lparr>rw_lock := l\<rparr>))"
  using assms by (auto simp: rw_inv_def)

fun_cases wlock_cases: "ngx_rwlock_wlock ncpu lock pc = Some (l, c)"
fun_cases rlock_cases: "ngx_rwlock_rlock ncpu lock pc = Some (l, c)"
fun_cases unlock_cases: "ngx_rwlock_unlock lock pc = Some (l, c)"
fun_cases downgrade_cases: "ngx_rwlock_downgrade lock pc = Some (l, c)"


lemma rw_inv_stay:
  assumes "rw_inv s" "is_pid p" "rw_local_ok c"
    and "rw_writes c = rw_writes (rw_pcs s p)" "rw_reads c = rw_reads (rw_pcs s p)"
  shows "rw_inv (rw_move p c s)"
  using rw_inv_moveI [OF assms(1) rw_stay assms(3,2)] assms by (simp add: rw_inv_def)

lemma run_pid:
  assumes "rw_inv s" "rw_pcs s p \<noteq> RW_outside"
  shows "is_pid p"
  using assms by (simp add: rw_inv_def)

lemma run_wlock_inv:
  assumes "ngx_rwlock_wlock ncpu (rw_lock s) (rw_pcs s p) = Some (l, c)" "rw_inv s"
  shows "rw_counts (rw_move p c (s\<lparr>rw_lock := l\<rparr>)) \<and> rw_local_ok c"
  using assms(1)
proof (elim wlock_cases)
  fix a assume "rw_lock s = l" "rw_pcs s p = WL_read a"
    "c = (if l = 0 then WL_cas a else rw_retry ncpu WL_read a)"
  then show ?thesis using rw_stay [of s c p] assms(2) by (auto simp: rw_retry_ok rw_inv_def)
next
  fix a assume a: "rw_pcs s p = WL_cas a"
    "(l, c) = (if rw_lock s = 0 then (NGX_RWLOCK_WLOCK, RW_holds Writing) else (rw_lock s, rw_retry ncpu WL_read a))"
  show ?thesis
    using a rw_stay [of s c p] rw_take_write [of s p c] assms(2)
    by (cases "rw_lock s = 0") (simp_all add: rw_retry_ok rw_inv_def)
qed

lemma run_rlock_inv:
  assumes "ngx_rwlock_rlock ncpu (rw_lock s) (rw_pcs s p) = Some (l, c)" "rw_inv s"
  shows "rw_counts (rw_move p c (s\<lparr>rw_lock := l\<rparr>)) \<and> rw_local_ok c"
  using assms(1)
proof (elim rlock_cases)
  fix a assume "rw_lock s = l" "rw_pcs s p = RL_read a"
    "c = (if l \<noteq> NGX_RWLOCK_WLOCK then RL_cas a l else rw_retry ncpu RL_read a)"
  then show ?thesis using rw_stay [of s c p] assms(2) by (auto simp: rw_retry_ok rw_inv_def)
next
  fix a r assume a: "rw_pcs s p = RL_cas a r"
    "(l, c) = (if rw_lock s = r then (r + 1, RW_holds Reading) else (rw_lock s, rw_retry ncpu RL_read a))"
  have "rw_local_ok (rw_pcs s p)" using assms(2) by (simp add: rw_inv_def)
  then show ?thesis
    using a rw_stay [of s c p] rw_take_read [of s p c] assms(2)
    by (cases "rw_lock s = r") (simp_all add: rw_retry_ok rw_inv_def)
qed

lemma run_unlock_inv:
  assumes "ngx_rwlock_unlock (rw_lock s) (rw_pcs s p) = Some (l, c)" "rw_inv s"
  shows "rw_counts (rw_move p c (s\<lparr>rw_lock := l\<rparr>)) \<and> rw_local_ok c"
proof -
  have ok: "rw_local_ok (rw_pcs s p)" and cs: "rw_counts s" using assms(2) by (simp_all add: rw_inv_def)
  from assms(1) show ?thesis
  proof (elim unlock_cases)
    fix m assume a: "rw_lock s = l" "rw_pcs s p = UN_read m"
      "c = (if l = NGX_RWLOCK_WLOCK then UN_cas m else UN_add m)"
    then have "m = Writing \<longleftrightarrow> l = NGX_RWLOCK_WLOCK"
      using rw_writer_lock [OF cs, of p] rw_reader_lock [OF assms(2), of p] by (cases m) auto
    with a show ?thesis using rw_stay [OF cs, of c p] by (cases m) auto
  next
    fix m assume "rw_pcs s p = UN_cas m" "l = (if rw_lock s = NGX_RWLOCK_WLOCK then 0 else rw_lock s)"
      "c = RW_outside"
    then show ?thesis using rw_drop_write [OF cs, of p c] rw_writer_lock [OF cs, of p] ok by simp
  next
    fix m assume "rw_pcs s p = UN_add m" "l = rw_lock s - 1" "c = RW_outside"
    then show ?thesis using rw_drop_read [OF assms(2), of p c] ok by simp
  qed
qed

lemma run_downgrade_inv:
  assumes "ngx_rwlock_downgrade (rw_lock s) (rw_pcs s p) = Some (l, c)" "rw_inv s"
  shows "rw_counts (rw_move p c (s\<lparr>rw_lock := l\<rparr>)) \<and> rw_local_ok c"
proof -
  have ok: "rw_local_ok (rw_pcs s p)" and cs: "rw_counts s" using assms(2) by (simp_all add: rw_inv_def)
  from assms(1) show ?thesis
  proof (elim downgrade_cases)
    fix m assume a: "rw_lock s = l" "rw_pcs s p = DG_read m"
      "c = (if l = NGX_RWLOCK_WLOCK then DG_store m else RW_holds m)"
    then have "m = Writing \<longleftrightarrow> l = NGX_RWLOCK_WLOCK"
      using rw_writer_lock [OF cs, of p] rw_reader_lock [OF assms(2), of p] by (cases m) auto
    with a show ?thesis using rw_stay [OF cs, of c p] by (cases m) auto
  next
    fix m assume "rw_pcs s p = DG_store m" "l = 1" "c = RW_holds Reading"
    then show ?thesis using rw_write_to_read [OF cs, of p c] ok by simp
  qed
qed

lemma rw_step_inv: "rw_step ncpu s t \<Longrightarrow> rw_inv s \<Longrightarrow> rw_inv t"
proof (induction rule: rw_step.induct)
  case (call_wlock p s)
  then show ?case by (intro rw_inv_stay) simp_all
next
  case (call_rlock p s)
  then show ?case by (intro rw_inv_stay) simp_all
next
  case (call_unlock s p m)
  then show ?case by (intro rw_inv_stay run_pid [of s]) simp_all
next
  case (call_downgrade s p m)
  then show ?case by (intro rw_inv_stay run_pid [of s]) simp_all
next
  case (run_wlock s p l c)
  then have "rw_pcs s p \<noteq> RW_outside" by auto
  with run_wlock run_wlock_inv [of ncpu s p l c] show ?case by (intro rw_inv_moveI run_pid [of s]) simp_all
next
  case (run_rlock s p l c)
  then have "rw_pcs s p \<noteq> RW_outside" by auto
  with run_rlock run_rlock_inv [of ncpu s p l c] show ?case by (intro rw_inv_moveI run_pid [of s]) simp_all
next
  case (run_unlock s p l c)
  then have "rw_pcs s p \<noteq> RW_outside" by auto
  with run_unlock run_unlock_inv [of s p l c] show ?case by (intro rw_inv_moveI run_pid [of s]) simp_all
next
  case (run_downgrade s p l c)
  then have "rw_pcs s p \<noteq> RW_outside" by auto
  with run_downgrade run_downgrade_inv [of s p l c] show ?case by (intro rw_inv_moveI run_pid [of s]) simp_all
qed

lemma rw_init_inv: "rw_inv rw_init"
proof -
  have "count P (\<lambda>_. RW_outside) = 0" if "\<not> P RW_outside" for P
    using that count_zero [of P "\<lambda>_. RW_outside"] by simp
  then show ?thesis by (simp add: rw_inv_def rw_counts_def rw_init_def)
qed

interpretation rw: transition_system "rw_step ncpu" rw_init rw_inv for ncpu
  by unfold_locales (rule rw_init_inv, rule rw_step_inv)

text \<open>
  C7. In every state that any interleaving of the calls reaches, a process that holds the lock for
  writing is the only holder, and the lock word is all ones while there is a writer and otherwise
  the number of readers.
\<close>

theorem rwlock_exclusion:
  assumes "reach (rw_step ncpu) rw_init s"
  shows "(rw_writes (rw_pcs s p) \<longrightarrow> rw_writes (rw_pcs s q) \<or> rw_reads (rw_pcs s q) \<longrightarrow> p = q)
    \<and> rw_lock s = (if \<exists>p. rw_writes (rw_pcs s p) then NGX_RWLOCK_WLOCK
                   else of_nat (count rw_reads (rw_pcs s)))"
proof -
  have inv: "rw_inv s" using assms by (rule rw.inv_reach)
  then have cs: "rw_counts s" by (simp add: rw_inv_def)
  have "p = q" if "rw_writes (rw_pcs s p)" "rw_writes (rw_pcs s q) \<or> rw_reads (rw_pcs s q)"
    using that rw_writer_lock [OF cs that(1)] rw_reader_lock [OF inv, of q]
      count_one [of rw_writes "rw_pcs s" p q] by auto
  moreover have "rw_lock s = (if \<exists>p. rw_writes (rw_pcs s p) then NGX_RWLOCK_WLOCK
      else of_nat (count rw_reads (rw_pcs s)))"
    using cs rw_writer_lock [OF cs] count_zero [of rw_writes "rw_pcs s"]
    by (auto simp: rw_counts_def)
  ultimately show ?thesis by blast
qed

lemma rw_example_reachable:
  "reach (rw_step 4) rw_init \<lparr>rw_lock = NGX_RWLOCK_WLOCK, rw_pcs = (\<lambda>_. RW_outside)(7 := RW_holds Writing)\<rparr>"
proof -
  let ?s = "\<lambda>l c. \<lparr>rw_lock = l, rw_pcs = (\<lambda>_. RW_outside)(7 := c)\<rparr>"
  have "rw_step 4 rw_init (?s 0 (WL_read First))"
    using call_wlock [of 7 rw_init 4] by (simp add: rw_init_def rw_move_def is_pid_def)
  moreover have "rw_step 4 (?s 0 (WL_read First)) (?s 0 (WL_cas First))"
    using run_wlock [of 4 "?s 0 (WL_read First)" 7 0 "WL_cas First"] by (simp add: rw_move_def)
  moreover have "rw_step 4 (?s 0 (WL_cas First)) (?s NGX_RWLOCK_WLOCK (RW_holds Writing))"
    using run_wlock [of 4 "?s 0 (WL_cas First)" 7 NGX_RWLOCK_WLOCK "RW_holds Writing"] by (simp add: rw_move_def)
  ultimately show ?thesis by (blast intro: reach.intros)
qed

theorem rwlock_exclusion_witness:
  "let s = \<lparr>rw_lock = NGX_RWLOCK_WLOCK, rw_pcs = (\<lambda>_. RW_outside)(7 := RW_holds Writing)\<rparr> in
     reach (rw_step 4) rw_init s \<and> rw_writes (rw_pcs s 7) \<and> \<not> rw_reads (rw_pcs s 9)"
  using rwlock_exclusion [OF rw_example_reachable, of 7 9] rw_example_reachable by (simp add: Let_def)

text \<open>
  Nobody is refused a lock that is free: a process about to try for reading when nobody writes, or
  for writing when nobody holds the lock, has it after its next two actions.
\<close>

theorem rwlock_progress:
  assumes "reach (rw_step ncpu) rw_init s" "\<forall>q. \<not> rw_writes (rw_pcs s q)"
    and "rw_pcs s p = RL_read a \<and> m = Reading
         \<or> rw_pcs s p = WL_read a \<and> m = Writing \<and> (\<forall>q. \<not> rw_reads (rw_pcs s q))"
  shows "\<exists>t u. rw_step ncpu s t \<and> rw_step ncpu t u \<and> rw_pcs u = (rw_pcs s)(p := RW_holds m)"
proof -
  have inv: "rw_inv s" using assms(1) by (rule rw.inv_reach)
  have l: "rw_lock s = of_nat (count rw_reads (rw_pcs s))"
    using inv assms(2) count_zero [of rw_writes "rw_pcs s"] by (auto simp: rw_inv_def rw_counts_def)
  note n = of_nat_readers [OF rw_readers_bound [OF inv]]
  show ?thesis using assms(3)
  proof (elim disjE conjE)
    let ?t = "rw_move p (RL_cas a (rw_lock s)) s"
    assume a: "rw_pcs s p = RL_read a" "m = Reading"
    have "rw_lock s \<noteq> NGX_RWLOCK_WLOCK" using l n(1) by simp
    then have "rw_step ncpu s ?t"
      using run_rlock [of ncpu s p "rw_lock s" "RL_cas a (rw_lock s)"] a by simp
    moreover have "rw_step ncpu ?t (rw_move p (RW_holds m) (?t\<lparr>rw_lock := rw_lock s + 1\<rparr>))"
      using run_rlock [of ncpu ?t p "rw_lock s + 1" "RW_holds m"] a by simp
    moreover have "rw_pcs (rw_move p (RW_holds m) (?t\<lparr>rw_lock := rw_lock s + 1\<rparr>)) = (rw_pcs s)(p := RW_holds m)"
      by simp
    ultimately show ?thesis by blast
  next
    let ?t = "rw_move p (WL_cas a) s"
    assume a: "rw_pcs s p = WL_read a" "m = Writing" "\<forall>q. \<not> rw_reads (rw_pcs s q)"
    then have z: "rw_lock s = 0" using l count_zero [of rw_reads "rw_pcs s"] by simp
    have e: "ngx_rwlock_wlock ncpu (rw_lock s) (rw_pcs s p) = Some (rw_lock s, WL_cas a)"
      using a(1) z by simp
    have "rw_step ncpu s ?t" using run_wlock [OF e] by simp
    moreover have "rw_step ncpu ?t (rw_move p (RW_holds m) (?t\<lparr>rw_lock := NGX_RWLOCK_WLOCK\<rparr>))"
      using run_wlock [of ncpu ?t p NGX_RWLOCK_WLOCK "RW_holds m"] a z by simp
    moreover have "rw_pcs (rw_move p (RW_holds m) (?t\<lparr>rw_lock := NGX_RWLOCK_WLOCK\<rparr>)) = (rw_pcs s)(p := RW_holds m)"
      by simp
    ultimately show ?thesis by blast
  qed
qed

theorem rwlock_progress_witness:
  "let s = rw_move 7 (WL_read First) rw_init in
     reach (rw_step 4) rw_init s
     \<and> (\<exists>t u. rw_step 4 s t \<and> rw_step 4 t u \<and> rw_pcs u = (rw_pcs s)(7 := RW_holds Writing))"
proof -
  have r: "reach (rw_step 4) rw_init (rw_move 7 (WL_read First) rw_init)"
    using call_wlock [of 7 rw_init 4] by (intro reach_step [OF reach_init]) (simp add: rw_init_def is_pid_def)
  show ?thesis
    using rwlock_progress [OF r, of 7 First Writing] r by (simp add: Let_def rw_init_def)
qed

end
