(* ===== verification/Ngx_Shmtx.thy ===== *)
theory Ngx_Shmtx
  imports Interleaving
begin

text \<open>
  The mutex in shared memory of \<^verbatim>\<open>src/core/ngx_shmtx.c\<close> (the build with atomic operations and POSIX
  semaphores), which guards the accept mutex and every shared memory zone: a lock word that holds the
  process that has the mutex, a counter of processes about to sleep, and a semaphore.

  As in the theory of the readers-writer lock, a function of the source maps the shared words and the
  point at which the calling process stands to those after its next atomic action, and \<open>sx_step\<close>
  interleaves the processes. A blocked \<open>sem_wait\<close> has no next action; an interrupted one is
  retried by the source and is not a step. A process may crash, and the master then releases the
  mutex on its behalf.
\<close>

section \<open>Model\<close>

record ngx_shmtx_sh =
  sh_lock :: atomic
  sh_wait :: atomic
  sh_sem :: nat

record ngx_shmtx =
  mtx_spin :: "64 word"
  mtx_semaphore :: bool

text \<open>A mutex whose \<open>spin\<close> is all ones (the accept mutex) is only ever tried, never waited for.\<close>

definition ngx_shmtx_create :: "bool \<Rightarrow> ngx_shmtx \<Rightarrow> ngx_shmtx" where
  "ngx_shmtx_create sem_init_ok mtx =
     (if mtx_spin mtx = - 1 then mtx
      else let mtx = mtx\<lparr>mtx_spin := 2048\<rparr> in
        if sem_init_ok then mtx\<lparr>mtx_semaphore := True\<rparr> else mtx)"

definition SEM_VALUE_MAX :: nat where
  "SEM_VALUE_MAX = 2147483647"

datatype shmtx_pc =
    SX_outside
  | LK_read attempt
  | LK_cas attempt
  | LK_wait
  | LK_read_again
  | LK_cas_again
  | LK_unwait
  | LK_sem
  | SX_holds
  | TL_read
  | TL_cas
  | UL_cas pid
  | WK_read
  | WK_cas atomic
  | WK_post
  | SX_dead

definition shmtx_retry :: "64 word \<Rightarrow> ngx_shmtx \<Rightarrow> attempt \<Rightarrow> shmtx_pc" where
  "shmtx_retry ncpu mtx a =
     (case spin_next ncpu (mtx_spin mtx) a of
        Some b \<Rightarrow> LK_read b
      | None \<Rightarrow> if mtx_semaphore mtx then LK_wait else LK_read First)"

fun ngx_shmtx_lock ::
  "64 word \<Rightarrow> ngx_shmtx \<Rightarrow> pid \<Rightarrow> ngx_shmtx_sh \<Rightarrow> shmtx_pc \<Rightarrow> (ngx_shmtx_sh \<times> shmtx_pc) option"
where
  "ngx_shmtx_lock ncpu mtx me sh (LK_read a) =
     Some (sh, if sh_lock sh = 0 then LK_cas a else shmtx_retry ncpu mtx a)"
| "ngx_shmtx_lock ncpu mtx me sh (LK_cas a) =
     Some (if sh_lock sh = 0 then (sh\<lparr>sh_lock := me\<rparr>, SX_holds) else (sh, shmtx_retry ncpu mtx a))"
| "ngx_shmtx_lock ncpu mtx me sh LK_wait = Some (sh\<lparr>sh_wait := sh_wait sh + 1\<rparr>, LK_read_again)"
| "ngx_shmtx_lock ncpu mtx me sh LK_read_again =
     Some (sh, if sh_lock sh = 0 then LK_cas_again else LK_sem)"
| "ngx_shmtx_lock ncpu mtx me sh LK_cas_again =
     Some (if sh_lock sh = 0 then (sh\<lparr>sh_lock := me\<rparr>, LK_unwait) else (sh, LK_sem))"
| "ngx_shmtx_lock ncpu mtx me sh LK_unwait = Some (sh\<lparr>sh_wait := sh_wait sh - 1\<rparr>, SX_holds)"
| "ngx_shmtx_lock ncpu mtx me sh LK_sem =
     (if sh_sem sh = 0 then None else Some (sh\<lparr>sh_sem := sh_sem sh - 1\<rparr>, LK_read First))"
| "ngx_shmtx_lock ncpu mtx me sh _ = None"

fun ngx_shmtx_trylock ::
  "pid \<Rightarrow> ngx_shmtx_sh \<Rightarrow> shmtx_pc \<Rightarrow> (ngx_shmtx_sh \<times> shmtx_pc) option"
where
  "ngx_shmtx_trylock me sh TL_read = Some (sh, if sh_lock sh = 0 then TL_cas else SX_outside)"
| "ngx_shmtx_trylock me sh TL_cas =
     Some (if sh_lock sh = 0 then (sh\<lparr>sh_lock := me\<rparr>, SX_holds) else (sh, SX_outside))"
| "ngx_shmtx_trylock me sh _ = None"

text \<open>The compare-and-set of \<open>ngx_shmtx_unlock\<close> and \<open>ngx_shmtx_force_unlock\<close>: the former releases
  for the caller itself, the latter for a process that has died.\<close>

fun ngx_shmtx_force_unlock ::
  "ngx_shmtx_sh \<Rightarrow> shmtx_pc \<Rightarrow> (ngx_shmtx_sh \<times> shmtx_pc) option"
where
  "ngx_shmtx_force_unlock sh (UL_cas v) =
     Some (if sh_lock sh = v then (sh\<lparr>sh_lock := 0\<rparr>, WK_read) else (sh, SX_outside))"
| "ngx_shmtx_force_unlock sh _ = None"

fun ngx_shmtx_wakeup ::
  "ngx_shmtx \<Rightarrow> ngx_shmtx_sh \<Rightarrow> shmtx_pc \<Rightarrow> (ngx_shmtx_sh \<times> shmtx_pc) option"
where
  "ngx_shmtx_wakeup mtx sh WK_read =
     Some (sh, if \<not> mtx_semaphore mtx \<or> sint (sh_wait sh) \<le> 0 then SX_outside else WK_cas (sh_wait sh))"
| "ngx_shmtx_wakeup mtx sh (WK_cas w) =
     Some (if sh_wait sh = w then (sh\<lparr>sh_wait := w - 1\<rparr>, WK_post) else (sh, WK_read))"
| "ngx_shmtx_wakeup mtx sh WK_post =
     Some (if sh_sem sh < SEM_VALUE_MAX then sh\<lparr>sh_sem := sh_sem sh + 1\<rparr> else sh, SX_outside)"
| "ngx_shmtx_wakeup mtx sh _ = None"

record shmtx_sys =
  sx_sh :: ngx_shmtx_sh
  sx_pcs :: "pid \<Rightarrow> shmtx_pc"

definition sx_init :: shmtx_sys where
  "sx_init = \<lparr>sx_sh = \<lparr>sh_lock = 0, sh_wait = 0, sh_sem = 0\<rparr>, sx_pcs = (\<lambda>_. SX_outside)\<rparr>"

definition sx_move :: "pid \<Rightarrow> ngx_shmtx_sh \<times> shmtx_pc \<Rightarrow> shmtx_sys \<Rightarrow> shmtx_sys" where
  "sx_move p r s = \<lparr>sx_sh = fst r, sx_pcs = (sx_pcs s)(p := snd r)\<rparr>"

definition shmtx_run ::
  "64 word \<Rightarrow> ngx_shmtx \<Rightarrow> pid \<Rightarrow> ngx_shmtx_sh \<Rightarrow> shmtx_pc \<Rightarrow> (ngx_shmtx_sh \<times> shmtx_pc) option"
where
  "shmtx_run ncpu mtx me sh c =
     (case c of
        UL_cas _ \<Rightarrow> ngx_shmtx_force_unlock sh c
      | TL_read \<Rightarrow> ngx_shmtx_trylock me sh c
      | TL_cas \<Rightarrow> ngx_shmtx_trylock me sh c
      | WK_read \<Rightarrow> ngx_shmtx_wakeup mtx sh c
      | WK_cas _ \<Rightarrow> ngx_shmtx_wakeup mtx sh c
      | WK_post \<Rightarrow> ngx_shmtx_wakeup mtx sh c
      | _ \<Rightarrow> ngx_shmtx_lock ncpu mtx me sh c)"

text \<open>
  One step of the system. The parameter \<open>crashes\<close> says at which points a process may die; the
  master process frees what a dead process held.
\<close>

inductive sx_step :: "64 word \<Rightarrow> ngx_shmtx \<Rightarrow> (shmtx_pc \<Rightarrow> bool) \<Rightarrow> shmtx_sys \<Rightarrow> shmtx_sys \<Rightarrow> bool"
  for ncpu mtx crashes
where
  call_lock: "is_pid p \<Longrightarrow> sx_pcs s p = SX_outside \<Longrightarrow>
    sx_step ncpu mtx crashes s (sx_move p (sx_sh s, LK_read First) s)"
| call_trylock: "is_pid p \<Longrightarrow> sx_pcs s p = SX_outside \<Longrightarrow>
    sx_step ncpu mtx crashes s (sx_move p (sx_sh s, TL_read) s)"
| call_unlock: "sx_pcs s p = SX_holds \<Longrightarrow>
    sx_step ncpu mtx crashes s (sx_move p (sx_sh s, UL_cas p) s)"
| call_force_unlock: "is_pid p \<Longrightarrow> sx_pcs s p = SX_outside \<Longrightarrow> sx_pcs s v = SX_dead \<Longrightarrow>
    sx_step ncpu mtx crashes s (sx_move p (sx_sh s, UL_cas v) s)"
| run: "shmtx_run ncpu mtx p (sx_sh s) (sx_pcs s p) = Some r \<Longrightarrow>
    sx_step ncpu mtx crashes s (sx_move p r s)"
| crash: "is_pid p \<Longrightarrow> crashes (sx_pcs s p) \<Longrightarrow>
    sx_step ncpu mtx crashes s (sx_move p (sx_sh s, SX_dead) s)"

text \<open>A process that dies outside every operation or while it has the mutex, as in a crash of the
  code that the mutex protects.\<close>

definition sx_safe_crash :: "shmtx_pc \<Rightarrow> bool" where
  "sx_safe_crash c \<longleftrightarrow> c = SX_outside \<or> c = SX_holds"

section \<open>Who has the mutex\<close>

text \<open>The points at which a process has the mutex.\<close>

definition sx_holds :: "pid \<Rightarrow> shmtx_pc \<Rightarrow> bool" where
  "sx_holds p c \<longleftrightarrow> c = SX_holds \<or> c = LK_unwait \<or> c = UL_cas p"

definition sx_owner_inv :: "shmtx_sys \<Rightarrow> bool" where
  "sx_owner_inv s \<longleftrightarrow>
     (\<forall>p. sx_pcs s p \<noteq> SX_outside \<longrightarrow> is_pid p)
     \<and> (\<forall>p. sx_holds p (sx_pcs s p) \<longrightarrow> sh_lock (sx_sh s) = p)
     \<and> (\<forall>p v. sx_pcs s p = UL_cas v \<longrightarrow> v = p \<or> sx_pcs s v = SX_dead)
     \<and> (sh_lock (sx_sh s) = 0 \<or>
        sx_holds (sh_lock (sx_sh s)) (sx_pcs s (sh_lock (sx_sh s)))
        \<or> sx_pcs s (sh_lock (sx_sh s)) = SX_dead)"

lemma sx_move_simps [simp]:
  "sx_sh (sx_move p r s) = fst r" "sx_pcs (sx_move p r s) = (sx_pcs s)(p := snd r)"
  by (simp_all add: sx_move_def)

lemma shmtx_retry_cases:
  "(\<exists>b. shmtx_retry ncpu mtx a = LK_read b) \<or> shmtx_retry ncpu mtx a = LK_wait \<and> mtx_semaphore mtx"
  by (simp add: shmtx_retry_def split: option.split)

lemma sx_not_holding [simp]:
  "\<not> sx_holds p (shmtx_retry ncpu mtx a)" "shmtx_retry ncpu mtx a \<noteq> UL_cas v"
  "\<not> sx_holds p SX_outside" "\<not> sx_holds p (LK_read a)" "\<not> sx_holds p (LK_cas a)" "\<not> sx_holds p LK_wait"
  "\<not> sx_holds p LK_read_again" "\<not> sx_holds p LK_cas_again" "\<not> sx_holds p LK_sem"
  "\<not> sx_holds p TL_read" "\<not> sx_holds p TL_cas" "\<not> sx_holds p WK_read" "\<not> sx_holds p (WK_cas w)"
  "\<not> sx_holds p WK_post" "\<not> sx_holds p SX_dead" "sx_holds p SX_holds" "sx_holds p LK_unwait"
  "sx_holds p (UL_cas v) \<longleftrightarrow> v = p"
  using shmtx_retry_cases [of ncpu mtx a] by (auto simp: sx_holds_def)

lemma sx_owner_invD:
  assumes "sx_owner_inv s"
  shows "sx_pcs s p \<noteq> SX_outside \<Longrightarrow> is_pid p"
    and "sx_holds p (sx_pcs s p) \<Longrightarrow> sh_lock (sx_sh s) = p"
    and "sx_pcs s p = UL_cas v \<Longrightarrow> v = p \<or> sx_pcs s v = SX_dead"
    and "sh_lock (sx_sh s) \<noteq> 0 \<Longrightarrow> sx_holds (sh_lock (sx_sh s)) (sx_pcs s (sh_lock (sx_sh s)))
        \<or> sx_pcs s (sh_lock (sx_sh s)) = SX_dead"
  using assms by (auto simp: sx_owner_inv_def)

lemma sx_owner_invI:
  assumes "\<And>p. sx_pcs s p \<noteq> SX_outside \<Longrightarrow> is_pid p"
    and "\<And>p. sx_holds p (sx_pcs s p) \<Longrightarrow> sh_lock (sx_sh s) = p"
    and "\<And>p v. sx_pcs s p = UL_cas v \<Longrightarrow> v = p \<or> sx_pcs s v = SX_dead"
    and "\<And>p. sh_lock (sx_sh s) = p \<Longrightarrow> p \<noteq> 0 \<Longrightarrow> sx_holds p (sx_pcs s p) \<or> sx_pcs s p = SX_dead"
  shows "sx_owner_inv s"
  unfolding sx_owner_inv_def using assms by blast

lemma sx_owner_stay:
  assumes "sx_owner_inv s" "is_pid p" "sh_lock sh = sh_lock (sx_sh s)" "sx_pcs s p \<noteq> SX_dead"
    and "sx_holds p c = sx_holds p (sx_pcs s p) \<or> c = SX_dead"
    and "\<And>v. c = UL_cas v \<Longrightarrow> v = p \<or> sx_pcs s v = SX_dead"
  shows "sx_owner_inv (sx_move p (sh, c) s)"
proof (rule sx_owner_invI)
  note inv = sx_owner_invD [OF assms(1)]
  fix q
  show "is_pid q" if "sx_pcs (sx_move p (sh, c) s) q \<noteq> SX_outside"
    using that inv(1) [of q] assms(2) by (cases "q = p") simp_all
  show "sh_lock (sx_sh (sx_move p (sh, c) s)) = q" if "sx_holds q (sx_pcs (sx_move p (sh, c) s) q)"
    using that inv(2) [of q] assms(3,5) by (cases "q = p") (auto simp: sx_holds_def)
  show "v = q \<or> sx_pcs (sx_move p (sh, c) s) v = SX_dead" if "sx_pcs (sx_move p (sh, c) s) q = UL_cas v" for v
    using that inv(3) [of q v] assms(4,6) by (cases "q = p"; cases "v = p") auto
  show "sx_holds q (sx_pcs (sx_move p (sh, c) s) q) \<or> sx_pcs (sx_move p (sh, c) s) q = SX_dead"
    if "sh_lock (sx_sh (sx_move p (sh, c) s)) = q" "q \<noteq> 0"
    using that inv(4) assms(3,4,5) by (cases "q = p") auto
qed

lemma sx_owner_acquire:
  assumes "sx_owner_inv s" "is_pid p" "sh_lock (sx_sh s) = 0" "sh_lock sh = p" "sx_pcs s p \<noteq> SX_dead"
    and "sx_holds p c" "\<And>v. c \<noteq> UL_cas v"
  shows "sx_owner_inv (sx_move p (sh, c) s)"
proof -
  have "\<not> sx_holds q (sx_pcs s q)" for q
  proof
    assume h: "sx_holds q (sx_pcs s q)"
    then have "sx_pcs s q \<noteq> SX_outside" by (auto simp: sx_holds_def)
    then show False
      using sx_owner_invD(1,2) [OF assms(1), of q] h assms(3) is_pid_nonzero by auto
  qed
  moreover have "\<not> (sx_pcs s q = UL_cas p \<and> q \<noteq> p)" for q
    using sx_owner_invD(3) [OF assms(1), of q p] assms(5) by auto
  ultimately show ?thesis
    using assms sx_owner_invD(1,3) [OF assms(1)] by (intro sx_owner_invI) (auto split: if_splits)
qed

lemma sx_owner_release:
  assumes "sx_owner_inv s" "sx_pcs s p = UL_cas v" "sh_lock (sx_sh s) = v" "sh_lock sh = 0"
    and "\<not> sx_holds p c" "\<And>v. c \<noteq> UL_cas v"
  shows "sx_owner_inv (sx_move p (sh, c) s)"
proof -
  have "q = p" if "sx_holds q (sx_pcs s q)" for q
    using sx_owner_invD(2) [OF assms(1) that] sx_owner_invD(3) [OF assms(1,2)] assms(3) that
    by (auto simp: sx_holds_def)
  moreover have "\<not> (sx_pcs s q = UL_cas p \<and> q \<noteq> p)" for q
    using sx_owner_invD(3) [OF assms(1), of q p] assms(2) by auto
  ultimately show ?thesis
    using assms sx_owner_invD(1,3) [OF assms(1)] by (intro sx_owner_invI) (auto split: if_splits)
qed

lemma sx_owner_run:
  assumes "sx_owner_inv s" "shmtx_run ncpu mtx p (sx_sh s) (sx_pcs s p) = Some r"
  shows "sx_owner_inv (sx_move p r s)"
proof -
  have "sx_pcs s p \<noteq> SX_outside" using assms(2) by (auto simp: shmtx_run_def)
  then have pid: "is_pid p" by (rule sx_owner_invD(1) [OF assms(1)])
  note stay = sx_owner_stay [OF assms(1) pid]
  note acquire = sx_owner_acquire [OF assms(1) pid]
  note release = sx_owner_release [OF assms(1), of p]
  show ?thesis
  proof (cases "sx_pcs s p")
    case (UL_cas v)
    show ?thesis
    proof (cases "sh_lock (sx_sh s) = v")
      case True
      with UL_cas assms(2) have "r = ((sx_sh s)\<lparr>sh_lock := 0\<rparr>, WK_read)" by (simp add: shmtx_run_def)
      then show ?thesis using release [OF UL_cas True] by simp
    next
      case False
      with UL_cas assms(2) have "r = (sx_sh s, SX_outside)" by (simp add: shmtx_run_def)
      moreover have "\<not> sx_holds p (sx_pcs s p)"
        using sx_owner_invD(2) [OF assms(1), of p] UL_cas False by auto
      ultimately show ?thesis using stay [of "sx_sh s" SX_outside] UL_cas by simp
    qed
  next
    case (LK_cas a)
    with assms(2) show ?thesis
      by (cases "sh_lock (sx_sh s) = 0") (auto simp: shmtx_run_def intro: acquire stay)
  next
    case LK_cas_again
    with assms(2) show ?thesis
      by (cases "sh_lock (sx_sh s) = 0") (auto simp: shmtx_run_def intro: acquire stay)
  next
    case TL_cas
    with assms(2) show ?thesis
      by (cases "sh_lock (sx_sh s) = 0") (auto simp: shmtx_run_def intro: acquire stay)
  qed (use assms(2) in \<open>auto simp: shmtx_run_def intro!: stay split: if_splits\<close>)
qed

lemma sx_owner_step:
  assumes "sx_step ncpu mtx crashes s t" "sx_owner_inv s"
  shows "sx_owner_inv t"
  using assms
proof (induction rule: sx_step.induct)
  case (call_unlock s p)
  then show ?case using sx_owner_invD(1) [of s p] by (auto intro: sx_owner_stay)
next
  case (run p s r)
  then show ?case by (blast intro: sx_owner_run)
next
  case (crash p s)
  then show ?case
    by (cases "sx_pcs s p = SX_dead") (auto intro: sx_owner_stay simp: sx_owner_inv_def)
qed (auto intro!: sx_owner_stay)

lemma sx_owner_init: "sx_owner_inv sx_init"
  by (simp add: sx_owner_inv_def sx_init_def)

interpretation sx_owner: transition_system "sx_step ncpu mtx crashes" sx_init sx_owner_inv
  for ncpu mtx crashes
  by unfold_locales (rule sx_owner_init, rule sx_owner_step)

section \<open>Sleeping and waking\<close>

text \<open>The processes that have announced themselves in \<open>wait\<close>, those about to post the semaphore for
  a waiter they have taken off \<open>wait\<close>, and those whose next actions will look at the mutex or at
  the waiters again.\<close>

fun sx_waits :: "shmtx_pc \<Rightarrow> bool" where
  "sx_waits LK_read_again = True"
| "sx_waits LK_cas_again = True"
| "sx_waits LK_unwait = True"
| "sx_waits LK_sem = True"
| "sx_waits _ = False"

fun sx_posts :: "shmtx_pc \<Rightarrow> bool" where
  "sx_posts WK_post = True"
| "sx_posts _ = False"

fun sx_busy :: "shmtx_pc \<Rightarrow> bool" where
  "sx_busy SX_outside = False"
| "sx_busy SX_holds = False"
| "sx_busy SX_dead = False"
| "sx_busy LK_unwait = False"
| "sx_busy LK_sem = False"
| "sx_busy (UL_cas v) = False"
| "sx_busy _ = True"

definition sx_level :: "shmtx_sys \<Rightarrow> int" where
  "sx_level s = int (count sx_waits (sx_pcs s)) - int (sh_sem (sx_sh s)) - int (count sx_posts (sx_pcs s))"

definition sx_active :: "shmtx_sys \<Rightarrow> bool" where
  "sx_active s \<longleftrightarrow> sh_lock (sx_sh s) \<noteq> 0 \<or> 0 < sh_sem (sx_sh s) \<or> (\<exists>p. sx_busy (sx_pcs s p))"

definition sx_wait_inv :: "shmtx_sys \<Rightarrow> bool" where
  "sx_wait_inv s \<longleftrightarrow>
     sh_wait (sx_sh s) = word_of_int (sx_level s)
     \<and> sh_sem (sx_sh s) + count sx_posts (sx_pcs s) \<le> SEM_VALUE_MAX
     \<and> (0 < sx_level s \<longrightarrow> sx_active s)"

definition sx_inv :: "shmtx_sys \<Rightarrow> bool" where
  "sx_inv s \<longleftrightarrow> sx_owner_inv s \<and> sx_wait_inv s"

lemma sx_posts_busy: "sx_posts c \<Longrightarrow> sx_busy c"
  by (cases c) simp_all

lemma sx_level_upd:
  "sx_level (sx_move p (sh, c) s) =
     sx_level s + of_bool (sx_waits c) - of_bool (sx_waits (sx_pcs s p))
     - (int (sh_sem sh) - int (sh_sem (sx_sh s)))
     - (of_bool (sx_posts c) - of_bool (sx_posts (sx_pcs s p)))"
  by (simp add: sx_level_def count_upd)

lemma sx_posts_upd:
  "int (count sx_posts ((sx_pcs s)(p := c))) =
     int (count sx_posts (sx_pcs s)) + of_bool (sx_posts c) - of_bool (sx_posts (sx_pcs s p))"
  by (rule count_upd)

lemma sx_waits_bound:
  assumes "sx_owner_inv s"
  shows "count sx_waits (sx_pcs s) < 2 ^ 31"
proof (rule count_pids)
  show "is_pid p" if "sx_waits (sx_pcs s p)" for p
    using that by (intro sx_owner_invD(1) [OF assms]) auto
qed

lemma sint_sx_level:
  assumes "sx_inv s"
  shows "sint (sh_wait (sx_sh s)) = sx_level s"
proof -
  have "count sx_waits (sx_pcs s) < 2 ^ 31" "sh_sem (sx_sh s) + count sx_posts (sx_pcs s) \<le> SEM_VALUE_MAX"
    using assms sx_waits_bound [of s] by (simp_all add: sx_inv_def sx_wait_inv_def)
  then have "- (2 ^ 63) \<le> sx_level s" "sx_level s < 2 ^ 63"
    by (simp_all add: sx_level_def SEM_VALUE_MAX_def)
  then show ?thesis
    using assms by (simp add: sx_inv_def sx_wait_inv_def sint_small)
qed

lemma sx_wait_moveI:
  assumes "sx_inv s"
    and "sh_wait sh = sh_wait (sx_sh s) + word_of_int d"
    and "sx_level (sx_move p (sh, c) s) = sx_level s + d"
    and "int (sh_sem sh) + int (count sx_posts ((sx_pcs s)(p := c))) \<le> int SEM_VALUE_MAX"
    and "0 < sx_level (sx_move p (sh, c) s) \<Longrightarrow>
      sx_busy c \<or> sh_lock sh \<noteq> 0 \<or> 0 < sh_sem sh
      \<or> d = 0 \<and> \<not> sx_busy (sx_pcs s p) \<and> sh_lock sh = sh_lock (sx_sh s) \<and> sh_sem sh = sh_sem (sx_sh s)"
  shows "sx_wait_inv (sx_move p (sh, c) s)"
proof -
  let ?t = "sx_move p (sh, c) s"
  have w: "sx_wait_inv s" using assms(1) by (simp add: sx_inv_def)
  have "sx_active ?t" if "0 < sx_level ?t"
    using assms(5) [OF that]
  proof (elim disjE conjE)
    assume d: "d = 0" and b: "\<not> sx_busy (sx_pcs s p)" and l: "sh_lock sh = sh_lock (sx_sh s)"
      "sh_sem sh = sh_sem (sx_sh s)"
    have "sx_active s" using w that assms(3) d by (simp add: sx_wait_inv_def)
    then show ?thesis using b l by (auto simp: sx_active_def)
  qed (auto simp: sx_active_def)
  then show ?thesis using w assms(2-4) by (simp add: sx_wait_inv_def)
qed

lemma sx_wait_quiet:
  assumes "sx_inv s" "sh_wait sh = sh_wait (sx_sh s)" "sh_sem sh = sh_sem (sx_sh s)"
    and "sx_waits c = sx_waits (sx_pcs s p)" "sx_posts c = sx_posts (sx_pcs s p)"
    and "0 < sx_level s \<Longrightarrow> sx_busy c \<or> sh_lock sh \<noteq> 0 \<or> \<not> sx_busy (sx_pcs s p) \<and> sh_lock sh = sh_lock (sx_sh s)"
  shows "sx_wait_inv (sx_move p (sh, c) s)"
proof (rule sx_wait_moveI [where d = 0])
  show "sx_level (sx_move p (sh, c) s) = sx_level s + 0"
    using assms(3-5) by (simp add: sx_level_upd)
  then show "sx_busy c \<or> sh_lock sh \<noteq> 0 \<or> 0 < sh_sem sh
      \<or> (0 :: int) = 0 \<and> \<not> sx_busy (sx_pcs s p) \<and> sh_lock sh = sh_lock (sx_sh s) \<and> sh_sem sh = sh_sem (sx_sh s)"
    if "0 < sx_level (sx_move p (sh, c) s)"
    using that assms(3,6) by auto
  show "int (sh_sem sh) + int (count sx_posts ((sx_pcs s)(p := c))) \<le> int SEM_VALUE_MAX"
    using assms(1,3,5) sx_posts_upd [of s p c] by (simp add: sx_inv_def sx_wait_inv_def)
qed (use assms in simp_all)

lemma sx_busy_retry [simp]:
  "sx_busy (shmtx_retry ncpu mtx a)" "\<not> sx_waits (shmtx_retry ncpu mtx a)" "\<not> sx_posts (shmtx_retry ncpu mtx a)"
  using shmtx_retry_cases [of ncpu mtx a] by auto

text \<open>The five actions that change the number of waiters or the semaphore.\<close>

lemma sx_wait_announce:
  assumes "sx_inv s" "sx_pcs s p = LK_wait"
  shows "sx_wait_inv (sx_move p ((sx_sh s)\<lparr>sh_wait := sh_wait (sx_sh s) + 1\<rparr>, LK_read_again) s)"
  using assms sx_posts_upd [of s p LK_read_again]
  by (intro sx_wait_moveI [where d = 1]) (simp_all add: sx_level_upd sx_inv_def sx_wait_inv_def)

lemma sx_wait_withdraw:
  assumes "sx_inv s" "sx_pcs s p = LK_unwait"
  shows "sx_wait_inv (sx_move p ((sx_sh s)\<lparr>sh_wait := sh_wait (sx_sh s) - 1\<rparr>, SX_holds) s)"
proof -
  have "sh_lock (sx_sh s) = p" "is_pid p"
    using sx_owner_invD(1,2) [of s p] assms by (simp_all add: sx_inv_def)
  then have "sh_lock (sx_sh s) \<noteq> 0" using is_pid_nonzero by blast
  then show ?thesis
    using assms sx_posts_upd [of s p SX_holds]
    by (intro sx_wait_moveI [where d = "- 1"]) (simp_all add: sx_level_upd sx_inv_def sx_wait_inv_def)
qed

lemma sx_wait_awake:
  assumes "sx_inv s" "sx_pcs s p = LK_sem" "sh_sem (sx_sh s) \<noteq> 0"
  shows "sx_wait_inv (sx_move p ((sx_sh s)\<lparr>sh_sem := sh_sem (sx_sh s) - 1\<rparr>, LK_read First) s)"
  using assms sx_posts_upd [of s p "LK_read First"]
  by (intro sx_wait_moveI [where d = 0]) (simp_all add: sx_level_upd sx_inv_def sx_wait_inv_def)

lemma sx_wait_claim:
  assumes "sx_inv s" "sx_pcs s p = WK_cas w" "sh_wait (sx_sh s) = w" "0 < sx_level s"
  shows "sx_wait_inv (sx_move p ((sx_sh s)\<lparr>sh_wait := w - 1\<rparr>, WK_post) s)"
proof -
  have "int (sh_sem (sx_sh s)) + int (count sx_posts (sx_pcs s)) < int SEM_VALUE_MAX"
    using assms(1,4) sx_waits_bound [of s] by (simp add: sx_inv_def sx_level_def SEM_VALUE_MAX_def)
  then show ?thesis
    using assms sx_posts_upd [of s p WK_post]
    by (intro sx_wait_moveI [where d = "- 1"]) (simp_all add: sx_level_upd)
qed

lemma sx_wait_post:
  assumes "sx_inv s" "sx_pcs s p = WK_post"
  shows "sh_sem (sx_sh s) < SEM_VALUE_MAX"
    and "sx_wait_inv (sx_move p ((sx_sh s)\<lparr>sh_sem := sh_sem (sx_sh s) + 1\<rparr>, SX_outside) s)"
proof -
  have "0 < count sx_posts (sx_pcs s)" using assms(2) count_pos [of sx_posts "sx_pcs s" p] by simp
  then show "sh_sem (sx_sh s) < SEM_VALUE_MAX"
    using assms(1) by (simp add: sx_inv_def sx_wait_inv_def)
  show "sx_wait_inv (sx_move p ((sx_sh s)\<lparr>sh_sem := sh_sem (sx_sh s) + 1\<rparr>, SX_outside) s)"
    using assms sx_posts_upd [of s p SX_outside]
    by (intro sx_wait_moveI [where d = 0]) (simp_all add: sx_level_upd sx_inv_def sx_wait_inv_def)
qed

text \<open>What a process knows between reading \<open>wait\<close> and trying to lower it: the value it read was
  positive.\<close>

definition sx_claim_ok :: "shmtx_sys \<Rightarrow> bool" where
  "sx_claim_ok s \<longleftrightarrow> (\<forall>p w. sx_pcs s p = WK_cas w \<longrightarrow> 0 < sint w)"

lemma sx_wait_run:
  assumes "sx_inv s" "sx_claim_ok s" "mtx_semaphore mtx" "shmtx_run ncpu mtx p (sx_sh s) (sx_pcs s p) = Some r"
  shows "sx_wait_inv (sx_move p r s)"
proof -
  have "sx_pcs s p \<noteq> SX_outside" using assms(4) by (auto simp: shmtx_run_def)
  then have pid: "p \<noteq> 0"
    using assms(1) sx_owner_invD(1) [of s p] is_pid_nonzero by (simp add: sx_inv_def)
  note quiet = sx_wait_quiet [OF assms(1)]
  show ?thesis
  proof (cases "sx_pcs s p")
    case LK_wait
    then show ?thesis using assms(4) sx_wait_announce [OF assms(1)] by (auto simp: shmtx_run_def)
  next
    case LK_unwait
    then show ?thesis using assms(4) sx_wait_withdraw [OF assms(1)] by (auto simp: shmtx_run_def)
  next
    case LK_sem
    then show ?thesis using assms(4) sx_wait_awake [OF assms(1)] by (auto simp: shmtx_run_def split: if_splits)
  next
    case WK_post
    then show ?thesis using assms(4) sx_wait_post [OF assms(1)] by (auto simp: shmtx_run_def)
  next
    case (WK_cas w)
    show ?thesis
    proof (cases "sh_wait (sx_sh s) = w")
      case True
      then have "0 < sx_level s"
        using assms(2) WK_cas sint_sx_level [OF assms(1)] by (metis sx_claim_ok_def)
      with WK_cas True show ?thesis
        using assms(4) sx_wait_claim [OF assms(1)] by (auto simp: shmtx_run_def)
    next
      case False
      with WK_cas assms(4) show ?thesis by (auto simp: shmtx_run_def intro!: quiet)
    qed
  next
    case WK_read
    have "0 < sx_level s \<Longrightarrow> 0 < sint (sh_wait (sx_sh s))"
      using sint_sx_level [OF assms(1)] by simp
    with WK_read assms(3,4) show ?thesis by (auto simp: shmtx_run_def intro!: quiet split: if_splits)
  next
    case (LK_cas a)
    with assms(4) show ?thesis
      by (cases "sh_lock (sx_sh s) = 0") (auto simp: shmtx_run_def intro!: quiet simp: pid)
  next
    case LK_cas_again
    with assms(4) show ?thesis
      by (cases "sh_lock (sx_sh s) = 0") (auto simp: shmtx_run_def intro!: quiet simp: pid)
  next
    case TL_cas
    with assms(4) show ?thesis
      by (cases "sh_lock (sx_sh s) = 0") (auto simp: shmtx_run_def intro!: quiet simp: pid)
  qed (use assms(4) in \<open>auto simp: shmtx_run_def intro!: quiet split: if_splits\<close>)
qed

lemma shmtx_retry_no_claim [simp]: "shmtx_retry ncpu mtx a \<noteq> WK_cas w"
  using shmtx_retry_cases [of ncpu mtx a] by auto

lemma sx_claim_run:
  assumes "sx_claim_ok s" "shmtx_run ncpu mtx p (sx_sh s) (sx_pcs s p) = Some r"
  shows "sx_claim_ok (sx_move p r s)"
proof -
  have "0 < sint w" if "snd r = WK_cas w" for w
    using assms(2) that
    by (cases "sx_pcs s p") (auto simp: shmtx_run_def split: if_splits)
  then show ?thesis using assms(1) by (auto simp: sx_claim_ok_def)
qed

definition sx_full_inv :: "shmtx_sys \<Rightarrow> bool" where
  "sx_full_inv s \<longleftrightarrow> sx_inv s \<and> sx_claim_ok s"

lemma sx_full_init: "sx_full_inv sx_init"
proof -
  have "count P (\<lambda>_. SX_outside) = 0" if "\<not> P SX_outside" for P
    using that count_zero [of P "\<lambda>_. SX_outside"] by simp
  then show ?thesis
    using sx_owner_init
    by (simp add: sx_full_inv_def sx_inv_def sx_wait_inv_def sx_level_def sx_claim_ok_def) (simp add: sx_init_def)
qed

lemma sx_full_step:
  assumes "sx_step ncpu mtx crashes s t" "sx_full_inv s" "mtx_semaphore mtx"
    and "\<And>c. crashes c \<Longrightarrow> c = SX_outside \<or> c = SX_holds"
  shows "sx_full_inv t"
proof -
  have inv: "sx_inv s" and claim: "sx_claim_ok s" using assms(2) by (simp_all add: sx_full_inv_def)
  have "sx_owner_inv t" using sx_owner_step [OF assms(1)] inv by (simp add: sx_inv_def)
  moreover have "sx_wait_inv t \<and> sx_claim_ok t"
    using assms(1)
  proof cases
    case (run p r)
    then show ?thesis using sx_wait_run [OF inv claim assms(3)] sx_claim_run [OF claim] by auto
  next
    case (crash p)
    then have "sx_pcs s p = SX_outside \<or> sx_pcs s p = SX_holds" using assms(4) by blast
    with crash show ?thesis
      using claim sx_wait_quiet [OF inv, of "sx_sh s" SX_dead p] by (auto simp: sx_claim_ok_def)
  qed (use claim in \<open>auto simp: sx_claim_ok_def intro!: sx_wait_quiet [OF inv]\<close>)
  ultimately show ?thesis by (simp add: sx_full_inv_def sx_inv_def)
qed

interpretation sx_full: transition_system
    "sx_step ncpu (mtx\<lparr>mtx_semaphore := True\<rparr>) sx_safe_crash" sx_init sx_full_inv
  for ncpu mtx
proof
  show "sx_full_inv sx_init" by (rule sx_full_init)
  show "sx_full_inv t"
    if "sx_step ncpu (mtx\<lparr>mtx_semaphore := True\<rparr>) sx_safe_crash s t" "sx_full_inv s" for s t
    using that by (rule sx_full_step) (simp_all add: sx_safe_crash_def)
qed

section \<open>Properties\<close>

text \<open>
  C9. Mutual exclusion: in every reachable state, wherever processes crash, at most one process has the
  mutex; the lock word is that process, and when nobody alive has it the word is zero or names a
  process that has died.
\<close>

theorem shmtx_mutual_exclusion:
  assumes "reach (sx_step ncpu mtx crashes) sx_init s"
  shows "(sx_holds p (sx_pcs s p) \<longrightarrow> sx_holds q (sx_pcs s q) \<longrightarrow> p = q)
    \<and> (sx_holds p (sx_pcs s p) \<longrightarrow> sh_lock (sx_sh s) = p)
    \<and> (sh_lock (sx_sh s) = p \<longrightarrow> p = 0 \<or> sx_holds p (sx_pcs s p) \<or> sx_pcs s p = SX_dead)"
  using sx_owner_invD(2,4) [OF sx_owner.inv_reach [OF assms]] by metis

text \<open>A run in which process 7 takes the mutex and process 9 goes to sleep on it.\<close>

definition sx_mtx :: ngx_shmtx where
  "sx_mtx = ngx_shmtx_create True \<lparr>mtx_spin = 0, mtx_semaphore = False\<rparr>"

definition sx_st :: "atomic \<Rightarrow> atomic \<Rightarrow> shmtx_pc \<Rightarrow> shmtx_pc \<Rightarrow> shmtx_sys" where
  "sx_st l w c d = \<lparr>sx_sh = \<lparr>sh_lock = l, sh_wait = w, sh_sem = 0\<rparr>,
     sx_pcs = (\<lambda>_. SX_outside)(7 := c, 9 := d)\<rparr>"

lemma sx_st_simps:
  "sx_pcs (sx_st l w c d) 7 = c" "sx_pcs (sx_st l w c d) 9 = d"
  "sx_sh (sx_st l w c d) = \<lparr>sh_lock = l, sh_wait = w, sh_sem = 0\<rparr>"
  "sx_move 7 (\<lparr>sh_lock = l', sh_wait = w', sh_sem = 0\<rparr>, c') (sx_st l w c d) = sx_st l' w' c' d"
  "sx_move 9 (\<lparr>sh_lock = l', sh_wait = w', sh_sem = 0\<rparr>, d') (sx_st l w c d) = sx_st l' w' c d'"
  by (simp_all add: sx_st_def sx_move_def fun_upd_twist)

lemma sx_example:
  "reach (sx_step 1 sx_mtx sx_safe_crash) sx_init (sx_st 7 1 SX_holds LK_sem)" (is "?R (sx_st 7 1 SX_holds LK_sem)")
proof -
  have mtx: "mtx_semaphore sx_mtx" by (simp add: sx_mtx_def ngx_shmtx_create_def)
  have run: "?R (sx_move p r s)" if "?R s" "shmtx_run 1 sx_mtx p (sx_sh s) (sx_pcs s p) = Some r" for p r s
    using that by (blast intro: reach_step sx_step.run)
  have 0: "?R (sx_st 0 0 SX_outside SX_outside)"
    using reach_init [of "sx_step 1 sx_mtx sx_safe_crash" sx_init]
    by (simp add: sx_st_def sx_init_def fun_upd_idem)
  have "?R (sx_st 0 0 (LK_read First) SX_outside)"
    using reach_step [OF 0 call_lock [of 7]] by (simp add: sx_st_simps is_pid_def)
  from run [OF this, of 7] have "?R (sx_st 0 0 (LK_cas First) SX_outside)"
    by (simp add: sx_st_simps shmtx_run_def)
  from run [OF this, of 7] have "?R (sx_st 7 0 SX_holds SX_outside)"
    by (simp add: sx_st_simps shmtx_run_def)
  from reach_step [OF this call_lock [of 9]] have "?R (sx_st 7 0 SX_holds (LK_read First))"
    by (simp add: sx_st_simps is_pid_def)
  from run [OF this, of 9] have "?R (sx_st 7 0 SX_holds LK_wait)"
    using mtx by (simp add: sx_st_simps shmtx_run_def shmtx_retry_def)
  from run [OF this, of 9] have "?R (sx_st 7 1 SX_holds LK_read_again)"
    by (simp add: sx_st_simps shmtx_run_def)
  from run [OF this, of 9] show ?thesis
    by (simp add: sx_st_simps shmtx_run_def)
qed

theorem shmtx_mutual_exclusion_witness:
  "reach (sx_step 1 sx_mtx sx_safe_crash) sx_init (sx_st 7 1 SX_holds LK_sem)
   \<and> sh_lock (sx_sh (sx_st 7 1 SX_holds LK_sem)) = 7"
  using shmtx_mutual_exclusion [OF sx_example, of 7 7] sx_example by (simp add: sx_st_simps)

text \<open>
  C8. No wake-up is lost and the semaphore never overflows. When a process sleeps and no post is
  pending, the mutex is taken, or it names a process that died with it, or some process is still
  inside an operation that will look at the mutex or wake a sleeper: the system is never left with
  a free mutex and only sleepers. The semaphore stays at or below its limit, with room for every
  post that is about to be made.
\<close>

theorem shmtx_no_lost_wakeup:
  assumes "reach (sx_step ncpu mtx sx_safe_crash) sx_init s" "mtx_semaphore mtx"
  shows "(sx_pcs s p = LK_sem \<and> sh_sem (sx_sh s) = 0 \<longrightarrow>
       sh_lock (sx_sh s) \<noteq> 0 \<or> (\<exists>q. sx_busy (sx_pcs s q)))
    \<and> (sx_pcs s q = WK_post \<longrightarrow> sh_sem (sx_sh s) < SEM_VALUE_MAX)"
proof -
  have "mtx\<lparr>mtx_semaphore := True\<rparr> = mtx" using assms(2) by simp
  with assms(1) sx_full.inv_reach [of ncpu mtx s] have inv: "sx_inv s" by (simp add: sx_full_inv_def)
  have "sx_active s" if p: "sx_pcs s p = LK_sem" and z: "sh_sem (sx_sh s) = 0"
  proof (cases "\<exists>q. sx_busy (sx_pcs s q)")
    case False
    have "\<not> sx_posts (sx_pcs s q)" for q using False sx_posts_busy by blast
    then have "count sx_posts (sx_pcs s) = 0" by (simp add: count_zero)
    moreover have "0 < count sx_waits (sx_pcs s)" using p count_pos [of sx_waits "sx_pcs s" p] by simp
    ultimately have "0 < sx_level s" using z by (simp add: sx_level_def)
    then show ?thesis using inv by (simp add: sx_inv_def sx_wait_inv_def)
  qed (simp add: sx_active_def)
  then show ?thesis using sx_wait_post(1) [OF inv, of q] by (auto simp: sx_active_def)
qed

theorem shmtx_no_lost_wakeup_witness:
  "reach (sx_step 1 sx_mtx sx_safe_crash) sx_init (sx_st 7 1 SX_holds LK_sem)
   \<and> sx_pcs (sx_st 7 1 SX_holds LK_sem) 9 = LK_sem
   \<and> (0 < sh_lock (sx_sh (sx_st 7 1 SX_holds LK_sem)) \<or> (\<exists>q. sx_busy (sx_pcs (sx_st 7 1 SX_holds LK_sem) q)))"
  using shmtx_no_lost_wakeup [OF sx_example, of 9 7] sx_example
  by (simp add: sx_st_simps sx_mtx_def ngx_shmtx_create_def)

end
