(* ===== verification/Ngx_Buf.thy ===== *)
theory Ngx_Buf
  imports Prelude
begin

unbundle bit_operations_syntax

text \<open>
  Buffers and chains of buffers, \<^verbatim>\<open>src/core/ngx_buf.h\<close> and \<^verbatim>\<open>src/core/ngx_buf.c\<close>: the size and kind of a
  buffer, the accounting of sent bytes, the coalescing of contiguous file pieces, and the recycling of
  finished buffers. A chain is the list of its buffers; the bytes it stands for are the specification.
\<close>

section \<open>Buffers\<close>

text \<open>
  A buffer describes bytes in memory (from \<open>pos\<close> to \<open>last\<close> of a block), in a file, or in both. The block
  and the contents of the file are fields of the model, since the code never writes through these
  pointers here; \<open>start\<close> is the beginning of the block.
\<close>

record ngx_buf =
  buf_pos :: nat
  buf_last :: nat
  file_pos :: nat
  file_last :: nat
  buf_start :: nat
  buf_tag :: nat
  temporary :: bool
  memory :: bool
  mmap :: bool
  in_file :: bool
  flush :: bool
  sync :: bool
  last_buf :: bool
  last_in_chain :: bool
  buf_fd :: nat
  buf_block :: "byte list"
  buf_file :: "byte list"

definition ngx_buf_in_memory :: "ngx_buf \<Rightarrow> bool" where
  "ngx_buf_in_memory b \<longleftrightarrow> temporary b \<or> memory b \<or> mmap b"

definition ngx_buf_special :: "ngx_buf \<Rightarrow> bool" where
  "ngx_buf_special b \<longleftrightarrow> (flush b \<or> last_buf b \<or> sync b) \<and> \<not> ngx_buf_in_memory b \<and> \<not> in_file b"

definition ngx_buf_size :: "ngx_buf \<Rightarrow> nat" where
  "ngx_buf_size b =
     (if ngx_buf_in_memory b then buf_last b - buf_pos b else file_last b - file_pos b)"

text \<open>The bytes that a buffer stands for, and what makes a buffer well formed.\<close>

definition piece :: "nat \<Rightarrow> nat \<Rightarrow> 'a list \<Rightarrow> 'a list" where
  "piece i j xs = take (j - i) (drop i xs)"

definition mem_bytes :: "ngx_buf \<Rightarrow> byte list" where
  "mem_bytes b = piece (buf_pos b) (buf_last b) (buf_block b)"

definition file_bytes :: "ngx_buf \<Rightarrow> byte list" where
  "file_bytes b = piece (file_pos b) (file_last b) (buf_file b)"

definition buf_bytes :: "ngx_buf \<Rightarrow> byte list" where
  "buf_bytes b = (if ngx_buf_in_memory b then mem_bytes b else if in_file b then file_bytes b else [])"

definition buf_ok :: "ngx_buf \<Rightarrow> bool" where
  "buf_ok b \<longleftrightarrow>
     (if ngx_buf_in_memory b then buf_pos b \<le> buf_last b \<and> buf_last b \<le> length (buf_block b) else True)
     \<and> (if in_file b then file_pos b \<le> file_last b \<and> file_last b \<le> length (buf_file b) else file_pos b = file_last b)
     \<and> (if ngx_buf_in_memory b \<and> in_file b then mem_bytes b = file_bytes b else True)"

definition chain_bytes :: "ngx_buf list \<Rightarrow> byte list" where
  "chain_bytes c = concat (map buf_bytes c)"

definition chain_ok :: "ngx_buf list \<Rightarrow> bool" where
  "chain_ok c = list_all buf_ok c"

section \<open>Chains\<close>

text \<open>
  Accounting for bytes that have been sent: the buffers passed over (as the function leaves them) and
  the rest of the chain, which it returns.
\<close>

definition buf_skip :: "nat \<Rightarrow> ngx_buf \<Rightarrow> ngx_buf" where
  "buf_skip n b =
     (let b = (if ngx_buf_in_memory b then b\<lparr>buf_pos := buf_pos b + n\<rparr> else b)
      in if in_file b then b\<lparr>file_pos := file_pos b + n\<rparr> else b)"

definition buf_skip_all :: "ngx_buf \<Rightarrow> ngx_buf" where
  "buf_skip_all b =
     (let b = (if ngx_buf_in_memory b then b\<lparr>buf_pos := buf_last b\<rparr> else b)
      in if in_file b then b\<lparr>file_pos := file_last b\<rparr> else b)"

fun ngx_chain_update_sent :: "ngx_buf list \<Rightarrow> nat \<Rightarrow> ngx_buf list \<times> ngx_buf list" where
  "ngx_chain_update_sent [] sent = ([], [])"
| "ngx_chain_update_sent (b # bs) sent =
     (if ngx_buf_special b then
        let (done, rest) = ngx_chain_update_sent bs sent in (b # done, rest)
      else if sent = 0 then ([], b # bs)
      else if ngx_buf_size b \<le> sent then
        let (done, rest) = ngx_chain_update_sent bs (sent - ngx_buf_size b) in (buf_skip_all b # done, rest)
      else ([], buf_skip sent b # bs))"

text \<open>
  Contiguous pieces of one file at the head of a chain, up to a limit that may be exceeded to end on
  a page boundary; the fields \<open>tot\<close> and \<open>fprev\<close> are the state of the loop.
\<close>

definition page_up :: "nat \<Rightarrow> nat \<Rightarrow> nat" where
  "page_up pagesize x = nat ((int (x + pagesize) - 1) AND NOT (int pagesize - 1))"

fun coalesce_loop :: "nat \<Rightarrow> nat \<Rightarrow> nat \<Rightarrow> nat \<Rightarrow> ngx_buf list \<Rightarrow> nat \<times> ngx_buf list" where
  "coalesce_loop pagesize limit fd tot [] = (tot, [])"
| "coalesce_loop pagesize limit fd tot (b # bs) =
     (let size = file_last b - file_pos b in
      if limit - tot < size then
        let size = limit - tot;
            aligned = page_up pagesize (file_pos b + size);
            size = (if aligned \<le> file_last b then aligned - file_pos b else size)
        in (tot + size, b # bs)
      else
        let tot = tot + size; fprev = file_pos b + size in
        case bs of
          [] \<Rightarrow> (tot, [])
        | c # _ \<Rightarrow>
            if in_file c \<and> tot < limit \<and> fd = buf_fd c \<and> fprev = file_pos c
            then coalesce_loop pagesize limit fd tot bs
            else (tot, bs))"

definition ngx_chain_coalesce_file :: "nat \<Rightarrow> ngx_buf list \<Rightarrow> nat \<Rightarrow> nat \<times> ngx_buf list" where
  "ngx_chain_coalesce_file pagesize c limit = coalesce_loop pagesize limit (buf_fd (hd c)) 0 c"

text \<open>Moving finished buffers of one owner from the busy to the free list.\<close>

fun busy_to_free :: "nat \<Rightarrow> ngx_buf list \<Rightarrow> ngx_buf list \<Rightarrow> ngx_buf list \<times> ngx_buf list" where
  "busy_to_free tag free [] = (free, [])"
| "busy_to_free tag free (b # bs) =
     (if buf_tag b \<noteq> tag then busy_to_free tag free bs
      else if ngx_buf_size b \<noteq> 0 then (free, b # bs)
      else busy_to_free tag (b\<lparr>buf_pos := buf_start b, buf_last := buf_start b\<rparr> # free) bs)"

definition ngx_chain_update_chains ::
  "ngx_buf list \<Rightarrow> ngx_buf list \<Rightarrow> ngx_buf list \<Rightarrow> nat \<Rightarrow> ngx_buf list \<times> ngx_buf list \<times> ngx_buf list" where
  "ngx_chain_update_chains free busy out tag =
     (let (free, busy) = busy_to_free tag free (busy @ out) in (free, busy, []))"

section \<open>Proofs\<close>

lemma piece_simps [simp]:
  "length (piece i j xs) = min (j - i) (length xs - i)"
  "piece i i xs = []"
  by (simp_all add: piece_def min.commute)

lemma piece_length: "j \<le> length xs \<Longrightarrow> length (piece i j xs) = j - i"
  by (auto simp: min_def)

lemma piece_drop: "drop n (piece i j xs) = piece (i + n) j xs"
  by (simp add: piece_def drop_take add.commute diff_diff_left)

lemma piece_take: "take n (piece i j xs) = piece i (min j (i + n)) xs"
proof -
  have "min n (j - i) = min j (i + n) - i" by arith
  then show ?thesis by (simp add: piece_def)
qed

lemma piece_split: "i \<le> j \<Longrightarrow> j \<le> k \<Longrightarrow> piece i k xs = piece i j xs @ piece j k xs"
proof -
  assume "i \<le> j" "j \<le> k"
  then have "k - i = (j - i) + (k - j)" "j = (j - i) + i" by simp_all
  then show ?thesis
    unfolding piece_def by (metis take_add drop_drop)
qed

lemma buf_size_bytes: "buf_ok b \<Longrightarrow> ngx_buf_size b = length (buf_bytes b)"
  by (auto simp: buf_ok_def ngx_buf_size_def buf_bytes_def mem_bytes_def file_bytes_def split: if_splits)

lemma buf_special_bytes: "ngx_buf_special b \<Longrightarrow> buf_bytes b = []"
  by (simp add: ngx_buf_special_def buf_bytes_def)

lemma buf_skip_fields [simp]:
  "ngx_buf_in_memory (buf_skip n b) = ngx_buf_in_memory b" "in_file (buf_skip n b) = in_file b"
  "buf_last (buf_skip n b) = buf_last b" "file_last (buf_skip n b) = file_last b"
  "buf_block (buf_skip n b) = buf_block b" "buf_file (buf_skip n b) = buf_file b"
  "buf_pos (buf_skip n b) = (if ngx_buf_in_memory b then buf_pos b + n else buf_pos b)"
  "file_pos (buf_skip n b) = (if in_file b then file_pos b + n else file_pos b)"
  "ngx_buf_special (buf_skip n b) = ngx_buf_special b"
  by (simp_all add: buf_skip_def ngx_buf_special_def ngx_buf_in_memory_def Let_def)

lemma mem_size: "buf_ok b \<Longrightarrow> ngx_buf_in_memory b \<Longrightarrow> length (mem_bytes b) = buf_last b - buf_pos b"
  unfolding mem_bytes_def by (rule piece_length) (simp add: buf_ok_def)

lemma file_size: "buf_ok b \<Longrightarrow> in_file b \<Longrightarrow> length (file_bytes b) = file_last b - file_pos b"
  unfolding file_bytes_def by (rule piece_length) (simp add: buf_ok_def)

lemma buf_skip_ok:
  assumes "buf_ok b" "n \<le> ngx_buf_size b"
  shows "buf_ok (buf_skip n b) \<and> buf_bytes (buf_skip n b) = drop n (buf_bytes b)"
proof -
  have m: "mem_bytes (buf_skip n b) = drop n (mem_bytes b)" if "ngx_buf_in_memory b"
    using that by (simp add: mem_bytes_def piece_drop)
  have f: "file_bytes (buf_skip n b) = drop n (file_bytes b)" if "in_file b"
    using that by (simp add: file_bytes_def piece_drop)
  have "file_last b - file_pos b = buf_last b - buf_pos b" if "ngx_buf_in_memory b" "in_file b"
  proof -
    have "mem_bytes b = file_bytes b" using assms(1) that by (simp add: buf_ok_def)
    then show ?thesis using mem_size [OF assms(1) that(1)] file_size [OF assms(1) that(2)] by simp
  qed
  then show ?thesis
    using assms m f by (auto simp: buf_ok_def buf_bytes_def ngx_buf_size_def split: if_splits)
qed

lemma buf_skip_all_eq: "buf_ok b \<Longrightarrow> buf_skip_all b = buf_skip (ngx_buf_size b) b"
proof -
  assume ok: "buf_ok b"
  have "length (mem_bytes b) = length (file_bytes b)" if "ngx_buf_in_memory b" "in_file b"
    using ok that by (simp add: buf_ok_def)
  then show ?thesis
    using ok by (auto simp: buf_skip_all_def buf_skip_def buf_ok_def ngx_buf_size_def mem_bytes_def file_bytes_def
        ngx_buf_in_memory_def Let_def split: if_splits)
qed

text \<open>
  After \<open>sent\<close> bytes of a chain have gone out, the chain that \<open>ngx_chain_update_sent\<close> returns holds
  exactly the bytes that are left and starts with a buffer that still has some, and the buffers in
  front of it hold none.
\<close>

theorem chain_update_sent_exact:
  assumes "chain_ok c" "sent \<le> length (chain_bytes c)" "ngx_chain_update_sent c sent = (finished, rest)"
  shows "chain_bytes rest = drop sent (chain_bytes c) \<and> chain_bytes finished = [] \<and> chain_ok rest
    \<and> (rest \<noteq> [] \<longrightarrow> \<not> ngx_buf_special (hd rest))"
  using assms
proof (induction c arbitrary: sent finished)
  case Nil
  then show ?case by (simp add: chain_bytes_def chain_ok_def)
next
  case (Cons b bs)
  have ok: "buf_ok b" "chain_ok bs" using Cons.prems(1) by (simp_all add: chain_ok_def)
  note size = buf_size_bytes [OF ok(1)]
  consider "ngx_buf_special b" | "\<not> ngx_buf_special b" "sent = 0"
    | "\<not> ngx_buf_special b" "sent \<noteq> 0" "ngx_buf_size b \<le> sent"
    | "\<not> ngx_buf_special b" "sent \<noteq> 0" "sent < ngx_buf_size b" by linarith
  then show ?case
  proof cases
    case 1
    obtain d where d: "ngx_chain_update_sent bs sent = (d, rest)" "finished = b # d"
      using Cons.prems(3) 1 by (auto split: prod.splits)
    have "sent \<le> length (chain_bytes bs)" using Cons.prems(2) buf_special_bytes [OF 1] by (simp add: chain_bytes_def)
    then show ?thesis
      using Cons.IH [OF ok(2) _ d(1)] d(2) buf_special_bytes [OF 1] by (simp add: chain_bytes_def)
  next
    case 2
    then have "finished = []" "rest = b # bs" using Cons.prems(3) by simp_all
    then show ?thesis using Cons.prems(1) 2 by (simp add: chain_bytes_def)
  next
    case 3
    obtain d where d: "ngx_chain_update_sent bs (sent - ngx_buf_size b) = (d, rest)" "finished = buf_skip_all b # d"
      using Cons.prems(3) 3 by (auto split: prod.splits)
    have "buf_bytes (buf_skip_all b) = []"
      using buf_skip_ok [OF ok(1), of "ngx_buf_size b"] buf_skip_all_eq [OF ok(1)] size by simp
    moreover have "sent - ngx_buf_size b \<le> length (chain_bytes bs)"
      using Cons.prems(2) size by (simp add: chain_bytes_def)
    ultimately show ?thesis
      using Cons.IH [OF ok(2) _ d(1)] 3(3) d(2) size by (simp add: chain_bytes_def)
  next
    case 4
    then have "finished = []" "rest = buf_skip sent b # bs" using Cons.prems(3) by simp_all
    then show ?thesis
      using 4 ok size buf_skip_ok [OF ok(1), of sent] by (simp add: chain_bytes_def chain_ok_def)
  qed
qed

definition mem_buf :: "byte list \<Rightarrow> ngx_buf" where
  "mem_buf xs = \<lparr>buf_pos = 0, buf_last = length xs, file_pos = 0, file_last = 0, buf_start = 0, buf_tag = 0,
     temporary = True, memory = False, mmap = False, in_file = False, flush = False, sync = False,
     last_buf = False, last_in_chain = False, buf_fd = 0, buf_block = xs, buf_file = []\<rparr>"

definition file_buf :: "nat \<Rightarrow> nat \<Rightarrow> byte list \<Rightarrow> ngx_buf" where
  "file_buf i j xs = (mem_buf [])\<lparr>temporary := False, in_file := True, file_pos := i, file_last := j, buf_file := xs\<rparr>"

lemma mem_buf_ok: "buf_ok (mem_buf xs)" "buf_bytes (mem_buf xs) = xs"
  by (simp_all add: buf_ok_def buf_bytes_def mem_bytes_def piece_def mem_buf_def ngx_buf_in_memory_def)

lemma file_buf_ok:
  "i \<le> j \<Longrightarrow> j \<le> length xs \<Longrightarrow> buf_ok (file_buf i j xs)" "buf_bytes (file_buf i j xs) = piece i j xs"
  by (simp_all add: buf_ok_def buf_bytes_def file_bytes_def file_buf_def mem_buf_def ngx_buf_in_memory_def)

theorem chain_update_sent_exact_witness:
  "chain_bytes (snd (ngx_chain_update_sent [mem_buf [1, 2], file_buf 1 4 [9, 3, 4, 5, 9]] 3)) = [4, 5]"
proof -
  let ?c = "[mem_buf [1, 2], file_buf 1 4 [9, 3, 4, 5, 9 :: byte]]"
  have "chain_ok ?c" "chain_bytes ?c = [1, 2, 3, 4, 5]"
    by (simp_all add: chain_ok_def chain_bytes_def mem_buf_ok file_buf_ok piece_def)
  then show ?thesis
    using chain_update_sent_exact [of ?c 3 "fst (ngx_chain_update_sent ?c 3)" "snd (ngx_chain_update_sent ?c 3)"]
    by simp
qed

lemma page_up_bounds:
  assumes "pagesize = 2 ^ k"
  shows "x \<le> page_up pagesize x \<and> page_up pagesize x < x + pagesize"
proof -
  define y where "y = int (x + pagesize) - 1"
  define a r where "a = y AND NOT (mask k)" and "r = y AND mask k"
  have m: "int pagesize - 1 = mask k" using assms by (simp add: mask_eq_exp_minus_1)
  have "a AND r = 0" unfolding a_def r_def by (rule bit_eqI) (auto simp: bit_simps)
  then have "a + r = a OR r" by (rule disjunctive_add_eq_or)
  also have "a OR r = y" unfolding a_def r_def by (rule bit_eqI) (auto simp: bit_simps)
  finally have "a + r = y" .
  moreover have "0 \<le> r" "r < int pagesize"
    using assms unfolding r_def by (simp_all flip: take_bit_eq_mask)
  ultimately have "int x \<le> a" "a < int x + int pagesize" unfolding y_def by linarith+
  then show ?thesis unfolding page_up_def y_def [symmetric] m a_def [symmetric] by linarith
qed

lemma file_buf_bytes: "buf_ok b \<Longrightarrow> in_file b \<Longrightarrow> buf_bytes b = file_bytes b"
  by (auto simp: buf_ok_def buf_bytes_def)

lemma coalesce_loop_exact:
  assumes "coalesce_loop pagesize limit fd tot c = (tot', rest)" "c = b # bs" "chain_ok c" "pagesize = 2 ^ k"
    and "tot \<le> limit" "in_file b" "buf_fd b = fd"
    and "\<forall>x\<in>set c. in_file x \<longrightarrow> buf_fd x = fd \<longrightarrow> buf_file x = data"
  shows "tot \<le> tot' \<and> tot' < limit + pagesize \<and> tot' - tot \<le> length (chain_bytes c)
    \<and> take (tot' - tot) (chain_bytes c) = take (tot' - tot) (drop (file_pos b) data)"
  using assms
proof (induction c arbitrary: tot b bs)
  case (Cons b' bs')
  then have eqs [simp]: "b' = b" "bs' = bs" by simp_all
  have ok: "buf_ok b" "chain_ok bs" using Cons.prems(3) by (simp_all add: chain_ok_def)
  have bf: "buf_file b = data" using Cons.prems(6-8) by simp
  have bytes: "buf_bytes b = piece (file_pos b) (file_last b) data"
    using file_buf_bytes [OF ok(1) Cons.prems(6)] bf by (simp add: file_bytes_def)
  have range: "file_pos b \<le> file_last b" "file_last b \<le> length data"
    using ok(1) Cons.prems(6) bf by (simp_all add: buf_ok_def)
  have pre: "take n (chain_bytes (b # bs)) = take n (drop (file_pos b) data) \<and> n \<le> length (chain_bytes (b # bs))"
    if "n \<le> file_last b - file_pos b" for n
    using that range by (simp add: chain_bytes_def bytes) (simp add: piece_def)
  note up = page_up_bounds [OF Cons.prems(4)]
  show ?case
  proof (cases "limit - tot < file_last b - file_pos b")
    case True
    define n where "n = (if page_up pagesize (file_pos b + (limit - tot)) \<le> file_last b
        then page_up pagesize (file_pos b + (limit - tot)) - file_pos b else limit - tot)"
    have "tot' = tot + n" using Cons.prems(1) True by (simp add: n_def Let_def split: if_splits)
    moreover have "n \<le> file_last b - file_pos b" "n < limit - tot + pagesize"
      using True up [of "file_pos b + (limit - tot)"] unfolding n_def by (simp_all split: if_split) arith+
    ultimately show ?thesis using pre [of n] Cons.prems(5) by simp
  next
    case False
    define n where "n = file_last b - file_pos b"
    have n: "tot + n \<le> limit" "length (buf_bytes b) = n" using False Cons.prems(5) range by (simp_all add: n_def bytes)
    show ?thesis
    proof (cases "\<exists>d ds. bs = d # ds \<and> in_file d \<and> tot + n < limit \<and> fd = buf_fd d \<and> file_pos b + n = file_pos d")
      case True
      then obtain d ds where d: "bs = d # ds" "in_file d" "tot + n < limit" "fd = buf_fd d" "file_pos b + n = file_pos d"
        by blast
      have rec: "coalesce_loop pagesize limit fd (tot + n) bs = (tot', rest)"
        using Cons.prems(1) False d by (simp add: n_def Let_def)
      have IH: "tot + n \<le> tot' \<and> tot' < limit + pagesize \<and> tot' - (tot + n) \<le> length (chain_bytes bs)
        \<and> take (tot' - (tot + n)) (chain_bytes bs) = take (tot' - (tot + n)) (drop (file_pos d) data)"
        by (rule Cons.IH [unfolded eqs, OF rec d(1) ok(2) Cons.prems(4) n(1) d(2)]) (use d Cons.prems(8) in simp_all)
      define j where "j = tot' - (tot + n)"
      have e: "tot' - tot = n + j" using IH by (simp add: j_def)
      have "take (n + j) (drop (file_pos b) data) = piece (file_pos b) (file_last b) data @ take j (drop (file_pos d) data)"
        unfolding take_add piece_def n_def [symmetric] d(5) [symmetric] drop_drop by (simp only: add.commute)
      then show ?thesis
        using IH n(2) unfolding e by (simp add: chain_bytes_def bytes j_def) arith
    next
      case stop: False
      then have "tot' = tot + n"
        using Cons.prems(1) False by (auto simp: n_def Let_def split: list.splits if_splits)
      moreover have "tot + n < limit + pagesize" using n(1) by (rule le_less_trans) (simp add: Cons.prems(4))
      ultimately show ?thesis using pre [of n] by (simp add: n_def)
    qed
  qed
qed simp

text \<open>
  What \<open>ngx_chain_coalesce_file\<close> finds can be sent with one call: the number of bytes it returns is in
  the chain, these bytes follow each other in the file from the position of the first buffer, and the
  limit is exceeded by less than a page. The page size is a power of two, and buffers with the same
  descriptor refer to the same file.
\<close>

theorem chain_coalesce_file_contiguous:
  assumes "chain_ok (b # bs)" "in_file b" "pagesize = 2 ^ k"
    and "\<forall>x\<in>set (b # bs). in_file x \<longrightarrow> buf_fd x = buf_fd b \<longrightarrow> buf_file x = buf_file b"
    and "ngx_chain_coalesce_file pagesize (b # bs) limit = (n, rest)"
  shows "n \<le> length (chain_bytes (b # bs)) \<and> n < limit + pagesize
    \<and> take n (chain_bytes (b # bs)) = take n (drop (file_pos b) (buf_file b))"
  using coalesce_loop_exact [OF assms(5) [unfolded ngx_chain_coalesce_file_def list.sel] refl assms(1,3) _ assms(2) refl assms(4)]
  by simp

theorem chain_coalesce_file_contiguous_witness:
  "let c = [file_buf 1 3 [9, 3, 4, 5, 9], file_buf 3 4 [9, 3, 4, 5, 9]] in
   ngx_chain_coalesce_file 4096 c 100 = (3, []) \<and> take 3 (chain_bytes c) = [3, 4, 5]"
proof -
  let ?c = "[file_buf 1 3 [9, 3, 4, 5, 9], file_buf 3 4 [9, 3, 4, 5, 9 :: byte]]"
  have c: "ngx_chain_coalesce_file 4096 ?c 100 = (3, [])"
    by (simp add: ngx_chain_coalesce_file_def file_buf_def mem_buf_def Let_def)
  have "chain_ok ?c" by (simp add: chain_ok_def file_buf_ok)
  then show ?thesis
    using chain_coalesce_file_contiguous [of "hd ?c" "tl ?c" 4096 12 100 3 "[]"] c
    by (simp add: file_buf_def mem_buf_def Let_def)
qed

lemma busy_to_free_exact:
  assumes "busy_to_free tag free c = (free', busy')" "chain_ok c"
  shows "chain_bytes (filter (\<lambda>b. buf_tag b = tag) busy') = chain_bytes (filter (\<lambda>b. buf_tag b = tag) c)
    \<and> (busy' \<noteq> [] \<longrightarrow> buf_tag (hd busy') = tag \<and> ngx_buf_size (hd busy') \<noteq> 0)
    \<and> (\<exists>new. free' = new @ free \<and> list_all (\<lambda>b. buf_tag b = tag \<and> buf_pos b = buf_start b \<and> buf_last b = buf_start b) new)"
  using assms
proof (induction c arbitrary: free)
  case (Cons b bs)
  then have ok: "buf_ok b" "chain_ok bs" by (simp_all add: chain_ok_def)
  show ?case
  proof (cases "buf_tag b = tag \<and> ngx_buf_size b = 0")
    case True
    let ?b = "b\<lparr>buf_pos := buf_start b, buf_last := buf_start b\<rparr>"
    have "buf_bytes b = []" using True buf_size_bytes [OF ok(1)] by simp
    moreover have "busy_to_free tag (?b # free) bs = (free', busy')" using Cons.prems(1) True by simp
    then obtain new where "free' = new @ ?b # free"
      "list_all (\<lambda>b. buf_tag b = tag \<and> buf_pos b = buf_start b \<and> buf_last b = buf_start b) new"
      "chain_bytes (filter (\<lambda>b. buf_tag b = tag) busy') = chain_bytes (filter (\<lambda>b. buf_tag b = tag) bs)"
      "busy' \<noteq> [] \<longrightarrow> buf_tag (hd busy') = tag \<and> ngx_buf_size (hd busy') \<noteq> 0"
      using Cons.IH [OF _ ok(2)] by blast
    ultimately show ?thesis
      using True by (simp add: chain_bytes_def)
  next
    case False
    then show ?thesis using Cons.prems(1) Cons.IH [OF _ ok(2), of free] by (cases "buf_tag b = tag") auto
  qed
qed simp

text \<open>
  Recycling buffers loses nothing: \<open>ngx_chain_update_chains\<close> empties the output chain, every byte still
  to be sent from the owner's buffers stays in the busy chain, which starts with such a buffer, and
  the buffers added to the free chain are the owner's and are reset.
\<close>

theorem chain_update_chains_exact:
  assumes "ngx_chain_update_chains free busy out tag = (free', busy', out')" "chain_ok (busy @ out)"
  shows "out' = []
    \<and> chain_bytes (filter (\<lambda>b. buf_tag b = tag) busy') = chain_bytes (filter (\<lambda>b. buf_tag b = tag) (busy @ out))
    \<and> (busy' \<noteq> [] \<longrightarrow> buf_tag (hd busy') = tag \<and> ngx_buf_size (hd busy') \<noteq> 0)
    \<and> (\<exists>new. free' = new @ free \<and> list_all (\<lambda>b. buf_tag b = tag \<and> buf_pos b = buf_start b \<and> buf_last b = buf_start b) new)"
proof -
  have "busy_to_free tag free (busy @ out) = (free', busy')" "out' = []"
    using assms(1) by (auto simp: ngx_chain_update_chains_def split: prod.splits)
  then show ?thesis using busy_to_free_exact [OF _ assms(2)] by simp
qed

theorem chain_update_chains_exact_witness:
  "let free' = fst (ngx_chain_update_chains [] [mem_buf []] [mem_buf [1]] 0) in length free' = 1"
proof -
  have "chain_ok ([mem_buf []] @ [mem_buf [1]])" by (simp add: chain_ok_def mem_buf_ok)
  then show ?thesis
    using chain_update_chains_exact [of "[]" "[mem_buf []]" "[mem_buf [1]]" 0]
    by (simp add: ngx_chain_update_chains_def mem_buf_def ngx_buf_size_def ngx_buf_in_memory_def)
qed

end
