(* ===== verification/Ngx_Time.thy ===== *)
theory Ngx_Time
  imports Ngx_Number
begin

unbundle bit_operations_syntax

text \<open>
  Dates: \<open>ngx_gmtime\<close>, \<open>ngx_http_time\<close> and \<open>ngx_http_cookie_time\<close> of \<^verbatim>\<open>src/core/ngx_times.c\<close>, and
  \<open>ngx_parse_http_time\<close> of \<^verbatim>\<open>src/core/ngx_parse_time.c\<close> with its three formats. The arithmetic of
  \<open>ngx_gmtime\<close> stays within small positive numbers and is modelled over the integers; Gauss' formula in
  the reader is in 64-bit words, because the year can wrap there.

  The reference is a calendar that counts days one by one from 1 January 1970.
\<close>

section \<open>Calendar time from seconds\<close>

record ngx_tm =
  tm_sec :: int
  tm_min :: int
  tm_hour :: int
  tm_mday :: int
  tm_mon :: int
  tm_year :: int
  tm_wday :: int

text \<open>The year that starts in March and the day in it, from the days since March 1, 1 BC; then the date
  from the days since January 1, 1970.\<close>

definition gm_year_day :: "int \<Rightarrow> int \<times> int" where
  "gm_year_day days =
     (let year = (days + 2) * 400 div (365 * 400 + 100 - 4 + 1);
          yday = days - (365 * year + year div 4 - year div 100 + year div 400)
      in if yday < 0 then
           let leap = (if year mod 4 = 0 \<and> (year mod 100 \<noteq> 0 \<or> year mod 400 = 0) then 1 else 0)
           in (year - 1, 365 + leap + yday)
         else (year, yday))"

definition gm_date :: "int \<Rightarrow> int \<times> int \<times> int" where
  "gm_date days =
     (let days = days - (31 + 28) + 719527;
          (year, yday) = gm_year_day days;
          mon = (yday + 31) * 10 div 306;
          mday = yday - (367 * mon div 12 - 30) + 1
      in if 306 \<le> yday then (year + 1, mon - 10, mday) else (year, mon + 2, mday))"

definition ngx_gmtime :: "int \<Rightarrow> ngx_tm" where
  "ngx_gmtime t =
     (let t = (if t < 0 then 0 else t);
          days = t div 86400;
          sec = t mod 86400;
          (days, sec) = (if 2932896 < days then (2932896, 86399) else (days, sec));
          wday = (4 + days) mod 7;
          hour = sec div 3600;
          sec = sec mod 3600;
          minute = sec div 60;
          sec = sec mod 60;
          (year, mon, mday) = gm_date days
      in \<lparr>tm_sec = sec, tm_min = minute, tm_hour = hour, tm_mday = mday, tm_mon = mon, tm_year = year,
          tm_wday = wday\<rparr>)"

definition week :: "byte list list" where
  "week = map bytes [''Sun'', ''Mon'', ''Tue'', ''Wed'', ''Thu'', ''Fri'', ''Sat'']"

definition months :: "byte list list" where
  "months = map bytes [''Jan'', ''Feb'', ''Mar'', ''Apr'', ''May'', ''Jun'',
     ''Jul'', ''Aug'', ''Sep'', ''Oct'', ''Nov'', ''Dec'']"

text \<open>\<open>ngx_sprintf\<close> passes the highest address as the end of the buffer, so that room is never the
  limit of what it writes; no number is longer than the room given here.\<close>

definition fmt_int :: "byte \<Rightarrow> nat \<Rightarrow> int \<Rightarrow> byte list" where
  "fmt_int zero width n = ngx_sprintf_num (NGX_INT64_LEN + width) (word_of_int n) zero 0 width"

definition fmt_clock :: "ngx_tm \<Rightarrow> byte list" where
  "fmt_clock tm = fmt_int (asc CHR ''0'') 2 (tm_hour tm) @ bytes '':'' @
     fmt_int (asc CHR ''0'') 2 (tm_min tm) @ bytes '':'' @
     fmt_int (asc CHR ''0'') 2 (tm_sec tm) @ bytes '' GMT''"

definition ngx_http_time :: "int \<Rightarrow> byte list" where
  "ngx_http_time t =
     (let tm = ngx_gmtime t in
      week ! nat (tm_wday tm) @ bytes '', '' @ fmt_int (asc CHR ''0'') 2 (tm_mday tm) @ bytes '' '' @
      months ! nat (tm_mon tm - 1) @ bytes '' '' @ fmt_int (asc CHR '' '') 4 (tm_year tm) @ bytes '' '' @
      fmt_clock tm)"

definition ngx_http_cookie_time :: "int \<Rightarrow> byte list" where
  "ngx_http_cookie_time t =
     (let tm = ngx_gmtime t in
      week ! nat (tm_wday tm) @ bytes '', '' @ fmt_int (asc CHR ''0'') 2 (tm_mday tm) @ bytes ''-'' @
      months ! nat (tm_mon tm - 1) @ bytes ''-'' @
      (if 2037 < tm_year tm then fmt_int (asc CHR '' '') 0 (tm_year tm)
       else fmt_int (asc CHR ''0'') 2 (tm_year tm mod 100)) @ bytes '' '' @
      fmt_clock tm)"

section \<open>Reading an HTTP date\<close>

text \<open>
  A read outside the \<open>len\<close> bytes of the value is \<open>Fault\<close>, the return of \<open>NGX_ERROR\<close> is \<open>Bad\<close>. The
  combinators take the rest of the function as an argument: \<open>rd\<close> reads a byte, \<open>digit\<close> one that must
  be a digit, \<open>expect\<close> one that must be the given character.
\<close>

datatype time_result = Fault | Bad | Time int

definition rd :: "byte list \<Rightarrow> nat \<Rightarrow> (byte \<Rightarrow> time_result) \<Rightarrow> time_result" where
  "rd v p k = (if p < length v then k (v ! p) else Fault)"

definition digit :: "byte list \<Rightarrow> nat \<Rightarrow> (int \<Rightarrow> time_result) \<Rightarrow> time_result" where
  "digit v p k = rd v p (\<lambda>c. if c < asc CHR ''0'' \<or> asc CHR ''9'' < c then Bad else k (digit_val c))"

definition two_digits :: "byte list \<Rightarrow> nat \<Rightarrow> (int \<Rightarrow> time_result) \<Rightarrow> time_result" where
  "two_digits v p k = digit v p (\<lambda>a. digit v (p + 1) (\<lambda>b. k (a * 10 + b)))"

definition four_digits :: "byte list \<Rightarrow> nat \<Rightarrow> (int \<Rightarrow> time_result) \<Rightarrow> time_result" where
  "four_digits v p k =
     digit v p (\<lambda>a. digit v (p + 1) (\<lambda>b. digit v (p + 2) (\<lambda>c. digit v (p + 3) (\<lambda>d.
       k (a * 1000 + b * 100 + c * 10 + d)))))"

definition expect :: "byte list \<Rightarrow> nat \<Rightarrow> byte \<Rightarrow> time_result \<Rightarrow> time_result" where
  "expect v p ch k = rd v p (\<lambda>c. if c \<noteq> ch then Bad else k)"

datatype time_fmt = no_fmt | rfc822 | rfc850 | isoc

fun http_time_sep :: "byte list \<Rightarrow> nat \<Rightarrow> time_fmt \<times> nat" where
  "http_time_sep [] p = (no_fmt, p)"
| "http_time_sep (c # v) p =
     (if c = asc CHR '','' then (no_fmt, p)
      else if c = asc CHR '' '' then (isoc, p)
      else http_time_sep v (p + 1))"

fun http_time_skip :: "byte list \<Rightarrow> nat \<Rightarrow> nat" where
  "http_time_skip [] p = p"
| "http_time_skip (c # v) p = (if c \<noteq> asc CHR '' '' then p else http_time_skip v (p + 1))"

definition http_time_month :: "byte list \<Rightarrow> nat \<Rightarrow> (int \<Rightarrow> time_result) \<Rightarrow> time_result" where
  "http_time_month v p k =
     rd v p (\<lambda>c.
       if c = asc CHR ''J'' then
         rd v (p + 1) (\<lambda>a. if a = asc CHR ''a'' then k 0
           else rd v (p + 2) (\<lambda>b. if b = asc CHR ''n'' then k 5 else k 6))
       else if c = asc CHR ''F'' then k 1
       else if c = asc CHR ''M'' then rd v (p + 2) (\<lambda>b. if b = asc CHR ''r'' then k 2 else k 4)
       else if c = asc CHR ''A'' then rd v (p + 1) (\<lambda>a. if a = asc CHR ''p'' then k 3 else k 7)
       else if c = asc CHR ''S'' then k 8
       else if c = asc CHR ''O'' then k 9
       else if c = asc CHR ''N'' then k 10
       else if c = asc CHR ''D'' then k 11
       else Bad)"

text \<open>The clock part, \<open>" 23:50:13"\<close>.\<close>

definition http_time_clock :: "byte list \<Rightarrow> nat \<Rightarrow> (int \<Rightarrow> int \<Rightarrow> int \<Rightarrow> time_result) \<Rightarrow> time_result" where
  "http_time_clock v p k =
     expect v p (asc CHR '' '') (two_digits v (p + 1) (\<lambda>hour.
       expect v (p + 3) (asc CHR '':'') (two_digits v (p + 4) (\<lambda>minute.
         expect v (p + 6) (asc CHR '':'') (two_digits v (p + 7) (\<lambda>sec. k hour minute sec))))))"

definition mday :: "int list" where
  "mday = [31, 28, 31, 30, 31, 30, 31, 31, 30, 31, 30, 31]"

text \<open>Gauss' formula, in the unsigned arithmetic of the source.\<close>

definition gauss_time :: "int \<Rightarrow> int \<Rightarrow> int \<Rightarrow> int \<Rightarrow> int \<Rightarrow> int \<Rightarrow> int" where
  "gauss_time year month day hour minute sec =
     (let month = month - 1;
          (month, year :: 64 word) =
            (if month \<le> 0 then (month + 12, word_of_int year - 1) else (month, word_of_int year));
          time = (365 * year + year div 4 - year div 100 + year div 400
                  + word_of_int (367 * month div 12) - 30
                  + word_of_int day - 1
                  - 719527 + 31 + 28) * 86400
                 + word_of_int hour * 3600 + word_of_int minute * 60 + word_of_int sec
      in sint time)"

definition http_time_check :: "int \<Rightarrow> int \<Rightarrow> int \<Rightarrow> int \<Rightarrow> int \<Rightarrow> int \<Rightarrow> time_result" where
  "http_time_check year month day hour minute sec =
     (if 23 < hour \<or> 59 < minute \<or> 59 < sec then Bad
      else if day = 29 \<and> month = 1 then
        (if year AND 3 \<noteq> 0 \<or> year mod 100 = 0 \<and> year mod 400 \<noteq> 0 then Bad
         else Time (gauss_time year month day hour minute sec))
      else if mday ! nat month < day then Bad
      else Time (gauss_time year month day hour minute sec))"

text \<open>The three layouts after the day of the week: \<open>"10 Nov 2002 23:50:13"\<close>, \<open>"10-Dec-02 23:50:13"\<close> and
  \<open>"Dec 10 23:50:13 2002"\<close>. The argument \<open>p\<close> is the offset behind the month.\<close>

definition http_time_822 :: "byte list \<Rightarrow> nat \<Rightarrow> int \<Rightarrow> int \<Rightarrow> time_result" where
  "http_time_822 v p day month =
     expect v p (asc CHR '' '') (four_digits v (p + 1) (\<lambda>year.
       http_time_clock v (p + 5) (http_time_check year month day)))"

definition http_time_850 :: "byte list \<Rightarrow> nat \<Rightarrow> int \<Rightarrow> int \<Rightarrow> time_result" where
  "http_time_850 v p day month =
     expect v p (asc CHR ''-'') (two_digits v (p + 1) (\<lambda>year.
       http_time_clock v (p + 3) (http_time_check (year + (if year < 70 then 2000 else 1900)) month day)))"

definition http_time_isoc :: "byte list \<Rightarrow> nat \<Rightarrow> int \<Rightarrow> time_result" where
  "http_time_isoc v p month =
     (let p = p + 1;
          rest = (\<lambda>p day. if length v < p + 14 then Bad
            else http_time_clock v p (\<lambda>hour minute sec.
              expect v (p + 9) (asc CHR '' '') (four_digits v (p + 10) (\<lambda>year.
                http_time_check year month day hour minute sec))))
      in rd v p (\<lambda>c. let p = (if c = asc CHR '' '' then p + 1 else p) in
           digit v p (\<lambda>a. rd v (p + 1) (\<lambda>c.
             if c \<noteq> asc CHR '' '' then digit v (p + 1) (\<lambda>b. rest (p + 2) (a * 10 + b))
             else rest (p + 1) a))))"

definition ngx_parse_http_time :: "byte list \<Rightarrow> time_result" where
  "ngx_parse_http_time v =
     (let (fmt, p) = http_time_sep v 0;
          p = http_time_skip (drop (p + 1) v) (p + 1)
      in if length v < p + 18 then Bad
         else if fmt = isoc then http_time_month v p (http_time_isoc v (p + 3))
         else two_digits v p (\<lambda>day. rd v (p + 2) (\<lambda>c.
           if c = asc CHR '' '' then
             (if length v < p + 20 then Bad
              else http_time_month v (p + 3) (http_time_822 v (p + 6) day))
           else if c = asc CHR ''-'' then http_time_month v (p + 3) (http_time_850 v (p + 6) day)
           else Bad)))"

section \<open>The calendar\<close>

definition leap_year :: "int \<Rightarrow> bool" where
  "leap_year y \<longleftrightarrow> y mod 4 = 0 \<and> (y mod 100 \<noteq> 0 \<or> y mod 400 = 0)"

fun month_days :: "int \<Rightarrow> int \<Rightarrow> int" where
  "month_days y m = (if m = 2 \<and> leap_year y then 29 else mday ! nat (m - 1))"

type_synonym date = "int \<times> int \<times> int"

fun valid_date :: "date \<Rightarrow> bool" where
  "valid_date (y, m, d) \<longleftrightarrow> 1 \<le> m \<and> m \<le> 12 \<and> 1 \<le> d \<and> d \<le> month_days y m"

fun tomorrow :: "date \<Rightarrow> date" where
  "tomorrow (y, m, d) =
     (if d < month_days y m then (y, m, d + 1)
      else if m < 12 then (y, m + 1, 1)
      else (y + 1, 1, 1))"

fun calendar :: "nat \<Rightarrow> date" where
  "calendar 0 = (1970, 1, 1)"
| "calendar (Suc n) = tomorrow (calendar n)"

text \<open>Days from March 1 of the year 0 to March 1 of a year, and the days of a date since 1970.\<close>

definition gauss_years :: "int \<Rightarrow> int" where
  "gauss_years y = 365 * y + y div 4 - y div 100 + y div 400"

fun day_number :: "date \<Rightarrow> int" where
  "day_number (y, m, d) =
     (let (m, y) = (if m \<le> 2 then (m + 10, y - 1) else (m - 2, y))
      in gauss_years y + 367 * m div 12 - 30 + d - 1 - 719527 + 59)"

lemma int_div_step:
  assumes "0 < k"
  shows "(y + 1) div k = y div k + of_bool ((y + 1) mod k = (0 :: int))"
proof -
  have y: "y = k * (y div k) + y mod k" and r: "0 \<le> y mod k" "y mod k < k" using assms by simp_all
  show ?thesis
  proof (cases "y mod k + 1 = k")
    case True
    then have e: "y + 1 = k * (y div k + 1) + 0" unfolding distrib_left using y True by linarith
    have "(y + 1) div k = y div k + 1" "(y + 1) mod k = 0"
      using int_div_pos_eq [OF e] int_mod_pos_eq [OF e] assms by simp_all
    then show ?thesis by simp
  next
    case False
    have e: "y + 1 = k * (y div k) + (y mod k + 1)" using y by simp
    have "(y + 1) div k = y div k" "(y + 1) mod k = y mod k + 1"
      using int_div_pos_eq [OF e] int_mod_pos_eq [OF e] False r by simp_all
    then show ?thesis using r by simp
  qed
qed

lemma mod_zero_multiple: "k dvd l \<Longrightarrow> y mod l = 0 \<Longrightarrow> y mod k = (0 :: int)"
  by (simp add: mod_eq_0_iff_dvd dvd_trans)

lemma gauss_years_step:
  "gauss_years (y + 1) = gauss_years y + 365 + of_bool (leap_year (y + 1))"
proof -
  let ?m = "\<lambda>k. (y + 1) mod k = 0"
  have "?m 400 \<longrightarrow> ?m 100" "?m 100 \<longrightarrow> ?m 4"
    using mod_zero_multiple [of 100 400 "y + 1"] mod_zero_multiple [of 4 100 "y + 1"] by simp_all
  then have "of_bool (leap_year (y + 1)) = (of_bool (?m 4) - of_bool (?m 100) + of_bool (?m 400) :: int)"
    by (cases "?m 4"; cases "?m 100"; cases "?m 400"; simp add: leap_year_def)
  note leap = this
  have shuffle: "365 * (y + 1) + (a + a') - (b + b') + (c + c') = 365 * y + a - b + c + 365 + (a' - b' + c')"
    for a b c a' b' c' :: int by simp
  show ?thesis
    unfolding gauss_years_def leap int_div_step [of 4 y, simplified] int_div_step [of 100 y, simplified]
      int_div_step [of 400 y, simplified]
    by (rule shuffle)
qed

text \<open>The estimate of the year from a number of days is right or one too high.\<close>

lemma gauss_year_estimate:
  assumes "0 \<le> yd" "yd \<le> 365"
  shows "y \<le> (gauss_years y + yd + 2) * 400 div 146097 \<and> (gauss_years y + yd + 2) * 400 div 146097 \<le> y + 1"
proof -
  define a b c e f g where "a = y div 400" and "b = y mod 400" and "c = b div 100" and "e = b mod 100"
    and "f = e div 4" and "g = e mod 4"
  have y: "y = 400 * a + b" and bb: "b = 100 * c + e" and ee: "e = 4 * f + g"
    and r: "0 \<le> b" "b < 400" "0 \<le> e" "e < 100" "0 \<le> g" "g < 4"
    by (simp_all add: a_def b_def c_def e_def f_def g_def)
  then have r': "0 \<le> c" "c \<le> 3" "0 \<le> f" "f \<le> 24" by simp_all
  have "y div 4 = 100 * a + 25 * c + f" "y div 100 = 4 * a + c" "y div 400 = a"
    using int_div_pos_eq [of y 4 "100 * a + 25 * c + f" g] int_div_pos_eq [of y 100 "4 * a + c" e]
      int_div_pos_eq [of y 400 a b] y bb ee r by simp_all
  then have F: "gauss_years y = 146097 * a + 36524 * c + 1461 * f + 365 * g"
    using y bb ee by (simp add: gauss_years_def)
  have lo: "y * 146097 \<le> (gauss_years y + yd + 2) * 400"
    and hi: "(gauss_years y + yd + 2) * 400 < (y + 2) * 146097"
    using F y bb ee r r' assms by simp_all
  have "y \<le> (gauss_years y + yd + 2) * 400 div 146097"
    using zdiv_mono1 [OF lo, of 146097] by simp
  moreover have "(gauss_years y + yd + 2) * 400 div 146097 < y + 2"
    using hi by (simp add: div_less_iff_less_mult)
  ultimately show ?thesis by simp
qed

text \<open>Month \<open>m\<close> of the year that starts in March.\<close>

definition march_month :: "int \<Rightarrow> int \<Rightarrow> bool \<Rightarrow> bool" where
  "march_month m d leap \<longleftrightarrow> 1 \<le> m \<and> m \<le> 12 \<and> 1 \<le> d \<and>
     d \<le> [31, 30, 31, 30, 31, 31, 30, 31, 30, 31, 31, 28 + of_bool leap] ! nat (m - 1)"

lemma march_month_cases:
  assumes "march_month m d leap"
    and "1 \<le> d \<Longrightarrow> d \<le> 31 \<Longrightarrow> P 1" and "1 \<le> d \<Longrightarrow> d \<le> 30 \<Longrightarrow> P 2" and "1 \<le> d \<Longrightarrow> d \<le> 31 \<Longrightarrow> P 3"
    and "1 \<le> d \<Longrightarrow> d \<le> 30 \<Longrightarrow> P 4" and "1 \<le> d \<Longrightarrow> d \<le> 31 \<Longrightarrow> P 5" and "1 \<le> d \<Longrightarrow> d \<le> 31 \<Longrightarrow> P 6"
    and "1 \<le> d \<Longrightarrow> d \<le> 30 \<Longrightarrow> P 7" and "1 \<le> d \<Longrightarrow> d \<le> 31 \<Longrightarrow> P 8" and "1 \<le> d \<Longrightarrow> d \<le> 30 \<Longrightarrow> P 9"
    and "1 \<le> d \<Longrightarrow> d \<le> 31 \<Longrightarrow> P 10" and "1 \<le> d \<Longrightarrow> d \<le> 31 \<Longrightarrow> P 11"
    and "1 \<le> d \<Longrightarrow> d \<le> 28 + of_bool leap \<Longrightarrow> d \<le> 29 \<Longrightarrow> P 12"
  shows "P m"
proof -
  have r: "1 \<le> m" "m \<le> 12" using assms(1) by (simp_all add: march_month_def)
  have d: "1 \<le> d" "d \<le> [31, 30, 31, 30, 31, 31, 30, 31, 30, 31, 31, 28 + of_bool leap] ! nat (m - 1)"
    using assms(1) by (simp_all add: march_month_def)
  have "d \<le> 29" if "d \<le> 28 + of_bool leap" using that by (cases leap) simp_all
  moreover have "m \<in> set (map int [1..<13])" using r by (auto simp: image_iff intro!: bexI [of _ "nat m"])
  ultimately show ?thesis using d assms(2-) by (auto simp: upt_rec)
qed

lemma march_month_offset:
  assumes "march_month m d leap"
  shows "0 \<le> 367 * m div 12 - 30 + d - 1" and "367 * m div 12 - 30 + d - 1 < 365 + of_bool leap"
    and "(367 * m div 12 - 30 + d - 1 + 31) * 10 div 306 = m"
    and "306 \<le> 367 * m div 12 - 30 + d - 1 \<longleftrightarrow> 11 \<le> m"
proof -
  show "0 \<le> 367 * m div 12 - 30 + d - 1" by (rule march_month_cases [OF assms]) simp_all
  show "367 * m div 12 - 30 + d - 1 < 365 + of_bool leap" by (rule march_month_cases [OF assms]) simp_all
  have "306 * m \<le> (367 * m div 12 - 30 + d - 1 + 31) * 10
      \<and> (367 * m div 12 - 30 + d - 1 + 31) * 10 < 306 * m + 306"
    by (rule march_month_cases [OF assms]) simp_all
  then show "(367 * m div 12 - 30 + d - 1 + 31) * 10 div 306 = m"
    using int_div_pos_eq [of "(367 * m div 12 - 30 + d - 1 + 31) * 10" 306 m
      "(367 * m div 12 - 30 + d - 1 + 31) * 10 - 306 * m"] by simp
  show "306 \<le> 367 * m div 12 - 30 + d - 1 \<longleftrightarrow> 11 \<le> m"
    by (rule march_month_cases [OF assms]) simp_all
qed

text \<open>The computation of \<open>ngx_gmtime\<close> on a day of the year that starts in March \<open>y\<close>.\<close>

lemma gm_year_day_march:
  assumes "0 \<le> yd" "yd < 365 + of_bool (leap_year (y + 1))"
  shows "gm_year_day (gauss_years y + yd) = (y, yd)"
proof -
  define est where "est = (gauss_years y + yd + 2) * 400 div 146097"
  have "of_bool (leap_year (y + 1)) \<le> (1 :: int)" by simp
  then have "est = y \<or> est = y + 1"
    using gauss_year_estimate [of yd y] assms unfolding est_def by linarith
  moreover have u: "gm_year_day (gauss_years y + yd) =
      (if gauss_years y + yd - gauss_years est < 0
       then (est - 1, 365 + of_bool (leap_year est) + (gauss_years y + yd - gauss_years est))
       else (est, gauss_years y + yd - gauss_years est))"
    unfolding gm_year_day_def Let_def gauss_years_def [of est, symmetric] leap_year_def [symmetric] of_bool_def
    by (simp add: est_def gauss_years_def [of "_ div _"])
  ultimately show ?thesis
    using assms gauss_years_step [of y] by (elim disjE) simp_all
qed

lemma gm_date_march:
  assumes "march_month m d (leap_year (y + 1))"
  shows "gm_date (gauss_years y + 367 * m div 12 - 30 + d - 1 - 719527 + 59) =
    (if 11 \<le> m then (y + 1, m - 10, d) else (y, m + 2, d))"
proof -
  define yd where "yd = 367 * m div 12 - 30 + d - 1"
  note off = march_month_offset [OF assms, folded yd_def]
  have D: "gauss_years y + 367 * m div 12 - 30 + d - 1 - 719527 + 59 - (31 + 28) + 719527 = gauss_years y + yd"
    by (simp add: yd_def)
  have "yd - (367 * m div 12 - 30) + 1 = d" by (simp add: yd_def)
  then show ?thesis
    unfolding gm_date_def Let_def D gm_year_day_march [OF off(1,2)] split off(3,4) by simp
qed

lemma month_cases:
  assumes "list_all (\<lambda>n. P (int n)) [1..<13]" "1 \<le> m" "m \<le> 12"
  shows "P m"
proof -
  have "nat m \<in> set [1..<13]" using assms(2,3) by auto
  then have "P (int (nat m))" using assms(1) unfolding list_all_iff by blast
  then show ?thesis using assms(2) by simp
qed

lemma month_days_table:
  "month_days y 1 = 31" "month_days y 2 = 28 + of_bool (leap_year y)" "month_days y 3 = 31"
  "month_days y 4 = 30" "month_days y 5 = 31" "month_days y 6 = 30" "month_days y 7 = 31"
  "month_days y 8 = 31" "month_days y 9 = 30" "month_days y 10 = 31" "month_days y 11 = 30"
  "month_days y 12 = 31"
  by (simp_all add: mday_def)

declare month_days.simps [simp del]

lemma gm_date_day_number:
  assumes "valid_date (y, m, d)"
  shows "gm_date (day_number (y, m, d)) = (y, m, d)"
proof -
  have r: "1 \<le> m" "m \<le> 12" "1 \<le> d" "d \<le> month_days y m" using assms by simp_all
  show ?thesis
  proof (cases "m \<le> 2")
    case True
    have "1 \<le> d \<and> d \<le> month_days y m \<and> m \<le> 2 \<longrightarrow> march_month (m + 10) d (leap_year (y - 1 + 1))"
      by (rule month_cases [OF _ r(1,2)]) (simp add: upt_rec march_month_def month_days_table)
    then have "march_month (m + 10) d (leap_year (y - 1 + 1))" using r True by simp
    from gm_date_march [OF this] True r show ?thesis by simp
  next
    case False
    have "1 \<le> d \<and> d \<le> month_days y m \<and> \<not> m \<le> 2 \<longrightarrow> march_month (m - 2) d (leap_year (y + 1))"
      by (rule month_cases [OF _ r(1,2)]) (simp add: upt_rec march_month_def month_days_table)
    then have "march_month (m - 2) d (leap_year (y + 1))" using r False by simp
    from gm_date_march [OF this] False r show ?thesis by simp
  qed
qed

lemma tomorrow_valid: "valid_date x \<Longrightarrow> valid_date (tomorrow x)"
proof (cases x)
  case (fields y m d)
  assume v: "valid_date x"
  have "1 \<le> month_days y (m + 1)" if "1 \<le> m" "m < 12"
    by (rule month_cases [where m = "m + 1"]) (use that in \<open>simp_all add: upt_rec month_days_table\<close>)
  then show ?thesis using v by (simp add: fields month_days_table)
qed

lemma day_number_tomorrow:
  assumes "valid_date x"
  shows "day_number (tomorrow x) = day_number x + 1"
proof (cases x)
  case (fields y m d)
  have r: "1 \<le> m" "m \<le> 12" and d: "d \<le> month_days y m" using assms by (simp_all add: fields)
  show ?thesis
  proof (cases "d < month_days y m")
    case True
    then show ?thesis by (simp add: fields)
  next
    case False
    then have "d = month_days y m" using d by simp
    have "day_number (tomorrow (y, m, month_days y m)) = day_number (y, m, month_days y m) + 1"
      by (rule month_cases [OF _ r]) (simp add: upt_rec month_days_table gauss_years_step [of "y - 1", simplified])
    with \<open>d = month_days y m\<close> show ?thesis by (simp only: fields)
  qed
qed

lemma calendar_day_number: "valid_date (calendar n) \<and> day_number (calendar n) = int n"
proof (induction n)
  case 0
  show ?case by (simp add: upt_rec month_days_table gauss_years_def)
next
  case (Suc n)
  then show ?case using tomorrow_valid [of "calendar n"] day_number_tomorrow [of "calendar n"] by simp
qed

lemma gm_date_calendar: "gm_date (int n) = calendar n"
proof -
  obtain y m d where x: "calendar n = (y, m, d)" by (cases "calendar n")
  with calendar_day_number [of n] gm_date_day_number [of y m d] show ?thesis by simp
qed

lemma word_div_small:
  assumes "0 \<le> a" "a < 2 ^ 63" "0 \<le> k" "k < 2 ^ 63"
  shows "(word_of_int a :: 64 word) div word_of_int k = word_of_int (a div k)"
  using assms by (simp add: word_div_def unsigned_of_int take_bit_int_eq_self)

lemma gauss_range:
  fixes y a b c m :: int
  assumes "0 \<le> y" "y \<le> 9999" "0 \<le> a" "a \<le> 9999" "0 \<le> b" "b \<le> 9999" "0 \<le> c" "c \<le> 9999"
    "0 \<le> m" "m \<le> 4404" "0 \<le> d" "d \<le> 31" "0 \<le> hour" "hour \<le> 23" "0 \<le> minute" "minute \<le> 59" "0 \<le> sec" "sec \<le> 59"
  shows "- (2 ^ 63) \<le> (365 * y + a - b + c + m - 30 + d - 1 - 719527 + 31 + 28) * 86400 + hour * 3600 + minute * 60 + sec"
    and "(365 * y + a - b + c + m - 30 + d - 1 - 719527 + 31 + 28) * 86400 + hour * 3600 + minute * 60 + sec < 2 ^ 63"
  using assms by simp_all

lemma gauss_time_exact:
  assumes "1 \<le> year" "year \<le> 9999" "0 \<le> month" "month \<le> 11" "0 \<le> d" "d \<le> 31"
    and "0 \<le> hour" "hour \<le> 23" "0 \<le> minute" "minute \<le> 59" "0 \<le> sec" "sec \<le> 59"
  shows "gauss_time year month d hour minute sec =
    day_number (year, month + 1, d) * 86400 + hour * 3600 + minute * 60 + sec"
proof -
  define Y where "Y = (if month \<le> 1 then year - 1 else year)"
  define M where "M = (if month \<le> 1 then month + 11 else month - 1)"
  have Y: "0 \<le> Y" "Y \<le> 9999" and M: "1 \<le> M" "M \<le> 12" using assms by (auto simp: Y_def M_def)
  have e: "(if month - 1 \<le> 0 then (month - 1 + 12, word_of_int year - 1) else (month - 1, word_of_int year))
      = (M, word_of_int Y :: 64 word)"
    by (simp add: Y_def M_def)
  let ?X = "(365 * Y + Y div 4 - Y div 100 + Y div 400 + 367 * M div 12 - 30 + d - 1 - 719527 + 31 + 28) * 86400
    + hour * 3600 + minute * 60 + sec"
  have d: "(word_of_int Y :: 64 word) div 4 = word_of_int (Y div 4)"
    "(word_of_int Y :: 64 word) div 100 = word_of_int (Y div 100)"
    "(word_of_int Y :: 64 word) div 400 = word_of_int (Y div 400)"
    using Y word_div_small [of Y 4] word_div_small [of Y 100] word_div_small [of Y 400] by simp_all
  have "gauss_time year month d hour minute sec = sint (word_of_int ?X :: 64 word)"
    unfolding gauss_time_def Let_def e split d by simp
  also have "\<dots> = ?X"
  proof -
    have le: "0 \<le> a div k \<and> a div k \<le> a" if "0 \<le> a" "1 \<le> k" for a k :: int
      using that zdiv_mono2 [of a 1 k] by (simp add: pos_imp_zdiv_nonneg_iff)
    have "0 \<le> Y div 4" "Y div 4 \<le> 9999" "0 \<le> Y div 100" "Y div 100 \<le> 9999" "0 \<le> Y div 400" "Y div 400 \<le> 9999"
      "0 \<le> 367 * M div 12" "367 * M div 12 \<le> 4404"
      using le [of Y 4] le [of Y 100] le [of Y 400] le [of "367 * M" 12] Y M by simp_all
    then show ?thesis using Y assms by (intro sint_small gauss_range) assumption+
  qed
  also have "\<dots> = day_number (year, month + 1, d) * 86400 + hour * 3600 + minute * 60 + sec"
    by (simp add: Y_def M_def gauss_years_def add.commute)
  finally show ?thesis .
qed

section \<open>The reader keeps inside its input\<close>

named_theorems no_fault \<open>a step of the reader does not fault when its offset is inside and the rest does not\<close>

lemma rd_no_fault [no_fault]: "p < length v \<Longrightarrow> (\<And>c. k c \<noteq> Fault) \<Longrightarrow> rd v p k \<noteq> Fault"
  by (simp add: rd_def)

lemma digit_no_fault [no_fault]: "p < length v \<Longrightarrow> (\<And>n. k n \<noteq> Fault) \<Longrightarrow> digit v p k \<noteq> Fault"
  by (simp add: digit_def rd_def)

lemma two_digits_no_fault [no_fault]:
  "p + 1 < length v \<Longrightarrow> (\<And>n. k n \<noteq> Fault) \<Longrightarrow> two_digits v p k \<noteq> Fault"
  unfolding two_digits_def by (intro no_fault) simp_all

lemma four_digits_no_fault [no_fault]:
  "p + 3 < length v \<Longrightarrow> (\<And>n. k n \<noteq> Fault) \<Longrightarrow> four_digits v p k \<noteq> Fault"
  unfolding four_digits_def by (intro no_fault) simp_all

lemma expect_no_fault [no_fault]: "p < length v \<Longrightarrow> k \<noteq> Fault \<Longrightarrow> expect v p ch k \<noteq> Fault"
  by (simp add: expect_def rd_def)

lemma if_no_fault [no_fault]: "(b \<Longrightarrow> x \<noteq> Fault) \<Longrightarrow> (\<not> b \<Longrightarrow> y \<noteq> Fault) \<Longrightarrow> (if b then x else y) \<noteq> Fault"
  by simp

lemma http_time_month_no_fault [no_fault]:
  "p + 2 < length v \<Longrightarrow> (\<And>n. k n \<noteq> Fault) \<Longrightarrow> http_time_month v p k \<noteq> Fault"
  unfolding http_time_month_def by (intro no_fault) simp_all

lemma http_time_clock_no_fault [no_fault]:
  "p + 8 < length v \<Longrightarrow> (\<And>h m s. k h m s \<noteq> Fault) \<Longrightarrow> http_time_clock v p k \<noteq> Fault"
  unfolding http_time_clock_def by (intro no_fault) simp_all

lemma http_time_check_no_fault [no_fault]: "http_time_check y mo d h mi s \<noteq> Fault"
  by (simp add: http_time_check_def)

lemma http_time_822_no_fault [no_fault]: "p + 13 < length v \<Longrightarrow> http_time_822 v p d mo \<noteq> Fault"
  unfolding http_time_822_def by (intro no_fault) simp_all

lemma http_time_850_no_fault [no_fault]: "p + 11 < length v \<Longrightarrow> http_time_850 v p d mo \<noteq> Fault"
  unfolding http_time_850_def by (intro no_fault) simp_all

lemma http_time_isoc_no_fault [no_fault]: "p + 5 < length v \<Longrightarrow> http_time_isoc v p mo \<noteq> Fault"
  unfolding http_time_isoc_def Let_def by (intro no_fault) (simp_all split: if_split)

text \<open>
  Reading a date never looks at a byte outside the value it was given, whatever the value is.
\<close>

theorem parse_http_time_in_bounds: "ngx_parse_http_time v \<noteq> Fault"
  unfolding ngx_parse_http_time_def Let_def split_def by (intro no_fault) simp_all

section \<open>Printing and reading are inverse\<close>

lemma byte_digit:
  assumes "n < 10"
  shows "\<not> (of_nat (n + 48) :: byte) < 48" "\<not> (57 :: byte) < of_nat (n + 48)" "digit_val (of_nat (n + 48)) = int n"
  using digit_of_nat [OF assms] not_digit [of "of_nat (n + 48)"] by auto

lemma digit_print:
  assumes "p < length v" "v ! p = of_nat (n + 48)" "n < 10"
  shows "digit v p k = k (int n)"
  using assms byte_digit [OF assms(3)] by (simp add: digit_def rd_def del: of_nat_add)

lemma unat_word_of_int_small: "0 \<le> n \<Longrightarrow> n < 2 ^ 63 \<Longrightarrow> unat (word_of_int n :: 64 word) = nat n"
  by (simp add: unsigned_of_int take_bit_int_eq_self)

lemma fmt_int_2:
  assumes "0 \<le> n" "n \<le> 99"
  shows "fmt_int 48 2 n = [of_nat (nat n div 10 + 48), of_nat (nat n mod 10 + 48)]"
proof -
  have w: "unat (word_of_int n :: 64 word) = nat n" using assms by (intro unat_word_of_int_small) simp_all
  have n: "nat n div 10 < 10" using assms by simp
  show ?thesis
  proof (cases "nat n div 10 = 0")
    case True
    then show ?thesis
      using sprintf_num_full [of 2 "NGX_INT64_LEN + 2"]
      by (simp add: fmt_int_def num_temp_decimal w dec_digits_rec [of "nat n"])
  next
    case False
    then show ?thesis
      using sprintf_num_full [of 2 "NGX_INT64_LEN + 2"] n
      by (simp add: fmt_int_def num_temp_decimal w dec_digits_rec [of "nat n"] dec_digits_rec [of "nat n div 10"])
  qed
qed

lemma fmt_int_4:
  assumes "1000 \<le> n" "n \<le> 9999" "width \<le> 4"
  shows "fmt_int zero width n = [of_nat (nat n div 1000 + 48), of_nat (nat n div 100 mod 10 + 48),
     of_nat (nat n div 10 mod 10 + 48), of_nat (nat n mod 10 + 48)]"
proof -
  have w: "unat (word_of_int n :: 64 word) = nat n" using assms by (intro unat_word_of_int_small) simp_all
  have d: "nat n div 10 div 10 = nat n div 100" "nat n div 100 div 10 = nat n div 1000" "nat n div 1000 div 10 = 0"
    "nat n div 10 \<noteq> 0" "nat n div 100 \<noteq> 0" "nat n div 1000 \<noteq> 0" "nat n div 1000 < 10"
    using assms by (simp_all add: div_mult2_eq [symmetric])
  have "dec_digits (nat n) [] = [of_nat (nat n div 1000 + 48), of_nat (nat n div 100 mod 10 + 48),
     of_nat (nat n div 10 mod 10 + 48), of_nat (nat n mod 10 + 48)]"
    using d by (simp add: dec_digits_rec [of "nat n"] dec_digits_rec [of "nat n div 10"]
      dec_digits_rec [of "nat n div 100"] dec_digits_rec [of "nat n div 1000"] del: of_nat_add)
  then show ?thesis
    using sprintf_num_full [of width "NGX_INT64_LEN + width"] assms(3)
    by (simp add: fmt_int_def num_temp_decimal w)
qed

lemma gmtime_fields:
  assumes "0 \<le> t" "t < 253402300800"
  shows "(tm_year (ngx_gmtime t), tm_mon (ngx_gmtime t), tm_mday (ngx_gmtime t)) = calendar (nat (t div 86400))"
    and "tm_wday (ngx_gmtime t) = (4 + t div 86400) mod 7"
    and "tm_hour (ngx_gmtime t) * 3600 + tm_min (ngx_gmtime t) * 60 + tm_sec (ngx_gmtime t) = t mod 86400"
    and "0 \<le> tm_hour (ngx_gmtime t)" "tm_hour (ngx_gmtime t) \<le> 23" "0 \<le> tm_min (ngx_gmtime t)" "tm_min (ngx_gmtime t) \<le> 59"
    and "0 \<le> tm_sec (ngx_gmtime t)" "tm_sec (ngx_gmtime t) \<le> 59"
proof -
  define days sec where "days = t div 86400" and "sec = t mod 86400"
  have d: "0 \<le> days" "days \<le> 2932896" and s: "0 \<le> sec" "sec < 86400"
    using assms unfolding days_def sec_def by simp_all
  obtain y m dd where c: "calendar (nat days) = (y, m, dd)" by (cases "calendar (nat days)")
  have g: "gm_date days = (y, m, dd)" using gm_date_calendar [of "nat days"] d c by simp
  have "ngx_gmtime t = \<lparr>tm_sec = sec mod 3600 mod 60, tm_min = sec mod 3600 div 60, tm_hour = sec div 3600,
      tm_mday = dd, tm_mon = m, tm_year = y, tm_wday = (4 + days) mod 7\<rparr>"
  proof -
    have e: "(if t < 0 then 0 else t) = t" using assms(1) by simp
    show ?thesis
      using d unfolding ngx_gmtime_def Let_def e days_def [symmetric] sec_def [symmetric] by (simp add: g)
  qed
  then show "(tm_year (ngx_gmtime t), tm_mon (ngx_gmtime t), tm_mday (ngx_gmtime t)) = calendar (nat (t div 86400))"
    "tm_wday (ngx_gmtime t) = (4 + t div 86400) mod 7"
    "tm_hour (ngx_gmtime t) * 3600 + tm_min (ngx_gmtime t) * 60 + tm_sec (ngx_gmtime t) = t mod 86400"
    "0 \<le> tm_hour (ngx_gmtime t)" "tm_hour (ngx_gmtime t) \<le> 23" "0 \<le> tm_min (ngx_gmtime t)" "tm_min (ngx_gmtime t) \<le> 59"
    "0 \<le> tm_sec (ngx_gmtime t)" "tm_sec (ngx_gmtime t) \<le> 59"
    using s c by (simp_all add: days_def sec_def)
qed

lemma calendar_year_mono: "n \<le> k \<Longrightarrow> fst (calendar n) \<le> fst (calendar k)"
proof (induction k)
  case (Suc k)
  have "fst x \<le> fst (tomorrow x)" for x by (cases x) simp
  then have "fst (calendar k) \<le> fst (calendar (Suc k))" by simp
  with Suc show ?case by (cases "n = Suc k") (auto simp del: calendar.simps)
qed simp

lemma calendar_year_range:
  assumes "n \<le> 2932896"
  shows "1970 \<le> fst (calendar n) \<and> fst (calendar n) \<le> 9999"
proof -
  have "calendar 2932896 = (9999, 12, 31)"
    using gm_date_calendar [of 2932896] by (simp add: gm_date_def gm_year_day_def Let_def)
  then show ?thesis
    using calendar_year_mono [of 0 n] calendar_year_mono [OF assms] by simp
qed

definition dig :: "nat \<Rightarrow> byte" where
  "dig n = of_nat (n + 48)"

lemma dig_simps:
  assumes "n < 10"
  shows "\<not> dig n < 48" "\<not> 57 < dig n" "digit_val (dig n) = int n"
  unfolding dig_def by (rule byte_digit [OF assms])+

lemma two_digits_print:
  assumes "p + 1 < length v" "v ! p = dig (nat n div 10)" "v ! (p + 1) = dig (nat n mod 10)" "0 \<le> n" "n \<le> 99"
  shows "two_digits v p k = k n"
proof -
  have "int (nat n div 10 * 10 + nat n mod 10) = n" using assms(4) by (simp only: div_mult_mod_eq nat_0_le)
  then have "int (nat n div 10) * 10 + int (nat n mod 10) = n" by (simp only: of_nat_add of_nat_mult of_nat_numeral)
  moreover have "nat n div 10 < 10" "nat n mod 10 < 10" using assms(4,5) by simp_all
  ultimately show ?thesis
    using assms(1-3) by (simp add: two_digits_def digit_def rd_def dig_simps del: of_nat_mod of_nat_div)
qed

lemma digits4: "c * 10 + r2 = b \<Longrightarrow> b * 10 + r1 = a \<Longrightarrow> a * 10 + r0 = n \<Longrightarrow> c * 1000 + r2 * 100 + r1 * 10 + r0 = (n :: nat)"
  by simp

lemma four_digits_print:
  assumes "p + 3 < length v" "v ! p = dig (nat n div 1000)" "v ! (p + 1) = dig (nat n div 100 mod 10)"
    "v ! (p + 2) = dig (nat n div 10 mod 10)" "v ! (p + 3) = dig (nat n mod 10)" "0 \<le> n" "n \<le> 9999"
  shows "four_digits v p k = k n"
proof -
  have "nat n div 1000 * 1000 + nat n div 100 mod 10 * 100 + nat n div 10 mod 10 * 10 + nat n mod 10 = nat n"
  proof (rule digits4)
    show "nat n div 1000 * 10 + nat n div 100 mod 10 = nat n div 100"
      using div_mult_mod_eq [of "nat n div 100" 10] by (simp add: div_mult2_eq [symmetric])
    show "nat n div 100 * 10 + nat n div 10 mod 10 = nat n div 10"
      using div_mult_mod_eq [of "nat n div 10" 10] by (simp add: div_mult2_eq [symmetric])
  qed (rule div_mult_mod_eq)
  then have "int (nat n div 1000) * 1000 + int (nat n div 100 mod 10) * 100 + int (nat n div 10 mod 10) * 10 + int (nat n mod 10) = int (nat n)"
    by (simp only: of_nat_add of_nat_mult of_nat_numeral flip: of_nat_eq_iff [where ?'a = int])
  then have "int (nat n div 1000) * 1000 + int (nat n div 100 mod 10) * 100 + int (nat n div 10 mod 10) * 10 + int (nat n mod 10) = n"
    using assms(6) by (simp only: nat_0_le)
  moreover have "nat n div 1000 < 10" "nat n mod 10 < 10" "nat n div 100 mod 10 < 10" "nat n div 10 mod 10 < 10"
    using assms(6,7) by simp_all
  ultimately show ?thesis
    using assms(1-5) by (simp add: four_digits_def digit_def rd_def dig_simps del: of_nat_mod of_nat_div)
qed

lemma week_name:
  assumes "0 \<le> n" "n < 7"
  obtains a b c where "week ! nat n = [a, b, c]" "list_all (\<lambda>x. x \<noteq> 44 \<and> x \<noteq> 32) [a, b, c]"
proof -
  have "list_all (\<lambda>i. length (week ! i) = 3 \<and> list_all (\<lambda>x. x \<noteq> 44 \<and> x \<noteq> 32) (week ! i)) [0..<7]"
    by (simp add: upt_rec week_def)
  then have "length (week ! nat n) = 3 \<and> list_all (\<lambda>x. x \<noteq> 44 \<and> x \<noteq> 32) (week ! nat n)"
    using assms unfolding list_all_iff [of _ "[0..<7]"] by (auto simp: nat_less_iff)
  then show thesis
    using that by (auto simp: numeral_3_eq_3 length_Suc_conv)
qed

lemma month_name:
  assumes "1 \<le> m" "m \<le> 12"
  obtains a b c where "months ! nat (m - 1) = [a, b, c]"
    "\<And>v p k. p + 2 < length v \<Longrightarrow> v ! p = a \<Longrightarrow> v ! (p + 1) = b \<Longrightarrow> v ! (p + 2) = c \<Longrightarrow>
       http_time_month v p k = k (m - 1)"
proof -
  have "\<exists>a b c. months ! nat (m - 1) = [a, b, c] \<and>
      (\<forall>v p k. p + 2 < length v \<longrightarrow> v ! p = a \<longrightarrow> v ! (p + 1) = b \<longrightarrow> v ! (p + 2) = c \<longrightarrow>
        http_time_month v p k = k (m - 1))"
    by (rule month_cases [OF _ assms]) (simp add: upt_rec months_def http_time_month_def rd_def)
  then show thesis using that by blast
qed

lemma two_digits_fmt:
  assumes "Suc p < length v" "fmt_int 48 2 n = [v ! p, v ! Suc p]" "0 \<le> n" "n \<le> 99"
  shows "two_digits v p k = k n"
  using assms fmt_int_2 [OF assms(3,4), folded dig_def] by (intro two_digits_print) simp_all

lemma clock_print:
  assumes "p + 8 < length v" "v ! p = 32" "v ! (p + 3) = 58" "v ! (p + 6) = 58"
    and "fmt_int 48 2 h = [v ! Suc p, v ! (p + 2)]" "fmt_int 48 2 mi = [v ! (p + 4), v ! (p + 5)]"
    "fmt_int 48 2 s = [v ! (p + 7), v ! (p + 8)]"
    and "0 \<le> h" "h \<le> 99" "0 \<le> mi" "mi \<le> 99" "0 \<le> s" "s \<le> 99"
  shows "http_time_clock v p k = k h mi s"
proof -
  have "two_digits v (p + 1) k = k h" "two_digits v (p + 4) k = k mi" "two_digits v (p + 7) k = k s" for k
    using assms two_digits_fmt [of "p + 1" v h k] two_digits_fmt [of "p + 4" v mi k] two_digits_fmt [of "p + 7" v s k]
    by (simp_all add: add.commute)
  then show ?thesis using assms(1-4) by (simp add: http_time_clock_def expect_def rd_def)
qed

text \<open>A date that is in the calendar passes the checks.\<close>

lemma http_time_check_valid:
  assumes "valid_date (y, m, d)" "1 \<le> y" "y \<le> 9999"
    and "0 \<le> h" "h \<le> 23" "0 \<le> mi" "mi \<le> 59" "0 \<le> s" "s \<le> 59"
  shows "http_time_check y (m - 1) d h mi s = Time (day_number (y, m, d) * 86400 + h * 3600 + mi * 60 + s)"
proof -
  have r: "1 \<le> m" "m \<le> 12" "1 \<le> d" "d \<le> month_days y m" using assms(1) by simp_all
  have "d \<le> month_days y m \<longrightarrow> d \<le> 31" by (rule month_cases [OF _ r(1,2)]) (simp add: upt_rec month_days_table)
  then have g: "gauss_time y (m - 1) d h mi s = day_number (y, m, d) * 86400 + h * 3600 + mi * 60 + s"
    using gauss_time_exact [of y "m - 1" d h mi s] r assms by simp
  have "y AND 3 = y mod 4" using take_bit_eq_mask [of 2 y] by (simp add: take_bit_eq_mod mask_eq_exp_minus_1)
  then have leap: "(y AND 3 \<noteq> 0 \<or> y mod 100 = 0 \<and> y mod 400 \<noteq> 0) \<longleftrightarrow> \<not> leap_year y"
    by (auto simp: leap_year_def)
  have "d \<le> mday ! nat (m - 1) \<or> d = 29 \<and> m - 1 = 1 \<and> leap_year y"
    using r(4) by (auto simp: month_days.simps split: if_splits) (auto simp: mday_def)
  then show ?thesis
    using assms(5,7,9) unfolding http_time_check_def leap g by (auto simp: mday_def)
qed

lemma gmtime_date:
  assumes "0 \<le> t" "t < 253402300800"
  obtains y m d where "ngx_gmtime t = \<lparr>tm_sec = tm_sec (ngx_gmtime t), tm_min = tm_min (ngx_gmtime t),
      tm_hour = tm_hour (ngx_gmtime t), tm_mday = d, tm_mon = m, tm_year = y, tm_wday = (4 + t div 86400) mod 7\<rparr>"
    "valid_date (y, m, d)" "1970 \<le> y" "y \<le> 9999" "day_number (y, m, d) = t div 86400" "1 \<le> d" "d \<le> 31" "1 \<le> m" "m \<le> 12"
proof -
  obtain y m d where c: "calendar (nat (t div 86400)) = (y, m, d)" by (cases "calendar (nat (t div 86400))")
  have v: "valid_date (y, m, d)" "day_number (y, m, d) = t div 86400"
    using calendar_day_number [of "nat (t div 86400)"] c assms by simp_all
  have n: "nat (t div 86400) \<le> 2932896" using assms by simp
  have y: "1970 \<le> y" "y \<le> 9999" using calendar_year_range [OF n] c by simp_all
  have r: "1 \<le> m" "m \<le> 12" "1 \<le> d" "d \<le> month_days y m" using v(1) by simp_all
  have "d \<le> month_days y m \<longrightarrow> d \<le> 31" by (rule month_cases [OF _ r(1,2)]) (simp add: upt_rec month_days_table)
  then show thesis
    using gmtime_fields(1,2) [OF assms] c v y r by (intro that [of d m y]) simp_all
qed

lemma dig_not: "n < 10 \<Longrightarrow> dig n \<noteq> 32"
  using dig_simps(1) [of n] by auto

lemma read_822:
  assumes v: "v = w1 # w2 # w3 # 44 # 32 # dig (nat d div 10) # dig (nat d mod 10) # 32 # m1 # m2 # m3 # 32
      # dig (nat y div 1000) # dig (nat y div 100 mod 10) # dig (nat y div 10 mod 10) # dig (nat y mod 10) # c"
    and w: "list_all (\<lambda>x. x \<noteq> 44 \<and> x \<noteq> 32) [w1, w2, w3]" and c: "9 \<le> length c"
    and d: "0 \<le> d" "d \<le> 99" and y: "0 \<le> y" "y \<le> 9999"
    and month: "\<And>k. http_time_month v 8 k = k mo" and clock: "\<And>k. http_time_clock v 16 k = k h mi s"
  shows "ngx_parse_http_time v = http_time_check y mo d h mi s"
proof -
  have "nat d div 10 < 10" using d by simp
  then have "dig (nat d div 10) \<noteq> 32" by (rule dig_not)
  then have p: "http_time_sep v 0 = (no_fmt, 3)" "http_time_skip (drop (3 + 1) v) (3 + 1) = 5" "25 \<le> length v"
    using w c by (simp_all add: v)
  have "two_digits v 5 k = k d" for k by (rule two_digits_print) (use d c in \<open>simp_all add: v\<close>)
  moreover have "four_digits v 12 k = k y" for k by (rule four_digits_print) (use y c in \<open>simp_all add: v\<close>)
  moreover have "v ! 7 = 32" "v ! 11 = 32" by (simp_all add: v)
  ultimately show ?thesis
    using p(3) month clock
    unfolding ngx_parse_http_time_def p split Let_def
    by (simp add: rd_def http_time_822_def expect_def)
qed

lemma read_850:
  assumes v: "v = w1 # w2 # w3 # 44 # 32 # dig (nat d div 10) # dig (nat d mod 10) # 45 # m1 # m2 # m3 # 45
      # dig (nat y div 10) # dig (nat y mod 10) # c"
    and w: "list_all (\<lambda>x. x \<noteq> 44 \<and> x \<noteq> 32) [w1, w2, w3]" and c: "9 \<le> length c"
    and d: "0 \<le> d" "d \<le> 99" and y: "0 \<le> y" "y \<le> 99"
    and month: "\<And>k. http_time_month v 8 k = k mo" and clock: "\<And>k. http_time_clock v 14 k = k h mi s"
  shows "ngx_parse_http_time v = http_time_check (y + (if y < 70 then 2000 else 1900)) mo d h mi s"
proof -
  have "nat d div 10 < 10" using d by simp
  then have "dig (nat d div 10) \<noteq> 32" by (rule dig_not)
  then have p: "http_time_sep v 0 = (no_fmt, 3)" "http_time_skip (drop (3 + 1) v) (3 + 1) = 5" "23 \<le> length v"
    using w c by (simp_all add: v)
  have "two_digits v 5 k = k d" for k by (rule two_digits_print) (use d c in \<open>simp_all add: v\<close>)
  moreover have "two_digits v 12 k = k y" for k by (rule two_digits_print) (use y c in \<open>simp_all add: v\<close>)
  moreover have "v ! 7 = 45" "v ! 11 = 45" by (simp_all add: v)
  ultimately show ?thesis
    using p(3) month clock
    unfolding ngx_parse_http_time_def p split Let_def
    by (simp add: rd_def http_time_850_def expect_def)
qed

text \<open>
  C28. The date of a time is the date of the calendar: \<open>ngx_gmtime\<close> gives, for every second up to the end of
  the year 9999, the date reached by counting days from Thursday, 1 January 1970 with the Gregorian
  leap years, the day of the week, and the time of day. Later times are truncated to the last second
  of that year and earlier ones to the first of 1970.
\<close>

theorem gmtime_calendar:
  assumes "0 \<le> t" "t < 253402300800"
  shows "(tm_year (ngx_gmtime t), tm_mon (ngx_gmtime t), tm_mday (ngx_gmtime t)) = calendar (nat (t div 86400))
    \<and> tm_wday (ngx_gmtime t) = (4 + t div 86400) mod 7
    \<and> tm_hour (ngx_gmtime t) * 3600 + tm_min (ngx_gmtime t) * 60 + tm_sec (ngx_gmtime t) = t mod 86400
    \<and> tm_hour (ngx_gmtime t) \<in> {0..23} \<and> tm_min (ngx_gmtime t) \<in> {0..59} \<and> tm_sec (ngx_gmtime t) \<in> {0..59}
    \<and> ngx_gmtime (t + 253402300800) = ngx_gmtime 253402300799 \<and> ngx_gmtime (- t) = ngx_gmtime 0"
proof -
  have "2932896 < (t + 253402300800) div 86400" using assms(1) by simp
  then have "ngx_gmtime (t + 253402300800) = ngx_gmtime 253402300799"
    using assms(1) by (simp add: ngx_gmtime_def)
  moreover have "ngx_gmtime (- t) = ngx_gmtime 0" using assms(1) by (cases "t = 0") (simp_all add: ngx_gmtime_def)
  ultimately show ?thesis using gmtime_fields [OF assms] by simp
qed

theorem gmtime_calendar_witness:
  "(tm_year (ngx_gmtime 951782400), tm_mon (ngx_gmtime 951782400), tm_mday (ngx_gmtime 951782400)) = calendar 11016
   \<and> gm_date 11016 = (2000, 2, 29)"
  using gmtime_calendar [of 951782400] by (simp add: gm_date_def gm_year_day_def Let_def)

text \<open>
  C27. Printing and reading dates are inverse: the date that \<open>ngx_http_time\<close> writes for any time up to the
  end of the year 9999 is read back by \<open>ngx_parse_http_time\<close> as the same time, and so is the cookie
  date up to the end of 2037, while its years have two digits.
\<close>

theorem http_time_roundtrip:
  assumes "0 \<le> t" "t < 253402300800"
  shows "ngx_parse_http_time (ngx_http_time t) = Time t
    \<and> (tm_year (ngx_gmtime t) \<le> 2037 \<longrightarrow> ngx_parse_http_time (ngx_http_cookie_time t) = Time t)"
proof -
  obtain y m d where g: "ngx_gmtime t = \<lparr>tm_sec = tm_sec (ngx_gmtime t), tm_min = tm_min (ngx_gmtime t),
      tm_hour = tm_hour (ngx_gmtime t), tm_mday = d, tm_mon = m, tm_year = y, tm_wday = (4 + t div 86400) mod 7\<rparr>"
    and v: "valid_date (y, m, d)" and y: "1970 \<le> y" "y \<le> 9999" and n: "day_number (y, m, d) = t div 86400"
    and d: "1 \<le> d" "d \<le> 31" and m: "1 \<le> m" "m \<le> 12"
    by (rule gmtime_date [OF assms])
  define h mi s where "h = tm_hour (ngx_gmtime t)" and "mi = tm_min (ngx_gmtime t)" and "s = tm_sec (ngx_gmtime t)"
  have g': "ngx_gmtime t = \<lparr>tm_sec = s, tm_min = mi, tm_hour = h, tm_mday = d, tm_mon = m, tm_year = y,
      tm_wday = (4 + t div 86400) mod 7\<rparr>"
    by (subst g) (simp add: h_def mi_def s_def)
  note hms = gmtime_fields(3-9) [OF assms, folded h_def mi_def s_def]
  obtain w1 w2 w3 where w: "week ! nat ((4 + t div 86400) mod 7) = [w1, w2, w3]"
    "list_all (\<lambda>x. x \<noteq> 44 \<and> x \<noteq> 32) [w1, w2, w3]"
    by (rule week_name [of "(4 + t div 86400) mod 7"]) simp_all
  obtain m1 m2 m3 where mo: "months ! nat (m - 1) = [m1, m2, m3]"
    and month: "\<And>v p k. p + 2 < length v \<Longrightarrow> v ! p = m1 \<Longrightarrow> v ! (p + 1) = m2 \<Longrightarrow> v ! (p + 2) = m3 \<Longrightarrow>
       http_time_month v p k = k (m - 1)"
    using month_name [OF m] by blast
  note f2 = fmt_int_2 [folded dig_def]
  have "t div 86400 * 86400 + h * 3600 + mi * 60 + s = t"
    using hms(1) div_mult_mod_eq [of t 86400] by linarith
  then have check: "http_time_check y (m - 1) d h mi s = Time t"
    using http_time_check_valid [OF v _ y(2), of h mi s] y n hms by (simp del: day_number.simps)
  let ?c = "32 # fmt_clock (ngx_gmtime t)"
  have clock: "http_time_clock (xs @ ?c) p k = k h mi s" if "length xs = p" for xs p k
    using that hms f2 [of h] f2 [of mi] f2 [of s]
    by (intro clock_print) (simp_all add: fmt_clock_def g' nth_append)
  have c: "9 \<le> length ?c"
    using hms f2 [of h] f2 [of mi] f2 [of s] by (simp add: fmt_clock_def g')
  let ?a = "\<lambda>sep. [w1, w2, w3, 44, 32, dig (nat d div 10), dig (nat d mod 10), sep, m1, m2, m3, sep]"
  let ?y = "[dig (nat y div 1000), dig (nat y div 100 mod 10), dig (nat y div 10 mod 10), dig (nat y mod 10)]"
  have month': "http_time_month (?a sep @ xs) 8 k = k (m - 1)" for sep xs k by (rule month) simp_all
  have "ngx_http_time t = ?a 32 @ ?y @ ?c"
    using f2 [of d] fmt_int_4 [of y 4 32, folded dig_def] d y w(1) mo by (simp add: ngx_http_time_def g')
  moreover have "ngx_parse_http_time (?a 32 @ ?y @ ?c) = http_time_check y (m - 1) d h mi s"
    using clock [of "?a 32 @ ?y" 16] month' [of 32 "?y @ ?c"] d y
    by (intro read_822 [OF _ w(2) c]) simp_all
  moreover have "ngx_parse_http_time (ngx_http_cookie_time t) = Time t" if yy: "y \<le> 2037"
  proof -
    let ?z = "[dig (nat (y mod 100) div 10), dig (nat (y mod 100) mod 10)]"
    have "y = 1900 + y mod 100 \<and> 70 \<le> y mod 100 \<or> y = 2000 + y mod 100 \<and> y mod 100 < 70"
      using yy y(1) by presburger
    then have e: "y mod 100 + (if y mod 100 < 70 then 2000 else 1900) = y" by auto
    have "ngx_http_cookie_time t = ?a 45 @ ?z @ ?c"
      using f2 [of d] f2 [of "y mod 100"] d yy w(1) mo by (simp add: ngx_http_cookie_time_def g')
    moreover have "ngx_parse_http_time (?a 45 @ ?z @ ?c) =
        http_time_check (y mod 100 + (if y mod 100 < 70 then 2000 else 1900)) (m - 1) d h mi s"
      using clock [of "?a 45 @ ?z" 14] month' [of 45 "?z @ ?c"] d
      by (intro read_850 [OF _ w(2) c]) simp_all
    ultimately show ?thesis by (simp only: e check)
  qed
  ultimately show ?thesis using check by (simp add: g')
qed

theorem http_time_roundtrip_witness:
  "ngx_parse_http_time (ngx_http_time 951782400) = Time 951782400
   \<and> ngx_parse_http_time (ngx_http_cookie_time 951782400) = Time 951782400"
  using http_time_roundtrip [of 951782400]
  by (simp add: ngx_gmtime_def gm_date_def gm_year_day_def Let_def)

lemmas http_time_eval = ngx_parse_http_time_def http_time_month_def http_time_822_def http_time_clock_def
  http_time_check_def two_digits_def four_digits_def digit_def expect_def rd_def gauss_time_def mday_def
  digit_val_def

text \<open>
  Dates that do not exist are accepted: a day of the month zero is read as the day before the first
  of the month, and January of the year zero, for which the year of Gauss' formula is minus one and
  wraps around, gives a time that is off by 10368 seconds.
\<close>

theorem http_time_accepts_day_zero:
  "ngx_parse_http_time (bytes ''Sun, 00 Nov 2002 23:50:13 GMT'') =
     ngx_parse_http_time (bytes ''Thu, 31 Oct 2002 23:50:13 GMT'')
   \<and> ngx_parse_http_time (bytes ''Sat, 01 Jan 0000 00:00:00 GMT'') = Time (- 719528 * 86400 + 10368)"
  by (simp add: http_time_eval)

end
