(* ===== verification/Http_Range.thy ===== *)
theory Http_Range
  imports Ngx_Buf Ngx_Time Ngx_Strcmp
begin

unbundle bit_operations_syntax

text \<open>
  Byte ranges, \<^verbatim>\<open>src/http/modules/ngx_http_range_filter_module.c\<close>: the parser of the header
  \<open>Range\<close>, the decision of the header filter (with the condition \<open>If-Range\<close>), the headers of the responses with one and
  several parts, and the body filter that cuts the ranges out of the chain of buffers. Allocation is
  taken to succeed. The theorems: the parser is sound and understands what a client writes, and the
  body filter delivers exactly the bytes of the ranges, in as many bytes as it announced.
\<close>

section \<open>Parsing the Range header\<close>

record http_range =
  rg_start :: int
  rg_end :: int

datatype range_rc = RG_OK | RG_NOT_SATISFIABLE | RG_DECLINED | RG_FAULT

text \<open>
  The value is a list of bytes that includes the zero byte behind it; reading past its end is a fault.
  A function that reads a number stops at the first byte that is not a digit and gives \<open>None\<close> when the
  number does not fit an \<open>off_t\<close>.
\<close>

definition rg_skip :: "byte list \<Rightarrow> byte list" where
  "rg_skip s = dropWhile (\<lambda>c. c = asc CHR '' '') s"

fun rg_number :: "int \<Rightarrow> byte list \<Rightarrow> (int \<times> byte list) option" where
  "rg_number v [] = Some (v, [])"
| "rg_number v (c # s) =
     (if asc CHR ''0'' \<le> c \<and> c \<le> asc CHR ''9'' then
        (if NGX_MAX_OFF_T_VALUE div 10 \<le> v
             \<and> (NGX_MAX_OFF_T_VALUE div 10 < v \<or> NGX_MAX_OFF_T_VALUE mod 10 < digit_val c) then None
         else rg_number (v * 10 + digit_val c) s)
      else Some (v, c # s))"

datatype one_range = One int int "byte list" | One_bad | One_fault

definition rg_last :: "int \<Rightarrow> bool \<Rightarrow> int \<Rightarrow> byte list \<Rightarrow> one_range" where
  "rg_last content_length suffix start s =
     (case s of [] \<Rightarrow> One_fault
      | c # _ \<Rightarrow>
          if c < asc CHR ''0'' \<or> asc CHR ''9'' < c then One_bad
          else case rg_number 0 s of None \<Rightarrow> One_bad
          | Some (en, s) \<Rightarrow>
              (case rg_skip s of [] \<Rightarrow> One_fault
               | c # s \<Rightarrow>
                   if c \<noteq> asc CHR '','' \<and> c \<noteq> 0 then One_bad
                   else
                     let (start, en) =
                           (if suffix then (if en < content_length then content_length - en else 0, content_length - 1)
                            else (start, en));
                         en = (if content_length \<le> en then content_length else en + 1)
                     in One start en (c # s)))"

definition rg_one :: "int \<Rightarrow> byte list \<Rightarrow> one_range" where
  "rg_one content_length s =
     (case rg_skip s of [] \<Rightarrow> One_fault
      | c # s \<Rightarrow>
          if c = asc CHR ''-'' then rg_last content_length True 0 s
          else if c < asc CHR ''0'' \<or> asc CHR ''9'' < c then One_bad
          else case rg_number 0 (c # s) of None \<Rightarrow> One_bad
          | Some (start, s) \<Rightarrow>
              (case rg_skip s of [] \<Rightarrow> One_fault
               | c # s \<Rightarrow>
                   if c \<noteq> asc CHR ''-'' then One_bad
                   else case rg_skip s of [] \<Rightarrow> One_fault
                   | c # s \<Rightarrow>
                       if c = asc CHR '','' \<or> c = 0 then One start content_length (c # s)
                       else rg_last content_length False start (c # s)))"

lemma rg_skip_length: "length (rg_skip s) \<le> length s"
  by (simp add: rg_skip_def length_dropWhile_le)

lemma rg_number_length: "rg_number v s = Some (n, t) \<Longrightarrow> length t \<le> length s"
  by (induction v s rule: rg_number.induct) (fastforce split: if_splits)+

lemma rg_last_length: "rg_last cl suffix start s = One a b t \<Longrightarrow> length t \<le> length s"
  using rg_number_length [of 0 s] rg_skip_length
  by (fastforce simp: rg_last_def split: list.splits if_splits option.splits prod.splits dest: order_trans)

lemma rg_skip_Cons: "rg_skip s = c # t \<Longrightarrow> Suc (length t) \<le> length s"
  using rg_skip_length [of s] by simp

lemma rg_one_length: "rg_one cl s = One a b t \<Longrightarrow> length t \<le> length s"
  by (auto simp: rg_one_def simp del: rg_number.simps split: list.splits if_splits option.splits prod.splits
      dest!: rg_skip_Cons rg_number_length rg_last_length intro: order_trans [OF rg_skip_length])

function rg_loop ::
  "int \<Rightarrow> nat \<Rightarrow> int \<Rightarrow> http_range list \<Rightarrow> byte list \<Rightarrow> range_rc \<times> http_range list"
where
  "rg_loop content_length limit sz acc s =
     (case rg_one content_length s of
        One_bad \<Rightarrow> (RG_NOT_SATISFIABLE, acc)
      | One_fault \<Rightarrow> (RG_FAULT, acc)
      | One start en rest \<Rightarrow>
          if start < en \<and> NGX_MAX_OFF_T_VALUE - (en - start) < sz then
            (RG_NOT_SATISFIABLE, acc @ [\<lparr>rg_start = start, rg_end = en\<rparr>])
          else if start < en \<and> limit = 0 then
            (RG_DECLINED, acc @ [\<lparr>rg_start = start, rg_end = en\<rparr>])
          else if \<not> start < en \<and> start = 0 then (RG_DECLINED, acc)
          else
            let (limit, sz, acc) =
                  (if start < en then (limit - 1, sz + (en - start), acc @ [\<lparr>rg_start = start, rg_end = en\<rparr>])
                   else (limit, sz, acc))
            in (case rest of [] \<Rightarrow> (RG_FAULT, acc)
               | c # s' \<Rightarrow>
                   if c = asc CHR '','' then rg_loop content_length limit sz acc s'
                   else if acc = [] then (RG_NOT_SATISFIABLE, acc)
                   else if content_length < sz then (RG_DECLINED, acc)
                   else (RG_OK, acc)))"
  by pat_completeness auto

termination
  by (relation "measure (\<lambda>(_, _, _, _, s). length s)") (auto dest: rg_one_length)

declare rg_loop.simps [simp del]

text \<open>A subrequest takes over the ranges of the main request, if there are any.\<close>

definition ngx_http_range_parse ::
  "http_range list option \<Rightarrow> int \<Rightarrow> nat \<Rightarrow> byte list \<Rightarrow> range_rc \<times> http_range list"
where
  "ngx_http_range_parse main_ranges content_length ranges value =
     (case main_ranges of
        Some rs \<Rightarrow> (RG_OK, rs)
      | None \<Rightarrow> rg_loop content_length ranges 0 [] (drop 6 (value @ [0])))"

section \<open>The header filter\<close>

text \<open>The C library's \<open>strncmp\<close>, as a test for equality.\<close>

fun strncmp_eq :: "byte list \<Rightarrow> byte list \<Rightarrow> nat \<Rightarrow> bool" where
  "strncmp_eq s1 s2 0 = True"
| "strncmp_eq s1 s2 (Suc n) =
     (deref s1 = deref s2 \<and> (deref s1 \<noteq> 0 \<longrightarrow> strncmp_eq (tl s1) (tl s2) n))"

record range_request =
  rq_http_10 :: bool
  rq_status_ok :: bool
  rq_main :: bool
  rq_subrequest_ranges :: bool
  rq_allow_ranges :: bool
  rq_single_range :: bool
  rq_content_length :: int
  rq_content_offset :: int
  rq_last_modified :: int
  rq_etag :: "byte list option"
  rq_range :: "byte list option"
  rq_if_range :: "byte list option"
  rq_max_ranges :: nat
  rq_main_ranges :: "http_range list option"

datatype range_action =
    Pass
  | Accept_ranges
  | Partial int "http_range list"
  | Not_satisfiable
  | Range_fault

text \<open>The conditional request: whether the entity is the one the client has a part of.\<close>

definition if_range_matches :: "range_request \<Rightarrow> bool" where
  "if_range_matches r =
     (case rq_if_range r of
        None \<Rightarrow> True
      | Some if_range \<Rightarrow>
          if 2 \<le> length if_range \<and> if_range ! (length if_range - 1) = 0x22 then
            (case rq_etag r of
               None \<Rightarrow> False
             | Some etag \<Rightarrow> length if_range = length etag \<and> strncmp_eq if_range etag (length etag))
          else if rq_last_modified r = - 1 then False
          else ngx_parse_http_time if_range = Time (rq_last_modified r))"

definition ngx_http_range_header_filter :: "range_request \<Rightarrow> range_action" where
  "ngx_http_range_header_filter r =
     (if \<not> rq_http_10 r \<or> \<not> rq_status_ok r \<or> (\<not> rq_main r \<and> \<not> rq_subrequest_ranges r)
         \<or> rq_content_length r = - 1 \<or> \<not> rq_allow_ranges r then Pass
      else if rq_max_ranges r = 0 then Pass
      else case rq_range r of
        None \<Rightarrow> Accept_ranges
      | Some value \<Rightarrow>
          if length value < 7 \<or> ngx_strncasecmp value (bytes ''bytes='') 6 \<noteq> 0 then Accept_ranges
          else if \<not> if_range_matches r then Accept_ranges
          else
            let ranges = (if rq_single_range r then 1 else rq_max_ranges r);
                main_ranges = (if rq_main r then None else rq_main_ranges r)
            in case ngx_http_range_parse main_ranges (rq_content_length r) ranges value of
                 (RG_OK, rs) \<Rightarrow> Partial (rq_content_offset r) rs
               | (RG_NOT_SATISFIABLE, _) \<Rightarrow> Not_satisfiable
               | (RG_DECLINED, _) \<Rightarrow> Accept_ranges
               | (RG_FAULT, _) \<Rightarrow> Range_fault)"

text \<open>The headers of a response with one part: the value of \<open>Content-Range\<close>, the
  length and the offset; a subrequest leaves them as they are.\<close>

definition fmt_off :: "int \<Rightarrow> byte list" where
  "fmt_off n = fmt_int (asc CHR '' '') 0 n"

definition ngx_http_range_singlepart_header ::
  "bool \<Rightarrow> http_range \<Rightarrow> int \<Rightarrow> int \<Rightarrow> byte list option \<times> int \<times> int"
where
  "ngx_http_range_singlepart_header main rng content_length content_offset =
     (if \<not> main then (None, content_length, content_offset)
      else
        (Some (bytes ''bytes '' @ fmt_off (rg_start rng) @ bytes ''-'' @ fmt_off (rg_end rng - 1) @ bytes ''/'' @
           fmt_off content_length),
         rg_end rng - rg_start rng, rg_start rng))"

definition ngx_http_range_not_satisfiable :: "int \<Rightarrow> byte list" where
  "ngx_http_range_not_satisfiable content_length = bytes ''bytes */'' @ fmt_off content_length"

definition NGX_ATOMIC_T_LEN :: nat where
  [ngx_consts]: "NGX_ATOMIC_T_LEN = 20"

record multipart =
  mp_boundary_header :: "byte list"
  mp_content_type :: "byte list"
  mp_content_ranges :: "byte list list"
  mp_length :: int

definition CRLF :: "byte list" where
  "CRLF = [CR, LF]"

definition fmt_boundary :: "64 word \<Rightarrow> byte list" where
  "fmt_boundary boundary = ngx_sprintf_num (NGX_INT64_LEN + NGX_ATOMIC_T_LEN) boundary (asc CHR ''0'') 0 NGX_ATOMIC_T_LEN"

definition content_range :: "int \<Rightarrow> http_range \<Rightarrow> byte list" where
  "content_range content_length rng =
     fmt_off (rg_start rng) @ bytes ''-'' @ fmt_off (rg_end rng - 1) @ bytes ''/'' @ fmt_off content_length @ CRLF @ CRLF"

text \<open>The charset is appended when the content type has no parameters of its own (\<open>plain_type\<close>).\<close>

definition ngx_http_range_multipart_header ::
  "byte list \<Rightarrow> byte list \<Rightarrow> bool \<Rightarrow> 64 word \<Rightarrow> http_range list \<Rightarrow> int \<Rightarrow> multipart"
where
  "ngx_http_range_multipart_header content_type charset plain_type boundary ranges content_length =
     (let boundary_header =
            (if plain_type \<and> length charset \<noteq> 0 then
               CRLF @ bytes ''--'' @ fmt_boundary boundary @ CRLF @ bytes ''Content-Type: '' @ content_type @
                 bytes ''; charset='' @ charset @ CRLF @ bytes ''Content-Range: bytes ''
             else if length content_type \<noteq> 0 then
               CRLF @ bytes ''--'' @ fmt_boundary boundary @ CRLF @ bytes ''Content-Type: '' @ content_type @
                 CRLF @ bytes ''Content-Range: bytes ''
             else CRLF @ bytes ''--'' @ fmt_boundary boundary @ CRLF @ bytes ''Content-Range: bytes '');
          len = 4 + int NGX_ATOMIC_T_LEN + 4
      in \<lparr>mp_boundary_header = boundary_header,
          mp_content_type = bytes ''multipart/byteranges; boundary='' @ fmt_boundary boundary,
          mp_content_ranges = map (content_range content_length) ranges,
          mp_length = foldl (\<lambda>len rng. len + int (length boundary_header) + int (length (content_range content_length rng))
            + (rg_end rng - rg_start rng)) len ranges\<rparr>)"

section \<open>The body filter\<close>

text \<open>
  One buffer of a response with one part: the buffer as the filter leaves it and whether it is linked
  into the output chain. The buffer occupies the bytes from \<open>start\<close> to \<open>stop\<close> (\<open>last\<close> in the source) of the response.
\<close>

definition range_buf :: "bool \<Rightarrow> http_range \<Rightarrow> int \<Rightarrow> ngx_buf \<Rightarrow> ngx_buf \<times> bool" where
  "range_buf main rng start b =
     (let stop = start + int (ngx_buf_size b) in
      if ngx_buf_special b then (b, \<not> rg_end rng \<le> start)
      else if rg_end rng \<le> start \<or> stop \<le> rg_start rng then
        let b = (if in_file b then b\<lparr>file_pos := file_last b\<rparr> else b)
        in (b\<lparr>buf_pos := buf_last b, sync := True\<rparr>, False)
      else
        let b = (if start < rg_start rng then
                   let b = (if in_file b then b\<lparr>file_pos := file_pos b + nat (rg_start rng - start)\<rparr> else b)
                   in if ngx_buf_in_memory b then b\<lparr>buf_pos := buf_pos b + nat (rg_start rng - start)\<rparr> else b
                 else b)
        in if rg_end rng \<le> stop then
             let b = (if in_file b then b\<lparr>file_last := file_last b - nat (stop - rg_end rng)\<rparr> else b);
                 b = (if ngx_buf_in_memory b then b\<lparr>buf_last := buf_last b - nat (stop - rg_end rng)\<rparr> else b)
             in (b\<lparr>last_buf := main, last_in_chain := True\<rparr>, True)
           else (b, True))"

fun ngx_http_range_singlepart_body ::
  "bool \<Rightarrow> http_range \<Rightarrow> int \<Rightarrow> ngx_buf list \<Rightarrow> int \<times> ngx_buf list"
where
  "ngx_http_range_singlepart_body main rng offset [] = (offset, [])"
| "ngx_http_range_singlepart_body main rng offset (b # bs) =
     (let (b', linked) = range_buf main rng offset b;
          (offset', out) =
            ngx_http_range_singlepart_body main rng (offset + int (ngx_buf_size b)) bs
      in (offset', if linked then b' # out else out))"

text \<open>A response with several parts is possible only when all of them are in the one buffer.\<close>

definition ngx_http_range_test_overlapped :: "int \<Rightarrow> http_range list \<Rightarrow> ngx_buf \<Rightarrow> int option" where
  "ngx_http_range_test_overlapped offset ranges b =
     (if offset \<noteq> 0 then None
      else if \<not> last_buf b
              \<and> list_ex (\<lambda>r. offset > rg_start r \<or> offset + int (ngx_buf_size b) < rg_end r) ranges then None
      else Some (int (ngx_buf_size b)))"

definition range_piece :: "ngx_buf \<Rightarrow> http_range \<Rightarrow> ngx_buf" where
  "range_piece b r =
     (let c = (mem_buf [])\<lparr>in_file := in_file b, temporary := temporary b, memory := memory b, mmap := mmap b,
            buf_fd := buf_fd b, buf_block := buf_block b, buf_file := buf_file b\<rparr>;
          c = (if in_file b then c\<lparr>file_pos := file_pos b + nat (rg_start r), file_last := file_pos b + nat (rg_end r)\<rparr>
               else c)
      in if ngx_buf_in_memory b then c\<lparr>buf_pos := buf_pos b + nat (rg_start r), buf_last := buf_pos b + nat (rg_end r)\<rparr>
         else c)"

definition ngx_http_range_multipart_body ::
  "multipart \<Rightarrow> http_range list \<Rightarrow> ngx_buf \<Rightarrow> ngx_buf list"
where
  "ngx_http_range_multipart_body mp ranges b =
     concat (map (\<lambda>(r, cr).
         [(mem_buf (mp_boundary_header mp))\<lparr>temporary := False, memory := True\<rparr>, mem_buf cr, range_piece b r])
       (zip ranges (mp_content_ranges mp)))
     @ [(mem_buf (take (4 + NGX_ATOMIC_T_LEN) (mp_boundary_header mp) @ bytes ''--'' @ CRLF))\<lparr>last_buf := True\<rparr>]"

definition ngx_http_range_body_filter ::
  "bool \<Rightarrow> multipart \<Rightarrow> http_range list \<Rightarrow> int \<Rightarrow> ngx_buf list \<Rightarrow> (int \<times> ngx_buf list) option"
where
  "ngx_http_range_body_filter main mp ranges offset bufs =
     (case bufs of
        [] \<Rightarrow> Some (offset, [])
      | b # _ \<Rightarrow>
          if length ranges = 1 then Some (ngx_http_range_singlepart_body main (hd ranges) offset bufs)
          else if ngx_buf_special b then Some (offset, bufs)
          else case ngx_http_range_test_overlapped offset ranges b of
            None \<Rightarrow> None
          | Some offset \<Rightarrow> Some (offset, ngx_http_range_multipart_body mp ranges b))"

section \<open>The parser is sound\<close>

section \<open>What the parser accepts\<close>

lemma rg_number_range:
  "rg_number v s = Some (n, t) \<Longrightarrow> 0 \<le> v \<Longrightarrow> v \<le> n"
proof (induction v s rule: rg_number.induct)
  case (2 v c s)
  show ?case
  proof (cases "asc CHR ''0'' \<le> c \<and> c \<le> asc CHR ''9''")
    case True
    then have "0 \<le> digit_val c" using digit_val_range [of c] by (simp add: is_digit_def)
    moreover have "\<not> (NGX_MAX_OFF_T_VALUE div 10 \<le> v \<and> (NGX_MAX_OFF_T_VALUE div 10 < v \<or> NGX_MAX_OFF_T_VALUE mod 10 < digit_val c))"
      "rg_number (v * 10 + digit_val c) s = Some (n, t)"
      using 2 True by (auto split: if_splits)
    ultimately show ?thesis using 2(1) [OF True] 2(3) by auto
  next
    case False
    then show ?thesis using 2 by auto
  qed
qed simp

lemma rg_zero:
  "0 \<in> set s \<Longrightarrow> 0 \<in> set (rg_skip s)"
  "rg_number v s = Some (n, t) \<Longrightarrow> 0 \<in> set s \<Longrightarrow> 0 \<in> set t"
proof -
  show "0 \<in> set s \<Longrightarrow> 0 \<in> set (rg_skip s)" by (induction s) (auto simp: rg_skip_def)
  show "rg_number v s = Some (n, t) \<Longrightarrow> 0 \<in> set s \<Longrightarrow> 0 \<in> set t"
    by (induction v s rule: rg_number.induct) (auto split: if_splits)
qed

lemma rg_last_sound:
  assumes "rg_last cl suffix start s = One a b t" "0 \<le> cl" "0 \<le> start"
  shows "0 \<le> a \<and> b \<le> cl"
proof -
  obtain en u where "rg_number 0 s = Some (en, u)"
    and e: "(a, b) = (let (start, en) = (if suffix then (if en < cl then cl - en else 0, cl - 1) else (start, en));
       en = (if cl \<le> en then cl else en + 1) in (start, en))"
    using assms(1) by (auto simp: rg_last_def Let_def split: list.splits if_splits option.splits)
  from rg_number_range [OF this(1)] have "0 \<le> en" by simp
  with e assms(2,3) show ?thesis by (auto simp: Let_def split: if_splits)
qed

text \<open>With a zero byte ahead, reading a range ends in an error or leaves a zero byte ahead.\<close>

lemma rg_zero_Cons: "0 \<in> set s \<Longrightarrow> \<exists>c t. rg_skip s = c # t \<and> (c = 0 \<or> 0 \<in> set t)"
  using rg_zero(1) [of s] by (cases "rg_skip s") auto

lemma rg_last_zero:
  assumes "0 \<in> set s"
  shows "rg_last cl suffix start s = One_bad \<or> (\<exists>a b t. rg_last cl suffix start s = One a b t \<and> 0 \<in> set t)"
proof -
  obtain c s' where s: "s = c # s'" using assms by (cases s) auto
  show ?thesis
  proof (cases "rg_number 0 s")
    case None
    then show ?thesis by (simp add: rg_last_def s del: rg_number.simps)
  next
    case (Some nu)
    obtain en u where nu: "nu = (en, u)" by (cases nu)
    obtain d w where dw: "rg_skip u = d # w" "d = 0 \<or> 0 \<in> set w"
      using rg_zero_Cons [OF rg_zero(2) [OF Some [unfolded nu] assms]] by blast
    show ?thesis
      using Some dw unfolding rg_last_def nu by (auto simp: s Let_def simp del: rg_number.simps)
  qed
qed

lemma rg_one_zero:
  assumes "0 \<in> set s"
  shows "rg_one cl s = One_bad \<or> (\<exists>a b t. rg_one cl s = One a b t \<and> 0 \<in> set t)"
proof -
  obtain c s1 where c: "rg_skip s = c # s1" "c = 0 \<or> 0 \<in> set s1" using rg_zero_Cons [OF assms] by blast
  consider "c = 45" | "c \<noteq> 45" "c < 48 \<or> 57 < c" | "c \<noteq> 45" "\<not> (c < 48 \<or> 57 < c)" by blast
  then show ?thesis
  proof cases
    case 1
    then show ?thesis using c rg_last_zero [of s1 cl True 0] by (simp add: rg_one_def)
  next
    case 2
    then show ?thesis using c(1) by (simp add: rg_one_def)
  next
    case 3
    show ?thesis
    proof (cases "rg_number 0 (c # s1)")
      case None
      then show ?thesis using c(1) 3 by (simp add: rg_one_def del: rg_number.simps)
    next
      case (Some nu)
      obtain start u where nu: "nu = (start, u)" by (cases nu)
      have "0 \<in> set u" using rg_zero(2) [OF Some [unfolded nu]] c(2) by auto
      then obtain d w where dw: "rg_skip u = d # w" "d = 0 \<or> 0 \<in> set w" using rg_zero_Cons by blast
      show ?thesis
      proof (cases "d = 45")
        case True
        then obtain e x where ex: "rg_skip w = e # x" "e = 0 \<or> 0 \<in> set x" using dw rg_zero_Cons [of w] by auto
        then have "0 \<in> set (e # x)" by auto
        then show ?thesis
          using rg_last_zero [of "e # x" cl False start] c(1) 3 Some dw ex True unfolding nu
          by (auto simp: rg_one_def simp del: rg_number.simps)
      next
        case False
        then show ?thesis using c(1) 3 Some dw unfolding nu by (simp add: rg_one_def del: rg_number.simps)
      qed
    qed
  qed
qed

lemma rg_one_sound:
  assumes "rg_one cl s = One a b t" "0 \<le> cl"
  shows "0 \<le> a \<and> b \<le> cl"
proof -
  have "0 \<le> n" if "rg_number 0 u = Some (n, v)" for u n v using rg_number_range [OF that] by simp
  then show ?thesis
    using assms(1) rg_last_sound [OF _ assms(2), of True 0] rg_last_sound [OF _ assms(2), of False]
    by (auto simp: rg_one_def assms(2) simp del: rg_number.simps split: list.splits if_splits option.splits)
qed

definition range_ok :: "int \<Rightarrow> http_range \<Rightarrow> bool" where
  "range_ok cl r \<longleftrightarrow> 0 \<le> rg_start r \<and> rg_start r < rg_end r \<and> rg_end r \<le> cl"

definition ranges_length :: "http_range list \<Rightarrow> int" where
  "ranges_length rs = sum_list (map (\<lambda>r. rg_end r - rg_start r) rs)"

lemma rg_loop_sound:
  assumes "0 \<le> cl" "list_all (range_ok cl) acc" "sz = ranges_length acc" "0 \<in> set s"
    and "rg_loop cl limit sz acc s = (rc, rs)"
  shows "rc \<noteq> RG_FAULT \<and> (rc = RG_OK \<longrightarrow> rs \<noteq> [] \<and> list_all (range_ok cl) rs \<and> ranges_length rs \<le> cl
    \<and> length rs \<le> length acc + limit)"
  using assms
proof (induction cl limit sz acc s rule: rg_loop.induct)
  case (1 cl limit sz acc s)
  from rg_one_zero [OF 1(5), of cl] show ?case
  proof (elim disjE exE conjE)
    assume "rg_one cl s = One_bad"
    then show ?thesis using 1(6) by (auto simp: rg_loop.simps [of cl limit sz acc s])
  next
    fix a b t assume one: "rg_one cl s = One a b t" and zero: "0 \<in> set t"
    let ?r = "\<lparr>rg_start = a, rg_end = b\<rparr>"
    have ab: "0 \<le> a" "b \<le> cl" using rg_one_sound [OF one 1(2)] by simp_all
    obtain c s' where t: "t = c # s'" using zero by (cases t) auto
    define limit' sz' acc' where "limit' = (if a < b then limit - 1 else limit)"
      and "sz' = (if a < b then sz + (b - a) else sz)" and "acc' = (if a < b then acc @ [?r] else acc)"
    have "a < b \<Longrightarrow> range_ok cl ?r" using ab by (simp add: range_ok_def)
    then have acc': "list_all (range_ok cl) acc'" "sz' = ranges_length acc'"
      using 1(3,4) by (simp_all add: acc'_def sz'_def ranges_length_def)
    let ?stop = "a < b \<and> NGX_MAX_OFF_T_VALUE - (b - a) < sz \<or> a < b \<and> limit = 0 \<or> \<not> a < b \<and> a = 0"
    show ?thesis
    proof (cases ?stop)
      case True
      then show ?thesis using 1(6) one by (auto simp: rg_loop.simps [of cl limit sz acc s] split: if_splits)
    next
      case False
      have step: "rg_loop cl limit sz acc s = (if c = 44 then rg_loop cl limit' sz' acc' s'
          else if acc' = [] then (RG_NOT_SATISFIABLE, acc') else if cl < sz' then (RG_DECLINED, acc') else (RG_OK, acc'))"
        using False one t by (auto simp: rg_loop.simps [of cl limit sz acc s] limit'_def sz'_def acc'_def Let_def)
      have len: "length acc' + limit' \<le> length acc + limit" using False by (auto simp: acc'_def limit'_def)
      show ?thesis
      proof (cases "c = 44")
        case True
        have "0 \<in> set s'" using zero t True by simp
        then have "rc \<noteq> RG_FAULT \<and> (rc = RG_OK \<longrightarrow> rs \<noteq> [] \<and> list_all (range_ok cl) rs \<and> ranges_length rs \<le> cl
            \<and> length rs \<le> length acc' + limit')"
          using 1(1) [OF one, of "(limit', sz', acc')" limit' "(sz', acc')" sz' acc' c s'] False one t True acc' 1(2,6) step
          by (auto simp: limit'_def sz'_def acc'_def split: if_splits)
        with len show ?thesis by auto
      next
        case c: False
        then show ?thesis using 1(6) step acc' len by (auto split: if_splits)
      qed
    qed
  qed
qed

lemma range_parse_props:
  assumes "0 \<le> content_length" "6 \<le> length value"
    and "ngx_http_range_parse None content_length ranges value = (rc, rs)"
  shows "rc \<noteq> RG_FAULT \<and> (rc = RG_OK \<longrightarrow> rs \<noteq> [] \<and> length rs \<le> ranges
    \<and> list_all (range_ok content_length) rs \<and> ranges_length rs \<le> content_length)"
proof -
  have "0 \<in> set (drop 6 (value @ [0]))" using assms(2) by simp
  moreover have "rg_loop content_length ranges 0 [] (drop 6 (value @ [0])) = (rc, rs)"
    using assms(3) by (simp add: ngx_http_range_parse_def)
  ultimately show ?thesis
    using rg_loop_sound [OF assms(1), of "[]" 0 "drop 6 (value @ [0])" ranges rc rs]
    by (auto simp: ranges_length_def)
qed

text \<open>
  Whatever bytes follow \<open>bytes=\<close>, the parser stays within the value and its terminating zero byte, and
  the ranges it accepts are sound: there is at least one and at most as many as allowed, each is not
  empty and lies within the response, and together they are no longer than the response.
\<close>

theorem range_parse_sound:
  assumes "0 \<le> content_length" "6 \<le> length value"
    and "ngx_http_range_parse None content_length ranges value = (rc, rs)"
  shows "rc \<noteq> RG_FAULT \<and> (rc = RG_OK \<longrightarrow> rs \<noteq> [] \<and> length rs \<le> ranges
    \<and> list_all (range_ok content_length) rs \<and> ranges_length rs \<le> content_length)"
  by (rule range_parse_props [OF assms])

section \<open>Round trip\<close>

definition fmt_range :: "http_range \<Rightarrow> byte list" where
  "fmt_range r = fmt_off (rg_start r) @ bytes ''-'' @ fmt_off (rg_end r - 1)"

fun fmt_ranges :: "http_range list \<Rightarrow> byte list" where
  "fmt_ranges [] = []"
| "fmt_ranges [r] = fmt_range r"
| "fmt_ranges (r # rs) = fmt_range r @ bytes '','' @ fmt_ranges rs"

lemma fmt_off_digits:
  assumes "0 \<le> n" "n < 2 ^ 63"
  shows "list_all is_digit (fmt_off n) \<and> dec_val (fmt_off n) = n \<and> fmt_off n \<noteq> []"
proof -
  have "fmt_off n = dec_digits (nat n) []"
    using sprintf_num_full [of 0 NGX_INT64_LEN "word_of_int n" 32 0] unat_word_of_int_small [OF assms]
    by (simp add: fmt_off_def fmt_int_def num_temp_decimal)
  then show ?thesis using dec_digits_value [of "nat n"] assms(1) by simp
qed

lemma rg_number_digits:
  assumes "list_all is_digit ds" "0 \<le> v" "dec_from v ds \<le> NGX_MAX_OFF_T_VALUE" "\<not> is_digit c"
  shows "rg_number v (ds @ c # s) = Some (dec_from v ds, c # s)"
  using assms
proof (induction ds arbitrary: v)
  case Nil
  then show ?case by (auto simp: is_digit_def)
next
  case (Cons d ds)
  have d: "is_digit d" "0 \<le> digit_val d" "digit_val d \<le> 9" using Cons.prems(1) digit_val_range [of d] by simp_all
  have v: "0 \<le> v * 10 + digit_val d" using d Cons.prems(2) by simp
  have "v * 10 + digit_val d \<le> dec_from (v * 10 + digit_val d) ds"
    using dec_from_ge [of ds "v * 10 + digit_val d"] Cons.prems(1) v by simp
  then have "\<not> (NGX_MAX_OFF_T_VALUE div 10 \<le> v \<and> (NGX_MAX_OFF_T_VALUE div 10 < v \<or> NGX_MAX_OFF_T_VALUE mod 10 < digit_val d))"
    using cutoff_iff [OF d(2,3), of NGX_MAX_OFF_T_VALUE v] Cons.prems(3) by simp
  then show ?case using Cons.IH [OF _ v] Cons.prems d(1) by (auto simp: is_digit_def)
qed

lemma rg_skip_digit: "is_digit c \<Longrightarrow> rg_skip (c # s) = c # s"
  by (auto simp: rg_skip_def is_digit_def)

lemma rg_one_print:
  assumes "range_ok cl r" "cl < 2 ^ 63" "c = 44 \<or> c = 0"
  shows "rg_one cl (fmt_range r @ c # s) = One (rg_start r) (rg_end r) (c # s)"
proof -
  note ok = assms(1) [unfolded range_ok_def]
  obtain a as where a: "fmt_off (rg_start r) = a # as" and da: "list_all is_digit (a # as)" "dec_val (a # as) = rg_start r"
    using fmt_off_digits [of "rg_start r"] ok assms(2) by (cases "fmt_off (rg_start r)") auto
  obtain b bs where b: "fmt_off (rg_end r - 1) = b # bs" and db: "list_all is_digit (b # bs)" "dec_val (b # bs) = rg_end r - 1"
    using fmt_off_digits [of "rg_end r - 1"] ok assms(2) by (cases "fmt_off (rg_end r - 1)") auto
  have e: "fmt_range r @ c # s = (a # as) @ 45 # (b # bs) @ c # s" by (simp add: fmt_range_def a b)
  have n1: "rg_number 0 ((a # as) @ 45 # (b # bs) @ c # s) = Some (rg_start r, 45 # (b # bs) @ c # s)"
    using rg_number_digits [of "a # as" 0 45] da ok assms(2) by (simp add: is_digit_def ngx_consts del: rg_number.simps)
  have nd: "\<not> is_digit c" using assms(3) by (auto simp: is_digit_def)
  have n2: "rg_number 0 ((b # bs) @ c # s) = Some (rg_end r - 1, c # s)"
    using rg_number_digits [of "b # bs" 0 c] db ok assms(2) nd by (simp add: ngx_consts del: rg_number.simps)
  have ab: "\<not> (a < 48 \<or> 57 < a)" "\<not> (b < 48 \<or> 57 < b)" "a \<noteq> 45" "b \<noteq> 44" "b \<noteq> 0" "b \<noteq> 32" "a \<noteq> 32"
    using da(1) db(1) by (auto simp: is_digit_def not_less)
  have last: "rg_last cl False (rg_start r) ((b # bs) @ c # s) = One (rg_start r) (rg_end r) (c # s)"
    using n2 ab(2) ok assms(3) by (auto simp: rg_last_def rg_skip_def simp del: rg_number.simps)
  show ?thesis
    unfolding e rg_one_def using n1 last ab by (auto simp: rg_skip_def simp del: rg_number.simps)
qed

lemma ranges_length_nonneg: "list_all (range_ok cl) rs \<Longrightarrow> 0 \<le> ranges_length rs"
  by (induction rs) (auto simp: ranges_length_def range_ok_def)

lemma rg_loop_print:
  assumes "list_all (range_ok cl) rs" "rs \<noteq> []" "ranges_length acc + ranges_length rs \<le> cl" "cl < 2 ^ 63"
    and "length rs \<le> limit"
  shows "rg_loop cl limit (ranges_length acc) acc (fmt_ranges rs @ [0]) = (RG_OK, acc @ rs)"
  using assms
proof (induction rs arbitrary: acc limit)
  case (Cons r rs)
  have ok: "range_ok cl r" and lt: "rg_start r < rg_end r" using Cons.prems(1) by (simp_all add: range_ok_def)
  have size: "ranges_length (acc @ [r]) + ranges_length rs \<le> cl"
    and acc: "ranges_length (acc @ [r]) = ranges_length acc + (rg_end r - rg_start r)"
    using Cons.prems(3) by (simp_all add: ranges_length_def)
  have rs: "0 \<le> ranges_length rs" using ranges_length_nonneg [of cl rs] Cons.prems(1) by simp
  have fits: "\<not> NGX_MAX_OFF_T_VALUE - (rg_end r - rg_start r) < ranges_length acc"
    using size acc rs Cons.prems(4) by (simp add: ngx_consts)
  define c s where "c = (if rs = [] then 0 else 44 :: byte)" and "s = (if rs = [] then [] else fmt_ranges rs @ [0])"
  have f: "fmt_ranges (r # rs) @ [0] = fmt_range r @ c # s" by (cases rs) (simp_all add: c_def s_def)
  have one: "rg_one cl (fmt_range r @ c # s) = One (rg_start r) (rg_end r) (c # s)"
    by (rule rg_one_print [OF ok Cons.prems(4)]) (simp add: c_def)
  have r: "\<lparr>rg_start = rg_start r, rg_end = rg_end r\<rparr> = r" by simp
  have step: "rg_loop cl limit (ranges_length acc) acc (fmt_range r @ c # s) =
      (if c = 44 then rg_loop cl (limit - 1) (ranges_length (acc @ [r])) (acc @ [r]) s
       else if cl < ranges_length (acc @ [r]) then (RG_DECLINED, acc @ [r]) else (RG_OK, acc @ [r]))"
    using lt fits Cons.prems(5)
    by (simp add: rg_loop.simps [of cl limit "ranges_length acc" acc "fmt_range r @ c # s"] one Let_def r acc)
  show ?case
  proof (cases "rs = []")
    case True
    then show ?thesis using step f size by (simp add: c_def ranges_length_def)
  next
    case False
    then show ?thesis
      using step f Cons.IH [of "acc @ [r]" "limit - 1"] Cons.prems size by (simp add: c_def s_def)
  qed
qed simp

text \<open>
  Every list of ranges that fits the response is understood: written as a header value, it is parsed
  back as the same ranges.
\<close>

theorem range_parse_roundtrip:
  assumes "rs \<noteq> []" "list_all (range_ok content_length) rs" "ranges_length rs \<le> content_length"
    and "content_length < 2 ^ 63" "length rs \<le> ranges"
  shows "ngx_http_range_parse None content_length ranges (bytes ''bytes='' @ fmt_ranges rs) = (RG_OK, rs)"
  using rg_loop_print [OF assms(2,1), of "[]" ranges] assms
  by (simp add: ngx_http_range_parse_def ranges_length_def)

definition example_ranges :: "http_range list" where
  "example_ranges = [\<lparr>rg_start = 0, rg_end = 5\<rparr>, \<lparr>rg_start = 10, rg_end = 12\<rparr>]"

lemma example_ranges_ok:
  "example_ranges \<noteq> []" "list_all (range_ok 20) example_ranges" "ranges_length example_ranges \<le> 20"
  by (simp_all add: example_ranges_def range_ok_def ranges_length_def)

theorem range_parse_roundtrip_witness:
  "ngx_http_range_parse None 20 3 (bytes ''bytes='' @ fmt_ranges example_ranges) = (RG_OK, example_ranges)"
  using range_parse_roundtrip [OF example_ranges_ok, of 3] by (simp add: example_ranges_def)

theorem range_parse_sound_witness:
  "let v = bytes ''bytes=-3'' in
   ngx_http_range_parse None 20 3 v = (RG_OK, [\<lparr>rg_start = 17, rg_end = 20\<rparr>])
   \<and> list_all (range_ok 20) (snd (ngx_http_range_parse None 20 3 v))"
proof -
  have e: "ngx_http_range_parse None 20 3 (bytes ''bytes=-3'') = (RG_OK, [\<lparr>rg_start = 17, rg_end = 20\<rparr>])"
    by (simp add: ngx_http_range_parse_def rg_loop.simps rg_one_def rg_last_def rg_skip_def digit_val_def ngx_consts)
  show ?thesis using range_parse_sound [OF _ _ e] e by (simp add: Let_def)
qed

section \<open>The body of a response with one part\<close>

lemma piece_append: "piece i j (xs @ ys) = piece i j xs @ piece (i - length xs) (j - length xs) ys"
proof (cases "i \<le> length xs")
  case True
  then show ?thesis by (auto simp: piece_def)
next
  case False
  then have "j - length xs - (i - length xs) = j - i \<or> j \<le> i" by arith
  with False show ?thesis by (auto simp: piece_def)
qed

lemma piece_piece: "piece i j (piece a b xs) = piece (a + i) (min b (a + j)) xs"
proof -
  have "min (j - i) (b - a - i) = min b (a + j) - (a + i)" by arith
  then show ?thesis by (simp add: piece_def drop_take add.commute)
qed

lemma piece_full: "length xs \<le> j \<Longrightarrow> piece 0 j xs = xs"
  by (simp add: piece_def)

lemma piece_empty: "j \<le> i \<or> length xs \<le> i \<Longrightarrow> piece i j xs = []"
  by (auto simp: piece_def)

lemma piece_trim: "piece i (j - n) xs = take (j - i - n) (piece i j xs)"
  by (simp add: piece_def diff_right_commute add.commute)

text \<open>Cutting a buffer at its end, as the filter does.\<close>

definition buf_trim :: "nat \<Rightarrow> ngx_buf \<Rightarrow> ngx_buf" where
  "buf_trim n b =
     (let b = (if in_file b then b\<lparr>file_last := file_last b - n\<rparr> else b)
      in if ngx_buf_in_memory b then b\<lparr>buf_last := buf_last b - n\<rparr> else b)"

lemma buf_trim_bytes:
  assumes "buf_ok b"
  shows "buf_bytes (buf_trim n b) = take (length (buf_bytes b) - n) (buf_bytes b)"
proof -
  have f: "ngx_buf_in_memory (buf_trim n b) = ngx_buf_in_memory b" "in_file (buf_trim n b) = in_file b"
    by (simp_all add: buf_trim_def ngx_buf_in_memory_def Let_def)
  have m: "mem_bytes (buf_trim n b) = take (length (mem_bytes b) - n) (mem_bytes b)" if "ngx_buf_in_memory b"
  proof -
    have "mem_bytes (buf_trim n b) = piece (buf_pos b) (buf_last b - n) (buf_block b)"
      using that by (auto simp: buf_trim_def mem_bytes_def ngx_buf_in_memory_def Let_def)
    then show ?thesis using mem_size [OF assms that] by (simp only: piece_trim mem_bytes_def)
  qed
  have "file_bytes (buf_trim n b) = take (length (file_bytes b) - n) (file_bytes b)" if "in_file b"
  proof -
    have "file_bytes (buf_trim n b) = piece (file_pos b) (file_last b - n) (buf_file b)"
      using that by (simp add: buf_trim_def file_bytes_def ngx_buf_in_memory_def Let_def)
    then show ?thesis using file_size [OF assms that] by (simp only: piece_trim file_bytes_def)
  qed
  with m show ?thesis by (simp add: buf_bytes_def f)
qed

lemma range_buf_inside:
  assumes "\<not> ngx_buf_special b" "start < rg_end r" "rg_start r < start + int (ngx_buf_size b)" "0 \<le> start"
  shows "range_buf main r start b =
    (let b' = buf_skip (nat (rg_start r - start)) b in
     if rg_end r \<le> start + int (ngx_buf_size b)
     then ((buf_trim (nat (start + int (ngx_buf_size b) - rg_end r)) b')\<lparr>last_buf := main, last_in_chain := True\<rparr>, True)
     else (b', True))"
proof -
  have "(if start < rg_start r then
          let b = (if in_file b then b\<lparr>file_pos := file_pos b + nat (rg_start r - start)\<rparr> else b)
          in if ngx_buf_in_memory b then b\<lparr>buf_pos := buf_pos b + nat (rg_start r - start)\<rparr> else b
        else b) = buf_skip (nat (rg_start r - start)) b"
    by (simp add: buf_skip_def ngx_buf_in_memory_def Let_def)
  moreover have "\<not> (rg_end r \<le> start \<or> start + int (ngx_buf_size b) \<le> rg_start r)" using assms by simp
  ultimately show ?thesis
    using assms(1) unfolding range_buf_def Let_def [of "start + _"] by (simp only: if_False Let_def buf_trim_def)
qed

lemma range_buf_exact:
  assumes "buf_ok b" "0 \<le> start" "rg_start r < rg_end r" "range_buf main r start b = (b', linked)"
  shows "(if linked then buf_bytes b' else []) = piece (nat (rg_start r - start)) (nat (rg_end r - start)) (buf_bytes b)"
proof -
  have s: "ngx_buf_size b = length (buf_bytes b)" by (rule buf_size_bytes [OF assms(1)])
  let ?i = "nat (rg_start r - start)" and ?j = "nat (rg_end r - start)" and ?n = "length (buf_bytes b)"
  consider "ngx_buf_special b" | "\<not> ngx_buf_special b" "rg_end r \<le> start \<or> start + int ?n \<le> rg_start r"
    | "\<not> ngx_buf_special b" "start < rg_end r" "rg_start r < start + int ?n" by linarith
  then show ?thesis
  proof cases
    case 1
    then show ?thesis using assms(4) buf_special_bytes [OF 1] by (auto simp: range_buf_def piece_def)
  next
    case 2
    then have "linked = False" using assms(4) s by (auto simp: range_buf_def Let_def)
    moreover have "?j = 0 \<or> ?n \<le> ?i" using 2(2) by linarith
    ultimately show ?thesis by (auto simp: piece_def)
  next
    case 3
    let ?b = "buf_skip ?i b" and ?n' = "nat (start + int ?n - rg_end r)"
    have i: "?i \<le> ?n" using 3(3) by linarith
    have k: "buf_ok ?b" "buf_bytes ?b = drop ?i (buf_bytes b)"
      using buf_skip_ok [OF assms(1), of ?i] i s by simp_all
    have e: "range_buf main r start b = (if rg_end r \<le> start + int ?n
        then ((buf_trim ?n' ?b)\<lparr>last_buf := main, last_in_chain := True\<rparr>, True) else (?b, True))"
      using range_buf_inside [OF 3(1,2) _ assms(2), of main] 3(3) s by (simp add: Let_def)
    have fl: "buf_bytes (b\<lparr>last_buf := x, last_in_chain := y\<rparr>) = buf_bytes b" for b x y
      by (simp add: buf_bytes_def mem_bytes_def file_bytes_def ngx_buf_in_memory_def)
    show ?thesis
    proof (cases "rg_end r \<le> start + int ?n")
      case True
      then have "?n - ?i - ?n' = ?j - ?i" using 3 assms(3) by linarith
      then show ?thesis
        using True e assms(4) buf_trim_bytes [OF k(1), of ?n'] by (auto simp: fl k(2) piece_def)
    next
      case False
      then have "?n \<le> ?j" by linarith
      then show ?thesis using False e assms(4) by (auto simp: k(2) piece_def)
    qed
  qed
qed

lemma singlepart_body_piece:
  assumes "chain_ok c" "0 \<le> offset" "rg_start r < rg_end r"
    and "ngx_http_range_singlepart_body main r offset c = (offset', out)"
  shows "chain_bytes out = piece (nat (rg_start r - offset)) (nat (rg_end r - offset)) (chain_bytes c)
    \<and> offset' = offset + int (length (chain_bytes c))"
  using assms
proof (induction c arbitrary: offset out)
  case (Cons b bs)
  have ok: "buf_ok b" "chain_ok bs" using Cons.prems(1) by (simp_all add: chain_ok_def)
  have s: "ngx_buf_size b = length (buf_bytes b)" by (rule buf_size_bytes [OF ok(1)])
  obtain b' linked where b: "range_buf main r offset b = (b', linked)" by fastforce
  obtain out' where o: "ngx_http_range_singlepart_body main r (offset + int (ngx_buf_size b)) bs = (offset', out')"
      "out = (if linked then b' # out' else out')"
    using Cons.prems(4) b by (auto split: prod.splits)
  have IH: "chain_bytes out' = piece (nat (rg_start r - (offset + int (ngx_buf_size b))))
        (nat (rg_end r - (offset + int (ngx_buf_size b)))) (chain_bytes bs)
      \<and> offset' = offset + int (ngx_buf_size b) + int (length (chain_bytes bs))"
    using Cons.IH [OF ok(2) _ assms(3) o(1)] Cons.prems(2) by simp
  have n: "nat (x - (offset + int (length (buf_bytes b)))) = nat (x - offset) - length (buf_bytes b)" for x by simp
  have "chain_bytes out = (if linked then buf_bytes b' else []) @ chain_bytes out'"
    using o(2) by (simp add: chain_bytes_def)
  also have "\<dots> = piece (nat (rg_start r - offset)) (nat (rg_end r - offset)) (buf_bytes b @ chain_bytes bs)"
    using range_buf_exact [OF ok(1) Cons.prems(2,3) b] IH by (simp only: piece_append s n)
  finally show ?case using IH by (simp add: chain_bytes_def s)
qed (simp add: chain_bytes_def piece_def)

text \<open>The response may reach the filter in any number of calls; the offset is kept in between.\<close>

fun range_calls :: "bool \<Rightarrow> http_range \<Rightarrow> int \<Rightarrow> ngx_buf list list \<Rightarrow> ngx_buf list" where
  "range_calls main r offset [] = []"
| "range_calls main r offset (c # cs) =
     (let (offset', out) = ngx_http_range_singlepart_body main r offset c
      in out @ range_calls main r offset' cs)"

lemma range_calls_piece:
  assumes "list_all chain_ok cs" "0 \<le> offset" "rg_start r < rg_end r"
  shows "chain_bytes (range_calls main r offset cs) =
    piece (nat (rg_start r - offset)) (nat (rg_end r - offset)) (concat (map chain_bytes cs))"
  using assms(1,2)
proof (induction cs arbitrary: offset)
  case (Cons c cs)
  obtain offset' out where c: "ngx_http_range_singlepart_body main r offset c = (offset', out)" by fastforce
  note p = singlepart_body_piece [OF _ Cons.prems(2) assms(3) c]
  have n: "nat (x - (offset + int k)) = nat (x - offset) - k" for x k by simp
  have "chain_bytes (range_calls main r offset (c # cs)) = chain_bytes out @ chain_bytes (range_calls main r offset' cs)"
    using c by (simp add: chain_bytes_def)
  then show ?case using p Cons.IH [of offset'] Cons.prems by (simp add: piece_append n)
qed (simp add: chain_bytes_def piece_def)

text \<open>
  C18. A client that asks for one range gets exactly its bytes, however the response is cut into buffers
  in memory and in files and into calls of the filter, and as many bytes as the header announced.
\<close>

theorem range_singlepart_exact:
  assumes "list_all chain_ok cs" "range_ok (int (length body)) r" "concat (map chain_bytes cs) = body"
  shows "chain_bytes (range_calls main r 0 cs) = take (nat (rg_end r - rg_start r)) (drop (nat (rg_start r)) body)
    \<and> int (length (chain_bytes (range_calls main r 0 cs))) =
        fst (snd (ngx_http_range_singlepart_header True r (int (length body)) offset))"
proof -
  have r: "0 \<le> rg_start r" "rg_start r < rg_end r" "rg_end r \<le> int (length body)" using assms(2) by (simp_all add: range_ok_def)
  have "chain_bytes (range_calls main r 0 cs) = piece (nat (rg_start r)) (nat (rg_end r)) body"
    using range_calls_piece [OF assms(1) _ r(2), of 0 main] assms(3) by simp
  moreover have "nat (rg_end r) - nat (rg_start r) = nat (rg_end r - rg_start r)" using r by simp
  ultimately show ?thesis using r by (simp add: piece_def ngx_http_range_singlepart_header_def)
qed

theorem range_singlepart_exact_witness:
  "chain_bytes (range_calls True \<lparr>rg_start = 1, rg_end = 4\<rparr> 0
     [[mem_buf [1, 2]], [file_buf 1 4 [9, 3, 4, 5, 9]]]) = [2, 3, 4]"
proof -
  let ?cs = "[[mem_buf [1, 2]], [file_buf 1 4 [9, 3, 4, 5, 9 :: byte]]]"
  have "list_all chain_ok ?cs" "concat (map chain_bytes ?cs) = [1, 2, 3, 4, 5]"
    by (simp_all add: chain_ok_def chain_bytes_def mem_buf_ok file_buf_ok piece_def)
  then show ?thesis
    using range_singlepart_exact [of ?cs "[1, 2, 3, 4, 5]" "\<lparr>rg_start = 1, rg_end = 4\<rparr>" True]
    by (simp add: range_ok_def)
qed

section \<open>The body of a response with several parts\<close>

lemma fmt_boundary_length: "length (fmt_boundary n) = NGX_ATOMIC_T_LEN"
  using sprintf_num_full [of NGX_ATOMIC_T_LEN "NGX_INT64_LEN + NGX_ATOMIC_T_LEN"] num_temp_fits [of n 0]
  by (simp add: fmt_boundary_def ngx_consts)

lemma range_piece_bytes:
  assumes "buf_ok b" "range_ok (int (length (buf_bytes b))) r" "\<not> ngx_buf_special b"
  shows "buf_bytes (range_piece b r) = piece (nat (rg_start r)) (nat (rg_end r)) (buf_bytes b)"
proof -
  have r: "nat (rg_end r) \<le> length (buf_bytes b)" "nat (rg_start r) \<le> nat (rg_end r)"
    using assms(2) by (auto simp: range_ok_def)
  have pp: "piece (k + nat (rg_start r)) (k + nat (rg_end r)) xs = piece (nat (rg_start r)) (nat (rg_end r)) (piece k l xs)"
    if "nat (rg_end r) \<le> l - k" for k l and xs :: "byte list"
    proof (cases "nat (rg_end r) = 0")
    case False
    then show ?thesis using that by (simp add: piece_piece min_absorb2)
  qed (use r in \<open>simp add: piece_def\<close>)
  show ?thesis
  proof (cases "ngx_buf_in_memory b")
    case True
    have "buf_bytes (range_piece b r) = piece (buf_pos b + nat (rg_start r)) (buf_pos b + nat (rg_end r)) (buf_block b)"
      using True by (auto simp: range_piece_def buf_bytes_def mem_bytes_def ngx_buf_in_memory_def Let_def)
    moreover have "nat (rg_end r) \<le> buf_last b - buf_pos b"
      using r(1) True by (simp add: buf_bytes_def mem_bytes_def)
    ultimately show ?thesis using True by (simp only: buf_bytes_def mem_bytes_def pp if_True)
  next
    case False
    then have f: "in_file b" using assms(2) by (auto simp: buf_bytes_def range_ok_def split: if_splits)
    have "buf_bytes (range_piece b r) = piece (file_pos b + nat (rg_start r)) (file_pos b + nat (rg_end r)) (buf_file b)"
      using False f by (auto simp: range_piece_def buf_bytes_def file_bytes_def ngx_buf_in_memory_def Let_def)
    moreover have "nat (rg_end r) \<le> file_last b - file_pos b"
      using r(1) False f by (simp add: buf_bytes_def file_bytes_def)
    ultimately show ?thesis using False f by (simp only: buf_bytes_def file_bytes_def pp if_True if_False)
  qed
qed

text \<open>
  The document that the client is to receive, in the format of RFC 2046 and RFC 7233 and apart from the
  code: for every range a delimiter line, the type of the part if there is one, the position of the part
  in the body, an empty line and the bytes of the range; the closing delimiter ends it. Numbers are
  written by the usual recursion, most significant digit first.
\<close>

fun show_nat :: "nat \<Rightarrow> byte list" where
  "show_nat n = (if n < 10 then [0x30 + of_nat n] else show_nat (n div 10) @ [0x30 + of_nat (n mod 10)])"

declare show_nat.simps [simp del]

definition show_padded :: "nat \<Rightarrow> nat \<Rightarrow> byte list" where
  "show_padded width n = replicate (width - length (show_nat n)) 0x30 @ show_nat n"

definition crlf_line :: "byte list \<Rightarrow> byte list" where
  "crlf_line s = s @ [0x0D, 0x0A]"

definition part_type :: "byte list \<Rightarrow> byte list \<Rightarrow> bool \<Rightarrow> byte list option" where
  "part_type content_type charset plain_type =
     (if plain_type \<and> charset \<noteq> [] then Some (content_type @ bytes ''; charset='' @ charset)
      else if content_type \<noteq> [] then Some content_type else None)"

definition document_part :: "byte list \<Rightarrow> byte list option \<Rightarrow> byte list \<Rightarrow> http_range \<Rightarrow> byte list" where
  "document_part boundary media body r =
     crlf_line [] @ crlf_line (bytes ''--'' @ boundary)
     @ (case media of None \<Rightarrow> [] | Some t \<Rightarrow> crlf_line (bytes ''Content-Type: '' @ t))
     @ crlf_line (bytes ''Content-Range: bytes '' @ show_nat (nat (rg_start r)) @ bytes ''-'' @ show_nat (nat (rg_end r) - 1)
         @ bytes ''/'' @ show_nat (length body))
     @ crlf_line []
     @ take (nat (rg_end r - rg_start r)) (drop (nat (rg_start r)) body)"

definition multipart_document :: "byte list \<Rightarrow> byte list option \<Rightarrow> byte list \<Rightarrow> http_range list \<Rightarrow> byte list" where
  "multipart_document boundary media body ranges =
     concat (map (document_part boundary media body) ranges)
     @ crlf_line [] @ crlf_line (bytes ''--'' @ boundary @ bytes ''--'')"

lemma show_nat_dec_digits: "dec_digits n [] = show_nat n"
proof (induction n rule: less_induct)
  case (less n)
  then show ?case by (subst dec_digits_rec, subst show_nat.simps) (auto simp: add.commute)
qed

lemma fmt_off_show:
  assumes "0 \<le> n" "n < 2 ^ 63"
  shows "fmt_off n = show_nat (nat n)"
  using sprintf_num_full [of 0 NGX_INT64_LEN "word_of_int n" 32 0] unat_word_of_int_small [OF assms]
  by (simp add: fmt_off_def fmt_int_def num_temp_decimal show_nat_dec_digits)

lemma fmt_boundary_show: "fmt_boundary n = show_padded 20 (unat n)"
  using sprintf_num_full [of NGX_ATOMIC_T_LEN "NGX_INT64_LEN + NGX_ATOMIC_T_LEN" n "asc CHR ''0''" 0]
  by (simp add: fmt_boundary_def show_padded_def num_temp_decimal show_nat_dec_digits ngx_consts)

lemma document_part_code:
  assumes "range_ok (int (length body)) r" "int (length body) < 2 ^ 63"
  shows "mp_boundary_header (ngx_http_range_multipart_header content_type charset plain_type boundary ranges n)
      @ content_range (int (length body)) r @ take (nat (rg_end r - rg_start r)) (drop (nat (rg_start r)) body)
    = document_part (show_padded 20 (unat boundary)) (part_type content_type charset plain_type) body r"
proof -
  have "nat (rg_end r - 1) = nat (rg_end r) - 1" by simp
  moreover have "fmt_off (rg_start r) = show_nat (nat (rg_start r))" "fmt_off (rg_end r - 1) = show_nat (nat (rg_end r - 1))"
    "fmt_off (int (length body)) = show_nat (length body)"
    using assms fmt_off_show [of "int (length body)"] by (auto simp: range_ok_def intro!: fmt_off_show)
  ultimately show ?thesis
    by (simp add: ngx_http_range_multipart_header_def Let_def content_range_def document_part_def part_type_def crlf_line_def
        fmt_boundary_show CRLF_def bytes_def)
qed

lemma boundary_header_boundary:
  "take (4 + NGX_ATOMIC_T_LEN)
     (mp_boundary_header (ngx_http_range_multipart_header content_type charset plain_type boundary ranges content_length))
   = CRLF @ bytes ''--'' @ fmt_boundary boundary"
  using fmt_boundary_length [of boundary]
  by (simp add: ngx_http_range_multipart_header_def Let_def CRLF_def bytes_def ngx_consts)

lemma flag_bytes: "buf_bytes ((mem_buf xs)\<lparr>last_buf := l\<rparr>) = xs"
    "buf_bytes ((mem_buf xs)\<lparr>temporary := False, memory := True\<rparr>) = xs"
  by (simp_all add: buf_bytes_def mem_bytes_def mem_buf_def ngx_buf_in_memory_def piece_def)

lemma chain_bytes_append: "chain_bytes (a @ b) = chain_bytes a @ chain_bytes b"
  by (simp add: chain_bytes_def)

lemma chain_bytes_concat: "chain_bytes (concat cs) = concat (map chain_bytes cs)"
  by (induction cs) (simp_all add: chain_bytes_def)

lemma multipart_parts:
  assumes "buf_ok b" "\<not> ngx_buf_special b" "list_all (range_ok (int (length (buf_bytes b)))) ranges"
  shows "chain_bytes (concat (map (\<lambda>(r, cr).
      [(mem_buf h)\<lparr>temporary := False, memory := True\<rparr>, mem_buf cr, range_piece b r]) (zip ranges cs)))
   = concat (map (\<lambda>(r, cr).
        h @ cr @ take (nat (rg_end r - rg_start r)) (drop (nat (rg_start r)) (buf_bytes b))) (zip ranges cs))"
  using assms(3)
proof (induction ranges arbitrary: cs)
  case (Cons r rs)
  have "nat (rg_end r) - nat (rg_start r) = nat (rg_end r - rg_start r)" using Cons.prems by (auto simp: range_ok_def)
  then have p: "buf_bytes (range_piece b r) = take (nat (rg_end r - rg_start r)) (drop (nat (rg_start r)) (buf_bytes b))"
    using range_piece_bytes [OF assms(1) _ assms(2), of r] Cons.prems by (simp add: piece_def)
  show ?case
  proof (cases cs)
    case c: (Cons c cs')
    show ?thesis using Cons.IH [of cs'] Cons.prems by (simp add: c chain_bytes_def flag_bytes mem_buf_ok(2) p)
  qed (simp add: chain_bytes_def)
qed (simp add: chain_bytes_def)

lemma int_length_concat: "int (length (concat xss)) = (\<Sum>xs\<leftarrow>xss. int (length xs))"
  by (induction xss) simp_all

lemma parts_length:
  assumes "list_all (range_ok (int (length body))) ranges"
  shows "foldl (\<lambda>len r. len + h + int (length (f r)) + (rg_end r - rg_start r)) l ranges =
    l + (\<Sum>r\<leftarrow>ranges. h + int (length (f r)) +
      int (length (take (nat (rg_end r - rg_start r)) (drop (nat (rg_start r)) body))))"
  using assms by (induction ranges arbitrary: l) (auto simp: range_ok_def)

lemma multipart_header_length:
  fixes content_type charset plain_type boundary ranges
  defines "mp n \<equiv> ngx_http_range_multipart_header content_type charset plain_type boundary ranges n"
  shows "mp_content_ranges (mp n) = map (content_range n) ranges"
    and "mp_length (mp n) = foldl (\<lambda>len r. len + int (length (mp_boundary_header (mp n)))
      + int (length (content_range n r)) + (rg_end r - rg_start r)) 28 ranges"
  by (simp_all add: mp_def ngx_http_range_multipart_header_def Let_def ngx_consts)

text \<open>
  C19. A client that asks for several ranges of a body that is in one buffer gets the document with all of
  them, in the order it asked for: every part has its delimiter, its type, its \<open>Content-Range\<close> line with
  first byte, last byte and total length in decimal, and exactly its bytes; the announced length is the
  length of the document, and the boundary in the header is the one in the document.
\<close>

theorem range_multipart_exact:
  fixes content_type charset plain_type boundary ranges
  defines "mp n \<equiv> ngx_http_range_multipart_header content_type charset plain_type boundary ranges n"
  assumes "buf_ok b" "buf_bytes b = body" "list_all (range_ok (int (length body))) ranges"
    and "2 \<le> length ranges" "\<not> ngx_buf_special b" "int (length body) < 2 ^ 63"
  shows "\<exists>out. ngx_http_range_body_filter main (mp (int (length body))) ranges 0 [b] = Some (int (length body), out)
    \<and> chain_bytes out = multipart_document (show_padded 20 (unat boundary)) (part_type content_type charset plain_type) body ranges
    \<and> int (length (chain_bytes out)) = mp_length (mp (int (length body)))
    \<and> mp_content_type (mp (int (length body))) = bytes ''multipart/byteranges; boundary='' @ show_padded 20 (unat boundary)"
proof -
  let ?mp = "mp (int (length body))" and ?out = "ngx_http_range_multipart_body (mp (int (length body))) ranges b"
  have s: "ngx_buf_size b = length body" using buf_size_bytes [OF assms(2)] assms(3) by simp
  have "ngx_http_range_test_overlapped 0 ranges b = Some (int (length body))"
    using assms(4) by (auto simp: ngx_http_range_test_overlapped_def s list_ex_iff list_all_iff range_ok_def)
  then have f: "ngx_http_range_body_filter main ?mp ranges 0 [b] = Some (int (length body), ?out)"
    using assms(5,6) by (simp add: ngx_http_range_body_filter_def)
  have z: "zip ranges (map f ranges) = map (\<lambda>r. (r, f r)) ranges" for f :: "http_range \<Rightarrow> byte list"
    by (induction ranges) simp_all
  have o: "chain_bytes ?out = concat (map (\<lambda>r. mp_boundary_header ?mp @ content_range (int (length body)) r
        @ take (nat (rg_end r - rg_start r)) (drop (nat (rg_start r)) body)) ranges)
      @ CRLF @ bytes ''--'' @ fmt_boundary boundary @ bytes ''--'' @ CRLF"
  proof -
    have "chain_bytes [(mem_buf (take (4 + NGX_ATOMIC_T_LEN) (mp_boundary_header ?mp) @ bytes ''--'' @ CRLF))\<lparr>last_buf := True\<rparr>]
        = CRLF @ bytes ''--'' @ fmt_boundary boundary @ bytes ''--'' @ CRLF"
      unfolding mp_def boundary_header_boundary by (simp add: chain_bytes_def flag_bytes)
    moreover have "mp_content_ranges ?mp = map (content_range (int (length body))) ranges"
      by (simp add: mp_def multipart_header_length(1))
    ultimately show ?thesis
      using multipart_parts [OF assms(2,6) assms(4) [folded assms(3)], of "mp_boundary_header ?mp" "mp_content_ranges ?mp"]
      by (simp only: ngx_http_range_multipart_body_def chain_bytes_append z assms(3) map_map comp_def prod.case)
  qed
  have n: "int (length (chain_bytes ?out)) = mp_length ?mp"
    unfolding o using fmt_boundary_length [of boundary]
    by (simp add: mp_def int_length_concat comp_def multipart_header_length(2) parts_length [OF assms(4)])
       (simp add: CRLF_def bytes_def ngx_consts add.assoc)
  have m: "map (\<lambda>r. mp_boundary_header ?mp @ content_range (int (length body)) r
        @ take (nat (rg_end r - rg_start r)) (drop (nat (rg_start r)) body)) ranges
      = map (document_part (show_padded 20 (unat boundary)) (part_type content_type charset plain_type) body) ranges"
    unfolding mp_def map_eq_conv using assms(4,7) document_part_code by (auto simp: list_all_iff)
  have "chain_bytes ?out = multipart_document (show_padded 20 (unat boundary)) (part_type content_type charset plain_type) body ranges"
    unfolding o m by (simp add: multipart_document_def fmt_boundary_show crlf_line_def CRLF_def)
  moreover have "mp_content_type ?mp = bytes ''multipart/byteranges; boundary='' @ show_padded 20 (unat boundary)"
    by (simp add: mp_def ngx_http_range_multipart_header_def Let_def fmt_boundary_show)
  ultimately show ?thesis using f n by simp
qed

theorem range_multipart_exact_witness:
  "\<exists>out. ngx_http_range_body_filter True
     (ngx_http_range_multipart_header (bytes ''text/html'') [] True 7 [\<lparr>rg_start = 0, rg_end = 1\<rparr>, \<lparr>rg_start = 1, rg_end = 3\<rparr>] 3)
     [\<lparr>rg_start = 0, rg_end = 1\<rparr>, \<lparr>rg_start = 1, rg_end = 3\<rparr>] 0 [mem_buf (bytes ''abc'')] = Some (3, out)
   \<and> chain_bytes out =
      [13, 10] @ bytes ''--00000000000000000007'' @ [13, 10] @ bytes ''Content-Type: text/html'' @ [13, 10]
      @ bytes ''Content-Range: bytes 0-0/3'' @ [13, 10, 13, 10] @ bytes ''a'' @
      [13, 10] @ bytes ''--00000000000000000007'' @ [13, 10] @ bytes ''Content-Type: text/html'' @ [13, 10]
      @ bytes ''Content-Range: bytes 1-2/3'' @ [13, 10, 13, 10] @ bytes ''bc'' @
      [13, 10] @ bytes ''--00000000000000000007--'' @ [13, 10]"
proof -
  let ?rs = "[\<lparr>rg_start = 0, rg_end = 1\<rparr>, \<lparr>rg_start = 1, rg_end = 3\<rparr>]"
  have "list_all (range_ok (int (length (bytes ''abc'')))) ?rs" "\<not> ngx_buf_special (mem_buf (bytes ''abc''))"
    by (simp_all add: range_ok_def bytes_def ngx_buf_special_def mem_buf_def ngx_buf_in_memory_def)
  note doc = range_multipart_exact [OF mem_buf_ok(1) mem_buf_ok(2) this(1) _ this(2), of True "bytes ''text/html''" "[]" True 7]
  have t: "part_type (bytes ''text/html'') [] True = Some (bytes ''text/html'')" "int (length (bytes ''abc'')) = 3"
    by code_simp+
  have "multipart_document (show_padded 20 (unat (7 :: 64 word))) (Some (bytes ''text/html'')) (bytes ''abc'') ?rs =
      [13, 10] @ bytes ''--00000000000000000007'' @ [13, 10] @ bytes ''Content-Type: text/html'' @ [13, 10]
      @ bytes ''Content-Range: bytes 0-0/3'' @ [13, 10, 13, 10] @ bytes ''a'' @
      [13, 10] @ bytes ''--00000000000000000007'' @ [13, 10] @ bytes ''Content-Type: text/html'' @ [13, 10]
      @ bytes ''Content-Range: bytes 1-2/3'' @ [13, 10, 13, 10] @ bytes ''bc'' @
      [13, 10] @ bytes ''--00000000000000000007--'' @ [13, 10]"
    by code_simp
  with doc show ?thesis unfolding t by auto
qed

section \<open>The decision\<close>

text \<open>
  When a conditional request may be answered with a part (RFC 7233, section 3.2), apart from the code: there
  is no condition; or the condition is an entity tag, which a final quote shows, and it is the tag of the
  response, up to a zero byte in both; or it is anything else, then it is a date that is read as the time
  of the last modification of the response, which must be known.
\<close>

definition same_tag :: "byte list \<Rightarrow> byte list \<Rightarrow> bool" where
  "same_tag s t \<longleftrightarrow> length s = length t \<and> takeWhile (\<lambda>c. c \<noteq> 0) s = takeWhile (\<lambda>c. c \<noteq> 0) t"

lemma strncmp_eq_iff:
  "length s = length t \<Longrightarrow> strncmp_eq s t (length t) \<longleftrightarrow> takeWhile (\<lambda>c. c \<noteq> 0) s = takeWhile (\<lambda>c. c \<noteq> 0) t"
  by (induction s t rule: list_induct2) auto

lemma if_range_matches_iff:
  "if_range_matches r \<longleftrightarrow> rq_if_range r = None
    \<or> (\<exists>tag etag. rq_if_range r = Some (tag @ [asc CHR 0x22]) \<and> tag \<noteq> [] \<and> rq_etag r = Some etag \<and> same_tag (tag @ [asc CHR 0x22]) etag)
    \<or> (\<exists>date. rq_if_range r = Some date \<and> (\<nexists>tag. tag \<noteq> [] \<and> date = tag @ [asc CHR 0x22])
        \<and> ngx_parse_http_time date = Time (rq_last_modified r) \<and> rq_last_modified r \<noteq> - 1)"
proof -
  have q: "2 \<le> length s \<and> s ! (length s - 1) = 0x22 \<longleftrightarrow> (\<exists>tag. tag \<noteq> [] \<and> s = tag @ [asc CHR 0x22])" for s :: "byte list"
    by (cases s rule: rev_cases) (auto simp: Suc_le_eq)
  show ?thesis unfolding if_range_matches_def q
    by (auto simp: same_tag_def strncmp_eq_iff split: option.splits)
qed

lemma range_header_props:
  assumes "rq_main r" "- 1 \<le> rq_content_length r"
  shows "ngx_http_range_header_filter r \<noteq> Range_fault
    \<and> (ngx_http_range_header_filter r = Partial offset rs \<longrightarrow>
        rq_status_ok r \<and> rq_allow_ranges r \<and> if_range_matches r \<and> rs \<noteq> [] \<and> length rs \<le> rq_max_ranges r
        \<and> (rq_single_range r \<longrightarrow> length rs = 1)
        \<and> list_all (range_ok (rq_content_length r)) rs \<and> ranges_length rs \<le> rq_content_length r)"
proof (cases "rq_content_length r = - 1")
  case True
  then show ?thesis by (simp add: ngx_http_range_header_filter_def)
next
  case False
  then have cl: "0 \<le> rq_content_length r" using assms(2) by simp
  have one: "length rs = 1" if "rs \<noteq> []" "length rs \<le> Suc 0" using that by (cases rs) auto
  have fault: "ngx_http_range_parse None (rq_content_length r) n v \<noteq> (RG_FAULT, xs)" if "7 \<le> length v" for n v xs
    using range_parse_props [OF cl, of v n RG_FAULT xs] that by auto
  have ok: "rs \<noteq> [] \<and> length rs \<le> n \<and> list_all (range_ok (rq_content_length r)) rs \<and> ranges_length rs \<le> rq_content_length r"
    if "7 \<le> length v" "ngx_http_range_parse None (rq_content_length r) n v = (RG_OK, rs)" for n v
    using range_parse_props [OF cl _ that(2)] that(1) by auto
  have "ngx_http_range_header_filter r \<noteq> Range_fault"
    using assms(1) fault
    by (auto simp: ngx_http_range_header_filter_def Let_def not_less split: option.splits prod.splits range_rc.splits)
  moreover have "rq_status_ok r \<and> rq_allow_ranges r \<and> if_range_matches r \<and> rs \<noteq> [] \<and> length rs \<le> rq_max_ranges r
        \<and> (rq_single_range r \<longrightarrow> length rs = 1)
        \<and> list_all (range_ok (rq_content_length r)) rs \<and> ranges_length rs \<le> rq_content_length r"
    if "ngx_http_range_header_filter r = Partial offset rs"
    using that assms(1) one
    by (auto simp: ngx_http_range_header_filter_def Let_def not_less split: option.splits prod.splits range_rc.splits if_splits
        dest: ok)
  ultimately show ?thesis by blast
qed

text \<open>
  C20. For a request that is not a subrequest, a partial response is sent only when the request qualifies: the
  response is a complete one whose module allows ranges, the entity is the one the client knows (there
  is no \<open>If-Range\<close> header, or it has the tag of the response, or it has the date of its last
  modification), the ranges are inside the response and together no longer than it, and there are no more of them than the
  configuration allows. The value is read within its bounds.
\<close>

theorem range_header_sound:
  assumes "rq_main r" "- 1 \<le> rq_content_length r"
  shows "ngx_http_range_header_filter r \<noteq> Range_fault
    \<and> (ngx_http_range_header_filter r = Partial offset rs \<longrightarrow>
        rq_status_ok r \<and> rq_allow_ranges r
        \<and> (rq_if_range r = None
           \<or> (\<exists>tag etag. rq_if_range r = Some (tag @ [asc CHR 0x22]) \<and> tag \<noteq> [] \<and> rq_etag r = Some etag
                \<and> same_tag (tag @ [asc CHR 0x22]) etag)
           \<or> (\<exists>date. rq_if_range r = Some date \<and> (\<nexists>tag. tag \<noteq> [] \<and> date = tag @ [asc CHR 0x22])
                \<and> ngx_parse_http_time date = Time (rq_last_modified r) \<and> rq_last_modified r \<noteq> - 1))
        \<and> rs \<noteq> [] \<and> length rs \<le> rq_max_ranges r
        \<and> (rq_single_range r \<longrightarrow> length rs = 1)
        \<and> list_all (range_ok (rq_content_length r)) rs \<and> ranges_length rs \<le> rq_content_length r)"
  using range_header_props [OF assms, of offset rs] unfolding if_range_matches_iff by blast

text \<open>
  Two ranges are asked for under a date: they are sent when the response was modified at that time, and
  not when it was modified a second later.
\<close>

definition dated_request :: "int \<Rightarrow> range_request" where
  "dated_request modified = \<lparr>rq_http_10 = True, rq_status_ok = True, rq_main = True, rq_subrequest_ranges = False,
     rq_allow_ranges = True, rq_single_range = False, rq_content_length = 20, rq_content_offset = 0,
     rq_last_modified = modified, rq_etag = None, rq_range = Some (bytes ''bytes=0-4,10-14''),
     rq_if_range = Some (bytes ''Sun, 06 Nov 1994 08:49:37 GMT''), rq_max_ranges = 3, rq_main_ranges = None\<rparr>"

theorem range_header_sound_witness:
  "ngx_http_range_header_filter (dated_request 784111777) = Partial 0 [\<lparr>rg_start = 0, rg_end = 5\<rparr>, \<lparr>rg_start = 10, rg_end = 15\<rparr>]
   \<and> list_all (range_ok 20) [\<lparr>rg_start = 0, rg_end = 5\<rparr>, \<lparr>rg_start = 10, rg_end = 15\<rparr>]
   \<and> ngx_http_range_header_filter (dated_request 784111778) \<noteq> Partial 0 [\<lparr>rg_start = 0, rg_end = 5\<rparr>, \<lparr>rg_start = 10, rg_end = 15\<rparr>]"
proof -
  have p: "ngx_http_range_header_filter (dated_request 784111777) = Partial 0 [\<lparr>rg_start = 0, rg_end = 5\<rparr>, \<lparr>rg_start = 10, rg_end = 15\<rparr>]"
    by code_simp
  have t: "ngx_parse_http_time (bytes ''Sun, 06 Nov 1994 08:49:37 GMT'') = Time 784111777" by code_simp
  have q: "bytes ''Sun, 06 Nov 1994 08:49:37 GMT'' \<noteq> tag @ [asc CHR 0x22]" for tag
  proof
    assume "bytes ''Sun, 06 Nov 1994 08:49:37 GMT'' = tag @ [asc CHR 0x22]"
    then have "last (bytes ''Sun, 06 Nov 1994 08:49:37 GMT'') = asc CHR 0x22" by simp
    then show False by code_simp
  qed
  have f: "rq_if_range (dated_request m) = Some (bytes ''Sun, 06 Nov 1994 08:49:37 GMT'')" "rq_main (dated_request m)"
    "rq_content_length (dated_request m) = 20" "rq_last_modified (dated_request m) = m" for m
    by (simp_all add: dated_request_def)
  show ?thesis
    using p q t range_header_sound [of "dated_request 784111777" 0 "[\<lparr>rg_start = 0, rg_end = 5\<rparr>, \<lparr>rg_start = 10, rg_end = 15\<rparr>]"]
      range_header_sound [of "dated_request 784111778" 0 "[\<lparr>rg_start = 0, rg_end = 5\<rparr>, \<lparr>rg_start = 10, rg_end = 15\<rparr>]"]
    by (auto simp: f)
qed

end
