(* ===== verification/Http2_Hpack.thy ===== *)
theory Http2_Hpack
  imports Prelude "HOL-Library.Monad_Syntax"
begin

unbundle bit_operations_syntax

text \<open>
  Header compression of HTTP/2, \<^verbatim>\<open>src/http/v2/ngx_http_v2_table.c\<close> and the integers of
  \<^verbatim>\<open>ngx_http_v2.c\<close> and \<^verbatim>\<open>ngx_http_v2_encode.c\<close>: the static table and the
  dynamic table, whose entries are structures that are used again, in a ring of pointers that grows,
  with their strings in a ring of 4096 bytes. The model has the heap of structures and the bytes of the
  storage, so that aliasing and overwriting are visible; that they do no harm is the refinement
  theorem. The counters are natural numbers: they do not reach \<open>2 ^ 64\<close>.
\<close>

section \<open>Sequences of operations\<close>

text \<open>
  A connection applies one operation after the other; an error (\<open>Some None\<close>) ends it, and \<open>None\<close> is a
  fault. The specification has errors but no faults.
\<close>

fun run_impl :: "('c \<Rightarrow> 'o \<Rightarrow> 'c option option) \<Rightarrow> 'c \<Rightarrow> 'o list \<Rightarrow> 'c option option" where
  "run_impl step s [] = Some (Some s)"
| "run_impl step s (x # xs) =
     (case step s x of None \<Rightarrow> None | Some None \<Rightarrow> Some None | Some (Some s) \<Rightarrow> run_impl step s xs)"

fun run_spec :: "('a \<Rightarrow> 'o \<Rightarrow> 'a option) \<Rightarrow> 'a \<Rightarrow> 'o list \<Rightarrow> 'a option" where
  "run_spec step s [] = Some s"
| "run_spec step s (x # xs) = (case step s x of None \<Rightarrow> None | Some s \<Rightarrow> run_spec step s xs)"

text \<open>What a simulation of every single operation gives for sequences of them.\<close>

locale simulation =
  fixes impl :: "'c \<Rightarrow> 'o \<Rightarrow> 'c option option" and spec :: "'a \<Rightarrow> 'o \<Rightarrow> 'a option" and rel :: "'c \<Rightarrow> 'a \<Rightarrow> bool"
  assumes step: "rel c a \<Longrightarrow>
    (case spec a x of None \<Rightarrow> impl c x = Some None | Some a' \<Rightarrow> \<exists>c'. impl c x = Some (Some c') \<and> rel c' a')"
begin

lemma run:
  "rel c a \<Longrightarrow> (case run_spec spec a xs of None \<Rightarrow> run_impl impl c xs = Some None
    | Some a' \<Rightarrow> \<exists>c'. run_impl impl c xs = Some (Some c') \<and> rel c' a')"
proof (induction xs arbitrary: c a)
  case (Cons x xs)
  show ?case
  proof (cases "spec a x")
    case None
    then show ?thesis using step [OF Cons.prems, of x] by simp
  next
    case (Some a')
    then obtain c' where "impl c x = Some (Some c')" "rel c' a'" using step [OF Cons.prems, of x] by auto
    then show ?thesis using Cons.IH [of c' a'] Some by (auto split: option.splits)
  qed
qed simp

lemma reachable:
  assumes "rel c a" "run_impl impl c xs = Some (Some c')"
  shows "\<exists>a'. run_spec spec a xs = Some a' \<and> rel c' a'"
  using run [OF assms(1), of xs] assms(2) by (auto split: option.splits)

end


section \<open>The static table\<close>

type_synonym v2_header = "byte list \<times> byte list"

definition ngx_http_v2_static_table :: "v2_header list" where
  "ngx_http_v2_static_table = map (\<lambda>(name, v). (bytes name, bytes v))
     [('':authority'', ''''), ('':method'', ''GET''), ('':method'', ''POST''), ('':path'', ''/''),
      ('':path'', ''/index.html''), ('':scheme'', ''http''), ('':scheme'', ''https''),
      ('':status'', ''200''), ('':status'', ''204''), ('':status'', ''206''),
      ('':status'', ''304''), ('':status'', ''400''), ('':status'', ''404''),
      ('':status'', ''500''), (''accept-charset'', ''''), (''accept-encoding'', ''gzip, deflate''),
      (''accept-language'', ''''), (''accept-ranges'', ''''), (''accept'', ''''),
      (''access-control-allow-origin'', ''''), (''age'', ''''), (''allow'', ''''),
      (''authorization'', ''''), (''cache-control'', ''''), (''content-disposition'', ''''),
      (''content-encoding'', ''''), (''content-language'', ''''), (''content-length'', ''''),
      (''content-location'', ''''), (''content-range'', ''''), (''content-type'', ''''),
      (''cookie'', ''''), (''date'', ''''), (''etag'', ''''), (''expect'', ''''),
      (''expires'', ''''), (''from'', ''''), (''host'', ''''), (''if-match'', ''''),
      (''if-modified-since'', ''''), (''if-none-match'', ''''), (''if-range'', ''''),
      (''if-unmodified-since'', ''''), (''last-modified'', ''''), (''link'', ''''),
      (''location'', ''''), (''max-forwards'', ''''), (''proxy-authenticate'', ''''),
      (''proxy-authorization'', ''''), (''range'', ''''), (''referer'', ''''), (''refresh'', ''''),
      (''retry-after'', ''''), (''server'', ''''), (''set-cookie'', ''''),
      (''strict-transport-security'', ''''), (''transfer-encoding'', ''''), (''user-agent'', ''''),
      (''vary'', ''''), (''via'', ''''), (''www-authenticate'', '''')]"

definition NGX_HTTP_V2_STATIC_TABLE_ENTRIES :: nat where
  [ngx_consts]: "NGX_HTTP_V2_STATIC_TABLE_ENTRIES = 61"

definition NGX_HTTP_V2_TABLE_SIZE :: nat where
  [ngx_consts]: "NGX_HTTP_V2_TABLE_SIZE = 4096"

section \<open>The dynamic table\<close>

text \<open>
  The entries are structures on a heap, and the ring \<open>entries\<close> holds pointers to them, since the
  structures of deleted entries are used again. The strings lie in the ring \<open>storage\<close>; an entry
  has their offsets and lengths.
\<close>

record v2_entry =
  en_name_len :: nat
  en_name_data :: nat
  en_value_len :: nat
  en_value_data :: nat

record hpack =
  hp_entries :: "nat list option"
  hp_added :: nat
  hp_deleted :: nat
  hp_reused :: nat
  hp_allocated :: nat
  hp_size :: nat
  hp_free :: nat
  hp_storage :: "byte list"
  hp_pos :: nat
  hp_heap :: "v2_entry list"

text \<open>Access to memory outside of the storage is a fault, \<open>None\<close>.\<close>

definition mem_read :: "byte list \<Rightarrow> nat \<Rightarrow> nat \<Rightarrow> byte list option" where
  "mem_read m p n = (if p + n \<le> length m then Some (take n (drop p m)) else None)"

definition mem_write :: "byte list \<Rightarrow> nat \<Rightarrow> byte list \<Rightarrow> byte list option" where
  "mem_write m p bs =
     (if p + length bs \<le> length m then Some (take p m @ bs @ drop (p + length bs) m) else None)"

text \<open>A string is read from the storage, and written to it, in two parts if it passes the end.\<close>

definition ring_read :: "byte list \<Rightarrow> nat \<Rightarrow> nat \<Rightarrow> byte list option" where
  "ring_read m p n =
     (let rest = NGX_HTTP_V2_TABLE_SIZE - p in
      if rest < n then
        do { a \<leftarrow> mem_read m p rest; b \<leftarrow> mem_read m 0 (n - rest); Some (a @ b) }
      else mem_read m p n)"

definition ring_write :: "byte list \<Rightarrow> nat \<Rightarrow> nat \<Rightarrow> byte list \<Rightarrow> (byte list \<times> nat) option" where
  "ring_write m p avail bs =
     (if length bs \<le> avail then
        do { m \<leftarrow> mem_write m p bs; Some (m, p + length bs) }
      else
        do { m \<leftarrow> mem_write m p (take avail bs);
             m \<leftarrow> mem_write m 0 (drop avail bs);
             Some (m, length bs - avail) })"

text \<open>The entry at a position of the ring; a position that is not in use is a fault.\<close>

definition hp_entry :: "hpack \<Rightarrow> nat \<Rightarrow> v2_entry option" where
  "hp_entry st i =
     (case hp_entries st of
        None \<Rightarrow> None
      | Some es \<Rightarrow>
          if hp_deleted st \<le> i \<and> i < hp_added st \<and> i mod hp_allocated st < length es
             \<and> es ! (i mod hp_allocated st) < length (hp_heap st)
          then Some (hp_heap st ! (es ! (i mod hp_allocated st))) else None)"

text \<open>The outcome of a look-up: the header of the state, which keeps its value when only a name is asked for.\<close>

definition ngx_http_v2_get_indexed_header ::
  "hpack \<Rightarrow> v2_header \<Rightarrow> nat \<Rightarrow> bool \<Rightarrow> v2_header option option"
where
  "ngx_http_v2_get_indexed_header st header index name_only =
     (if index = 0 then Some None
      else
        let index = index - 1 in
        if index < NGX_HTTP_V2_STATIC_TABLE_ENTRIES then Some (Some (ngx_http_v2_static_table ! index))
        else
          let index = index - NGX_HTTP_V2_STATIC_TABLE_ENTRIES in
          if index < hp_added st - hp_deleted st then
            do { entry \<leftarrow> hp_entry st (hp_added st - index - 1);
                 name \<leftarrow> ring_read (hp_storage st) (en_name_data entry) (en_name_len entry);
                 if name_only then Some (Some (name, snd header))
                 else do { v \<leftarrow> ring_read (hp_storage st) (en_value_data entry) (en_value_len entry);
                           Some (Some (name, v)) } }
          else Some None)"

text \<open>Deleting the oldest entry, and the loop that deletes entries until enough space is free.\<close>

definition hp_delete :: "hpack \<Rightarrow> hpack option" where
  "hp_delete st =
     do { entry \<leftarrow> hp_entry st (hp_deleted st);
          Some (st\<lparr>hp_deleted := hp_deleted st + 1,
                   hp_free := hp_free st + (32 + en_name_len entry + en_value_len entry)\<rparr>) }"

lemma hp_delete_measure:
  "hp_delete st = Some st' \<Longrightarrow> hp_added st' - hp_deleted st' < hp_added st - hp_deleted st"
  by (auto simp: hp_delete_def hp_entry_def split: option.splits if_splits bind_splits)

function hp_evict :: "int \<Rightarrow> hpack \<Rightarrow> hpack option" where
  "hp_evict needed st =
     (if int (hp_free st) < needed then
        case hp_delete st of None \<Rightarrow> None | Some st \<Rightarrow> hp_evict needed st
      else Some st)"
  by pat_completeness auto

termination
  by (relation "measure (\<lambda>(_, st). hp_added st - hp_deleted st)") (simp_all add: hp_delete_measure)

declare hp_evict.simps [simp del]

text \<open>Making room for an entry; the flag says whether it can be stored at all.\<close>

definition ngx_http_v2_table_account :: "hpack \<Rightarrow> nat \<Rightarrow> (bool \<times> hpack) option" where
  "ngx_http_v2_table_account st sz =
     (let sz = sz + 32 in
      if sz \<le> hp_free st then Some (True, st\<lparr>hp_free := hp_free st - sz\<rparr>)
      else if hp_size st < sz then
        Some (False, st\<lparr>hp_deleted := hp_added st, hp_free := hp_size st\<rparr>)
      else
        do { st \<leftarrow> hp_delete st;
             st \<leftarrow> hp_evict (int sz) st;
             Some (True, st\<lparr>hp_free := hp_free st - sz\<rparr>) })"

text \<open>The table is allocated with its first entry.\<close>

definition hp_start :: "hpack \<Rightarrow> hpack" where
  "hp_start st =
     (case hp_entries st of
        Some _ \<Rightarrow> st
      | None \<Rightarrow> st\<lparr>hp_allocated := 64, hp_size := NGX_HTTP_V2_TABLE_SIZE, hp_free := NGX_HTTP_V2_TABLE_SIZE,
                  hp_entries := Some (replicate 64 0), hp_pos := 0\<rparr>)"

definition hp_take_entry :: "hpack \<Rightarrow> nat \<times> hpack" where
  "hp_take_entry st =
     (if hp_reused st = hp_deleted st then
        (length (hp_heap st),
         st\<lparr>hp_heap := hp_heap st @ [\<lparr>en_name_len = 0, en_name_data = 0, en_value_len = 0, en_value_data = 0\<rparr>]\<rparr>)
      else
        (the (hp_entries st) ! (hp_reused st mod hp_allocated st), st\<lparr>hp_reused := hp_reused st + 1\<rparr>))"

definition hp_fill :: "v2_header \<Rightarrow> nat \<Rightarrow> hpack \<Rightarrow> hpack option" where
  "hp_fill header p st =
     (let (name, v) = header; avail = NGX_HTTP_V2_TABLE_SIZE - hp_pos st in
      if length (hp_heap st) \<le> p then None
      else do { (m, pos) \<leftarrow> ring_write (hp_storage st) (hp_pos st) avail name;
           let avail = (if length name \<le> avail then avail else NGX_HTTP_V2_TABLE_SIZE);
           let avail = avail - length name;
           (m', pos') \<leftarrow> ring_write m pos avail v;
           Some (st\<lparr>hp_storage := m', hp_pos := pos',
             hp_heap := (hp_heap st)[p := \<lparr>en_name_len = length name, en_name_data = hp_pos st,
               en_value_len = length v, en_value_data = pos\<rparr>]\<rparr>) })"

definition hp_grow :: "hpack \<Rightarrow> hpack" where
  "hp_grow st =
     (if hp_allocated st = hp_added st - hp_deleted st then
        let index = hp_deleted st mod hp_allocated st; es = the (hp_entries st)
        in st\<lparr>hp_entries := Some (drop index es @ take index es @ replicate 64 0),
              hp_added := hp_allocated st, hp_deleted := 0, hp_reused := 0,
              hp_allocated := hp_allocated st + 64\<rparr>
      else st)"

definition hp_push :: "nat \<Rightarrow> hpack \<Rightarrow> hpack" where
  "hp_push p st =
     st\<lparr>hp_entries := map_option (\<lambda>es. es[hp_added st mod hp_allocated st := p]) (hp_entries st),
        hp_added := hp_added st + 1\<rparr>"

definition ngx_http_v2_add_header :: "hpack \<Rightarrow> v2_header \<Rightarrow> hpack option" where
  "ngx_http_v2_add_header st header =
     do { (fits, st) \<leftarrow> ngx_http_v2_table_account (hp_start st) (length (fst header) + length (snd header));
          if \<not> fits then Some st
          else
            let (p, st) = hp_take_entry st in
            do { st \<leftarrow> hp_fill header p st; Some (hp_push p (hp_grow st)) } }"

text \<open>A change of the size; \<open>Some None\<close> is the error for a size the server did not offer.\<close>

definition ngx_http_v2_table_size :: "hpack \<Rightarrow> nat \<Rightarrow> hpack option option" where
  "ngx_http_v2_table_size st sz =
     (if NGX_HTTP_V2_TABLE_SIZE < sz then Some None
      else
        let needed = int (hp_size st) - int sz in
        do { st \<leftarrow> hp_evict needed st;
             Some (Some (st\<lparr>hp_size := sz, hp_free := nat (int (hp_free st) - needed)\<rparr>)) })"

definition hp_init :: "byte list \<Rightarrow> hpack" where
  "hp_init m = \<lparr>hp_entries = None, hp_added = 0, hp_deleted = 0, hp_reused = 0, hp_allocated = 0,
     hp_size = 0, hp_free = 0, hp_storage = m, hp_pos = 0, hp_heap = []\<rparr>"

section \<open>The storage ring\<close>

abbreviation "RING \<equiv> NGX_HTTP_V2_TABLE_SIZE"

lemma RING_pos [simp]: "0 < RING"
  by (simp add: ngx_consts)

definition ring_bytes :: "byte list \<Rightarrow> nat \<Rightarrow> nat \<Rightarrow> byte list" where
  "ring_bytes m p n = map (\<lambda>i. m ! ((p + i) mod RING)) [0..<n]"

lemma ring_mod_past: "RING \<le> x \<Longrightarrow> x < 2 * RING \<Longrightarrow> x mod RING = x - RING"
  by (simp add: le_mod_geq)

lemma ring_read_bytes:
  assumes "length m = RING" "p \<le> RING" "n \<le> RING"
  shows "ring_read m p n = Some (ring_bytes m p n)"
proof (cases "RING - p < n")
  case False
  then have "take n (drop p m) = ring_bytes m p n"
    using assms by (intro nth_equalityI) (auto simp: ring_bytes_def)
  then show ?thesis using False assms by (simp add: ring_read_def mem_read_def)
next
  case True
  have "drop p m @ take (n - (RING - p)) m = ring_bytes m p n"
    using assms True by (intro nth_equalityI) (auto simp: ring_bytes_def nth_append ring_mod_past add.commute)
  then show ?thesis using True assms by (simp add: ring_read_def mem_read_def)
qed

text \<open>What a write does to the ring: the bytes are in place, all others are kept.\<close>

definition ring_updated :: "byte list \<Rightarrow> nat \<Rightarrow> byte list \<Rightarrow> byte list \<Rightarrow> bool" where
  "ring_updated m p bs m' \<longleftrightarrow> length m' = RING
     \<and> (\<forall>i<length bs. m' ! ((p + i) mod RING) = bs ! i)
     \<and> (\<forall>j<RING. (\<forall>i<length bs. (p + i) mod RING \<noteq> j) \<longrightarrow> m' ! j = m ! j)"

lemma ring_write_ok:
  assumes "length m = RING" "p \<le> RING" "length bs \<le> RING"
    and "avail = RING - p \<or> length bs \<le> avail \<and> p + length bs \<le> RING"
  shows "\<exists>m' p'. ring_write m p avail bs = Some (m', p') \<and> p' \<le> RING
    \<and> p' mod RING = (p + length bs) mod RING \<and> ring_updated m p bs m'
    \<and> (if length bs \<le> avail then p' = p + length bs else p' = length bs - avail)"
proof (cases "length bs \<le> avail")
  case True
  then have le: "p + length bs \<le> RING" using assms(2,4) by auto
  let ?m = "take p m @ bs @ drop (p + length bs) m"
  have "?m ! j = m ! j" if "j < RING" "\<forall>i<length bs. (p + i) mod RING \<noteq> j" for j
  proof -
    have "j < p \<or> p + length bs \<le> j"
    proof (rule ccontr)
      assume "\<not> ?thesis"
      then have "j - p < length bs" "(p + (j - p)) mod RING = j" using that(1) by auto
      then show False using that(2) by blast
    qed
    then show ?thesis using assms(1,2) le by (auto simp: nth_append)
  qed
  then have "ring_updated m p bs ?m"
    using le assms(1) by (auto simp: ring_updated_def nth_append)
  then show ?thesis using True le assms(1) by (simp add: ring_write_def mem_write_def)
next
  case False
  then have a: "avail = RING - p" "RING - p < length bs" using assms(4) by auto
  let ?n = "length bs - avail"
  let ?m = "drop avail bs @ drop ?n (take p m) @ take avail bs"
  have n: "?n \<le> p" using a assms(2,3) by simp
  have "?m ! ((p + i) mod RING) = bs ! i" if "i < length bs" for i
  proof (cases "i < avail")
    case True
    then have "(p + i) mod RING = p + i" using a(1) by simp
    then show ?thesis using True n assms(1,2,3) a by (auto simp: nth_append)
  next
    case False
    then have "(p + i) mod RING = i - avail" using a assms(2,3) that by (simp add: ring_mod_past)
    then show ?thesis using False that by (auto simp: nth_append)
  qed
  moreover have "?m ! j = m ! j" if "j < RING" "\<forall>i<length bs. (p + i) mod RING \<noteq> j" for j
  proof -
    have "\<not> j < ?n"
    proof
      assume "j < ?n"
      then have "j + avail < length bs" "(p + (j + avail)) mod RING = j" using a assms(2,3) by auto
      then show False using that(2) by blast
    qed
    moreover have "\<not> p \<le> j"
    proof
      assume "p \<le> j"
      then have "j - p < length bs" "(p + (j - p)) mod RING = j" using that(1) a by auto
      then show False using that(2) by blast
    qed
    ultimately show ?thesis using n assms(1,2) by (auto simp: nth_append)
  qed
  moreover have "length ?m = RING" using a assms n by auto
  ultimately have "ring_updated m p bs ?m" by (simp add: ring_updated_def)
  moreover have "ring_write m p avail bs = Some (?m, ?n)"
    using False a assms n by (simp add: ring_write_def mem_write_def)
  moreover have "p + length bs = ?n + RING" using a assms(2) by simp
  then have "?n mod RING = (p + length bs) mod RING" by simp
  ultimately show ?thesis using False n assms(2) by auto
qed

lemma ring_bytes_written: "ring_updated m p bs m' \<Longrightarrow> ring_bytes m' p (length bs) = bs"
  by (auto simp: ring_updated_def ring_bytes_def intro: nth_equalityI)

lemma ring_bytes_cong: "p mod RING = q mod RING \<Longrightarrow> ring_bytes m p n = ring_bytes m q n"
  unfolding ring_bytes_def by (intro map_cong refl arg_cong [of _ _ "(!) m"]) (metis mod_add_left_eq)

text \<open>Bytes before the position written to are kept as long as the ring is not overfull.\<close>

lemma ring_bytes_kept:
  assumes "ring_updated m p bs m'" "p mod RING = e mod RING" "q + n \<le> e" "e \<le> q + d" "d + length bs \<le> RING"
  shows "ring_bytes m' q n = ring_bytes m q n"
proof -
  have "m' ! ((q + i) mod RING) = m ! ((q + i) mod RING)" if "i < n" for i
  proof -
    have "(p + k) mod RING \<noteq> (q + i) mod RING" if k: "k < length bs" for k
    proof
      assume "(p + k) mod RING = (q + i) mod RING"
      then have "(e + k) mod RING = (q + i) mod RING" using assms(2) by (metis mod_add_left_eq)
      then have "RING dvd (e + k) - (q + i)" by (subst mod_eq_dvd_iff_nat [symmetric]) (use assms(3) that \<open>i < n\<close> in auto)
      moreover have "0 < (e + k) - (q + i)" "(e + k) - (q + i) < RING"
        using assms(3,4,5) k \<open>i < n\<close> by auto
      ultimately show False using nat_dvd_not_less by blast
    qed
    then show ?thesis using assms(1) by (simp add: ring_updated_def)
  qed
  then show ?thesis by (simp add: ring_bytes_def)
qed

section \<open>What the table stands for\<close>

text \<open>
  The dynamic table of RFC 7541: a list of headers, the newest first. An entry counts its strings and 32
  bytes; old entries are evicted from the end of the list.
\<close>

definition header_size :: "v2_header \<Rightarrow> nat" where
  "header_size h = 32 + length (fst h) + length (snd h)"

definition table_size :: "v2_header list \<Rightarrow> nat" where
  "table_size t = sum_list (map header_size t)"

function evict :: "nat \<Rightarrow> v2_header list \<Rightarrow> v2_header list" where
  "evict n t = (if table_size t \<le> n then t else evict n (butlast t))"
  by pat_completeness auto

termination
proof (relation "measure (\<lambda>(_, t). length t)")
  show "((n, butlast t), n, t) \<in> measure (\<lambda>(_, t). length t)" if "\<not> table_size t \<le> n" for n t
    using that by (cases t) (auto simp: table_size_def)
qed simp

declare evict.simps [simp del]

lemma table_size_simps [simp]:
  "table_size [] = 0" "table_size (h # t) = header_size h + table_size t"
  "table_size (s @ t) = table_size s + table_size t"
  by (simp_all add: table_size_def)

lemma evict_fits: "table_size t \<le> n \<Longrightarrow> evict n t = t"
  by (simp add: evict.simps)

lemma evict_snoc: "n < table_size (t @ [h]) \<Longrightarrow> evict n (t @ [h]) = evict n t"
  by (subst evict.simps) simp

lemma table_size_evict: "table_size (evict n t) \<le> n"
  by (induction n t rule: evict.induct) (subst evict.simps, simp)

text \<open>
  A list of entries, the newest first, holds a list of headers: the strings lie in the ring one after
  the other, and the newest ends at the position \<open>e\<close> (counted without wrapping around).
\<close>

fun holds :: "byte list \<Rightarrow> nat \<Rightarrow> v2_entry list \<Rightarrow> v2_header list \<Rightarrow> bool" where
  "holds m e [] t \<longleftrightarrow> t = []"
| "holds m e (en # ens) t \<longleftrightarrow>
     (case t of [] \<Rightarrow> False
      | h # t \<Rightarrow>
          length (fst h) + length (snd h) \<le> e
          \<and> en_name_len en = length (fst h) \<and> en_value_len en = length (snd h)
          \<and> en_name_data en \<le> RING \<and> en_value_data en \<le> RING
          \<and> en_value_data en mod RING = (e - length (snd h)) mod RING
          \<and> en_name_data en mod RING = (e - length (snd h) - length (fst h)) mod RING
          \<and> ring_bytes m (e - length (snd h)) (length (snd h)) = snd h
          \<and> ring_bytes m (e - length (snd h) - length (fst h)) (length (fst h)) = fst h
          \<and> holds m (e - length (snd h) - length (fst h)) ens t)"

lemma holds_length: "holds m e ens t \<Longrightarrow> length ens = length t"
  by (induction m e ens t rule: holds.induct) (auto split: list.splits)

lemma holds_butlast:
  "holds m e (ens @ [en]) (t @ [h]) \<Longrightarrow>
    holds m e ens t \<and> en_name_len en = length (fst h) \<and> en_value_len en = length (snd h)"
proof (induction ens arbitrary: e t)
  case Nil
  then show ?case by (cases t) (auto split: list.splits)
next
  case (Cons a ens)
  show ?case
  proof (cases t)
    case Nil
    then show ?thesis using holds_length [OF Cons.prems] by simp
  next
    case t: (Cons b t')
    then have "holds m (e - length (snd b) - length (fst b)) (ens @ [en]) (t' @ [h])" using Cons.prems by simp
    from Cons.IH [OF this] show ?thesis using Cons.prems t by simp
  qed
qed

lemma holds_nth:
  assumes "holds m e ens t" "k < length t"
  shows "en_name_len (ens ! k) = length (fst (t ! k)) \<and> en_value_len (ens ! k) = length (snd (t ! k))
    \<and> en_name_data (ens ! k) \<le> RING \<and> en_value_data (ens ! k) \<le> RING
    \<and> ring_bytes m (en_name_data (ens ! k)) (length (fst (t ! k))) = fst (t ! k)
    \<and> ring_bytes m (en_value_data (ens ! k)) (length (snd (t ! k))) = snd (t ! k)"
  using assms
proof (induction ens arbitrary: e t k)
  case (Cons en ens)
  obtain h t' where t: "t = h # t'" using Cons.prems(1) by (cases t) auto
  let ?e = "e - length (snd h) - length (fst h)"
  have h: "holds m ?e ens t'" using Cons.prems(1) t by simp
  show ?case
  proof (cases k)
    case 0
    then show ?thesis
      using Cons.prems(1) t ring_bytes_cong [of "en_name_data en" ?e m]
        ring_bytes_cong [of "en_value_data en" "e - length (snd h)" m] by simp
  next
    case (Suc j)
    then show ?thesis using Cons.IH [OF h, of j] Cons.prems(2) t by simp
  qed
qed simp

text \<open>Writing behind the newest entry keeps all of them, if there is room.\<close>

lemma holds_kept:
  assumes "ring_updated m p bs m'" "p mod RING = e mod RING" "d + table_size t + length bs \<le> RING"
    and "holds m x ens t" "x \<le> e" "e \<le> x + d"
  shows "holds m' x ens t"
  using assms(3-6)
proof (induction ens arbitrary: x t d)
  case (Cons en ens)
  obtain h t' where t: "t = h # t'" using Cons.prems(2) by (cases t) auto
  let ?v = "x - length (snd h)" and ?n = "x - length (snd h) - length (fst h)"
  let ?d = "d + length (snd h) + length (fst h)"
  have le: "length (fst h) + length (snd h) \<le> x" using Cons.prems(2) t by simp
  have sz: "?d + table_size t' + length bs \<le> RING" using Cons.prems(1) t by (simp add: header_size_def)
  have "holds m' ?n ens t'"
    using Cons.IH [OF sz, of ?n] Cons.prems le t by auto
  moreover have "ring_bytes m' ?v (length (snd h)) = ring_bytes m ?v (length (snd h))"
    by (rule ring_bytes_kept [OF assms(1,2), of _ _ "d + length (snd h)"]) (use Cons.prems le sz in auto)
  moreover have "ring_bytes m' ?n (length (fst h)) = ring_bytes m ?n (length (fst h))"
    by (rule ring_bytes_kept [OF assms(1,2), of _ _ ?d]) (use Cons.prems le sz in auto)
  ultimately show ?case using Cons.prems(2) t by simp
qed simp

section \<open>The invariant of the table\<close>

definition hp_slots :: "hpack \<Rightarrow> nat \<Rightarrow> nat \<Rightarrow> nat list" where
  "hp_slots st i j = map (\<lambda>k. the (hp_entries st) ! (k mod hp_allocated st)) [i..<j]"

definition hp_ents :: "hpack \<Rightarrow> v2_entry list" where
  "hp_ents st = map ((!) (hp_heap st)) (rev (hp_slots st (hp_deleted st) (hp_added st)))"

definition entries_ok :: "nat list option \<Rightarrow> nat \<Rightarrow> bool" where
  "entries_ok es n = (case es of None \<Rightarrow> n = 0 | Some es \<Rightarrow> 0 < n \<and> length es = n)"

text \<open>
  The slots from \<open>reused\<close> to \<open>added\<close> hold different pointers, so a structure is never used for two
  entries; the ones from \<open>deleted\<close> on are the entries of the table.
\<close>

definition hp_ring :: "hpack \<Rightarrow> bool" where
  "hp_ring st \<longleftrightarrow> hp_reused st \<le> hp_deleted st \<and> hp_deleted st \<le> hp_added st
     \<and> hp_added st - hp_reused st \<le> hp_allocated st
     \<and> entries_ok (hp_entries st) (hp_allocated st)
     \<and> distinct (hp_slots st (hp_reused st) (hp_added st))
     \<and> list_all (\<lambda>p. p < length (hp_heap st)) (hp_slots st (hp_reused st) (hp_added st))"

definition hp_stored :: "hpack \<Rightarrow> v2_entry list \<Rightarrow> v2_header list \<Rightarrow> nat \<Rightarrow> bool" where
  "hp_stored st ens t e \<longleftrightarrow> length (hp_storage st) = RING \<and> hp_pos st \<le> RING \<and> hp_pos st mod RING = e mod RING
     \<and> holds (hp_storage st) e ens t"

definition hp_core :: "hpack \<Rightarrow> v2_header list \<Rightarrow> nat \<Rightarrow> bool" where
  "hp_core st t e \<longleftrightarrow> hp_ring st \<and> hp_stored st (hp_ents st) t e"

lemmas hp_core_defs = hp_core_def hp_ring_def hp_stored_def

definition hp_acc :: "hpack \<Rightarrow> v2_header list \<Rightarrow> bool" where
  "hp_acc st t \<longleftrightarrow> hp_free st + table_size t = hp_size st \<and> hp_size st \<le> RING
     \<and> (hp_entries st = None \<longrightarrow> t = [])"

lemma hp_slots_split:
  "i \<le> j \<Longrightarrow> j \<le> k \<Longrightarrow> hp_slots st i k = hp_slots st i j @ hp_slots st j k"
  using upt_add_eq_append [of i j "k - j"] by (simp add: hp_slots_def)

lemma hp_slots_Suc: "i < j \<Longrightarrow> hp_slots st i j = the (hp_entries st) ! (i mod hp_allocated st) # hp_slots st (Suc i) j"
  by (simp add: hp_slots_def upt_conv_Cons)

lemma hp_slots_nth [simp]: "k < j - i \<Longrightarrow> hp_slots st i j ! k = the (hp_entries st) ! ((i + k) mod hp_allocated st)"
  "length (hp_slots st i j) = j - i"
  by (simp_all add: hp_slots_def)

lemma hp_slots_update [simp]:
  "hp_slots (st\<lparr>hp_deleted := d\<rparr>) = hp_slots st" "hp_slots (st\<lparr>hp_free := f\<rparr>) = hp_slots st"
  "hp_slots (st\<lparr>hp_reused := r\<rparr>) = hp_slots st" "hp_slots (st\<lparr>hp_heap := h\<rparr>) = hp_slots st"
  "hp_slots (st\<lparr>hp_storage := m\<rparr>) = hp_slots st" "hp_slots (st\<lparr>hp_pos := p\<rparr>) = hp_slots st"
  "hp_slots (st\<lparr>hp_size := s\<rparr>) = hp_slots st" "hp_slots (st\<lparr>hp_added := a\<rparr>) = hp_slots st"
  by (simp_all add: hp_slots_def fun_eq_iff)

lemma hp_ents_update [simp]:
  "hp_ents (st\<lparr>hp_free := f\<rparr>) = hp_ents st" "hp_ents (st\<lparr>hp_size := s\<rparr>) = hp_ents st"
  "hp_ents (st\<lparr>hp_reused := r\<rparr>) = hp_ents st" "hp_ents (st\<lparr>hp_storage := m\<rparr>) = hp_ents st"
  "hp_ents (st\<lparr>hp_pos := p\<rparr>) = hp_ents st"
  by (simp_all add: hp_ents_def)

lemma hp_core_update [simp]:
  "hp_core (st\<lparr>hp_free := f\<rparr>) t e = hp_core st t e" "hp_core (st\<lparr>hp_size := s\<rparr>) t e = hp_core st t e"
  by (simp_all add: hp_core_defs)

lemma hp_core_length: "hp_core st t e \<Longrightarrow> length t = hp_added st - hp_deleted st"
  using holds_length [of "hp_storage st" e "hp_ents st" t] by (simp add: hp_core_defs hp_ents_def)

lemma hp_core_entry:
  assumes "hp_core st t e" "k < length t"
  shows "hp_entry st (hp_added st - k - 1) = Some (hp_ents st ! k)"
proof -
  have n: "length t = hp_added st - hp_deleted st" by (rule hp_core_length [OF assms(1)])
  let ?i = "hp_added st - k - 1"
  have i: "hp_deleted st \<le> ?i" "?i < hp_added st" using assms(2) n by auto
  obtain es where es: "hp_entries st = Some es" "0 < hp_allocated st" "length es = hp_allocated st"
    using assms i by (cases "hp_entries st") (auto simp: hp_core_defs entries_ok_def)
  have "es ! (?i mod hp_allocated st) \<in> set (hp_slots st (hp_reused st) (hp_added st))"
    using assms(1) i es(1) by (force simp: hp_slots_def hp_core_defs)
  then have "es ! (?i mod hp_allocated st) < length (hp_heap st)"
    using assms(1) by (auto simp: hp_core_defs list_all_iff)
  moreover have "hp_ents st ! k = hp_heap st ! (es ! (?i mod hp_allocated st))"
  proof -
    have "hp_added st - hp_deleted st - Suc k + hp_deleted st = ?i" using assms(2) n by simp
    then show ?thesis using assms(2) n es(1) by (simp add: hp_ents_def rev_nth add.commute)
  qed
  ultimately show ?thesis using i es by (simp add: hp_entry_def)
qed

section \<open>Eviction\<close>

lemma hp_core_delete:
  assumes "hp_core st (t @ [h]) e"
  shows "\<exists>st'. hp_delete st = Some st' \<and> hp_core st' t e \<and> hp_free st' = hp_free st + header_size h
    \<and> hp_size st' = hp_size st \<and> hp_entries st' = hp_entries st"
proof -
  let ?st = "st\<lparr>hp_deleted := hp_deleted st + 1, hp_free := hp_free st + header_size h\<rparr>"
  have n: "hp_deleted st < hp_added st" "length t = hp_added st - hp_deleted st - 1"
    using hp_core_length [OF assms] by simp_all
  have i: "hp_added st - length t - 1 = hp_deleted st" using n by simp
  let ?en = "hp_heap st ! (the (hp_entries st) ! (hp_deleted st mod hp_allocated st))"
  have ents: "hp_ents st = hp_ents ?st @ [?en]"
    using n(1) by (simp add: hp_ents_def hp_slots_Suc)
  have "holds (hp_storage st) e (hp_ents ?st @ [?en]) (t @ [h])"
    using assms unfolding ents [symmetric] by (simp add: hp_core_defs)
  note hb = holds_butlast [OF this]
  have "hp_ents st ! length t = ?en" using ents n(2) by (simp add: nth_append hp_ents_def)
  then have b: "holds (hp_storage st) e (hp_ents ?st) t"
      "en_name_len (hp_ents st ! length t) = length (fst h)" "en_value_len (hp_ents st ! length t) = length (snd h)"
    using hb by simp_all
  have "hp_delete st = Some ?st"
    using hp_core_entry [OF assms, of "length t"] b(2,3) i by (simp add: hp_delete_def header_size_def)
  moreover have "hp_core ?st t e" using assms b(1) n(1) by (simp add: hp_core_defs)
  ultimately show ?thesis by simp
qed

lemma hp_core_evict:
  assumes "hp_core st t e" "hp_free st + table_size t = n" "needed \<le> int n"
  shows "\<exists>st'. hp_evict needed st = Some st' \<and> hp_core st' (evict (nat (int n - needed)) t) e
    \<and> hp_free st' + table_size (evict (nat (int n - needed)) t) = n \<and> needed \<le> int (hp_free st')
    \<and> hp_size st' = hp_size st \<and> hp_entries st' = hp_entries st"
  using assms(1,2)
proof (induction t arbitrary: st rule: rev_induct)
  case Nil
  then show ?case using assms(3) by (simp add: hp_evict.simps evict_fits)
next
  case (snoc h t)
  show ?case
  proof (cases "int (hp_free st) < needed")
    case False
    then have "evict (nat (int n - needed)) (t @ [h]) = t @ [h]" using snoc.prems(2) by (intro evict_fits) auto
    then show ?thesis using False snoc.prems by (simp add: hp_evict.simps)
  next
    case True
    then have v: "evict (nat (int n - needed)) (t @ [h]) = evict (nat (int n - needed)) t"
      using snoc.prems(2) assms(3) by (intro evict_snoc) arith
    obtain st' where s: "hp_delete st = Some st'" "hp_core st' t e" "hp_free st' = hp_free st + header_size h"
        "hp_size st' = hp_size st" "hp_entries st' = hp_entries st"
      using hp_core_delete [OF snoc.prems(1)] by auto
    have "hp_free st' + table_size t = n" using s(3) snoc.prems(2) by simp
    from snoc.IH [OF s(2) this] show ?thesis using True s by (subst hp_evict.simps) (simp add: v)
  qed
qed

lemma hp_account_ok:
  assumes "hp_core st t e" "hp_acc st t" "32 + n \<le> hp_size st"
  shows "\<exists>st'. ngx_http_v2_table_account st n = Some (True, st')
    \<and> hp_core st' (evict (hp_size st - (32 + n)) t) e
    \<and> hp_free st' + table_size (evict (hp_size st - (32 + n)) t) + (32 + n) = hp_size st
    \<and> hp_size st' = hp_size st \<and> hp_entries st' = hp_entries st"
proof (cases "32 + n \<le> hp_free st")
  case True
  then have "evict (hp_size st - (32 + n)) t = t" using assms(2) by (intro evict_fits) (auto simp: hp_acc_def)
  then show ?thesis using True assms by (auto simp: ngx_http_v2_table_account_def hp_acc_def)
next
  case False
  have i: "nat (int (hp_size st) - int (32 + n)) = hp_size st - (32 + n)" by simp
  obtain st' where s: "hp_evict (int (32 + n)) st = Some st'" "hp_core st' (evict (hp_size st - (32 + n)) t) e"
      "hp_free st' + table_size (evict (hp_size st - (32 + n)) t) = hp_size st" "32 + n \<le> hp_free st'"
      "hp_size st' = hp_size st" "hp_entries st' = hp_entries st"
    using hp_core_evict [OF assms(1), of "hp_size st" "int (32 + n)", unfolded i] assms(2,3)
    unfolding hp_acc_def of_nat_le_iff by blast
  have "int (hp_free st) < int (32 + n)" using False by simp
  then have "hp_evict (int (32 + n)) st = Option.bind (hp_delete st) (hp_evict (int (32 + n)))"
    by (subst hp_evict.simps) (simp split: option.split)
  then have "ngx_http_v2_table_account st n = Some (True, st'\<lparr>hp_free := hp_free st' - (32 + n)\<rparr>)"
    using False s(1) assms(3)
    by (simp add: ngx_http_v2_table_account_def Let_def add.commute flip: bind_assoc)
  then show ?thesis using s by simp
qed

lemma hp_account_declined:
  assumes "hp_core st t e" "hp_acc st t" "hp_size st < 32 + n"
  shows "\<exists>st'. ngx_http_v2_table_account st n = Some (False, st') \<and> hp_core st' [] e \<and> hp_acc st' []
    \<and> hp_size st' = hp_size st \<and> hp_entries st' = hp_entries st"
  using assms
  by (auto simp: ngx_http_v2_table_account_def hp_acc_def hp_core_defs hp_ents_def hp_slots_def)

section \<open>Adding a header\<close>

lemma hp_take_ok:
  assumes "hp_core st t e" "hp_take_entry st = (p, st')" "hp_entries st \<noteq> None"
  shows "hp_core st' t e \<and> p < length (hp_heap st') \<and> p \<notin> set (hp_slots st' (hp_reused st') (hp_added st'))
    \<and> (hp_added st' - hp_reused st' < hp_allocated st' \<or> hp_reused st' = hp_deleted st')
    \<and> hp_free st' = hp_free st \<and> hp_size st' = hp_size st \<and> hp_entries st' \<noteq> None"
proof (cases "hp_reused st = hp_deleted st")
  case True
  then have s: "p = length (hp_heap st)" "st' = st\<lparr>hp_heap := hp_heap st @
      [\<lparr>en_name_len = 0, en_name_data = 0, en_value_len = 0, en_value_data = 0\<rparr>]\<rparr>"
    using assms(2) by (auto simp: hp_take_entry_def)
  have l: "list_all (\<lambda>p. p < length (hp_heap st)) (hp_slots st (hp_deleted st) (hp_added st))"
    using assms(1) True by (simp add: hp_core_defs)
  then have "hp_ents st' = hp_ents st"
    by (auto simp: hp_ents_def s list_all_iff nth_append)
  then show ?thesis
    using assms(1,3) l True by (auto simp: hp_core_defs s list_all_iff less_Suc_eq)
next
  case False
  then have s: "p = the (hp_entries st) ! (hp_reused st mod hp_allocated st)" "st' = st\<lparr>hp_reused := hp_reused st + 1\<rparr>"
    using assms(2) by (auto simp: hp_take_entry_def)
  have r: "hp_reused st < hp_deleted st" "hp_deleted st \<le> hp_added st" using False assms(1) by (auto simp: hp_core_defs)
  then have "hp_slots st (hp_reused st) (hp_added st) = p # hp_slots st (Suc (hp_reused st)) (hp_added st)"
    by (simp add: hp_slots_Suc s(1))
  then show ?thesis using assms(1,3) r by (auto simp: hp_core_defs s(2))
qed

lemma hp_fill_ok:
  assumes "hp_core st t e" "p < length (hp_heap st)" "p \<notin> set (hp_slots st (hp_reused st) (hp_added st))"
    and "table_size t + header_size h \<le> RING"
  shows "\<exists>m pos en. hp_fill h p st = Some (st\<lparr>hp_storage := m, hp_pos := pos, hp_heap := (hp_heap st)[p := en]\<rparr>)
    \<and> hp_stored (st\<lparr>hp_storage := m, hp_pos := pos\<rparr>) (en # hp_ents st) (h # t) (e + length (fst h) + length (snd h))"
proof -
  obtain name v where h: "h = (name, v)" by (cases h)
  have c: "length (hp_storage st) = RING" "hp_pos st \<le> RING" "hp_pos st mod RING = e mod RING"
      "holds (hp_storage st) e (hp_ents st) t"
    using assms(1) by (simp_all add: hp_core_defs)
  have sz: "length name + length v + table_size t \<le> RING" using assms(4) h by (simp add: header_size_def)
  obtain m1 p1 where w1: "ring_write (hp_storage st) (hp_pos st) (RING - hp_pos st) name = Some (m1, p1)"
      "p1 \<le> RING" "p1 mod RING = (hp_pos st + length name) mod RING" "ring_updated (hp_storage st) (hp_pos st) name m1"
      "if length name \<le> RING - hp_pos st then p1 = hp_pos st + length name else p1 = length name - (RING - hp_pos st)"
    using ring_write_ok [OF c(1,2), of name "RING - hp_pos st"] sz add_leD1 by blast
  have l1: "length m1 = RING" using w1(4) by (simp add: ring_updated_def)
  let ?avail = "(if length name \<le> RING - hp_pos st then RING - hp_pos st else RING) - length name"
  have "?avail = RING - p1 \<or> length v \<le> ?avail \<and> p1 + length v \<le> RING" using w1(5) sz c(2) by (auto split: if_splits)
  then obtain m2 p2 where w2: "ring_write m1 p1 ?avail v = Some (m2, p2)" "p2 \<le> RING"
      "p2 mod RING = (p1 + length v) mod RING" "ring_updated m1 p1 v m2"
    using ring_write_ok [OF l1 w1(2), of v ?avail] sz add_leD1 add_leD2 by blast
  let ?en = "\<lparr>en_name_len = length name, en_name_data = hp_pos st, en_value_len = length v, en_value_data = p1\<rparr>"
  have p1: "p1 mod RING = (e + length name) mod RING" using w1(3) c(3) by (metis mod_add_left_eq)
  have p2: "p2 mod RING = (e + length name + length v) mod RING" using w2(3) p1 by (metis mod_add_left_eq)
  have "holds m1 e (hp_ents st) t" by (rule holds_kept [OF w1(4) c(3), of 0]) (use c sz in auto)
  then have "holds m2 e (hp_ents st) t" by (intro holds_kept [OF w2(4) p1, of "length name"]) (use sz in auto)
  moreover have "ring_bytes m2 (e + length name) (length v) = v"
    using ring_bytes_written [OF w2(4)] ring_bytes_cong [OF p1] by simp
  moreover have "ring_bytes m2 e (length name) = name"
    using ring_bytes_kept [OF w2(4) p1, of e "length name" "length name"] sz ring_bytes_written [OF w1(4)]
      ring_bytes_cong [OF c(3)] by simp
  ultimately have "hp_stored (st\<lparr>hp_storage := m2, hp_pos := p2\<rparr>) (?en # hp_ents st) (h # t) (e + length name + length v)"
    using c w1(2) w2(2,4) p1 p2 by (simp add: hp_stored_def h ring_updated_def)
  moreover have "hp_fill h p st = Some (st\<lparr>hp_storage := m2, hp_pos := p2, hp_heap := (hp_heap st)[p := ?en]\<rparr>)"
    using w1(1) w2(1) assms(2) by (simp add: hp_fill_def h)
  ultimately show ?thesis using h by auto
qed

lemma mod_wrap: "(i + k) mod n = (if k < n - i then i + k else k - (n - i))" if "i < n" "k < n" for i k n :: nat
  using that by (simp add: le_mod_geq add.commute)

lemma hp_grow_slots:
  assumes "hp_ring st" "hp_entries st \<noteq> None" "hp_allocated st = hp_added st - hp_deleted st"
  shows "hp_slots (hp_grow st) 0 (hp_allocated st) = hp_slots st (hp_deleted st) (hp_added st)"
proof (rule nth_equalityI)
  show "length (hp_slots (hp_grow st) 0 (hp_allocated st)) = length (hp_slots st (hp_deleted st) (hp_added st))"
    using assms(3) by simp
next
  fix k assume "k < length (hp_slots (hp_grow st) 0 (hp_allocated st))"
  then have k: "k < hp_allocated st" by simp
  obtain es where es: "hp_entries st = Some es" "length es = hp_allocated st"
    using assms(1,2) by (auto simp: hp_ring_def entries_ok_def)
  let ?A = "hp_allocated st" and ?i = "hp_deleted st mod hp_allocated st"
  have i: "?i < ?A" using k by simp
  have "(hp_deleted st + k) mod ?A = (?i + k) mod ?A" by (simp add: mod_add_left_eq)
  also have "\<dots> = (if k < ?A - ?i then ?i + k else k - (?A - ?i))" by (rule mod_wrap [OF i k])
  finally have m: "(hp_deleted st + k) mod ?A = (if k < ?A - ?i then ?i + k else k - (?A - ?i))" .
  have "hp_entries (hp_grow st) = Some (drop ?i es @ take ?i es @ replicate 64 0)" "hp_allocated (hp_grow st) = ?A + 64"
    using assms(3) es(1) by (simp_all add: hp_grow_def Let_def)
  then have "hp_slots (hp_grow st) 0 ?A ! k = (drop ?i es @ take ?i es @ replicate 64 0) ! k"
    using k by simp
  also have "\<dots> = es ! ((hp_deleted st + k) mod ?A)"
    using es(2) k i by (simp only: m) (auto simp: nth_append)
  also have "\<dots> = hp_slots st (hp_deleted st) (hp_added st) ! k" using k assms(3) es(1) by simp
  finally show "hp_slots (hp_grow st) 0 (hp_allocated st) ! k = hp_slots st (hp_deleted st) (hp_added st) ! k" .
qed

lemma hp_grow_ok:
  assumes "hp_ring st" "hp_entries st \<noteq> None"
    and "hp_added st - hp_reused st < hp_allocated st \<or> hp_reused st = hp_deleted st"
  shows "hp_ring (hp_grow st) \<and> hp_added (hp_grow st) - hp_reused (hp_grow st) < hp_allocated (hp_grow st)
    \<and> hp_slots (hp_grow st) (hp_reused (hp_grow st)) (hp_added (hp_grow st)) = hp_slots st (hp_reused st) (hp_added st)
    \<and> hp_ents (hp_grow st) = hp_ents st \<and> hp_entries (hp_grow st) \<noteq> None"
proof (cases "hp_allocated st = hp_added st - hp_deleted st")
  case False
  then show ?thesis using assms by (auto simp: hp_grow_def hp_ring_def)
next
  case True
  then have r: "hp_reused st = hp_deleted st" using assms(1,3) by (auto simp: hp_ring_def)
  obtain es where es: "hp_entries st = Some es" "length es = hp_allocated st" "0 < hp_allocated st"
    using assms(1,2) by (auto simp: hp_ring_def entries_ok_def)
  let ?i = "hp_deleted st mod hp_allocated st"
  have e: "hp_entries (hp_grow st) = Some (drop ?i es @ take ?i es @ replicate 64 0)"
    using True es(1) by (simp add: hp_grow_def Let_def)
  have f: "hp_added (hp_grow st) = hp_allocated st" "hp_deleted (hp_grow st) = 0" "hp_reused (hp_grow st) = 0"
      "hp_allocated (hp_grow st) = hp_allocated st + 64" "hp_heap (hp_grow st) = hp_heap st"
    using True by (simp_all add: hp_grow_def Let_def)
  have "?i \<le> length es" using es by simp
  then have "entries_ok (hp_entries (hp_grow st)) (hp_allocated (hp_grow st))" "hp_entries (hp_grow st) \<noteq> None"
    unfolding e f(4) by (simp_all add: entries_ok_def es(2))
  note f = f this
  note g = hp_grow_slots [OF assms(1,2) True]
  then show ?thesis using assms(1) f r by (simp add: hp_ring_def hp_ents_def)
qed

lemma hp_push_ok:
  assumes "hp_ring st" "hp_entries st \<noteq> None" "hp_added st - hp_reused st < hp_allocated st"
    and "p < length (hp_heap st)" "p \<notin> set (hp_slots st (hp_reused st) (hp_added st))"
  shows "hp_ring (hp_push p st) \<and> hp_ents (hp_push p st) = hp_heap st ! p # hp_ents st"
proof -
  obtain es where es: "hp_entries st = Some es" "length es = hp_allocated st" "0 < hp_allocated st"
    using assms(1,2) by (auto simp: hp_ring_def entries_ok_def)
  have d: "hp_reused st \<le> hp_deleted st" "hp_deleted st \<le> hp_added st" using assms(1) by (simp_all add: hp_ring_def)
  have k: "hp_slots (hp_push p st) i (hp_added st) = hp_slots st i (hp_added st)" if "hp_reused st \<le> i" for i
  proof -
    have "hp_added st mod hp_allocated st \<noteq> k mod hp_allocated st" if "i \<le> k" "k < hp_added st" for k
    proof
      assume "hp_added st mod hp_allocated st = k mod hp_allocated st"
      then have "hp_allocated st dvd hp_added st - k" using that(2) by (metis less_imp_le mod_eq_dvd_iff_nat)
      then show False using that \<open>hp_reused st \<le> i\<close> assms(3) by (auto dest!: dvd_imp_le)
    qed
    then show ?thesis using es by (auto simp: hp_slots_def hp_push_def)
  qed
  have s: "hp_slots (hp_push p st) i (Suc (hp_added st)) = hp_slots st i (hp_added st) @ [p]"
    if "hp_reused st \<le> i" "i \<le> hp_added st" for i
    using hp_slots_split [of i "hp_added st" "Suc (hp_added st)" "hp_push p st"] k [OF that(1)] that(2) es
    by (simp add: hp_slots_def [of _ "hp_added st"]) (simp add: hp_push_def)
  have f: "hp_reused (hp_push p st) = hp_reused st" "hp_deleted (hp_push p st) = hp_deleted st"
      "hp_added (hp_push p st) = Suc (hp_added st)" "hp_allocated (hp_push p st) = hp_allocated st"
      "hp_heap (hp_push p st) = hp_heap st" "entries_ok (hp_entries (hp_push p st)) (hp_allocated st)"
    using es by (simp_all add: hp_push_def entries_ok_def)
  show ?thesis
    using assms d s [of "hp_reused st"] s [of "hp_deleted st"] by (auto simp: hp_ring_def hp_ents_def f)
qed

section \<open>The operations together\<close>

text \<open>
  The structures of the entries are exactly those in the slots from \<open>reused\<close> on (and those just taken), and
  the ring never needs more than 128 slots.
\<close>

definition hp_lean :: "nat \<Rightarrow> hpack \<Rightarrow> bool" where
  "hp_lean taken st \<longleftrightarrow> length (hp_heap st) = hp_added st - hp_reused st + taken \<and> hp_allocated st \<le> 128
     \<and> 64 dvd hp_allocated st"

definition hp_inv :: "hpack \<Rightarrow> v2_header list \<Rightarrow> bool" where
  "hp_inv st t \<longleftrightarrow> (\<exists>e. hp_core st t e) \<and> hp_acc st t \<and> hp_lean 0 st"

lemma hp_delete_fields: "hp_delete st = Some st' \<Longrightarrow> hp_lean n st' = hp_lean n st \<and> hp_entries st' = hp_entries st"
  by (auto simp: hp_delete_def hp_lean_def split: bind_splits)

lemma hp_evict_fields: "hp_evict needed st = Some st' \<Longrightarrow> hp_lean n st' = hp_lean n st"
proof (induction needed st rule: hp_evict.induct)
  case (1 needed st)
  from 1(2) show ?case
    by (subst (asm) hp_evict.simps) (auto split: if_splits option.splits dest: hp_delete_fields 1(1))
qed

lemma hp_account_fields:
  assumes "ngx_http_v2_table_account st n = Some (b, st')"
  shows "hp_lean k st' = hp_lean k st"
proof -
  have u: "hp_lean k (st\<lparr>hp_free := f\<rparr>) = hp_lean k st" "hp_lean k (st\<lparr>hp_deleted := d\<rparr>) = hp_lean k st"
    for st f d by (simp_all add: hp_lean_def)
  show ?thesis
    using assms
    by (auto simp: ngx_http_v2_table_account_def Let_def u split: if_splits bind_splits
        dest!: hp_evict_fields [where n = k] hp_delete_fields [where n = k])
qed

lemma hp_start_inv:
  assumes "hp_inv st t"
  shows "hp_inv (hp_start st) t \<and> hp_entries (hp_start st) \<noteq> None
    \<and> hp_size (hp_start st) = (if hp_entries st = None then RING else hp_size st)"
proof (cases "hp_entries st")
  case None
  obtain e where c: "hp_core st t e" using assms by (auto simp: hp_inv_def)
  have t: "t = []" using assms None by (simp add: hp_inv_def hp_acc_def)
  have z: "hp_allocated st = 0" using c None by (simp add: hp_core_defs entries_ok_def)
  then have a: "hp_reused st = hp_added st" "hp_deleted st = hp_added st" using c by (auto simp: hp_core_defs)
  have "hp_core (hp_start st) [] 0"
    using c None a by (simp add: hp_core_defs hp_start_def hp_slots_def hp_ents_def entries_ok_def)
  moreover have "hp_lean 0 (hp_start st)" using assms None a by (simp add: hp_inv_def hp_lean_def hp_start_def)
  ultimately show ?thesis using None t by (auto simp: hp_inv_def hp_acc_def hp_start_def)
next
  case (Some es)
  then show ?thesis using assms by (simp add: hp_start_def)
qed

lemma table_size_length: "32 * length t \<le> table_size t"
  by (induction t) (auto simp: header_size_def)

lemma hp_heap_ents:
  assumes "hp_ring st" "p \<notin> set (hp_slots st (hp_reused st) (hp_added st))"
  shows "hp_ents (st\<lparr>hp_heap := (hp_heap st)[p := en]\<rparr>) = hp_ents st"
proof -
  have "hp_slots st (hp_reused st) (hp_added st) =
      hp_slots st (hp_reused st) (hp_deleted st) @ hp_slots st (hp_deleted st) (hp_added st)"
    using assms(1) by (intro hp_slots_split) (simp_all add: hp_ring_def)
  then have "p \<notin> set (hp_slots st (hp_deleted st) (hp_added st))" using assms(2) by simp
  then show ?thesis by (auto simp: hp_ents_def intro!: nth_list_update_neq)
qed

lemma hp_grow_lean:
  assumes "hp_lean 1 st" "hp_ring st" "hp_added st - hp_reused st < hp_allocated st \<or> hp_reused st = hp_deleted st"
    and "hp_added st - hp_deleted st < 128"
  shows "hp_lean 1 (hp_grow st)"
proof (cases "hp_allocated st = hp_added st - hp_deleted st")
  case True
  then have "hp_reused st = hp_deleted st" using assms(2,3) by (auto simp: hp_ring_def)
  moreover obtain q where "hp_allocated st = 64 * q" using assms(1) by (auto simp: hp_lean_def)
  then have "hp_allocated st \<le> 64" using True assms(4) by auto
  ultimately show ?thesis using True assms(1) by (auto simp: hp_lean_def hp_grow_def Let_def)
qed (use assms(1) in \<open>simp add: hp_grow_def\<close>)

lemma hp_insert_inv:
  assumes "hp_core st t e" "hp_free st + table_size t + header_size h = hp_size st" "hp_size st \<le> RING"
    and "hp_entries st \<noteq> None" "hp_lean 0 st" "hp_take_entry st = (p, st1)"
  shows "\<exists>st2. hp_fill h p st1 = Some st2 \<and> hp_inv (hp_push p (hp_grow st2)) (h # t)
    \<and> hp_entries (hp_push p (hp_grow st2)) \<noteq> None \<and> hp_size (hp_push p (hp_grow st2)) = hp_size st"
proof -
  note tk = hp_take_ok [OF assms(1,6,4)]
  have c1: "hp_core st1 t e" and p: "p < length (hp_heap st1)" "p \<notin> set (hp_slots st1 (hp_reused st1) (hp_added st1))"
    and r: "hp_added st1 - hp_reused st1 < hp_allocated st1 \<or> hp_reused st1 = hp_deleted st1"
    and f1: "hp_free st1 = hp_free st" "hp_size st1 = hp_size st" "hp_entries st1 \<noteq> None"
    using tk by blast+
  have room: "table_size t + header_size h \<le> RING" using assms(2,3) by simp
  obtain m pos en where s: "hp_fill h p st1 = Some (st1\<lparr>hp_storage := m, hp_pos := pos, hp_heap := (hp_heap st1)[p := en]\<rparr>)"
      "hp_stored (st1\<lparr>hp_storage := m, hp_pos := pos\<rparr>) (en # hp_ents st1) (h # t) (e + length (fst h) + length (snd h))"
    using hp_fill_ok [OF c1 p room] by blast
  let ?st2 = "st1\<lparr>hp_storage := m, hp_pos := pos, hp_heap := (hp_heap st1)[p := en]\<rparr>"
  have ring1: "hp_ring st1" using c1 by (simp add: hp_core_def)
  then have ring2: "hp_ring ?st2" by (simp add: hp_ring_def)
  have ents2: "hp_ents ?st2 = hp_ents st1"
    using hp_heap_ents [OF ring1 p(2), of en] by (simp add: hp_ents_def)
  have e2: "hp_entries ?st2 \<noteq> None" "hp_added ?st2 - hp_reused ?st2 < hp_allocated ?st2 \<or> hp_reused ?st2 = hp_deleted ?st2"
    using f1(3) r by simp_all
  note g = hp_grow_ok [OF ring2 e2]
  have heap: "hp_heap (hp_grow ?st2) = (hp_heap st1)[p := en]" and "hp_size (hp_grow ?st2) = hp_size st"
      and "hp_free (hp_grow ?st2) = hp_free st" and st: "hp_storage (hp_grow ?st2) = m" "hp_pos (hp_grow ?st2) = pos"
    using f1 by (simp_all add: hp_grow_def Let_def)
  have p2: "p < length (hp_heap (hp_grow ?st2))"
      "p \<notin> set (hp_slots (hp_grow ?st2) (hp_reused (hp_grow ?st2)) (hp_added (hp_grow ?st2)))"
    using p heap g by simp_all
  note u = hp_push_ok [OF _ _ _ p2]
  have "hp_ents (hp_push p (hp_grow ?st2)) = en # hp_ents st1" using u g p(1) heap ents2 by simp
  moreover have "hp_stored (hp_push p (hp_grow ?st2)) ens l x = hp_stored (st1\<lparr>hp_storage := m, hp_pos := pos\<rparr>) ens l x" for ens l x
    using st by (simp add: hp_stored_def hp_push_def)
  ultimately have core: "hp_core (hp_push p (hp_grow ?st2)) (h # t) (e + length (fst h) + length (snd h))"
    using u g s(2) by (simp add: hp_core_def)
  have "length t = hp_added st1 - hp_deleted st1" by (rule hp_core_length [OF c1])
  then have few: "hp_added ?st2 - hp_deleted ?st2 < 128"
    using table_size_length [of t] room by (simp add: header_size_def ngx_consts)
  have "hp_lean 1 ?st2" using assms(1,5,6)
    by (auto simp: hp_take_entry_def hp_lean_def hp_core_defs split: if_splits)
  from hp_grow_lean [OF this ring2 e2(2) few] have "hp_lean 0 (hp_push p (hp_grow ?st2))"
    using g by (auto simp: hp_lean_def hp_push_def hp_ring_def)
  moreover have "hp_acc (hp_push p (hp_grow ?st2)) (h # t)"
    using assms(2,3) f1 \<open>hp_size (hp_grow ?st2) = hp_size st\<close> \<open>hp_free (hp_grow ?st2) = hp_free st\<close> g
    by (simp add: hp_acc_def hp_push_def)
  ultimately show ?thesis using core s(1) g \<open>hp_size (hp_grow ?st2) = hp_size st\<close>
    by (auto simp: hp_inv_def hp_push_def)
qed

text \<open>
  The specification: the dynamic table of RFC 7541, section 4. It is a list of headers, the newest
  first, with a maximum size that is 4096 until a size update changes it; an insertion evicts from the
  end what does not fit beside the new header, and a header larger than the maximum size empties the
  table. Index 1 is the first header of the static table, and the dynamic table follows it. A reference
  to a dynamic name only leaves the value of the header alone.
\<close>

record rfc_table =
  rfc_size :: nat
  rfc_headers :: "v2_header list"

definition rfc_init :: rfc_table where
  "rfc_init = \<lparr>rfc_size = RING, rfc_headers = []\<rparr>"

definition rfc_add :: "rfc_table \<Rightarrow> v2_header \<Rightarrow> rfc_table" where
  "rfc_add rt h =
     rt\<lparr>rfc_headers := if header_size h \<le> rfc_size rt then h # evict (rfc_size rt - header_size h) (rfc_headers rt) else []\<rparr>"

definition rfc_resize :: "rfc_table \<Rightarrow> nat \<Rightarrow> rfc_table option" where
  "rfc_resize rt n = (if RING < n then None else Some \<lparr>rfc_size = n, rfc_headers = evict n (rfc_headers rt)\<rparr>)"

definition rfc_lookup :: "v2_header list \<Rightarrow> v2_header \<Rightarrow> nat \<Rightarrow> bool \<Rightarrow> v2_header option" where
  "rfc_lookup headers header index name_only =
     (let n = length ngx_http_v2_static_table in
      if index = 0 \<or> n + length headers < index then None
      else if index \<le> n then Some (ngx_http_v2_static_table ! (index - 1))
      else let h = headers ! (index - n - 1)
           in Some (if name_only then (fst h, snd header) else h))"

datatype v2_op = Add v2_header | Resize nat

fun rfc_step :: "rfc_table \<Rightarrow> v2_op \<Rightarrow> rfc_table option" where
  "rfc_step rt (Add h) = Some (rfc_add rt h)"
| "rfc_step rt (Resize n) = rfc_resize rt n"

text \<open>
  The code departs from it in one point: the table is started by the first header and has the full size
  then, whatever size was announced before. The refinement goes through a table that has this
  departure, and reaches the table of the RFC for the histories in which the size is the full one when
  the first header arrives.
\<close>

fun full_at_first_add :: "nat \<Rightarrow> v2_op list \<Rightarrow> bool" where
  "full_at_first_add n [] = True"
| "full_at_first_add n (Add h # ops) = (n = RING)"
| "full_at_first_add n (Resize m # ops) = full_at_first_add m ops"

record v2_table =
  vt_started :: bool
  vt_size :: nat
  vt_headers :: "v2_header list"

definition vt_init :: v2_table where
  "vt_init = \<lparr>vt_started = False, vt_size = 0, vt_headers = []\<rparr>"

definition vt_add :: "v2_table \<Rightarrow> v2_header \<Rightarrow> v2_table" where
  "vt_add vt h =
     (let n = (if vt_started vt then vt_size vt else RING)
      in \<lparr>vt_started = True, vt_size = n,
          vt_headers = (if header_size h \<le> n then h # evict (n - header_size h) (vt_headers vt) else [])\<rparr>)"

definition vt_resize :: "v2_table \<Rightarrow> nat \<Rightarrow> v2_table option" where
  "vt_resize vt n =
     (if RING < n then None else Some (vt\<lparr>vt_size := n, vt_headers := evict n (vt_headers vt)\<rparr>))"

fun hp_step :: "hpack \<Rightarrow> v2_op \<Rightarrow> hpack option option" where
  "hp_step st (Add h) = map_option Some (ngx_http_v2_add_header st h)"
| "hp_step st (Resize n) = ngx_http_v2_table_size st n"

fun vt_step :: "v2_table \<Rightarrow> v2_op \<Rightarrow> v2_table option" where
  "vt_step vt (Add h) = Some (vt_add vt h)"
| "vt_step vt (Resize n) = vt_resize vt n"

definition hp_rel :: "hpack \<Rightarrow> v2_table \<Rightarrow> bool" where
  "hp_rel st vt \<longleftrightarrow> hp_inv st (vt_headers vt) \<and> hp_size st = vt_size vt \<and> (vt_started vt \<longleftrightarrow> hp_entries st \<noteq> None)"

lemma add_refines:
  assumes "hp_rel st vt"
  shows "\<exists>st'. ngx_http_v2_add_header st h = Some st' \<and> hp_rel st' (vt_add vt h)"
proof -
  let ?n = "if vt_started vt then vt_size vt else RING" and ?t = "vt_headers vt" and ?st = "hp_start st"
  let ?len = "length (fst h) + length (snd h)"
  have n: "header_size h = 32 + ?len" by (simp add: header_size_def)
  have inv: "hp_inv ?st ?t" "hp_entries ?st \<noteq> None" "hp_size ?st = ?n"
    using hp_start_inv [of st ?t] assms by (auto simp: hp_rel_def)
  then obtain e where e: "hp_core ?st ?t e" "hp_acc ?st ?t" "hp_lean 0 ?st" by (auto simp: hp_inv_def)
  show ?thesis
  proof (cases "32 + ?len \<le> hp_size ?st")
    case False
    then obtain st' where s: "ngx_http_v2_table_account ?st ?len = Some (False, st')" "hp_core st' [] e" "hp_acc st' []"
        "hp_size st' = hp_size ?st" "hp_entries st' = hp_entries ?st"
      using hp_account_declined [OF e(1,2), of ?len] by auto
    then have "hp_inv st' []" using e(3) hp_account_fields [OF s(1)] by (auto simp: hp_inv_def)
    then show ?thesis
      using False s inv n by (simp add: ngx_http_v2_add_header_def hp_rel_def vt_add_def Let_def)
  next
    case True
    let ?t' = "evict (hp_size ?st - (32 + ?len)) ?t"
    obtain st' where s: "ngx_http_v2_table_account ?st ?len = Some (True, st')" "hp_core st' ?t' e"
        "hp_free st' + table_size ?t' + (32 + ?len) = hp_size ?st" "hp_size st' = hp_size ?st" "hp_entries st' = hp_entries ?st"
      using hp_account_ok [OF e(1,2) True] by blast
    obtain p st1 where tk: "hp_take_entry st' = (p, st1)" by fastforce
    have "hp_size st' \<le> RING" using e(2) s(4) by (simp add: hp_acc_def)
    moreover have "hp_free st' + table_size ?t' + header_size h = hp_size st'" using s(3,4) n by simp
    moreover have "hp_entries st' \<noteq> None" "hp_lean 0 st'" using s(5) inv(2) e(3) hp_account_fields [OF s(1)] by simp_all
    ultimately obtain st2 where "hp_fill h p st1 = Some st2" "hp_inv (hp_push p (hp_grow st2)) (h # ?t')"
        "hp_entries (hp_push p (hp_grow st2)) \<noteq> None" "hp_size (hp_push p (hp_grow st2)) = hp_size st'"
      using hp_insert_inv [OF s(2) _ _ _ _ tk] by blast
    then show ?thesis
      using True s tk inv(3) n by (auto simp: ngx_http_v2_add_header_def hp_rel_def vt_add_def Let_def)
  qed
qed

lemma resize_refines:
  assumes "hp_rel st vt"
  shows "case vt_resize vt n of None \<Rightarrow> ngx_http_v2_table_size st n = Some None
    | Some vt' \<Rightarrow> \<exists>st'. ngx_http_v2_table_size st n = Some (Some st') \<and> hp_rel st' vt'"
proof (cases "RING < n")
  case True
  then show ?thesis by (simp add: vt_resize_def ngx_http_v2_table_size_def)
next
  case False
  let ?t = "vt_headers vt" and ?needed = "int (hp_size st) - int n"
  obtain e where e: "hp_core st ?t e" "hp_acc st ?t" "hp_lean 0 st" using assms by (auto simp: hp_rel_def hp_inv_def)
  have i: "nat (int (hp_size st) - ?needed) = n" by simp
  obtain st' where s: "hp_evict ?needed st = Some st'" "hp_core st' (evict n ?t) e"
      "hp_free st' + table_size (evict n ?t) = hp_size st" "?needed \<le> int (hp_free st')"
      "hp_size st' = hp_size st" "hp_entries st' = hp_entries st"
    using hp_core_evict [OF e(1), of "hp_size st" ?needed, unfolded i] e(2) unfolding hp_acc_def by auto
  let ?st = "st'\<lparr>hp_size := n, hp_free := nat (int (hp_free st') - ?needed)\<rparr>"
  have "nat (int (hp_free st') - ?needed) + table_size (evict n ?t) = n" using s(3,4) by linarith
  moreover have "evict n [] = []" by (simp add: evict_fits)
  ultimately have "hp_acc ?st (evict n ?t)" using False e(2) s(6) by (auto simp: hp_acc_def)
  moreover have "hp_lean 0 ?st" using e(3) hp_evict_fields [OF s(1), of 0] by (simp add: hp_lean_def)
  ultimately have "hp_rel ?st (vt\<lparr>vt_size := n, vt_headers := evict n ?t\<rparr>)"
    using s(2,6) assms by (auto simp: hp_rel_def hp_inv_def)
  then show ?thesis using False s(1) by (simp add: vt_resize_def ngx_http_v2_table_size_def Let_def)
qed

lemma lookup_refines:
  assumes "hp_rel st vt"
  shows "ngx_http_v2_get_indexed_header st header index name_only = Some (rfc_lookup (vt_headers vt) header index name_only)"
proof -
  let ?t = "vt_headers vt"
  obtain e where e: "hp_core st ?t e" "hp_acc st ?t" using assms by (auto simp: hp_rel_def hp_inv_def)
  have n: "length ?t = hp_added st - hp_deleted st" by (rule hp_core_length [OF e(1)])
  have l: "length ngx_http_v2_static_table = NGX_HTTP_V2_STATIC_TABLE_ENTRIES"
    by (simp add: ngx_http_v2_static_table_def ngx_consts)
  have read: "ngx_http_v2_get_indexed_header st header index name_only =
      Some (Some (if name_only then (fst (?t ! k), snd header) else ?t ! k))"
    if k: "index = NGX_HTTP_V2_STATIC_TABLE_ENTRIES + Suc k" "k < length ?t" for k
  proof -
    have h: "holds (hp_storage st) e (hp_ents st) ?t" "length (hp_storage st) = RING" using e(1) by (simp_all add: hp_core_defs)
    have "header_size (?t ! k) \<le> table_size ?t"
      using member_le_sum_list [of "header_size (?t ! k)" "map header_size ?t"] k(2) by (auto simp: table_size_def)
    also have "\<dots> \<le> RING" using e(2) by (simp add: hp_acc_def)
    finally have "length (fst (?t ! k)) \<le> RING" "length (snd (?t ! k)) \<le> RING" by (simp_all add: header_size_def)
    then show ?thesis
      using holds_nth [OF h(1) k(2)] hp_core_entry [OF e(1) k(2)] k n ring_read_bytes [OF h(2)]
      by (simp add: ngx_http_v2_get_indexed_header_def Let_def)
  qed
  show ?thesis
  proof (cases "NGX_HTTP_V2_STATIC_TABLE_ENTRIES < index \<and> index \<le> NGX_HTTP_V2_STATIC_TABLE_ENTRIES + length ?t")
    case True
    then obtain k where k: "index = NGX_HTTP_V2_STATIC_TABLE_ENTRIES + Suc k" by (metis add_Suc_right less_iff_Suc_add)
    then show ?thesis using read [of k] True by (simp add: rfc_lookup_def l Let_def)
  next
    case False
    then show ?thesis
      using n by (auto simp: rfc_lookup_def l ngx_http_v2_get_indexed_header_def Let_def)
  qed
qed

interpretation hpack: simulation hp_step vt_step hp_rel
proof
  show "case vt_step vt x of None \<Rightarrow> hp_step st x = Some None
      | Some vt' \<Rightarrow> \<exists>st'. hp_step st x = Some (Some st') \<and> hp_rel st' vt'" if "hp_rel st vt" for st vt x
  proof (cases x)
    case (Add h)
    then show ?thesis using add_refines [OF that, of h] by auto
  next
    case (Resize n)
    then show ?thesis using resize_refines [OF that, of n] by (simp split: option.splits)
  qed
qed

lemma hp_init_rel: "length m = RING \<Longrightarrow> hp_rel (hp_init m) vt_init"
  by (auto simp: hp_rel_def hp_inv_def hp_acc_def hp_lean_def hp_core_defs hp_init_def vt_init_def hp_ents_def hp_slots_def
      entries_ok_def intro: exI [of _ 0])

definition vt_rfc :: "v2_table \<Rightarrow> rfc_table \<Rightarrow> v2_op list \<Rightarrow> bool" where
  "vt_rfc vt rt ops \<longleftrightarrow> vt_headers vt = rfc_headers rt
     \<and> (if vt_started vt then vt_size vt = rfc_size rt
        else rfc_headers rt = [] \<and> full_at_first_add (rfc_size rt) ops)"

lemma vt_rfc_step:
  assumes "vt_rfc vt rt (x # ops)"
  shows "rel_option (\<lambda>vt rt. vt_rfc vt rt ops) (vt_step vt x) (rfc_step rt x)"
  using assms by (cases x; cases "vt_started vt")
    (auto simp: vt_rfc_def vt_add_def rfc_add_def vt_resize_def rfc_resize_def evict_fits Let_def)

lemma vt_rfc_run:
  "vt_rfc vt rt ops \<Longrightarrow> rel_option (\<lambda>vt rt. vt_headers vt = rfc_headers rt) (run_spec vt_step vt ops) (run_spec rfc_step rt ops)"
proof (induction ops arbitrary: vt rt)
  case Nil
  then show ?case by (simp add: vt_rfc_def)
next
  case (Cons x ops)
  from vt_rfc_step [OF Cons.prems] show ?case by cases (simp_all add: Cons.IH)
qed

lemma vt_rfc_init: "full_at_first_add RING ops \<Longrightarrow> vt_rfc vt_init rfc_init ops"
  by (simp add: vt_rfc_def vt_init_def rfc_init_def)

text \<open>
  C4. Take any sequence of insertions and size updates in which the maximum size is 4096 when the first
  header is inserted (no update before it, or the last one before it announces 4096; without this
  condition the update is lost, which is proved below). The dynamic table with its two rings and its recycled
  structures behaves like the list of headers of RFC 7541: it reports an error exactly when an update
  exceeds 4096, no access leaves the memory, and every index, static or dynamic, gives the header that
  the RFC has there, or none where the RFC has none.
\<close>

theorem hpack_refines:
  assumes "length m = NGX_HTTP_V2_TABLE_SIZE" "full_at_first_add NGX_HTTP_V2_TABLE_SIZE ops"
  shows "case run_spec rfc_step rfc_init ops of
      None \<Rightarrow> run_impl hp_step (hp_init m) ops = Some None
    | Some rt \<Rightarrow> \<exists>st. run_impl hp_step (hp_init m) ops = Some (Some st)
        \<and> (\<forall>header index name_only.
             ngx_http_v2_get_indexed_header st header index name_only = Some (rfc_lookup (rfc_headers rt) header index name_only))"
  using vt_rfc_run [OF vt_rfc_init [OF assms(2)]]
proof cases
  case None
  then show ?thesis using hpack.run [OF hp_init_rel [OF assms(1)], of ops] by simp
next
  case (Some vt rt)
  then show ?thesis using hpack.run [OF hp_init_rel [OF assms(1)], of ops] lookup_refines by fastforce
qed

text \<open>
  C35. The memory of the table is bounded for the whole life of a connection: at most 128 structures and
  128 slots are ever allocated, and the entries count for no more than the announced size.
\<close>

theorem hpack_memory_bounded:
  assumes "length m = NGX_HTTP_V2_TABLE_SIZE" "run_impl hp_step (hp_init m) ops = Some (Some st)"
  shows "length (hp_heap st) \<le> 128 \<and> hp_allocated st \<le> 128 \<and> hp_free st \<le> hp_size st
    \<and> hp_size st \<le> NGX_HTTP_V2_TABLE_SIZE \<and> 32 * (hp_added st - hp_deleted st) \<le> hp_size st - hp_free st"
proof -
  obtain vt where "hp_rel st vt" using hpack.reachable [OF hp_init_rel [OF assms(1)] assms(2)] by auto
  then obtain e where e: "hp_core st (vt_headers vt) e" "hp_acc st (vt_headers vt)" "hp_lean 0 st"
    by (auto simp: hp_rel_def hp_inv_def)
  have "32 * (hp_added st - hp_deleted st) \<le> table_size (vt_headers vt)"
    using table_size_length [of "vt_headers vt"] hp_core_length [OF e(1)] by simp
  then show ?thesis using e by (auto simp: hp_acc_def hp_lean_def hp_core_defs)
qed

text \<open>
  C39. A reduction of the table's size that arrives before the first header is accepted and then lost: the
  first insertion sets the size to 4096 again. This is the history that the refinement excludes.
\<close>

theorem hpack_size_update_lost:
  assumes "length m = NGX_HTTP_V2_TABLE_SIZE" "n \<le> NGX_HTTP_V2_TABLE_SIZE"
  shows "\<exists>st. run_impl hp_step (hp_init m) [Resize n, Add h] = Some (Some st) \<and> hp_size st = NGX_HTTP_V2_TABLE_SIZE"
proof -
  have "run_spec vt_step vt_init [Resize n, Add h] = Some (vt_add (vt_init\<lparr>vt_size := n, vt_headers := evict n []\<rparr>) h)"
    using assms(2) by (simp add: vt_resize_def vt_init_def)
  then show ?thesis
    using hpack.run [OF hp_init_rel [OF assms(1)], of "[Resize n, Add h]"]
    by (auto simp: hp_rel_def vt_add_def vt_init_def)
qed

theorem hpack_refines_witness:
  "\<exists>st. run_impl hp_step (hp_init (replicate 4096 0))
        [Resize 0, Resize 4096, Add ([1], [2]), Resize 100, Add ([3], [4]), Add ([5], [6])] = Some (Some st)
    \<and> ngx_http_v2_get_indexed_header st ([], []) 62 False = Some (Some ([5], [6]))
    \<and> ngx_http_v2_get_indexed_header st ([], []) 63 False = Some (Some ([3], [4]))
    \<and> ngx_http_v2_get_indexed_header st ([], []) 64 False = Some None"
proof -
  let ?ops = "[Resize 0, Resize 4096, Add ([1], [2]), Resize 100, Add ([3], [4]), Add ([5], [6 :: byte])]"
  have s: "run_spec rfc_step rfc_init ?ops = Some \<lparr>rfc_size = 100, rfc_headers = [([5], [6]), ([3], [4])]\<rparr>"
    by (simp add: rfc_add_def rfc_init_def rfc_resize_def evict.simps header_size_def ngx_consts)
  have l: "length ngx_http_v2_static_table = 61" by (simp add: ngx_http_v2_static_table_def)
  show ?thesis
    using hpack_refines [of "replicate 4096 0" ?ops] unfolding s by (auto simp: ngx_consts rfc_lookup_def l)
qed

theorem hpack_memory_bounded_witness:
  "\<exists>st. run_impl hp_step (hp_init (replicate 4096 0)) [] = Some (Some st) \<and> length (hp_heap st) \<le> 128"
  using hpack_memory_bounded [of "replicate 4096 0" "[]"] by (simp add: ngx_consts)

theorem hpack_size_update_lost_witness:
  "\<exists>st. run_impl hp_step (hp_init (replicate 4096 0)) [Resize 0, Add ([1], [2])] = Some (Some st) \<and> hp_size st = 4096"
  using hpack_size_update_lost [of "replicate 4096 0" 0 "([1], [2])"] by (simp add: ngx_consts)

section \<open>Integers\<close>

definition ngx_http_v2_prefix :: "nat \<Rightarrow> 64 word" where
  "ngx_http_v2_prefix bits = push_bit bits 1 - 1"

definition NGX_HTTP_V2_INT_OCTETS :: nat where
  [ngx_consts]: "NGX_HTTP_V2_INT_OCTETS = 4"

text \<open>The encoder; the first byte is combined with the byte that is there.\<close>

function write_int_loop :: "64 word \<Rightarrow> byte list" where
  "write_int_loop v =
     (if 128 \<le> v then ucast (v mod 128 + 128) # write_int_loop (v div 128) else [ucast v])"
  by pat_completeness auto

termination
  by (relation "measure unat") (simp_all add: unat_div word_le_nat_alt)

declare write_int_loop.simps [simp del]

definition ngx_http_v2_write_int :: "byte \<Rightarrow> 64 word \<Rightarrow> 64 word \<Rightarrow> byte list" where
  "ngx_http_v2_write_int first prefix v =
     (if v < prefix then [first OR ucast v]
      else (first OR ucast prefix) # write_int_loop (v - prefix))"

text \<open>
  The decoder reads from the rest of the frame, of which \<open>len\<close> bytes belong to the header block. It
  gives the value with the bytes and the length that are left.
\<close>

datatype v2_int =
    V2_value "64 word" "byte list" nat
  | V2_error
  | V2_declined
  | V2_again
  | V2_fault

fun parse_int_loop :: "64 word \<Rightarrow> nat \<Rightarrow> nat \<Rightarrow> byte list \<Rightarrow> (64 word \<times> nat) option" where
  "parse_int_loop v shift n [] = None"
| "parse_int_loop v shift n (octet # cs) =
     (let v = v + push_bit shift (ucast octet AND 0x7f)
      in if octet < 128 then Some (v, n + 1) else parse_int_loop v (shift + 7) (n + 1) cs)"

definition ngx_http_v2_parse_int :: "nat \<Rightarrow> byte list \<Rightarrow> 64 word \<Rightarrow> v2_int" where
  "ngx_http_v2_parse_int len buf prefix =
     (case buf of [] \<Rightarrow> V2_fault
      | c # cs \<Rightarrow>
          let v = ucast c AND prefix in
          if v \<noteq> prefix then (if len = 0 then V2_error else V2_value v cs (len - 1))
          else
            let start = take NGX_HTTP_V2_INT_OCTETS buf in
            (case parse_int_loop v 0 1 (drop 1 start) of
              Some (v, n) \<Rightarrow> if len < n then V2_error else V2_value v (drop n buf) (len - n)
            | None \<Rightarrow>
                if len \<le> length start then V2_error
                else if length start = NGX_HTTP_V2_INT_OCTETS then V2_declined
                else V2_again))"

lemma and_7f: "x AND 0x7f = take_bit 7 x" for x :: "64 word"
  by (simp add: take_bit_eq_mask mask_eq_exp_minus_1)

lemma parse_write_loop:
  "parse_int_loop v shift n (write_int_loop w @ cs) = Some (v + push_bit shift w, n + length (write_int_loop w))"
proof (induction w arbitrary: v shift n rule: write_int_loop.induct)
  case (1 w)
  show ?case
  proof (cases "128 \<le> w")
    case False
    then have w: "unat w < 128" by (simp add: word_le_nat_alt)
    have "(ucast w :: byte) < 128" using w by (simp add: word_less_nat_alt unsigned_ucast_eq take_bit_nat_eq_self)
    moreover have "ucast (ucast w :: byte) AND 0x7f = w"
    proof -
      have "ucast (ucast w :: byte) AND 0x7f = take_bit 7 w"
        unfolding and_7f by (rule bit_word_eqI) (auto simp: bit_simps)
      then show ?thesis using w by (simp add: word_unat_eq_iff unsigned_take_bit_eq take_bit_nat_eq_self)
    qed
    ultimately show ?thesis using False by (simp add: write_int_loop.simps Let_def)
  next
    case True
    have m: "unat (w mod 128) < 128" by (simp add: unat_mod)
    have "unat (w mod 128 + 128) = unat (w mod 128) + 128" using m by (subst unat_add_lem [THEN iffD1]) auto
    then have b: "unat (ucast (w mod 128 + 128) :: byte) = unat (w mod 128) + 128"
      using m by (simp add: unsigned_ucast_eq take_bit_nat_eq_self)
    have c: "\<not> (ucast (w mod 128 + 128) :: byte) < 128" using b by (simp add: word_less_nat_alt)
    have "ucast (ucast (w mod 128 + 128) :: byte) AND 0x7f = w mod 128"
    proof -
      have A: "ucast (x :: byte) AND 0x7f = (ucast (take_bit 7 x) :: 64 word)" for x
        unfolding and_7f by (rule bit_word_eqI) (auto simp: bit_simps)
      have B: "unat (take_bit 7 (ucast (w mod 128 + 128) :: byte)) = unat (w mod 128)"
        using m by (simp add: unsigned_take_bit_eq b take_bit_nat_def)
      have "unat (ucast (take_bit 7 (ucast (w mod 128 + 128) :: byte)) :: 64 word) = unat (w mod 128)"
        by (simp only: unsigned_ucast_eq [of "take_bit 7 (_ :: byte)"] B) (use m in \<open>simp add: take_bit_nat_eq_self\<close>)
      then show ?thesis unfolding word_unat_eq_iff [of _ "w mod 128"] A .
    qed
    moreover have "push_bit shift (w mod 128) + push_bit (shift + 7) (w div 128) = push_bit shift w"
    proof -
      have "push_bit shift (w mod 128) + push_bit (shift + 7) (w div 128) = (w mod 128 + w div 128 * 128) * 2 ^ shift"
        by (simp add: push_bit_eq_mult power_add algebra_simps)
      then show ?thesis by (simp only: mod_div_mult_eq) (simp add: push_bit_eq_mult)
    qed
    ultimately show ?thesis using True c 1 [OF True] by (simp add: write_int_loop.simps [of w] Let_def add.assoc)
  qed
qed

lemma write_int_loop_length: "unat w < 128 ^ Suc k \<Longrightarrow> length (write_int_loop w) \<le> Suc k"
proof (induction k arbitrary: w)
  case 0
  then show ?case by (simp add: write_int_loop.simps word_le_nat_alt)
next
  case (Suc k)
  have "unat (w div 128) < 128 ^ Suc k" using Suc.prems by (simp add: unat_div less_mult_imp_div_less mult.commute)
  then show ?case using Suc.IH [of "w div 128"] by (subst write_int_loop.simps) simp
qed
lemma prefix_mask: "ngx_http_v2_prefix bits = mask bits"
  by (simp add: ngx_http_v2_prefix_def mask_eq_exp_minus_1 push_bit_eq_mult)

lemma prefix_unat: "bits \<le> 8 \<Longrightarrow> unat (ngx_http_v2_prefix bits) = 2 ^ bits - 1"
proof -
  assume b: "bits \<le> 8"
  then have "(2 :: nat) ^ bits < 2 ^ 64" by (intro power_strict_increasing) auto
  then have "unat (push_bit bits (1 :: 64 word)) = 2 ^ bits"
    using b by (simp only: unsigned_push_bit_eq) (simp add: take_bit_nat_eq_self push_bit_eq_mult)
  then show ?thesis
    unfolding ngx_http_v2_prefix_def by (subst unat_sub) (simp_all add: word_le_nat_alt)
qed

lemma first_octet:
  assumes "bits \<le> 8" "take_bit bits first = 0" "v = take_bit bits v"
  shows "ucast (first OR ucast v :: byte) AND ngx_http_v2_prefix bits = v"
    and "drop_bit bits (first OR ucast v :: byte) = drop_bit bits first"
proof -
  have f: "\<not> bit first n" if "n < bits" for n
    using arg_cong [OF assms(2), of "\<lambda>w. bit w n"] that by (simp add: bit_take_bit_iff)
  have v: "bit v n \<Longrightarrow> n < bits" for n by (subst (asm) assms(3)) (simp add: bit_take_bit_iff)
  show "ucast (first OR ucast v :: byte) AND ngx_http_v2_prefix bits = v"
    using assms(1) by (intro bit_word_eqI) (auto simp: prefix_mask bit_simps dest: v f)
  show "drop_bit bits (first OR ucast v :: byte) = drop_bit bits first"
    by (rule bit_word_eqI) (auto simp: bit_simps dest: v)
qed

text \<open>
  C36. An integer that is written is read back, together with the bits before the prefix, and the decoder
  stops behind it: for every prefix of one to eight bits and every value that fits the four octets.
\<close>

theorem v2_int_roundtrip:
  assumes "0 < bits" "bits \<le> 8" "take_bit bits first = 0"
    and "v < ngx_http_v2_prefix bits + 2 ^ 21" "length (ngx_http_v2_write_int first (ngx_http_v2_prefix bits) v) \<le> len"
  defines "out \<equiv> ngx_http_v2_write_int first (ngx_http_v2_prefix bits) v"
  shows "ngx_http_v2_parse_int len (out @ rest) (ngx_http_v2_prefix bits) = V2_value v rest (len - length out)
    \<and> drop_bit bits (hd out) = drop_bit bits first \<and> length out \<le> NGX_HTTP_V2_INT_OCTETS"
proof (cases "v < ngx_http_v2_prefix bits")
  case True
  then have "v = take_bit bits v"
    using prefix_unat [OF assms(2)]
    by (simp add: word_less_nat_alt word_unat_eq_iff unsigned_take_bit_eq take_bit_nat_eq_self)
  note fo = first_octet [OF assms(2,3) this]
  have o: "out = [first OR ucast v]" using True by (simp add: out_def ngx_http_v2_write_int_def)
  show ?thesis using True fo assms(5) unfolding out_def [symmetric] o by (simp add: ngx_http_v2_parse_int_def ngx_consts)
next
  case False
  let ?p = "ngx_http_v2_prefix bits" and ?w = "v - ngx_http_v2_prefix bits"
  have "?p = take_bit bits ?p" by (simp add: prefix_mask)
  note fo = first_octet [OF assms(2,3) this]
  have o: "out = (first OR ucast ?p) # write_int_loop ?w" using False by (simp add: out_def ngx_http_v2_write_int_def)
  have "(2 :: nat) ^ bits \<le> 2 ^ 8" using assms(2) by (intro power_increasing) auto
  then have "unat ?p \<le> 255" using prefix_unat [OF assms(2)] by simp
  then have "unat (?p + 2 ^ 21) = unat ?p + 2 ^ 21"
    by (subst unat_add_lem [THEN iffD1]) (auto simp: word_le_nat_alt)
  then have "unat ?w < 128 ^ Suc 2"
    using assms(4) False by (simp add: word_less_nat_alt unat_sub word_le_nat_alt)
  from write_int_loop_length [OF this] have l: "length (write_int_loop ?w) \<le> 3" by simp
  then have t: "drop 1 (take 4 (out @ rest)) = write_int_loop ?w @ take (3 - length (write_int_loop ?w)) rest"
    by (simp add: o)
  show ?thesis
    using fo l assms(5) t parse_write_loop [of ?p 0 1 ?w] unfolding out_def [symmetric]
    by (simp add: o ngx_http_v2_parse_int_def ngx_consts Let_def)
qed

theorem v2_int_roundtrip_witness:
  "ngx_http_v2_parse_int 9 [0x3f, 0x9a, 0x0a, 7] 0x1f = V2_value 1337 [7] 6"
proof -
  have p: "ngx_http_v2_prefix 5 = 0x1f" by (simp add: ngx_http_v2_prefix_def)
  have o: "ngx_http_v2_write_int 0x20 0x1f 1337 = [0x3f, 0x9a, 0x0a]"
    by (simp add: ngx_http_v2_write_int_def write_int_loop.simps)
  show ?thesis using v2_int_roundtrip [where bits = 5 and first = "0x20" and v = 1337 and len = 9 and rest = "[7]", unfolded p o] by simp
qed

lemma parse_int_loop_bound:
  assumes "parse_int_loop v shift n cs = Some (v', n')" "unat v + 2 ^ (shift + 7 * length cs) < 2 ^ 63 + 2 ^ shift"
  shows "unat v' + 2 ^ shift \<le> unat v + 2 ^ (shift + 7 * length cs) \<and> n < n' \<and> n' \<le> n + length cs"
  using assms
proof (induction v shift n cs rule: parse_int_loop.induct)
  case (2 v shift n c cs)
  let ?d = "ucast c AND 0x7f :: 64 word" and ?v = "v + push_bit shift (ucast c AND 0x7f)"
  have d: "unat ?d \<le> 127"
    using take_bit_nat_less_exp [of 7 "unat (ucast c :: 64 word)"] by (simp add: and_7f unsigned_take_bit_eq)
  have le: "128 * 2 ^ shift \<le> (2 :: nat) ^ (shift + 7 * length (c # cs))"
    using power_increasing [of "shift + 7" "shift + 7 * length (c # cs)" "2 :: nat"] by (simp add: power_add)
  have sm: "unat ?d * 2 ^ shift \<le> 127 * 2 ^ shift" using d by simp
  have lt: "unat v + unat ?d * 2 ^ shift < 2 ^ 63" using sm le 2(3) by linarith
  then have "unat ?d * 2 ^ shift < 2 ^ 64" by simp
  then have "unat (push_bit shift ?d) = unat ?d * 2 ^ shift"
    by (simp only: unsigned_push_bit_eq push_bit_eq_mult [where ?'a = nat]) (simp add: take_bit_nat_eq_self)
  then have v: "unat ?v = unat v + unat ?d * 2 ^ shift"
    using lt by (subst unat_add_lem [THEN iffD1]) auto
  show ?case
  proof (cases "c < 128")
    case True
    then have "v' = ?v" "n' = n + 1" using 2(2) by (simp_all add: Let_def)
    then show ?thesis using v sm le by (simp; linarith)
  next
    case False
    have e: "(2 :: nat) ^ (shift + 7 + 7 * length cs) = 2 ^ (shift + 7 * length (c # cs))" by (simp add: add.commute add.left_commute)
    have p7: "(2 :: nat) ^ (shift + 7) = 128 * 2 ^ shift" by (simp add: power_add)
    have "unat v' + 2 ^ (shift + 7) \<le> unat ?v + 2 ^ (shift + 7 + 7 * length cs) \<and> n + 1 < n' \<and> n' \<le> n + 1 + length cs"
    proof (rule 2(1) [OF refl False])
      show "parse_int_loop ?v (shift + 7) (n + 1) cs = Some (v', n')" using 2(2) False by (simp add: Let_def)
      show "unat ?v + 2 ^ (shift + 7 + 7 * length cs) < 2 ^ 63 + 2 ^ (shift + 7)"
        using v sm 2(3) e p7 by linarith
    qed
    then show ?thesis using v sm e p7 by (simp; linarith)
  qed
qed simp

text \<open>
  Whatever the client sends, the decoder reads at most four octets, takes no more than the header
  block has, and its values stay far below the error codes of the return type.
\<close>

theorem v2_int_bounds:
  assumes "ngx_http_v2_parse_int len buf (ngx_http_v2_prefix bits) = V2_value v rest len'" "bits \<le> 8"
  shows "unat v < 2 ^ bits + 2 ^ 21 \<and> len' < len
    \<and> (\<exists>used. buf = used @ rest \<and> length used = len - len' \<and> length used \<le> NGX_HTTP_V2_INT_OCTETS)"
proof -
  let ?p = "ngx_http_v2_prefix bits"
  obtain c cs where b: "buf = c # cs" using assms(1) by (cases buf) (simp_all add: ngx_http_v2_parse_int_def)
  have p: "unat ?p = 2 ^ bits - 1" by (rule prefix_unat [OF assms(2)])
  have "(2 :: nat) ^ bits \<le> 2 ^ 8" using assms(2) by (intro power_increasing) auto
  then have p8: "unat ?p \<le> 255" using p by simp
  show ?thesis
  proof (cases "ucast c AND ?p = ?p")
    case False
    then have s: "v = ucast c AND ?p" "rest = cs" "len' = len - 1" "len \<noteq> 0"
      using assms(1) b by (auto simp: ngx_http_v2_parse_int_def Let_def split: if_splits)
    have "unat v < 2 ^ bits"
      unfolding s(1) prefix_mask by (simp add: unsigned_take_bit_eq flip: take_bit_eq_mask)
    then show ?thesis using s b by (auto simp: ngx_consts intro: exI [of _ "[c]"])
  next
    case True
    let ?l = "drop 1 (take 4 buf)"
    obtain n where n: "parse_int_loop ?p 0 1 ?l = Some (v, n)" "n \<le> len" "rest = drop n buf" "len' = len - n"
      using assms(1) b True by (auto simp: ngx_http_v2_parse_int_def Let_def ngx_consts split: if_splits option.splits)
    have l: "length ?l \<le> 3" by simp
    then have "(2 :: nat) ^ (7 * length ?l) \<le> 2 ^ 21" by (intro power_increasing) auto
    then have "unat v + 1 \<le> unat ?p + 2 ^ 21 \<and> 1 < n \<and> n \<le> 1 + length ?l"
      using parse_int_loop_bound [OF n(1)] p8 by simp
    moreover have "1 + length ?l = min 4 (length buf)" using b by simp
    ultimately show ?thesis using n p by (auto simp: ngx_consts intro!: exI [of _ "take n buf"])
  qed
qed

theorem v2_int_bounds_witness:
  "unat (42 :: 64 word) < 2 ^ 5 + 2 ^ 21 \<and> ngx_http_v2_parse_int 2 [0x1f, 0x0b] (ngx_http_v2_prefix 5) = V2_value 42 [] 0"
proof -
  have e: "ngx_http_v2_parse_int 2 [0x1f, 0x0b] (ngx_http_v2_prefix 5) = V2_value 42 [] 0"
    by (simp add: ngx_http_v2_parse_int_def ngx_http_v2_prefix_def ngx_consts)
  show ?thesis using v2_int_bounds [OF e] e by simp
qed

end
