(* ===== verification/Http_Limit_Req.thy ===== *)
theory Http_Limit_Req
  imports Ngx_Number
begin

unbundle bit_operations_syntax

text \<open>
  The limit on the rate of requests, \<^verbatim>\<open>src/http/modules/ngx_http_limit_req_module.c\<close>, a leaky bucket per
  key in shared memory: the look-up of a node with its arithmetic on machine words, the expiry of old
  nodes, the accounting over several zones and the handler that puts them together. The evaluation of
  keys and variables, the whitelist and the success of allocations are arguments; a redirect to the
  configured location counts as limited. The theorems: the configured rate is kept, a request gives
  back the nodes it holds, and two defects.
\<close>

section \<open>The rate\<close>

text \<open>
  The rate of a zone, in thousandths of a request per second, may come from a variable of the request:
  \<open>None\<close> if no variable is configured, \<open>Some None\<close> if it has no value. The result is the new rate, or \<open>None\<close>
  for an error. The variable \<open>rate\<close> of the source is unsigned, also where it takes the value of \<open>ngx_atoi\<close>.
\<close>

definition ngx_http_limit_req_rate_value :: "64 word \<Rightarrow> byte list option option \<Rightarrow> 64 word option" where
  "ngx_http_limit_req_rate_value ctx_rate var =
     (case var of
        None \<Rightarrow> Some ctx_rate
      | Some None \<Rightarrow> None
      | Some (Some vv) \<Rightarrow>
          if length vv \<le> 3 then None
          else if 65535 < length vv then None
          else
            let p = drop (length vv - 3) vv;
                scale = (if p = bytes ''r/s'' then 1 else if p = bytes ''r/m'' then 60 else 1);
                rate = (case ngx_atoi (take (length vv - 3) vv) of None \<Rightarrow> - 1 | Some n \<Rightarrow> word_of_int n)
            in if rate \<le> 0 then None else Some (rate * 1000 div scale))"

section \<open>One zone\<close>

text \<open>
  The nodes of a zone are in a tree, to find them by their keys, and in a queue, the most recently used
  first. The model is the queue; the tree finds the node with the key, if there is one. \<open>zn_node\<close> is the
  node that the current request holds (\<open>ctx->node\<close>). The counter of a node is a natural number: it is
  counted down only by a request that has counted it up, so it does not wrap.
\<close>

record lr_node =
  lr_key :: "byte list"
  lr_last :: "64 word"
  lr_excess :: "64 word"
  lr_count :: nat

record lr_zone =
  zn_nodes :: "lr_node list"
  zn_rate :: "64 word"
  zn_node :: "byte list option"

record lr_limit =
  li_burst :: "64 word"
  li_delay :: "64 word"

datatype lr_rc = LR_OK | LR_AGAIN | LR_BUSY | LR_ERROR | LR_DECLINED

text \<open>The time since the last request, and what is left of the excess after it plus one request.\<close>

definition lr_ms :: "64 word \<Rightarrow> 64 word \<Rightarrow> int" where
  "lr_ms now prev =
     (let ms = sint (now - prev) in if ms < - 60000 then 1 else if ms < 0 then 0 else ms)"

definition lr_new_excess :: "64 word \<Rightarrow> 64 word \<Rightarrow> lr_node \<Rightarrow> int" where
  "lr_new_excess rate now lr =
     (let excess = sint (lr_excess lr - rate * word_of_int (lr_ms now (lr_last lr)) div 1000 + 1000)
      in if excess < 0 then 0 else excess)"

text \<open>Deleting old nodes from the end of the queue; with \<open>n = 0\<close> the first one is deleted whatever its state.\<close>

definition lr_idle :: "64 word \<Rightarrow> 64 word \<Rightarrow> lr_node \<Rightarrow> bool" where
  "lr_idle rate now lr =
     (let ms = \<bar>sint (now - lr_last lr)\<bar>
      in \<not> ms < 60000 \<and> \<not> 0 < sint (lr_excess lr - rate * word_of_int ms div 1000))"

function ngx_http_limit_req_expire :: "64 word \<Rightarrow> 64 word \<Rightarrow> nat \<Rightarrow> lr_node list \<Rightarrow> lr_node list" where
  "ngx_http_limit_req_expire rate now n nodes =
     (if \<not> n < 3 \<or> nodes = [] then nodes
      else
        let lr = last nodes in
        if lr_count lr \<noteq> 0 then nodes
        else if n \<noteq> 0 \<and> \<not> lr_idle rate now lr then nodes
        else ngx_http_limit_req_expire rate now (n + 1) (butlast nodes))"
  by pat_completeness auto

termination
  by (relation "measure (\<lambda>(_, _, n, _). 3 - n)") auto

declare ngx_http_limit_req_expire.simps [simp del]

text \<open>
  One request in one zone. The shared memory may be full: \<open>room\<close> says whether the first and the second
  attempt to allocate a node succeed.
\<close>

definition lr_to_front :: "lr_node \<Rightarrow> lr_node list \<Rightarrow> lr_node list" where
  "lr_to_front lr nodes = lr # filter (\<lambda>x. lr_key x \<noteq> lr_key lr) nodes"

definition ngx_http_limit_req_lookup ::
  "lr_limit \<Rightarrow> lr_zone \<Rightarrow> byte list \<Rightarrow> 64 word \<Rightarrow> bool \<Rightarrow> bool \<times> bool \<Rightarrow> lr_rc \<times> 64 word \<times> lr_zone"
where
  "ngx_http_limit_req_lookup limit z key now account room =
     (case find (\<lambda>lr. lr_key lr = key) (zn_nodes z) of
        Some lr \<Rightarrow>
          let excess = lr_new_excess (zn_rate z) now lr; ms = lr_ms now (lr_last lr) in
          if li_burst limit < word_of_int excess then
            (LR_BUSY, word_of_int excess, z\<lparr>zn_nodes := lr_to_front lr (zn_nodes z)\<rparr>)
          else if account then
            (LR_OK, word_of_int excess,
             z\<lparr>zn_nodes := lr_to_front (lr\<lparr>lr_excess := word_of_int excess,
               lr_last := (if ms \<noteq> 0 then now else lr_last lr)\<rparr>) (zn_nodes z)\<rparr>)
          else
            (LR_AGAIN, word_of_int excess,
             z\<lparr>zn_nodes := lr_to_front (lr\<lparr>lr_count := lr_count lr + 1\<rparr>) (zn_nodes z), zn_node := Some key\<rparr>)
      | None \<Rightarrow>
          let nodes = ngx_http_limit_req_expire (zn_rate z) now 1 (zn_nodes z);
              nodes = (if fst room then nodes else ngx_http_limit_req_expire (zn_rate z) now 0 nodes);
              lr = \<lparr>lr_key = key, lr_last = (if account then now else 0), lr_excess = 0,
                    lr_count = (if account then 0 else 1)\<rparr>
          in if \<not> fst room \<and> \<not> snd room then (LR_ERROR, 0, z\<lparr>zn_nodes := nodes\<rparr>)
             else if account then (LR_OK, 0, z\<lparr>zn_nodes := lr # nodes\<rparr>)
             else (LR_AGAIN, 0, z\<lparr>zn_nodes := lr # nodes, zn_node := Some key\<rparr>))"

definition lr_map :: "byte list \<Rightarrow> (lr_node \<Rightarrow> lr_node) \<Rightarrow> lr_node list \<Rightarrow> lr_node list" where
  "lr_map key f nodes = map (\<lambda>lr. if lr_key lr = key then f lr else lr) nodes"

text \<open>Giving back the nodes that the request holds, from the last zone to the first.\<close>

definition lr_unlock_zone :: "lr_zone \<Rightarrow> lr_zone" where
  "lr_unlock_zone z =
     (case zn_node z of None \<Rightarrow> z
      | Some key \<Rightarrow> z\<lparr>zn_nodes := lr_map key (\<lambda>lr. lr\<lparr>lr_count := lr_count lr - 1\<rparr>) (zn_nodes z), zn_node := None\<rparr>)"

definition ngx_http_limit_req_unlock :: "lr_zone list \<Rightarrow> nat \<Rightarrow> lr_zone list" where
  "ngx_http_limit_req_unlock zs n = map lr_unlock_zone (take n zs) @ drop n zs"

text \<open>
  Accounting in the zones before the last one. The division by the rate of the zone is a fault (\<open>None\<close>)
  if the rate is zero.
\<close>

definition lr_delay :: "64 word \<Rightarrow> lr_limit \<Rightarrow> 64 word \<Rightarrow> 64 word option" where
  "lr_delay rate limit excess =
     (if excess \<le> li_delay limit then Some 0
      else if rate = 0 then None
      else Some ((excess - li_delay limit) * 1000 div rate))"

definition lr_account_zone :: "64 word \<Rightarrow> lr_limit \<Rightarrow> lr_zone \<Rightarrow> (64 word \<times> lr_zone) option" where
  "lr_account_zone now limit z =
     (case zn_node z of None \<Rightarrow> Some (0, z)
      | Some key \<Rightarrow>
          (case find (\<lambda>lr. lr_key lr = key) (zn_nodes z) of
             None \<Rightarrow> None
           | Some lr \<Rightarrow>
               let excess = word_of_int (lr_new_excess (zn_rate z) now lr); ms = lr_ms now (lr_last lr);
                   z' = z\<lparr>zn_nodes := lr_map key (\<lambda>lr. lr\<lparr>lr_last := (if ms \<noteq> 0 then now else lr_last lr),
                            lr_excess := excess, lr_count := lr_count lr - 1\<rparr>) (zn_nodes z), zn_node := None\<rparr>
               in map_option (\<lambda>d. (d, z')) (lr_delay (zn_rate z) limit excess)))"

fun lr_account_loop :: "64 word \<Rightarrow> (lr_limit \<times> lr_zone) list \<Rightarrow> 64 word \<Rightarrow> (64 word \<times> lr_zone list) option" where
  "lr_account_loop now [] max_delay = Some (max_delay, [])"
| "lr_account_loop now ((limit, z) # lzs) max_delay =
     (case lr_account_zone now limit z of None \<Rightarrow> None
      | Some (delay, z) \<Rightarrow>
          map_option (\<lambda>(d, zs). (d, z # zs))
            (lr_account_loop now lzs (if max_delay < delay then delay else max_delay)))"

definition ngx_http_limit_req_account ::
  "64 word \<Rightarrow> lr_limit list \<Rightarrow> lr_zone list \<Rightarrow> nat \<Rightarrow> 64 word \<Rightarrow> nat \<Rightarrow> (64 word \<times> lr_zone list) option"
where
  "ngx_http_limit_req_account now limits zs n excess i =
     (case lr_delay (zn_rate (zs ! i)) (limits ! i) excess of None \<Rightarrow> None
      | Some max_delay \<Rightarrow>
          map_option (\<lambda>(d, zs'). (d, rev zs' @ drop n zs))
            (lr_account_loop now (rev (take n (zip limits zs))) max_delay))"

section \<open>A request\<close>

text \<open>
  What the evaluation of the configured values gives for a request in each zone: the variable for the
  rate, the key (\<open>None\<close> if its evaluation fails), and the state of the memory.
\<close>

record lr_input =
  in_rate :: "byte list option option"
  in_key :: "byte list option"
  in_room :: "bool \<times> bool"

datatype lr_stop = LR_rate_error | LR_key_error | LR_done lr_rc "64 word"

text \<open>The loop over the zones: why it stops, where, and the zones.\<close>

fun lr_loop ::
  "64 word \<Rightarrow> nat \<Rightarrow> lr_limit list \<Rightarrow> lr_input list \<Rightarrow> lr_zone list \<Rightarrow> nat \<Rightarrow> lr_rc \<Rightarrow> 64 word
   \<Rightarrow> lr_stop \<times> nat \<times> lr_zone list"
where
  "lr_loop now 0 limits ins zs n rc excess = (LR_done rc excess, n, zs)"
| "lr_loop now (Suc left) limits ins zs n rc excess =
     (case ngx_http_limit_req_rate_value (zn_rate (zs ! n)) (in_rate (ins ! n)) of
        None \<Rightarrow> (LR_rate_error, n, zs)
      | Some rate \<Rightarrow>
          let zs = zs[n := (zs ! n)\<lparr>zn_rate := rate\<rparr>] in
          (case in_key (ins ! n) of
             None \<Rightarrow> (LR_key_error, n, zs)
           | Some key \<Rightarrow>
               if length key = 0 \<or> 65535 < length key then lr_loop now left limits ins zs (n + 1) rc excess
               else
                 let (rc, excess, z) = ngx_http_limit_req_lookup (limits ! n) (zs ! n) key now (left = 0) (in_room (ins ! n));
                     zs = zs[n := z]
                 in if rc \<noteq> LR_AGAIN then (LR_done rc excess, n, zs)
                    else lr_loop now left limits ins zs (n + 1) rc excess))"

datatype lr_result = Declined | Internal_error | Limited | Passed | Delayed "64 word" | Fault

text \<open>
  A request that has been limited already (\<open>status\<close>), a location where the limit is off and an address on
  the white list are not limited.
\<close>

record lr_conf =
  cf_enable :: bool
  cf_dry_run :: bool
  cf_limits :: "lr_limit list"

definition ngx_http_limit_req_handler ::
  "lr_conf \<Rightarrow> bool \<Rightarrow> bool \<Rightarrow> 64 word \<Rightarrow> lr_input list \<Rightarrow> lr_zone list \<Rightarrow> lr_result \<times> lr_zone list"
where
  "ngx_http_limit_req_handler lrcf status whitelisted now ins zs =
     (let limits = cf_limits lrcf; dry_run = cf_dry_run lrcf in
      if status \<or> \<not> cf_enable lrcf \<or> whitelisted then (Declined, zs)
      else case lr_loop now (length limits) limits ins zs 0 LR_DECLINED 0 of
        (LR_rate_error, n, zs) \<Rightarrow> (Internal_error, zs)
      | (LR_key_error, n, zs) \<Rightarrow> (Internal_error, ngx_http_limit_req_unlock zs n)
      | (LR_done rc excess, n, zs) \<Rightarrow>
          if rc = LR_DECLINED then (Declined, zs)
          else if rc = LR_BUSY \<or> rc = LR_ERROR then
            (if dry_run then Declined else Limited, ngx_http_limit_req_unlock zs n)
          else
            let excess = (if rc = LR_AGAIN then 0 else excess) in
            (case ngx_http_limit_req_account now limits zs n excess (min n (length limits - 1)) of
               None \<Rightarrow> (Fault, zs)
             | Some (delay, zs) \<Rightarrow>
                 (if delay = 0 then Passed else if dry_run then Declined else Delayed delay, zs)))"

section \<open>Nodes that are held\<close>

definition held :: "lr_zone \<Rightarrow> byte list \<Rightarrow> nat" where
  "held z key = (case find (\<lambda>lr. lr_key lr = key) (zn_nodes z) of None \<Rightarrow> 0 | Some lr \<Rightarrow> lr_count lr)"

definition zone_ok :: "lr_zone \<Rightarrow> bool" where
  "zone_ok z \<longleftrightarrow> distinct (map lr_key (zn_nodes z))"

lemma expire_prefix:
  "\<exists>ys. nodes = ngx_http_limit_req_expire rate now n nodes @ ys \<and> list_all (\<lambda>lr. lr_count lr = 0) ys
    \<and> (n \<noteq> 0 \<longrightarrow> list_all (lr_idle rate now) ys)"
proof (induction rate now n nodes rule: ngx_http_limit_req_expire.induct)
  case (1 rate now n nodes)
  show ?case
  proof (cases "n < 3 \<and> nodes \<noteq> [] \<and> lr_count (last nodes) = 0 \<and> (n = 0 \<or> lr_idle rate now (last nodes))")
    case False
    then have "ngx_http_limit_req_expire rate now n nodes = nodes"
      by (subst ngx_http_limit_req_expire.simps) (auto simp: Let_def)
    then show ?thesis by simp
  next
    case True
    then have e: "ngx_http_limit_req_expire rate now n nodes = ngx_http_limit_req_expire rate now (n + 1) (butlast nodes)"
      by (subst ngx_http_limit_req_expire.simps) (auto simp: Let_def)
    obtain ys where ys: "butlast nodes = ngx_http_limit_req_expire rate now (n + 1) (butlast nodes) @ ys"
        "list_all (\<lambda>lr. lr_count lr = 0) ys" "list_all (lr_idle rate now) ys"
      using 1 [OF _ refl] True by auto
    have "nodes = butlast nodes @ [last nodes]" using True by simp
    also have "\<dots> = ngx_http_limit_req_expire rate now (n + 1) (butlast nodes) @ ys @ [last nodes]"
      by (subst ys(1)) simp
    finally show ?thesis using e ys True by (intro exI [of _ "ys @ [last nodes]"]) auto
  qed
qed

lemma find_key_append:
  "find (\<lambda>lr. lr_key lr = key) (xs @ ys) =
     (case find (\<lambda>lr. lr_key lr = key) xs of None \<Rightarrow> find (\<lambda>lr. lr_key lr = key) ys | Some lr \<Rightarrow> Some lr)"
  by (induction xs) auto

lemma find_key_Some: "find (\<lambda>lr. lr_key lr = key) xs = Some lr \<Longrightarrow> lr_key lr = key \<and> lr \<in> set xs"
  by (auto simp: find_Some_iff)

lemma find_key_filter:
  "find (\<lambda>lr. lr_key lr = k) (filter (\<lambda>x. lr_key x \<noteq> k') nodes) =
     (if k = k' then None else find (\<lambda>lr. lr_key lr = k) nodes)"
  by (induction nodes) auto

lemma held_expire:
  assumes "nodes' = ngx_http_limit_req_expire rate now n (zn_nodes z)"
  shows "held (z\<lparr>zn_nodes := nodes'\<rparr>) = held z"
proof
  fix k
  obtain ys where ys: "zn_nodes z = nodes' @ ys" "list_all (\<lambda>lr. lr_count lr = 0) ys"
    using expire_prefix [of "zn_nodes z" rate now n] assms by auto
  have "lr_count lr = 0" if "find (\<lambda>lr. lr_key lr = k) ys = Some lr" for lr
    using find_key_Some [OF that] ys(2) by (auto simp: list_all_iff)
  then show "held (z\<lparr>zn_nodes := nodes'\<rparr>) k = held z k"
    by (auto simp: held_def ys(1) find_key_append split: option.splits)
qed

lemma zone_ok_expire: "zone_ok z \<Longrightarrow> zone_ok (z\<lparr>zn_nodes := ngx_http_limit_req_expire rate now n (zn_nodes z)\<rparr>)"
proof -
  assume "zone_ok z"
  moreover obtain ys where "zn_nodes z = ngx_http_limit_req_expire rate now n (zn_nodes z) @ ys"
    using expire_prefix [of "zn_nodes z" rate now n] by blast
  ultimately have "distinct (map lr_key (ngx_http_limit_req_expire rate now n (zn_nodes z) @ ys))" by (simp add: zone_ok_def)
  then show ?thesis by (simp add: zone_ok_def)
qed

lemma expire_subset: "set (ngx_http_limit_req_expire rate now n nodes) \<subseteq> set nodes"
  using expire_prefix [of nodes rate now n] by (metis set_append sup_ge1)

lemma held_front:
  "held (z\<lparr>zn_nodes := lr_to_front lr nodes\<rparr>) k =
     (if k = lr_key lr then lr_count lr else held (z\<lparr>zn_nodes := nodes\<rparr>) k)"
  by (simp add: held_def lr_to_front_def find_key_filter)

lemma zone_ok_front: "zone_ok (z\<lparr>zn_nodes := nodes\<rparr>) \<Longrightarrow> zone_ok (z\<lparr>zn_nodes := lr_to_front lr nodes\<rparr>)"
  by (auto simp: zone_ok_def lr_to_front_def distinct_map inj_on_def)

lemma zone_update_simps [simp]:
  "held (z\<lparr>zn_node := k\<rparr>) = held z" "held (z\<lparr>zn_rate := r\<rparr>) = held z"
  "zone_ok (z\<lparr>zn_node := k\<rparr>) = zone_ok z" "zone_ok (z\<lparr>zn_rate := r\<rparr>) = zone_ok z"
  by (simp_all add: held_def zone_ok_def fun_eq_iff)

lemma held_Cons: "held (z\<lparr>zn_nodes := lr # zn_nodes z\<rparr>) = (held z)(lr_key lr := lr_count lr)"
  by (auto simp: held_def fun_eq_iff)

lemma zone_ok_Cons: "zone_ok z \<Longrightarrow> lr_key lr \<notin> lr_key ` set (zn_nodes z) \<Longrightarrow> zone_ok (z\<lparr>zn_nodes := lr # zn_nodes z\<rparr>)"
  by (simp add: zone_ok_def)

lemma lookup_held:
  assumes "zone_ok z" "ngx_http_limit_req_lookup limit z key now account room = (rc, excess, z')"
  shows "zone_ok z' \<and> zn_rate z' = zn_rate z
    \<and> (if rc = LR_AGAIN then \<not> account \<and> zn_node z' = Some key \<and> held z' = (held z)(key := held z key + 1)
       else zn_node z' = zn_node z \<and> held z' = held z \<and> rc \<noteq> LR_DECLINED)"
proof (cases "find (\<lambda>lr. lr_key lr = key) (zn_nodes z)")
  case (Some lr)
  then have k: "lr_key lr = key" "held z key = lr_count lr"
    by (auto simp: held_def dest: find_key_Some)
  have f: "held (z\<lparr>zn_nodes := lr_to_front lr' (zn_nodes z)\<rparr>) = (held z)(key := lr_count lr')"
      "zone_ok (z\<lparr>zn_nodes := lr_to_front lr' (zn_nodes z)\<rparr>)" if "lr_key lr' = key" for lr'
    using that held_front [where z = z and lr = lr' and nodes = "zn_nodes z"]
      zone_ok_front [where z = z and nodes = "zn_nodes z" and lr = lr'] assms(1) by auto
  show ?thesis
    using assms(2) Some k f [of lr] f [of "lr\<lparr>lr_count := lr_count lr + 1\<rparr>"]
      f [of "lr\<lparr>lr_excess := word_of_int (lr_new_excess (zn_rate z) now lr),
        lr_last := (if lr_ms now (lr_last lr) \<noteq> 0 then now else lr_last lr)\<rparr>"]
    by (simp add: ngx_http_limit_req_lookup_def Let_def fun_upd_idem split: if_splits) auto
next
  case None
  let ?nodes = "ngx_http_limit_req_expire (zn_rate z) now 1 (zn_nodes z)"
  let ?z = "z\<lparr>zn_nodes := if fst room then ?nodes else ngx_http_limit_req_expire (zn_rate z) now 0 ?nodes\<rparr>"
  have h: "held ?z = held z" and o: "zone_ok ?z"
    using held_expire [of ?nodes "zn_rate z" now 1 z] held_expire [of _ "zn_rate z" now 0 "z\<lparr>zn_nodes := ?nodes\<rparr>"]
      zone_ok_expire [OF assms(1), of "zn_rate z" now 1]
      zone_ok_expire [of "z\<lparr>zn_nodes := ?nodes\<rparr>" "zn_rate z" now 0] assms(1)
    by auto
  have "set (zn_nodes ?z) \<subseteq> set (zn_nodes z)" 
    using expire_subset [of "zn_rate z" now 0 ?nodes] expire_subset [of "zn_rate z" now 1 "zn_nodes z"] by auto
  then have k: "key \<notin> lr_key ` set (zn_nodes ?z)" using None unfolding find_None_iff by blast
  have n: "held z key = 0" using None by (simp add: held_def)
  have c: "held (?z\<lparr>zn_nodes := lr # zn_nodes ?z\<rparr>) = (held z)(key := lr_count lr)"
      "zone_ok (?z\<lparr>zn_nodes := lr # zn_nodes ?z\<rparr>)" if "lr_key lr = key" for lr
    by (simp only: held_Cons h that) (rule zone_ok_Cons [OF o], use k that in simp)
  show ?thesis
    using assms(2) None h o n c [of "\<lparr>lr_key = key, lr_last = now, lr_excess = 0, lr_count = 0\<rparr>"]
      c [of "\<lparr>lr_key = key, lr_last = 0, lr_excess = 0, lr_count = 1\<rparr>"]
    by (auto simp: ngx_http_limit_req_lookup_def Let_def fun_upd_idem split: if_splits)
qed

text \<open>A zone in which the request holds nothing, or one node, compared with the zone before the request.\<close>

definition settled :: "lr_zone \<Rightarrow> lr_zone \<Rightarrow> bool" where
  "settled z0 z \<longleftrightarrow> zone_ok z \<and> zn_node z = None \<and> held z = held z0"

definition lent :: "lr_zone \<Rightarrow> lr_zone \<Rightarrow> bool" where
  "lent z0 z \<longleftrightarrow> settled z0 z
     \<or> zone_ok z \<and> (\<exists>key. zn_node z = Some key \<and> held z = (held z0)(key := held z0 key + 1))"

lemma lr_map_keys: "(\<And>lr. lr_key (f lr) = lr_key lr) \<Longrightarrow> map lr_key (lr_map key f nodes) = map lr_key nodes"
  by (auto simp: lr_map_def)

lemma find_lr_map:
  "(\<And>lr. lr_key (f lr) = lr_key lr) \<Longrightarrow> find (\<lambda>lr. lr_key lr = k) (lr_map key f nodes) =
     map_option (\<lambda>lr. if k = key then f lr else lr) (find (\<lambda>lr. lr_key lr = k) nodes)"
  by (induction nodes) (auto simp: lr_map_def)

lemma held_release:
  assumes "lent z0 z" "zn_node z = Some key" "\<And>lr. lr_key (f lr) = lr_key lr" "\<And>lr. lr_count (f lr) = lr_count lr - 1"
  shows "settled z0 (z\<lparr>zn_nodes := lr_map key f (zn_nodes z), zn_node := None\<rparr>)"
proof -
  have h: "zone_ok z" "held z = (held z0)(key := held z0 key + 1)" using assms(1,2) by (auto simp: lent_def settled_def)
  have "held (z\<lparr>zn_nodes := lr_map key f (zn_nodes z)\<rparr>) k = held z k - (if k = key then 1 else 0)" for k
    by (auto simp: held_def find_lr_map [OF assms(3)] assms(4) split: option.splits)
  then have "held (z\<lparr>zn_nodes := lr_map key f (zn_nodes z)\<rparr>) = held z0" by (auto simp: h(2) fun_eq_iff)
  then show ?thesis using h(1) by (simp add: settled_def zone_ok_def lr_map_keys [OF assms(3)])
qed

lemma unlock_settled: "lent z0 z \<Longrightarrow> settled z0 (lr_unlock_zone z)"
  using held_release [of z0 z _ "\<lambda>lr. lr\<lparr>lr_count := lr_count lr - 1\<rparr>"]
  by (auto simp: lr_unlock_zone_def lent_def split: option.split)

lemma lr_delay_Some: "rate \<noteq> 0 \<Longrightarrow> \<exists>d. lr_delay rate limit excess = Some d"
  by (simp add: lr_delay_def)

lemma account_zone_settled:
  assumes "lent z0 z" "zn_rate z \<noteq> 0"
  shows "\<exists>d z'. lr_account_zone now limit z = Some (d, z') \<and> settled z0 z'"
proof (cases "zn_node z")
  case None
  then show ?thesis using assms(1) by (auto simp: lr_account_zone_def lent_def)
next
  case (Some key)
  have "held z key = held z0 key + 1" using assms(1) Some by (auto simp: lent_def settled_def)
  then obtain lr where lr: "find (\<lambda>lr. lr_key lr = key) (zn_nodes z) = Some lr"
    by (cases "find (\<lambda>lr. lr_key lr = key) (zn_nodes z)") (auto simp: held_def)
  obtain d where "lr_delay (zn_rate z) limit (word_of_int (lr_new_excess (zn_rate z) now lr)) = Some d"
    using lr_delay_Some [OF assms(2)] by blast
  then show ?thesis
    using Some lr held_release [OF assms(1) Some, of "\<lambda>x. x\<lparr>lr_last := (if lr_ms now (lr_last lr) \<noteq> 0 then now else lr_last x),
        lr_excess := word_of_int (lr_new_excess (zn_rate z) now lr), lr_count := lr_count x - 1\<rparr>"]
    by (simp add: lr_account_zone_def Let_def)
qed

lemma account_loop_settled:
  assumes "list_all2 lent zs0 (map snd lzs)" "list_all (\<lambda>(_, z). zn_rate z \<noteq> 0) lzs"
  shows "\<exists>d zs. lr_account_loop now lzs max_delay = Some (d, zs) \<and> list_all2 settled zs0 zs"
  using assms
proof (induction lzs arbitrary: zs0 max_delay)
  case (Cons lz lzs)
  obtain limit z where lz: "lz = (limit, z)" by fastforce
  obtain z0 zs1 where z0: "zs0 = z0 # zs1" "lent z0 z" "list_all2 lent zs1 (map snd lzs)"
    using Cons.prems(1) lz by (auto simp: list_all2_Cons2)
  obtain d z' where z': "lr_account_zone now limit z = Some (d, z')" "settled z0 z'"
    using account_zone_settled [OF z0(2), of now limit] Cons.prems(2) lz by auto
  obtain d' zs where "lr_account_loop now lzs (if max_delay < d then d else max_delay) = Some (d', zs)" "list_all2 settled zs1 zs"
    using Cons.IH [OF z0(3), of "if max_delay < d then d else max_delay"] Cons.prems(2) by auto
  then show ?case using z' lz z0(1) by auto
qed simp

text \<open>The loop over the zones: behind the place where it stops nothing is held.\<close>

definition lr_split :: "lr_zone list \<Rightarrow> lr_zone list \<Rightarrow> nat \<Rightarrow> bool" where
  "lr_split zs0 zs n \<longleftrightarrow> n \<le> length zs \<and> length zs0 = length zs
     \<and> list_all2 lent (take n zs0) (take n zs) \<and> list_all2 settled (drop n zs0) (drop n zs)"

lemma lr_split_iff:
  "lr_split zs0 zs n \<longleftrightarrow> n \<le> length zs \<and> length zs0 = length zs
     \<and> (\<forall>i<n. lent (zs0 ! i) (zs ! i)) \<and> (\<forall>i<length zs. n \<le> i \<longrightarrow> settled (zs0 ! i) (zs ! i))"
proof -
  have "(\<forall>i<length zs - n. settled (zs0 ! (n + i)) (zs ! (n + i))) \<longleftrightarrow>
      (\<forall>i<length zs. n \<le> i \<longrightarrow> settled (zs0 ! i) (zs ! i))" if "n \<le> length zs"
    using that by (metis add.commute le_add_diff_inverse le_add1 less_diff_conv)
  then show ?thesis by (auto simp: lr_split_def list_all2_conv_all_nth)
qed

lemma lr_split_next:
  assumes "lr_split zs0 zs n" "n < length zs" "lent (zs0 ! n) z"
  shows "lr_split zs0 (zs[n := z]) (n + 1)"
  using assms by (auto simp: lr_split_iff nth_list_update less_Suc_eq)

lemma lr_split_here:
  assumes "lr_split zs0 zs n" "n < length zs" "settled (zs0 ! n) z"
  shows "lr_split zs0 (zs[n := z]) n"
  using assms by (auto simp: lr_split_iff nth_list_update)

text \<open>The rate of the zone for this request, fixed or by a variable, can be evaluated and is not zero.\<close>

definition rate_given :: "lr_zone \<Rightarrow> lr_input \<Rightarrow> bool" where
  "rate_given z i \<longleftrightarrow> (\<exists>rate. rate \<noteq> 0 \<and> ngx_http_limit_req_rate_value (zn_rate z) (in_rate i) = Some rate)"

lemma rates_next:
  assumes "\<forall>i<length zs. if i < n then zn_rate (zs ! i) \<noteq> 0 else rate_given (zs ! i) (ins ! i)" "zn_rate z \<noteq> 0" "n < length zs"
  shows "\<forall>i<length zs. if i < n + 1 then zn_rate (zs[n := z] ! i) \<noteq> 0 else rate_given (zs[n := z] ! i) (ins ! i)"
  using assms by (auto simp: nth_list_update less_Suc_eq)

lemma settled_update:
  assumes "list_all2 settled zs0 zs" "settled (zs0 ! n) z"
  shows "list_all2 settled zs0 (zs[n := z])"
  using list_all2_update_cong [OF assms, of n] by simp

lemma lr_loop_lent:
  assumes "lr_loop now left limits ins zs n rc excess = (stop, n', zs')"
    and "left + n = length zs" "\<forall>i<length zs. if i < n then zn_rate (zs ! i) \<noteq> 0 else rate_given (zs ! i) (ins ! i)"
    and "lr_split zs0 zs n" "rc = LR_DECLINED \<longrightarrow> list_all2 settled zs0 zs"
  shows "stop \<noteq> LR_rate_error \<and> lr_split zs0 zs' n' \<and> (\<forall>i<length zs'. i \<le> n' \<longrightarrow> zn_rate (zs' ! i) \<noteq> 0)
    \<and> (\<forall>e. stop = LR_done LR_DECLINED e \<longrightarrow> list_all2 settled zs0 zs')"
  using assms
proof (induction left arbitrary: zs n rc excess)
  case 0
  then show ?case by auto
next
  case (Suc left)
  have n: "n < length zs" using Suc.prems(2) by simp
  obtain rate where r: "rate \<noteq> 0" "ngx_http_limit_req_rate_value (zn_rate (zs ! n)) (in_rate (ins ! n)) = Some rate"
    using Suc.prems(3) [rule_format, OF n] by (auto simp: rate_given_def)
  let ?z = "(zs ! n)\<lparr>zn_rate := rate\<rparr>"
  have s: "settled (zs0 ! n) ?z" using Suc.prems(4) n by (auto simp: lr_split_iff settled_def)
  then have l: "lent (zs0 ! n) ?z" by (simp add: lent_def)
  note rates = rates_next [OF Suc.prems(3) _ n]
  show ?case
  proof (cases "in_key (ins ! n)")
    case None
    then have "(stop, n', zs') = (LR_key_error, n, zs[n := ?z])" using Suc.prems(1) r by auto
    then show ?thesis using lr_split_here [OF Suc.prems(4) n s] rates [of ?z] r(1) by auto
  next
    case (Some key)
    show ?thesis
    proof (cases "length key = 0 \<or> 65535 < length key")
      case True
      have "lr_loop now left limits ins (zs[n := ?z]) (n + 1) rc excess = (stop, n', zs')"
        using Suc.prems(1) r Some True by simp
      moreover have "rc = LR_DECLINED \<longrightarrow> list_all2 settled zs0 (zs[n := ?z])"
        using Suc.prems(5) s settled_update by blast
      ultimately show ?thesis
        using Suc.IH [of "zs[n := ?z]" "n + 1" rc excess] Suc.prems(2) rates [of ?z] r(1) lr_split_next [OF Suc.prems(4) n l] by simp
    next
      case False
      obtain rc' excess' z where lk:
          "ngx_http_limit_req_lookup (limits ! n) ?z key now (left = 0) (in_room (ins ! n)) = (rc', excess', z)"
        by (cases "ngx_http_limit_req_lookup (limits ! n) ?z key now (left = 0) (in_room (ins ! n))")
      have h: "zone_ok z \<and> zn_rate z = rate
          \<and> (if rc' = LR_AGAIN then left \<noteq> 0 \<and> zn_node z = Some key \<and> held z = (held ?z)(key := held ?z key + 1)
             else zn_node z = zn_node ?z \<and> held z = held ?z \<and> rc' \<noteq> LR_DECLINED)"
        using lookup_held [OF _ lk] s by (simp add: settled_def)
      show ?thesis
      proof (cases "rc' = LR_AGAIN")
        case True
        have "lent (zs0 ! n) z" using True h s by (auto simp: lent_def settled_def)
        then have "lr_split zs0 (zs[n := z]) (n + 1)" by (rule lr_split_next [OF Suc.prems(4) n])
        moreover have "lr_loop now left limits ins (zs[n := z]) (n + 1) rc' excess' = (stop, n', zs')"
          using Suc.prems(1) r Some False lk True n by simp
        ultimately show ?thesis
          using Suc.IH [of "zs[n := z]" "n + 1" rc' excess'] Suc.prems(2) rates [of z] r(1) h True by simp
      next
        case busy: False
        have "settled (zs0 ! n) z" using busy h s by (auto simp: settled_def)
        then have "lr_split zs0 (zs[n := z]) n" by (rule lr_split_here [OF Suc.prems(4) n])
        moreover have "(stop, n', zs') = (LR_done rc' excess', n, zs[n := z])"
          using Suc.prems(1) r Some False lk busy n by auto
        ultimately show ?thesis using busy h rates [of z] r(1) by auto
      qed
    qed
  qed
qed

lemma settled_all: "lr_split zs0 zs n \<Longrightarrow> list_all2 settled (take n zs0) ys \<Longrightarrow> list_all2 settled zs0 (ys @ drop n zs)"
  by (metis append_take_drop_id list_all2_appendI lr_split_def)

text \<open>
  C21. Take a request for which the rate of every zone, fixed or given by a variable, can be evaluated and is
  not zero. It gives back everything it holds: whether it passes, is delayed, is rejected, finds the memory full
  or has a key that cannot be evaluated, no node is left locked, and the locks that other worker
  processes hold are untouched. The pointers to nodes are valid when they are used. (When the variable of
  a rate fails, the nodes of the zones before it stay locked, as the next theorem shows.)
\<close>

theorem limit_req_balanced:
  assumes "list_all (\<lambda>z. zone_ok z \<and> zn_node z = None) zs"
    and "length (cf_limits lrcf) = length zs" "list_all2 rate_given zs ins"
    and "ngx_http_limit_req_handler lrcf status whitelisted now ins zs = (res, zs')"
  shows "res \<noteq> Fault \<and> list_all2 settled zs zs'"
proof -
  let ?limits = "cf_limits lrcf"
  have refl: "list_all2 settled zs zs" using assms(1) by (auto simp: list_all2_conv_all_nth settled_def list_all_length)
  show ?thesis
  proof (cases "status \<or> \<not> cf_enable lrcf \<or> whitelisted")
    case True
    then show ?thesis using assms(4) refl by (auto simp: ngx_http_limit_req_handler_def)
  next
    case False
    obtain stop n zs1 where lp: "lr_loop now (length ?limits) ?limits ins zs 0 LR_DECLINED 0 = (stop, n, zs1)"
      by (cases "lr_loop now (length ?limits) ?limits ins zs 0 LR_DECLINED 0")
    have "lr_split zs zs 0" using refl by (simp add: lr_split_def)
    then have L: "stop \<noteq> LR_rate_error" "lr_split zs zs1 n" "\<And>i. i < length zs1 \<Longrightarrow> i \<le> n \<Longrightarrow> zn_rate (zs1 ! i) \<noteq> 0"
        "\<And>e. stop = LR_done LR_DECLINED e \<Longrightarrow> list_all2 settled zs zs1"
      using lr_loop_lent [OF lp, of zs] assms(2,3) refl by (auto simp: list_all2_conv_all_nth)
    have len: "length zs1 = length zs" "n \<le> length zs" using L(2) by (auto simp: lr_split_def)
    have unlock: "list_all2 settled zs (ngx_http_limit_req_unlock zs1 n)"
      unfolding ngx_http_limit_req_unlock_def
      by (rule settled_all [OF L(2)]) (use L(2) unlock_settled in \<open>auto simp: lr_split_def list_all2_map2 elim: list_all2_mono\<close>)
    show ?thesis
    proof (cases stop)
      case LR_rate_error
      then show ?thesis using L(1) by simp
    next
      case LR_key_error
      then show ?thesis using assms(4) False lp unlock by (auto simp: ngx_http_limit_req_handler_def Let_def)
    next
      case (LR_done rc excess)
      let ?i = "min n (length ?limits - 1)" and ?e = "if rc = LR_AGAIN then 0 else excess"
      consider "rc = LR_DECLINED" | "rc = LR_BUSY \<or> rc = LR_ERROR" | "rc = LR_OK \<or> rc = LR_AGAIN" by (cases rc) auto
      then show ?thesis
      proof cases
        case 1
        then show ?thesis
          using assms(4) False lp LR_done L(4) by (auto simp: ngx_http_limit_req_handler_def Let_def)
      next
        case 2
        then show ?thesis
          using assms(4) False lp LR_done unlock by (auto simp: ngx_http_limit_req_handler_def Let_def split: if_splits)
      next
        case 3
        have "length zs \<noteq> 0"
        proof
          assume "length zs = 0"
          then have "rc = LR_DECLINED" using lp assms(2) LR_done by simp
          then show False using 3 by simp
        qed
        then have "?i < length zs" using assms(2) by (intro min.strict_coboundedI2) auto
        then obtain d0 where d0: "lr_delay (zn_rate (zs1 ! ?i)) (?limits ! ?i) ?e = Some d0"
          using lr_delay_Some [OF L(3) [of ?i]] len by auto
        have "list_all2 lent (rev (take n zs)) (map snd (rev (take n (zip ?limits zs1))))"
          using L(2) len assms(2) by (simp add: lr_split_def take_zip flip: rev_map)
        moreover have "list_all (\<lambda>(_, z). zn_rate z \<noteq> 0) (rev (take n (zip ?limits zs1)))"
          using L(3) len assms(2) by (auto simp: list_all_iff in_set_conv_nth take_zip)
        ultimately obtain d zs2 where a: "lr_account_loop now (rev (take n (zip ?limits zs1))) d0 = Some (d, zs2)"
            "list_all2 settled (rev (take n zs)) zs2"
          using account_loop_settled by blast
        have "list_all2 settled (take n zs) (rev zs2)" using a(2) list_all2_rev [of settled "take n zs" "rev zs2"] by simp
        from settled_all [OF L(2) this] show ?thesis
          using assms(4) False lp LR_done 3 d0 a(1)
          by (auto simp: ngx_http_limit_req_handler_def Let_def ngx_http_limit_req_account_def split: if_splits)
      qed
    qed
  qed
qed

text \<open>
  A failure of the variable for the rate ends a request without giving back the nodes it holds: the node
  of an earlier zone stays locked.
\<close>

theorem limit_req_rate_error_leaks:
  assumes "zone_ok z1" "cf_enable lrcf" "cf_limits lrcf = [l1, l2]" "in_rate in1 = None" "in_rate in2 = Some None"
    and "in_key in1 = Some key" "0 < length key" "length key \<le> 65535"
    and "ngx_http_limit_req_lookup l1 z1 key now False (in_room in1) = (LR_AGAIN, excess, z1')"
  shows "ngx_http_limit_req_handler lrcf False False now [in1, in2] [z1, z2] = (Internal_error, [z1', z2])
    \<and> held z1' key = held z1 key + 1
    \<and> (\<forall>nodes n rate now'. nodes \<noteq> [] \<and> last nodes \<in> set (zn_nodes z1') \<and> lr_count (last nodes) = held z1' key
         \<longrightarrow> ngx_http_limit_req_expire rate now' n nodes = nodes)"
proof (intro conjI)
  show "ngx_http_limit_req_handler lrcf False False now [in1, in2] [z1, z2] = (Internal_error, [z1', z2])"
    using assms by (simp add: ngx_http_limit_req_handler_def ngx_http_limit_req_rate_value_def numeral_2_eq_2)
  show h: "held z1' key = held z1 key + 1"
    using lookup_held [OF assms(1,9)] by simp
  show "\<forall>nodes n rate now'. nodes \<noteq> [] \<and> last nodes \<in> set (zn_nodes z1') \<and> lr_count (last nodes) = held z1' key
         \<longrightarrow> ngx_http_limit_req_expire rate now' n nodes = nodes"
    using h by (subst ngx_http_limit_req_expire.simps) (simp add: Let_def)
qed

section \<open>The rate is kept\<close>

text \<open>
  Requests in one zone with memory enough for all its nodes; the flags say which requests are admitted.
\<close>

fun lr_serve :: "lr_limit \<Rightarrow> lr_zone \<Rightarrow> (64 word \<times> byte list) list \<Rightarrow> bool list" where
  "lr_serve limit z [] = []"
| "lr_serve limit z ((now, key) # reqs) =
     (let (rc, _, z') = ngx_http_limit_req_lookup limit z key now True (True, True)
      in (rc = LR_OK) # lr_serve limit z' reqs)"

definition admitted :: "byte list \<Rightarrow> (64 word \<times> byte list) list \<Rightarrow> bool list \<Rightarrow> nat" where
  "admitted key reqs oks = length (filter (\<lambda>((_, k), ok). k = key \<and> ok) (zip reqs oks))"

lemma pow_values:
  "(2 :: int) ^ 60 = 1152921504606846976" "(2 :: int) ^ 62 = 4611686018427387904" "(2 :: int) ^ 63 = 9223372036854775808"
  by simp_all

lemma uint_small: "0 \<le> x \<Longrightarrow> x < 2 ^ 64 \<Longrightarrow> uint (word_of_int x :: 64 word) = x"
  by (simp add: uint_word_of_int_eq take_bit_int_eq_self)

lemma lr_ms_forward:
  assumes "uint prev \<le> uint now" "uint now < 2 ^ 62"
  shows "lr_ms now prev = uint now - uint prev" "sint (now - prev) = uint now - uint prev"
proof -
  have "now - prev = word_of_int (uint now - uint prev)" by (simp add: wi_hom_syms)
  moreover have "sint (word_of_int (uint now - uint prev) :: 64 word) = uint now - uint prev"
    by (intro sint_small) (use assms uint_ge_0 [of prev] pow_values in linarith)+
  ultimately have "sint (now - prev) = uint now - uint prev" by simp
  then show "sint (now - prev) = uint now - uint prev" "lr_ms now prev = uint now - uint prev"
    using assms by (simp_all add: lr_ms_def Let_def)
qed

lemma lr_new_excess_lower:
  assumes "uint (lr_last lr) \<le> uint now" "uint now < 2 ^ 62" "uint now - uint (lr_last lr) < 60000"
    and "uint rate < 2 ^ 40" "uint (lr_excess lr) < 2 ^ 60"
  shows "uint (lr_excess lr) + 1000 \<le> lr_new_excess rate now lr + uint rate * (uint now - uint (lr_last lr)) div 1000
    \<and> 0 \<le> lr_new_excess rate now lr \<and> lr_new_excess rate now lr < 2 ^ 61"
proof -
  let ?ms = "uint now - uint (lr_last lr)" and ?d = "uint rate * (uint now - uint (lr_last lr)) div 1000"
  have b: "0 \<le> uint rate * ?ms" "uint rate * ?ms \<le> 2 ^ 40 * 60000"
    using assms by (intro mult_nonneg_nonneg mult_mono; simp)+
  have "uint (rate * word_of_int ?ms) = uint rate * ?ms"
  proof -
    have "rate * word_of_int ?ms = word_of_int (uint rate * ?ms)" by (simp add: wi_hom_syms)
    moreover have "uint (word_of_int (uint rate * ?ms) :: 64 word) = uint rate * ?ms" by (rule uint_small) (use b in simp_all)
    ultimately show ?thesis by (simp only:)
  qed
  then have "uint (rate * word_of_int ?ms div 1000) = ?d" by (simp add: uint_div)
  then have "rate * word_of_int ?ms div 1000 = word_of_int ?d" by (metis word_of_int_uint)
  then have "lr_excess lr - rate * word_of_int ?ms div 1000 + 1000 = word_of_int (uint (lr_excess lr) - ?d + 1000)"
    by (simp add: wi_hom_syms)
  moreover have d: "0 \<le> ?d" "?d < 2 ^ 60" using b by auto
  then have "sint (word_of_int (uint (lr_excess lr) - ?d + 1000) :: 64 word) = uint (lr_excess lr) - ?d + 1000"
    by (intro sint_small) (use assms(5) d uint_ge_0 [of "lr_excess lr"] pow_values in linarith)+
  ultimately have "lr_new_excess rate now lr = max 0 (uint (lr_excess lr) - ?d + 1000)"
    by (auto simp: lr_new_excess_def lr_ms_forward [OF assms(1,2)] Let_def)
  then show ?thesis using d assms(5) by auto
qed

lemma lookup_rate: "ngx_http_limit_req_lookup limit z k now account room = (rc, excess, z') \<Longrightarrow> zn_rate z' = zn_rate z"
  by (auto simp: ngx_http_limit_req_lookup_def Let_def split: option.splits if_splits)

text \<open>Requests with other keys do not touch a node, and only an idle one is removed.\<close>

lemma lookup_other:
  assumes "ngx_http_limit_req_lookup limit z k now True (True, True) = (rc, excess, z')" "k \<noteq> key"
  shows "find (\<lambda>lr. lr_key lr = key) (zn_nodes z') = Some lr \<Longrightarrow> find (\<lambda>lr. lr_key lr = key) (zn_nodes z) = Some lr"
    and "find (\<lambda>lr. lr_key lr = key) (zn_nodes z) = Some lr \<Longrightarrow> \<not> lr_idle (zn_rate z) now lr
      \<Longrightarrow> find (\<lambda>lr. lr_key lr = key) (zn_nodes z') = Some lr"
proof -
  let ?f = "find (\<lambda>lr. lr_key lr = key)" and ?e = "ngx_http_limit_req_expire (zn_rate z) now 1 (zn_nodes z)"
  obtain ys where ys: "zn_nodes z = ?e @ ys" "list_all (lr_idle (zn_rate z) now) ys"
    using expire_prefix [of "zn_nodes z" "zn_rate z" now 1] by auto
  have f: "?f (zn_nodes z) = (case ?f ?e of None \<Rightarrow> ?f ys | Some lr \<Rightarrow> Some lr)"
    by (subst ys(1)) (rule find_key_append)
  have "?f (zn_nodes z') = ?f (zn_nodes z) \<or> ?f (zn_nodes z') = ?f ?e"
  proof (cases "find (\<lambda>lr. lr_key lr = k) (zn_nodes z)")
    case None
    then show ?thesis using assms by (auto simp: ngx_http_limit_req_lookup_def Let_def)
  next
    case (Some x)
    then have "lr_key x = k" using find_key_Some by blast
    then show ?thesis
      using assms Some by (auto simp: ngx_http_limit_req_lookup_def Let_def lr_to_front_def find_key_filter split: if_splits)
  qed
  moreover have "lr_idle (zn_rate z) now lr" if "?f ys = Some lr" for lr
    using find_key_Some [OF that] ys(2) by (auto simp: list_all_iff)
  ultimately show "?f (zn_nodes z') = Some lr \<Longrightarrow> ?f (zn_nodes z) = Some lr"
    "?f (zn_nodes z) = Some lr \<Longrightarrow> \<not> lr_idle (zn_rate z) now lr \<Longrightarrow> ?f (zn_nodes z') = Some lr"
    by (auto simp: f split: option.splits)
qed

text \<open>What a request does with its own node.\<close>

lemma lookup_same:
  assumes "ngx_http_limit_req_lookup limit z key now True (True, True) = (rc, excess, z')"
    and "find (\<lambda>lr. lr_key lr = key) (zn_nodes z) = Some lr" "uint (lr_last lr) \<le> uint now" "uint now < 2 ^ 62"
  shows "if rc = LR_OK then \<exists>lr'. find (\<lambda>lr. lr_key lr = key) (zn_nodes z') = Some lr' \<and> uint (lr_last lr') = uint now
      \<and> lr_excess lr' = word_of_int (lr_new_excess (zn_rate z) now lr) \<and> lr_excess lr' \<le> li_burst limit
    else find (\<lambda>lr. lr_key lr = key) (zn_nodes z') = Some lr"
proof -
  have k: "lr_key lr = key" using find_key_Some [OF assms(2)] by simp
  have "uint (if lr_ms now (lr_last lr) \<noteq> 0 then now else lr_last lr) = uint now"
    using lr_ms_forward(1) [OF assms(3,4)] by simp
  then show ?thesis
    using assms(1,2) k by (auto simp: ngx_http_limit_req_lookup_def Let_def lr_to_front_def split: if_splits)
qed

lemma admitted_simps [simp]:
  "admitted key [] oks = 0"
  "admitted key ((now, k) # reqs) (ok # oks) = (if k = key \<and> ok then 1 else 0) + admitted key reqs oks"
  by (simp_all add: admitted_def)

lemma div_superadd: "x div 1000 + y div 1000 \<le> (x + y) div (1000 :: int)"
  by linarith
lemma not_idle:
  assumes "uint (lr_last lr) \<le> uint now" "uint now < 2 ^ 62" "uint now - uint (lr_last lr) < 60000"
  shows "\<not> lr_idle rate now lr"
  using assms lr_ms_forward(2) [OF assms(1,2)] by (simp add: lr_idle_def Let_def)

lemma serve_known:
  assumes "find (\<lambda>lr. lr_key lr = key) (zn_nodes z) = Some lr" "lr_excess lr \<le> li_burst limit"
    and "sorted (map (\<lambda>r. uint (fst r)) reqs)" "list_all (\<lambda>r. uint (lr_last lr) \<le> uint (fst r) \<and> uint (fst r) \<le> e) reqs"
    and "e - uint (lr_last lr) < 60000" "uint (lr_last lr) \<le> e" "e < 2 ^ 62"
    and "uint (zn_rate z) < 2 ^ 40" "uint (li_burst limit) < 2 ^ 60"
  shows "1000 * int (admitted key reqs (lr_serve limit z reqs)) + uint (lr_excess lr) \<le>
    uint (li_burst limit) + uint (zn_rate z) * (e - uint (lr_last lr)) div 1000"
  using assms(1-6,8)
proof (induction reqs arbitrary: z lr)
  case Nil
  then have "0 \<le> uint (zn_rate z) * (e - uint (lr_last lr)) div 1000" by (simp add: pos_imp_zdiv_nonneg_iff)
  then show ?case using Nil by (simp add: word_le_def)
next
  case (Cons r reqs)
  obtain now k where r: "r = (now, k)" by fastforce
  obtain rc excess z' where lk: "ngx_http_limit_req_lookup limit z k now True (True, True) = (rc, excess, z')"
    by (cases "ngx_http_limit_req_lookup limit z k now True (True, True)")
  have now: "uint (lr_last lr) \<le> uint now" "uint now \<le> e" "uint now < 2 ^ 62" "uint now - uint (lr_last lr) < 60000"
    using Cons.prems r assms(7) by auto
  have later: "list_all (\<lambda>r. uint now \<le> uint (fst r) \<and> uint (fst r) \<le> e) reqs" "sorted (map (\<lambda>r. uint (fst r)) reqs)"
    using Cons.prems(3,4) r by (auto simp: list_all_iff)
  have rate: "zn_rate z' = zn_rate z" by (rule lookup_rate [OF lk])
  have ad: "admitted key (r # reqs) (lr_serve limit z (r # reqs)) =
      (if k = key \<and> rc = LR_OK then 1 else 0) + admitted key reqs (lr_serve limit z' reqs)"
    using lk r by simp
  show ?case
  proof (cases "k = key \<and> rc = LR_OK")
    case False
    have "find (\<lambda>lr. lr_key lr = key) (zn_nodes z') = Some lr"
      using False lk lookup_other(2) [OF lk _ Cons.prems(1) not_idle [OF now(1,3,4)]]
        lookup_same [of limit z key now rc excess z' lr] Cons.prems(1) now by (cases "k = key") auto
    from Cons.IH [OF this Cons.prems(2)] show ?thesis
      using False Cons.prems later rate ad by auto
  next
    case True
    obtain lr' where lr': "find (\<lambda>lr. lr_key lr = key) (zn_nodes z') = Some lr'" "uint (lr_last lr') = uint now"
        "lr_excess lr' = word_of_int (lr_new_excess (zn_rate z) now lr)" "lr_excess lr' \<le> li_burst limit"
      using lookup_same [of limit z key now rc excess z' lr] lk Cons.prems(1) now True by auto
    have ex: "uint (lr_excess lr) < 2 ^ 60" using Cons.prems(2) assms(9) by (simp add: word_le_def)
    note lo = lr_new_excess_lower [OF now(1,3,4) Cons.prems(7) ex]
    have "uint (lr_excess lr') = lr_new_excess (zn_rate z) now lr"
      unfolding lr'(3) by (rule uint_small) (use lo in auto)
    moreover have "1000 * int (admitted key reqs (lr_serve limit z' reqs)) + uint (lr_excess lr') \<le>
        uint (li_burst limit) + uint (zn_rate z) * (e - uint now) div 1000"
      using Cons.IH [OF lr'(1,4)] later lr'(2) now Cons.prems(5,7) rate by simp
    moreover have "uint (zn_rate z) * (e - uint now) div 1000 + uint (zn_rate z) * (uint now - uint (lr_last lr)) div 1000
        \<le> uint (zn_rate z) * (e - uint (lr_last lr)) div 1000"
      using div_superadd [of "uint (zn_rate z) * (e - uint now)" "uint (zn_rate z) * (uint now - uint (lr_last lr))"]
      by (simp add: algebra_simps)
    ultimately show ?thesis using True ad lo by simp
  qed
qed

lemma serve_unknown:
  assumes "sorted (map (\<lambda>r. uint (fst r)) reqs)" "list_all (\<lambda>r. t \<le> uint (fst r) \<and> uint (fst r) \<le> e) reqs"
    and "e - t < 60000" "t \<le> e" "e < 2 ^ 62" "uint (zn_rate z) < 2 ^ 40" "uint (li_burst limit) < 2 ^ 60"
    and "\<And>lr. find (\<lambda>lr. lr_key lr = key) (zn_nodes z) = Some lr \<Longrightarrow> uint (lr_last lr) \<le> t"
  shows "1000 * int (admitted key reqs (lr_serve limit z reqs)) \<le>
    1000 + uint (li_burst limit) + uint (zn_rate z) * (e - t) div 1000"
  using assms(1,2,6,8)
proof (induction reqs arbitrary: z)
  case Nil
  have "0 \<le> uint (zn_rate z) * (e - t) div 1000" using assms(4) by (simp add: pos_imp_zdiv_nonneg_iff)
  then show ?case by simp
next
  case (Cons r reqs)
  obtain now k where r: "r = (now, k)" by fastforce
  obtain rc excess z' where lk: "ngx_http_limit_req_lookup limit z k now True (True, True) = (rc, excess, z')"
    by (cases "ngx_http_limit_req_lookup limit z k now True (True, True)")
  have now: "t \<le> uint now" "uint now \<le> e" "uint now < 2 ^ 62" using Cons.prems r assms(5) by auto
  have later: "list_all (\<lambda>r. uint now \<le> uint (fst r) \<and> uint (fst r) \<le> e) reqs" "sorted (map (\<lambda>r. uint (fst r)) reqs)"
    using Cons.prems(1,2) r by (auto simp: list_all_iff)
  have rate: "zn_rate z' = zn_rate z" by (rule lookup_rate [OF lk])
  have ad: "admitted key (r # reqs) (lr_serve limit z (r # reqs)) =
      (if k = key \<and> rc = LR_OK then 1 else 0) + admitted key reqs (lr_serve limit z' reqs)"
    using lk r by simp
  show ?case
  proof (cases "k = key \<and> rc = LR_OK")
    case False
    have "uint (lr_last lr) \<le> t" if f: "find (\<lambda>lr. lr_key lr = key) (zn_nodes z') = Some lr" for lr
    proof (cases "k = key")
      case True
      obtain lr0 where lr0: "find (\<lambda>lr. lr_key lr = key) (zn_nodes z) = Some lr0"
        using False lk True by (cases "find (\<lambda>lr. lr_key lr = key) (zn_nodes z)") (auto simp: ngx_http_limit_req_lookup_def Let_def)
      then show ?thesis
        using lookup_same [of limit z key now rc excess z' lr0] lk True False Cons.prems(4) [OF lr0] now f by auto
    qed (use lookup_other(1) [OF lk _ f] Cons.prems(4) in simp)
    from Cons.IH [of z', OF later(2) _ _ this] show ?thesis using Cons.prems(2,3) rate ad False by simp
  next
    case True
    obtain lr' where lr': "find (\<lambda>lr. lr_key lr = key) (zn_nodes z') = Some lr'" "uint (lr_last lr') = uint now"
        "lr_excess lr' \<le> li_burst limit"
    proof (cases "find (\<lambda>lr. lr_key lr = key) (zn_nodes z)")
      case None
      then show ?thesis using that lk True by (auto simp: ngx_http_limit_req_lookup_def Let_def)
    next
      case (Some lr0)
      then show ?thesis
        using that lookup_same [of limit z key now rc excess z' lr0] lk True Cons.prems(4) [OF Some] now by auto
    qed
    have "1000 * int (admitted key reqs (lr_serve limit z' reqs)) + uint (lr_excess lr') \<le>
        uint (li_burst limit) + uint (zn_rate z') * (e - uint (lr_last lr')) div 1000"
      by (rule serve_known [OF lr'(1,3) later(2)]) (use later(1) lr'(2) now assms Cons.prems(3) rate in auto)
    then have "1000 * int (admitted key reqs (lr_serve limit z' reqs)) + uint (lr_excess lr') \<le>
        uint (li_burst limit) + uint (zn_rate z) * (e - uint now) div 1000" by (simp only: rate lr'(2))
    moreover have "int (admitted key (r # reqs) (lr_serve limit z (r # reqs))) = 1 + int (admitted key reqs (lr_serve limit z' reqs))"
      using ad True by simp
    moreover have "uint (zn_rate z) * (e - uint now) div 1000 \<le> uint (zn_rate z) * (e - t) div 1000"
      using now(1) by (intro zdiv_mono1 mult_left_mono) auto
    ultimately show ?thesis using uint_ge_0 [of "lr_excess lr'"] by linarith
  qed
qed

text \<open>
  C14. The configured rate is kept: in any period shorter than a minute, the requests with one key that are
  admitted are at most one, the burst, and what the rate allows in that time (all in thousandths of a
  request), whatever requests with other keys come in between, as long as the zone has memory for its
  nodes.
\<close>

theorem limit_req_rate_kept:
  assumes "sorted (map (\<lambda>r. uint (fst r)) reqs)" "list_all (\<lambda>r. t \<le> uint (fst r) \<and> uint (fst r) \<le> t + T) reqs"
    and "0 \<le> T" "T < 60000" "t + T < 2 ^ 62" "uint (zn_rate z) < 2 ^ 40" "uint (li_burst limit) < 2 ^ 60"
    and "list_all (\<lambda>lr. uint (lr_last lr) \<le> t) (zn_nodes z)"
  shows "1000 * int (admitted key reqs (lr_serve limit z reqs)) \<le>
    1000 + uint (li_burst limit) + uint (zn_rate z) * T div 1000"
proof -
  have "uint (lr_last lr) \<le> t" if "find (\<lambda>lr. lr_key lr = key) (zn_nodes z) = Some lr" for lr
    using find_key_Some [OF that] assms(8) by (auto simp: list_all_iff)
  from serve_unknown [OF assms(1,2) _ _ assms(5,6,7) this] show ?thesis using assms(3,4) by simp
qed

theorem limit_req_rate_kept_witness:
  "1000 * int (admitted [7] [(5, [7]), (5, [7])] (lr_serve \<lparr>li_burst = 0, li_delay = 0\<rparr>
     \<lparr>zn_nodes = [], zn_rate = 1000, zn_node = None\<rparr> [(5, [7]), (5, [7])])) \<le> 1000 + 0 + 1000 * 5 div 1000"
  using limit_req_rate_kept [of "[(5, [7]), (5, [7])]" 0 5 "\<lparr>zn_nodes = [], zn_rate = 1000, zn_node = None\<rparr>"
      "\<lparr>li_burst = 0, li_delay = 0\<rparr>" "[7]"] by simp

text \<open>
  Two zones, the rate of the second by a variable. The request takes a node of the first zone, finds no
  memory in the second one and is rejected; the node is given back.
\<close>

theorem limit_req_balanced_witness:
  "case ngx_http_limit_req_handler
      \<lparr>cf_enable = True, cf_dry_run = False, cf_limits = [\<lparr>li_burst = 0, li_delay = 0\<rparr>, \<lparr>li_burst = 0, li_delay = 0\<rparr>]\<rparr>
      False False 5
      [\<lparr>in_rate = None, in_key = Some [7], in_room = (True, True)\<rparr>,
       \<lparr>in_rate = Some (Some (bytes ''5r/s'')), in_key = Some [7], in_room = (False, False)\<rparr>]
      [\<lparr>zn_nodes = [], zn_rate = 1000, zn_node = None\<rparr>, \<lparr>zn_nodes = [], zn_rate = 0, zn_node = None\<rparr>] of
    (res, zs') \<Rightarrow> res = Limited \<and> length zs' = 2 \<and> zn_node (zs' ! 0) = None \<and> held (zs' ! 0) [7] = 0"
proof -
  let ?l = "\<lparr>li_burst = 0, li_delay = 0\<rparr>" and ?z = "\<lambda>r. \<lparr>zn_nodes = [], zn_rate = r, zn_node = None\<rparr>"
  let ?c = "\<lparr>cf_enable = True, cf_dry_run = False, cf_limits = [?l, ?l]\<rparr>"
    and ?i = "[\<lparr>in_rate = None, in_key = Some [7], in_room = (True, True)\<rparr>,
       \<lparr>in_rate = Some (Some (bytes ''5r/s'')), in_key = Some [7], in_room = (False, False)\<rparr>]"
  obtain res zs' where h: "ngx_http_limit_req_handler ?c False False 5 ?i [?z 1000, ?z 0] = (res, zs')" by fastforce
  have rates: "ngx_http_limit_req_rate_value 1000 None = Some 1000"
      "ngx_http_limit_req_rate_value 0 (Some (Some (bytes ''5r/s''))) = Some 5000"
    by code_simp+
  then have "list_all2 rate_given [?z 1000, ?z 0] ?i" by (simp add: rate_given_def)
  then have "list_all2 settled [?z 1000, ?z 0] zs'" using limit_req_balanced [OF _ _ _ h] by (simp add: zone_ok_def)
  then have "length zs' = 2 \<and> zn_node (zs' ! 0) = None \<and> held (zs' ! 0) = held (?z 1000)"
    by (auto simp: list_all2_Cons1 settled_def)
  moreover have "held (?z 1000) [7] = 0" by (simp add: held_def)
  moreover have "ngx_http_limit_req_lookup ?l (?z r) [7] 5 False (True, True) = (LR_AGAIN, 0,
        \<lparr>zn_nodes = [\<lparr>lr_key = [7], lr_last = 0, lr_excess = 0, lr_count = 1\<rparr>], zn_rate = r, zn_node = Some [7]\<rparr>)"
      "ngx_http_limit_req_lookup ?l (?z r) [7] 5 True (False, False) = (LR_ERROR, 0, ?z r)" for r
    by (simp_all add: ngx_http_limit_req_lookup_def ngx_http_limit_req_expire.simps)
  then have "fst (ngx_http_limit_req_handler ?c False False 5 ?i [?z 1000, ?z 0]) = Limited"
    using rates by (simp add: ngx_http_limit_req_handler_def numeral_2_eq_2)
  ultimately show ?thesis using h by simp
qed

theorem limit_req_rate_error_leaks_witness:
  "ngx_http_limit_req_handler \<lparr>cf_enable = True, cf_dry_run = False,
       cf_limits = [\<lparr>li_burst = 0, li_delay = 0\<rparr>, \<lparr>li_burst = 0, li_delay = 0\<rparr>]\<rparr> False False 5
     [\<lparr>in_rate = None, in_key = Some [7], in_room = (True, True)\<rparr>,
      \<lparr>in_rate = Some None, in_key = Some [7], in_room = (True, True)\<rparr>]
     [\<lparr>zn_nodes = [], zn_rate = 1000, zn_node = None\<rparr>, \<lparr>zn_nodes = [], zn_rate = 1000, zn_node = None\<rparr>] =
   (Internal_error, [\<lparr>zn_nodes = [\<lparr>lr_key = [7], lr_last = 0, lr_excess = 0, lr_count = 1\<rparr>], zn_rate = 1000, zn_node = Some [7]\<rparr>,
      \<lparr>zn_nodes = [], zn_rate = 1000, zn_node = None\<rparr>])"
proof -
  let ?z = "\<lparr>zn_nodes = [], zn_rate = 1000, zn_node = None\<rparr> :: lr_zone" and ?l = "\<lparr>li_burst = 0, li_delay = 0\<rparr> :: lr_limit"
  have "ngx_http_limit_req_lookup ?l ?z [7] 5 False (True, True) = (LR_AGAIN, 0,
      \<lparr>zn_nodes = [\<lparr>lr_key = [7], lr_last = 0, lr_excess = 0, lr_count = 1\<rparr>], zn_rate = 1000, zn_node = Some [7]\<rparr>)"
    by (simp add: ngx_http_limit_req_lookup_def ngx_http_limit_req_expire.simps)
  then show ?thesis
    using limit_req_rate_error_leaks [where lrcf = "\<lparr>cf_enable = True, cf_dry_run = False, cf_limits = [?l, ?l]\<rparr>" and ?z1.0 = ?z
        and ?z2.0 = ?z and ?l1.0 = ?l and ?l2.0 = ?l and key = "[7]" and now = 5
        and ?in1.0 = "\<lparr>in_rate = None, in_key = Some [7], in_room = (True, True)\<rparr>"
        and ?in2.0 = "\<lparr>in_rate = Some None, in_key = Some [7], in_room = (True, True)\<rparr>"]
    by (simp add: zone_ok_def)
qed

section \<open>Malformed rates\<close>

text \<open>
  A rate that is not a number is accepted: the error value of \<open>ngx_atoi\<close> is stored in an unsigned variable
  and passes the test for a positive number. The limit is then astronomically high. A number that is
  too large can even give the rate zero, by which the module divides later.
\<close>

theorem limit_req_malformed_rate_accepted:
  assumes "ngx_atoi s = None" "s \<noteq> []" "length s \<le> 65532"
    and "ngx_atoi s' = Some (2 ^ 61)" "length s' \<le> 65532"
  shows "ngx_http_limit_req_rate_value rate (Some (Some (s @ bytes ''r/s''))) = Some (- 1000)
    \<and> ngx_http_limit_req_rate_value rate (Some (Some (s' @ bytes ''r/s''))) = Some 0"
proof -
  have "s' \<noteq> []" using assms(4) by (auto simp: ngx_atoi_def)
  then show ?thesis using assms by (simp add: ngx_http_limit_req_rate_value_def)
qed

theorem limit_req_malformed_rate_accepted_witness:
  "ngx_http_limit_req_rate_value 5 (Some (Some (bytes ''xr/s''))) = Some (- 1000)
   \<and> ngx_http_limit_req_rate_value 5 (Some (Some (bytes ''2305843009213693952r/s''))) = Some 0"
proof -
  have n: "ngx_atoi (bytes ''x'') = None" by (simp add: ngx_atoi_def)
  have "list_all is_digit (bytes ''2305843009213693952'')" by (simp add: is_digit_def)
  moreover have "dec_val (bytes ''2305843009213693952'') = 2 ^ 61" by (simp add: digit_val_def)
  ultimately have b: "ngx_atoi (bytes ''2305843009213693952'') = Some (2 ^ 61)"
    by (simp only: ngx_atoi_exact) (simp add: ngx_consts)
  have e: "bytes ''xr/s'' = bytes ''x'' @ bytes ''r/s''"
      "bytes ''2305843009213693952r/s'' = bytes ''2305843009213693952'' @ bytes ''r/s''"
    by (simp_all only: append.simps flip: bytes_simps(3))
  show ?thesis
    unfolding e by (rule limit_req_malformed_rate_accepted [OF n _ _ b]) simp_all
qed

end
