(* ===== verification/Ngx_Rbtree.thy ===== *)
theory Ngx_Rbtree
  imports Prelude
begin

text \<open>
  The red-black tree of \<open>src/core/ngx_rbtree.c\<close> and \<open>ngx_rbtree.h\<close>: nodes with parent pointers in a
  store, the two rotations, insertion with the two comparisons, deletion with its repair loop, and the
  walk in the order of the keys. The loops are partial functions; that they return is proved in the
  theories below this one.
\<close>

section \<open>Nodes\<close>

text \<open>
  A node is an address. The fields of all nodes are maps, and so are those of the sentinel, which stands
  for every missing child. The direction \<open>True\<close> is left. The parent of the root has no meaning.
\<close>

record rbtree =
  rb_root :: nat
  rb_sentinel :: nat
  rb_key :: "nat \<Rightarrow> 64 word"
  rb_left :: "nat \<Rightarrow> nat"
  rb_right :: "nat \<Rightarrow> nat"
  rb_parent :: "nat \<Rightarrow> nat"
  rb_red :: "nat \<Rightarrow> bool"

definition set_left :: "nat \<Rightarrow> nat \<Rightarrow> rbtree \<Rightarrow> rbtree" where
  "set_left a v h = h\<lparr>rb_left := (rb_left h)(a := v)\<rparr>"

definition set_right :: "nat \<Rightarrow> nat \<Rightarrow> rbtree \<Rightarrow> rbtree" where
  "set_right a v h = h\<lparr>rb_right := (rb_right h)(a := v)\<rparr>"

definition set_parent :: "nat \<Rightarrow> nat \<Rightarrow> rbtree \<Rightarrow> rbtree" where
  "set_parent a v h = h\<lparr>rb_parent := (rb_parent h)(a := v)\<rparr>"

definition set_red :: "nat \<Rightarrow> bool \<Rightarrow> rbtree \<Rightarrow> rbtree" where
  "set_red a v h = h\<lparr>rb_red := (rb_red h)(a := v)\<rparr>"

text \<open>The macro that makes an empty tree: the sentinel must be black.\<close>

definition ngx_rbtree_init :: "nat \<Rightarrow> rbtree \<Rightarrow> rbtree" where
  "ngx_rbtree_init s h = (set_red s False h)\<lparr>rb_root := s, rb_sentinel := s\<rparr>"

section \<open>Rotations\<close>

definition ngx_rbtree_left_rotate :: "nat \<Rightarrow> rbtree \<Rightarrow> rbtree" where
  "ngx_rbtree_left_rotate node h =
     (let temp = rb_right h node;
          h = set_right node (rb_left h temp) h;
          h = (if rb_left h temp \<noteq> rb_sentinel h then set_parent (rb_left h temp) node h else h);
          h = set_parent temp (rb_parent h node) h;
          h = (if node = rb_root h then h\<lparr>rb_root := temp\<rparr>
               else if node = rb_left h (rb_parent h node) then set_left (rb_parent h node) temp h
               else set_right (rb_parent h node) temp h);
          h = set_left temp node h
      in set_parent node temp h)"

definition ngx_rbtree_right_rotate :: "nat \<Rightarrow> rbtree \<Rightarrow> rbtree" where
  "ngx_rbtree_right_rotate node h =
     (let temp = rb_left h node;
          h = set_left node (rb_right h temp) h;
          h = (if rb_right h temp \<noteq> rb_sentinel h then set_parent (rb_right h temp) node h else h);
          h = set_parent temp (rb_parent h node) h;
          h = (if node = rb_root h then h\<lparr>rb_root := temp\<rparr>
               else if node = rb_right h (rb_parent h node) then set_right (rb_parent h node) temp h
               else set_left (rb_parent h node) temp h);
          h = set_right temp node h
      in set_parent node temp h)"

section \<open>Insertion\<close>

text \<open>
  The tree has a function that finds the place of a new node. The two of the library differ in the
  comparison; a timer compares values that may have wrapped around.
\<close>

definition key_less :: "rbtree \<Rightarrow> nat \<Rightarrow> nat \<Rightarrow> bool" where
  "key_less h node temp \<longleftrightarrow> rb_key h node < rb_key h temp"

definition timer_less :: "rbtree \<Rightarrow> nat \<Rightarrow> nat \<Rightarrow> bool" where
  "timer_less h node temp \<longleftrightarrow> sint (rb_key h node - rb_key h temp) < 0"

partial_function (option) insert_place :: "(nat \<Rightarrow> bool) \<Rightarrow> rbtree \<Rightarrow> nat \<Rightarrow> (nat \<times> bool) option" where
  "insert_place lt h temp =
     (let p = (if lt temp then rb_left h temp else rb_right h temp) in
      if p = rb_sentinel h then Some (temp, lt temp) else insert_place lt h p)"

definition insert_at :: "nat \<Rightarrow> nat \<times> bool \<Rightarrow> rbtree \<Rightarrow> rbtree" where
  "insert_at node place h =
     (let (temp, to_left) = place;
          h = (if to_left then set_left temp node h else set_right temp node h);
          h = set_parent node temp h;
          h = set_left node (rb_sentinel h) h;
          h = set_right node (rb_sentinel h) h
      in set_red node True h)"

definition ngx_rbtree_insert_value :: "nat \<Rightarrow> nat \<Rightarrow> rbtree \<Rightarrow> rbtree option" where
  "ngx_rbtree_insert_value temp node h =
     map_option (\<lambda>place. insert_at node place h) (insert_place (key_less h node) h temp)"

definition ngx_rbtree_insert_timer_value :: "nat \<Rightarrow> nat \<Rightarrow> rbtree \<Rightarrow> rbtree option" where
  "ngx_rbtree_insert_timer_value temp node h =
     map_option (\<lambda>place. insert_at node place h) (insert_place (timer_less h node) h temp)"

text \<open>One round of the loop that restores the balance: the tree and the node for the next round.\<close>

definition insert_fix :: "nat \<Rightarrow> rbtree \<Rightarrow> nat \<times> rbtree" where
  "insert_fix node h =
     (if rb_parent h node = rb_left h (rb_parent h (rb_parent h node)) then
        let temp = rb_right h (rb_parent h (rb_parent h node)) in
        if rb_red h temp then
          let h = set_red (rb_parent h node) False h;
              h = set_red temp False h;
              h = set_red (rb_parent h (rb_parent h node)) True h
          in (rb_parent h (rb_parent h node), h)
        else
          let (node, h) = (if node = rb_right h (rb_parent h node)
                           then (rb_parent h node, ngx_rbtree_left_rotate (rb_parent h node) h) else (node, h));
              h = set_red (rb_parent h node) False h;
              h = set_red (rb_parent h (rb_parent h node)) True h
          in (node, ngx_rbtree_right_rotate (rb_parent h (rb_parent h node)) h)
      else
        let temp = rb_left h (rb_parent h (rb_parent h node)) in
        if rb_red h temp then
          let h = set_red (rb_parent h node) False h;
              h = set_red temp False h;
              h = set_red (rb_parent h (rb_parent h node)) True h
          in (rb_parent h (rb_parent h node), h)
        else
          let (node, h) = (if node = rb_left h (rb_parent h node)
                           then (rb_parent h node, ngx_rbtree_right_rotate (rb_parent h node) h) else (node, h));
              h = set_red (rb_parent h node) False h;
              h = set_red (rb_parent h (rb_parent h node)) True h
          in (node, ngx_rbtree_left_rotate (rb_parent h (rb_parent h node)) h))"

partial_function (option) insert_loop :: "nat \<Rightarrow> rbtree \<Rightarrow> rbtree option" where
  "insert_loop node h =
     (if node \<noteq> rb_root h \<and> rb_red h (rb_parent h node) then
        let (node, h) = insert_fix node h in insert_loop node h
      else Some (set_red (rb_root h) False h))"

text \<open>The function of the tree that finds the place is an argument.\<close>

definition ngx_rbtree_insert ::
  "(nat \<Rightarrow> nat \<Rightarrow> rbtree \<Rightarrow> rbtree option) \<Rightarrow> nat \<Rightarrow> rbtree \<Rightarrow> rbtree option"
where
  "ngx_rbtree_insert find_place node h =
     (if rb_root h = rb_sentinel h then
        let h = set_parent node 0 h;
            h = set_left node (rb_sentinel h) h;
            h = set_right node (rb_sentinel h) h;
            h = set_red node False h
        in Some (h\<lparr>rb_root := node\<rparr>)
      else case find_place (rb_root h) node h of None \<Rightarrow> None | Some h \<Rightarrow> insert_loop node h)"

section \<open>Walking through the tree\<close>

partial_function (option) ngx_rbtree_min :: "rbtree \<Rightarrow> nat \<Rightarrow> nat option" where
  "ngx_rbtree_min h node =
     (if rb_left h node \<noteq> rb_sentinel h then ngx_rbtree_min h (rb_left h node) else Some node)"

text \<open>The next node in the order of the keys, or \<open>NULL\<close> (\<open>Some None\<close>).\<close>

partial_function (option) next_up :: "rbtree \<Rightarrow> nat \<Rightarrow> nat option option" where
  "next_up h node =
     (if node = rb_root h then Some None
      else if node = rb_left h (rb_parent h node) then Some (Some (rb_parent h node))
      else next_up h (rb_parent h node))"

definition ngx_rbtree_next :: "rbtree \<Rightarrow> nat \<Rightarrow> nat option option" where
  "ngx_rbtree_next h node =
     (if rb_right h node \<noteq> rb_sentinel h then map_option Some (ngx_rbtree_min h (rb_right h node))
      else next_up h node)"

section \<open>Deletion\<close>

text \<open>Unlinking: the tree, the node that moved up, and whether the removed colour was red.\<close>

definition delete_relink :: "nat \<Rightarrow> nat \<Rightarrow> nat \<Rightarrow> rbtree \<Rightarrow> rbtree" where
  "delete_relink node subst temp h =
     (let h = (if subst = rb_left h (rb_parent h subst) then set_left (rb_parent h subst) temp h
               else set_right (rb_parent h subst) temp h)
      in if subst = node then set_parent temp (rb_parent h subst) h
         else
           let h = (if rb_parent h subst = node then set_parent temp subst h
                    else set_parent temp (rb_parent h subst) h);
               h = set_left subst (rb_left h node) h;
               h = set_right subst (rb_right h node) h;
               h = set_parent subst (rb_parent h node) h;
               h = set_red subst (rb_red h node) h;
               h = (if node = rb_root h then h\<lparr>rb_root := subst\<rparr>
                    else if node = rb_left h (rb_parent h node) then set_left (rb_parent h node) subst h
                    else set_right (rb_parent h node) subst h);
               h = (if rb_left h subst \<noteq> rb_sentinel h then set_parent (rb_left h subst) subst h else h)
           in if rb_right h subst \<noteq> rb_sentinel h then set_parent (rb_right h subst) subst h else h)"

definition delete_clear :: "nat \<Rightarrow> rbtree \<Rightarrow> rbtree" where
  "delete_clear node h =
     (set_parent node 0 (set_right node 0 (set_left node 0 h)))\<lparr>rb_key := (rb_key h)(node := 0)\<rparr>"

text \<open>One round of the loop that restores the balance.\<close>

definition delete_fix :: "nat \<Rightarrow> rbtree \<Rightarrow> nat \<times> rbtree" where
  "delete_fix temp h =
     (if temp = rb_left h (rb_parent h temp) then
        let w = rb_right h (rb_parent h temp);
            (w, h) = (if rb_red h w then
                let h = set_red w False h;
                    h = set_red (rb_parent h temp) True h;
                    h = ngx_rbtree_left_rotate (rb_parent h temp) h
                in (rb_right h (rb_parent h temp), h) else (w, h))
        in if \<not> rb_red h (rb_left h w) \<and> \<not> rb_red h (rb_right h w) then
             let h = set_red w True h in (rb_parent h temp, h)
           else
             let (w, h) = (if \<not> rb_red h (rb_right h w) then
                   let h = set_red (rb_left h w) False h;
                       h = set_red w True h;
                       h = ngx_rbtree_right_rotate w h
                   in (rb_right h (rb_parent h temp), h) else (w, h));
                 h = set_red w (rb_red h (rb_parent h temp)) h;
                 h = set_red (rb_parent h temp) False h;
                 h = set_red (rb_right h w) False h;
                 h = ngx_rbtree_left_rotate (rb_parent h temp) h
             in (rb_root h, h)
      else
        let w = rb_left h (rb_parent h temp);
            (w, h) = (if rb_red h w then
                let h = set_red w False h;
                    h = set_red (rb_parent h temp) True h;
                    h = ngx_rbtree_right_rotate (rb_parent h temp) h
                in (rb_left h (rb_parent h temp), h) else (w, h))
        in if \<not> rb_red h (rb_left h w) \<and> \<not> rb_red h (rb_right h w) then
             let h = set_red w True h in (rb_parent h temp, h)
           else
             let (w, h) = (if \<not> rb_red h (rb_left h w) then
                   let h = set_red (rb_right h w) False h;
                       h = set_red w True h;
                       h = ngx_rbtree_left_rotate w h
                   in (rb_left h (rb_parent h temp), h) else (w, h));
                 h = set_red w (rb_red h (rb_parent h temp)) h;
                 h = set_red (rb_parent h temp) False h;
                 h = set_red (rb_left h w) False h;
                 h = ngx_rbtree_right_rotate (rb_parent h temp) h
             in (rb_root h, h))"

partial_function (option) delete_loop :: "nat \<Rightarrow> rbtree \<Rightarrow> rbtree option" where
  "delete_loop temp h =
     (if temp \<noteq> rb_root h \<and> \<not> rb_red h temp then
        let (temp, h) = delete_fix temp h in delete_loop temp h
      else Some (set_red temp False h))"

definition ngx_rbtree_delete :: "nat \<Rightarrow> rbtree \<Rightarrow> rbtree option" where
  "ngx_rbtree_delete node h =
     (case (if rb_left h node = rb_sentinel h then Some (rb_right h node, node)
            else if rb_right h node = rb_sentinel h then Some (rb_left h node, node)
            else map_option (\<lambda>subst. (rb_right h subst, subst)) (ngx_rbtree_min h (rb_right h node))) of
        None \<Rightarrow> None
      | Some (temp, subst) \<Rightarrow>
          if subst = rb_root h then
            let h = h\<lparr>rb_root := temp\<rparr>; h = set_red temp False h in Some (delete_clear node h)
          else
            let red = rb_red h subst;
                h = delete_clear node (delete_relink node subst temp h)
            in if red then Some h else delete_loop temp h)"

end
