(* ===== verification/Rbtree_Shape.thy ===== *)
theory Rbtree_Shape
  imports Ngx_Rbtree "HOL-Library.Tree"
begin

text \<open>
  The structure behind the pointers: the tree of addresses that the fields describe, a place in it with
  the way up to the root, the effect of a rotation at a place, and the colour rules of red-black trees.
  Left and right are treated at once by a direction.
\<close>

section \<open>Both directions at once\<close>

definition child :: "rbtree \<Rightarrow> bool \<Rightarrow> nat \<Rightarrow> nat" where
  "child h d a = (if d then rb_left h a else rb_right h a)"

definition set_child :: "bool \<Rightarrow> nat \<Rightarrow> nat \<Rightarrow> rbtree \<Rightarrow> rbtree" where
  "set_child d a v h = (if d then set_left a v h else set_right a v h)"

definition rotate_to :: "bool \<Rightarrow> nat \<Rightarrow> rbtree \<Rightarrow> rbtree" where
  "rotate_to d node h =
     (let temp = child h (\<not> d) node;
          h = set_child (\<not> d) node (child h d temp) h;
          h = (if child h d temp \<noteq> rb_sentinel h then set_parent (child h d temp) node h else h);
          h = set_parent temp (rb_parent h node) h;
          h = (if node = rb_root h then h\<lparr>rb_root := temp\<rparr>
               else if node = child h d (rb_parent h node) then set_child d (rb_parent h node) temp h
               else set_child (\<not> d) (rb_parent h node) temp h);
          h = set_child d temp node h
      in set_parent node temp h)"

lemma direction_eqs:
  "child h True = rb_left h" "child h False = rb_right h" "set_child True = set_left" "set_child False = set_right"
  by (simp_all add: fun_eq_iff child_def set_child_def)

lemma rotate_eqs: "ngx_rbtree_left_rotate = rotate_to True" "ngx_rbtree_right_rotate = rotate_to False"
  unfolding rotate_to_def ngx_rbtree_left_rotate_def ngx_rbtree_right_rotate_def not_True_eq_False not_False_eq_True direction_eqs
  by (rule refl)+

lemma child_eqs: "rb_left h a = child h True a" "rb_right h a = child h False a"
  by (simp_all add: child_def)

lemma field_simps' [simp]:
  "child (set_child d a v h) e b = (if e = d \<and> b = a then v else child h e b)"
  "child (set_parent a v h) = child h" "child (set_red a c h) = child h" "child (h\<lparr>rb_root := r\<rparr>) = child h"
  "child (h\<lparr>rb_key := k\<rparr>) = child h"
  "rb_parent (set_child d a v h) = rb_parent h" "rb_parent (set_parent a v h) = (rb_parent h)(a := v)"
  "rb_parent (set_red a c h) = rb_parent h"
  "rb_red (set_child d a v h) = rb_red h" "rb_red (set_parent a v h) = rb_red h"
  "rb_red (set_red a c h) = (rb_red h)(a := c)"
  "rb_root (set_child d a v h) = rb_root h" "rb_root (set_parent a v h) = rb_root h" "rb_root (set_red a c h) = rb_root h"
  "rb_sentinel (set_child d a v h) = rb_sentinel h" "rb_sentinel (set_parent a v h) = rb_sentinel h"
  "rb_sentinel (set_red a c h) = rb_sentinel h"
  "rb_key (set_child d a v h) = rb_key h" "rb_key (set_parent a v h) = rb_key h" "rb_key (set_red a c h) = rb_key h"
  by (auto simp: fun_eq_iff child_def set_child_def set_left_def set_right_def set_parent_def set_red_def)

section \<open>Trees in the heap\<close>

text \<open>The shape of a tree is a tree of addresses; \<open>nd d t a s\<close> has \<open>t\<close> in the direction \<open>d\<close>.\<close>

definition nd :: "bool \<Rightarrow> nat tree \<Rightarrow> nat \<Rightarrow> nat tree \<Rightarrow> nat tree" where
  "nd d t a s = (if d then Node t a s else Node s a t)"

lemma nd_flip: "nd (\<not> d) t a s = nd d s a t"
  by (simp add: nd_def)

lemma set_tree_nd [simp]: "set_tree (nd d t a s) = insert a (set_tree t \<union> set_tree s)"
  by (auto simp: nd_def)

lemma nd_cases: "t \<noteq> Leaf \<Longrightarrow> \<exists>l a r. t = nd d l a r"
  by (cases t; cases d) (auto simp: nd_def)

fun tree_at :: "rbtree \<Rightarrow> nat \<Rightarrow> nat \<Rightarrow> nat tree \<Rightarrow> bool" where
  "tree_at h p x Leaf \<longleftrightarrow> x = rb_sentinel h"
| "tree_at h p x (Node l a r) \<longleftrightarrow>
     x = a \<and> a \<noteq> rb_sentinel h \<and> rb_parent h a = p \<and> tree_at h a (child h True a) l \<and> tree_at h a (child h False a) r"

lemma tree_at_nd:
  "tree_at h p x (nd d t a s) \<longleftrightarrow>
     x = a \<and> a \<noteq> rb_sentinel h \<and> rb_parent h a = p \<and> tree_at h a (child h d a) t \<and> tree_at h a (child h (\<not> d) a) s"
  by (cases d) (auto simp: nd_def)

lemma tree_at_root: "tree_at h p x t \<Longrightarrow> x \<noteq> rb_sentinel h \<Longrightarrow> x \<in> set_tree t"
  by (cases t) auto

lemma tree_at_leaf: "tree_at h p x t \<Longrightarrow> (x = rb_sentinel h) = (t = Leaf)"
  by (cases t) auto

lemma tree_at_sentinel: "tree_at h p x t \<Longrightarrow> rb_sentinel h \<notin> set_tree t"
  by (induction t arbitrary: p x) auto

text \<open>What a tree depends on.\<close>

definition same_links :: "rbtree \<Rightarrow> rbtree \<Rightarrow> nat \<Rightarrow> bool" where
  "same_links h h' a \<longleftrightarrow> child h' True a = child h True a \<and> child h' False a = child h False a \<and> rb_parent h' a = rb_parent h a"

lemma same_links_child: "same_links h h' a \<Longrightarrow> child h' d a = child h d a"
  by (cases d) (auto simp: same_links_def)

lemma tree_at_cong:
  "tree_at h p x t \<Longrightarrow> rb_sentinel h' = rb_sentinel h \<Longrightarrow> (\<And>a. a \<in> set_tree t \<Longrightarrow> same_links h h' a) \<Longrightarrow> tree_at h' p x t"
  by (induction t arbitrary: p x) (auto simp: same_links_def)

text \<open>A tree hung below another parent.\<close>

lemma tree_at_reparent:
  assumes "tree_at h p x t" "rb_sentinel h' = rb_sentinel h" "distinct (inorder t)"
    and "\<And>a. a \<in> set_tree t \<Longrightarrow> child h' True a = child h True a \<and> child h' False a = child h False a"
    and "\<And>a. a \<in> set_tree t \<Longrightarrow> rb_parent h' a = (if a = x then q else rb_parent h a)"
  shows "tree_at h' q x t"
proof (cases t)
  case Leaf
  then show ?thesis using assms by simp
next
  case (Node l a r)
  have "a \<notin> set_tree l" "a \<notin> set_tree r" using assms(3) Node by auto
  then have "tree_at h' a (child h True a) l" "tree_at h' a (child h False a) r"
    using assms Node by (auto intro!: tree_at_cong [of h] simp: same_links_def)
  then show ?thesis using assms Node by auto
qed

section \<open>A place in a tree\<close>

text \<open>
  A context is the way from a place up to the root: the direction in which the place lies, the node,
  and its other child.
\<close>

type_synonym rb_ctx = "(bool \<times> nat \<times> nat tree) list"

fun plug :: "nat tree \<Rightarrow> rb_ctx \<Rightarrow> nat tree" where
  "plug t [] = t"
| "plug t ((d, a, s) # c) = plug (nd d t a s) c"

fun ctx_at :: "rbtree \<Rightarrow> nat \<Rightarrow> nat \<Rightarrow> rb_ctx \<Rightarrow> bool" where
  "ctx_at h x p [] \<longleftrightarrow> x = rb_root h"
| "ctx_at h x p ((d, a, s) # c) \<longleftrightarrow>
     p = a \<and> a \<noteq> rb_sentinel h \<and> child h d a = x \<and> tree_at h a (child h (\<not> d) a) s \<and> ctx_at h a (rb_parent h a) c"

fun ctx_nodes :: "rb_ctx \<Rightarrow> nat set" where
  "ctx_nodes [] = {}"
| "ctx_nodes ((d, a, s) # c) = insert a (set_tree s) \<union> ctx_nodes c"

fun ctx_before :: "rb_ctx \<Rightarrow> nat list" where
  "ctx_before [] = []"
| "ctx_before ((d, a, s) # c) = ctx_before c @ (if d then [] else inorder s @ [a])"

fun ctx_after :: "rb_ctx \<Rightarrow> nat list" where
  "ctx_after [] = []"
| "ctx_after ((d, a, s) # c) = (if d then a # inorder s else []) @ ctx_after c"

lemma inorder_plug: "inorder (plug t c) = ctx_before c @ inorder t @ ctx_after c"
  by (induction t c rule: plug.induct) (auto simp: nd_def)

lemma ctx_nodes_set: "ctx_nodes c = set (ctx_before c) \<union> set (ctx_after c)"
  by (induction c rule: ctx_nodes.induct) auto

lemma set_plug: "set_tree (plug t c) = set_tree t \<union> ctx_nodes c"
  using arg_cong [OF inorder_plug [of t c], of set] by (auto simp: ctx_nodes_set)

definition focus :: "rbtree \<Rightarrow> nat \<Rightarrow> nat \<Rightarrow> nat tree \<Rightarrow> rb_ctx \<Rightarrow> bool" where
  "focus h x p t c \<longleftrightarrow> tree_at h p x t \<and> ctx_at h x p c \<and> distinct (inorder (plug t c))"

lemma focus_up:
  "focus h x p t ((d, a, s) # c) \<longleftrightarrow> focus h a (rb_parent h a) (nd d t a s) c \<and> x = child h d a \<and> p = a"
  by (auto simp: focus_def tree_at_nd)

lemma focus_distinct:
  assumes "focus h x p t c"
  shows "distinct (inorder t)" "set_tree t \<inter> ctx_nodes c = {}"
  using assms by (auto simp: focus_def inorder_plug ctx_nodes_set)

lemma ctx_at_cong:
  "ctx_at h x p c \<Longrightarrow> rb_sentinel h' = rb_sentinel h \<Longrightarrow> rb_root h' = rb_root h
    \<Longrightarrow> (\<And>a. a \<in> ctx_nodes c \<Longrightarrow> same_links h h' a) \<Longrightarrow> ctx_at h' x p c"
proof (induction c arbitrary: x p)
  case (Cons f c)
  obtain d a s where f: "f = (d, a, s)" by (cases f)
  have sl: "same_links h h' a" using Cons.prems(4) f by simp
  then have "rb_parent h' a = rb_parent h a" by (simp add: same_links_def)
  moreover have "child h' e a = child h e a" for e by (rule same_links_child [OF sl])
  moreover have "tree_at h' a (child h (\<not> d) a) s"
    by (rule tree_at_cong [OF _ Cons.prems(2)]) (use Cons.prems(1,4) f in simp_all)
  moreover have "ctx_at h' a (rb_parent h a) c"
    by (rule Cons.IH [OF _ Cons.prems(2,3)]) (use Cons.prems(1,4) f in simp_all)
  ultimately show ?case using Cons.prems(1,2) f by simp
qed auto

section \<open>Rotations keep the order\<close>

lemma ctx_root: "ctx_at h x p c \<Longrightarrow> c \<noteq> [] \<Longrightarrow> rb_root h \<in> ctx_nodes c"
proof (induction c arbitrary: x p)
  case (Cons f c)
  then show ?case by (cases f; cases c) auto
qed simp

lemma focus_root: "focus h x p t c \<Longrightarrow> t \<noteq> Leaf \<Longrightarrow> (x = rb_root h) = (c = [])"
proof -
  assume f: "focus h x p t c" and t: "t \<noteq> Leaf"
  then have "x \<in> set_tree t" by (cases t) (auto simp: focus_def)
  then have "x \<notin> ctx_nodes c" using focus_distinct(2) [OF f] by auto
  then show ?thesis using ctx_root [of h x p c] f by (auto simp: focus_def)
qed

text \<open>The direction of a place is visible in the tree, if the place and its sibling are not both empty.\<close>

lemma focus_dir:
  assumes "focus h x p t ((d, a, s) # c)" "t \<noteq> Leaf \<or> s \<noteq> Leaf"
  shows "(child h e a = x) = (e = d)"
proof -
  have f: "tree_at h a x t" "child h d a = x" "tree_at h a (child h (\<not> d) a) s" "distinct (inorder (nd d t a s))"
    using assms(1) focus_distinct(1) [of h a "rb_parent h a" "nd d t a s" c]
    by (simp_all add: focus_up) (simp_all add: focus_def tree_at_nd)
  have disj: "set_tree t \<inter> set_tree s = {}" using f(4) by (auto simp: nd_def split: if_splits)
  have "child h (\<not> d) a \<noteq> x"
  proof
    assume e: "child h (\<not> d) a = x"
    show False
    proof (cases "x = rb_sentinel h")
      case True
      then show ?thesis using f(1,3) e assms(2) tree_at_leaf by metis
    next
      case False
      then show ?thesis using f(1,3) e disj tree_at_root by fastforce
    qed
  qed
  then show ?thesis using f(2) by (cases "e = d") auto
qed

lemma rotate_fields:
  assumes f: "focus h x p (nd d A x (nd d B y C)) c"
  defines "b \<equiv> child h d y" and "h' \<equiv> rotate_to d x h"
  shows "child h (\<not> d) x = y"
    and "child h' e a = (if a = x \<and> e = (\<not> d) then b else if a = y \<and> e = d then x
      else if c \<noteq> [] \<and> a = p \<and> e = fst (hd c) then y else child h e a)"
    and "rb_parent h' a = (if a = x then y else if a = y then p
      else if a = b \<and> b \<noteq> rb_sentinel h then x else rb_parent h a)"
    and "rb_root h' = (if c = [] then y else rb_root h)"
    and "rb_red h' = rb_red h" "rb_key h' = rb_key h" "rb_sentinel h' = rb_sentinel h"
proof -
  have t: "tree_at h p x (nd d A x (nd d B y C))" and dis: "distinct (inorder (nd d A x (nd d B y C)))"
    using f focus_distinct(1) by (auto simp: focus_def)
  show y: "child h (\<not> d) x = y" using t by (simp add: tree_at_nd)
  have px: "rb_parent h x = p" using t by (simp add: tree_at_nd)
  have ne: "x \<noteq> y" using dis by (auto simp: nd_def split: if_splits)
  have b: "b \<noteq> x" if "b \<noteq> rb_sentinel h"
  proof -
    have "tree_at h y b B" using t by (simp add: tree_at_nd b_def)
    then have "b \<in> set_tree B" using that by (rule tree_at_root)
    then show ?thesis using dis by (auto simp: nd_def split: if_splits)
  qed
  have r: "(x = rb_root h) = (c = [])" by (rule focus_root [OF f]) (simp add: nd_def)
  have pd: "p \<noteq> x \<and> p \<noteq> y \<and> (\<forall>e. (child h e p = x) = (e = fst (hd c)))" if ne': "c \<noteq> []"
  proof -
    obtain e q s c' where c: "c = (e, q, s) # c'" using ne' by (cases c) auto
    have "p = q" using f c by (simp add: focus_up [of h x p])
    moreover have "q \<in> ctx_nodes c" by (simp add: c)
    then have "q \<noteq> x" "q \<noteq> y" using focus_distinct(2) [OF f] by auto
    moreover have "(child h e' q = x) = (e' = e)" for e'
      by (rule focus_dir [OF f [unfolded c]]) (simp add: nd_def)
    ultimately show ?thesis by (simp add: c)
  qed
  have dir: "(x = child h d p) = (d = fst (hd c))" if "c \<noteq> []" using pd that by (metis (full_types))
  have e: "h' = set_parent x y (set_child d y x ((\<lambda>g. if c = [] then g\<lparr>rb_root := y\<rparr> else set_child (fst (hd c)) p y g)
      (set_parent y p ((\<lambda>g. if b = rb_sentinel h then g else set_parent b x g) (set_child (\<not> d) x b h)))))"
  proof -
    define h1 where "h1 = set_child (\<not> d) x b h"
    define h2 where "h2 = (if b \<noteq> rb_sentinel h then set_parent b x h1 else h1)"
    define h3 where "h3 = set_parent y p h2"
    define h4 where "h4 = (if x = rb_root h3 then h3\<lparr>rb_root := y\<rparr>
      else if x = child h3 d p then set_child d p y h3 else set_child (\<not> d) p y h3)"
    have h1: "child h1 d y = b" "rb_sentinel h1 = rb_sentinel h" using ne by (simp_all add: h1_def b_def)
    have h2: "rb_parent h2 x = p" "rb_root h2 = rb_root h" using px b by (auto simp: h2_def h1_def)
    have h3: "rb_parent h3 x = p" "rb_root h3 = rb_root h" using h2 ne by (simp_all add: h3_def)
    have "child h3 d p = child h d p" if "c \<noteq> []" using pd [OF that] by (simp add: h3_def h2_def h1_def)
    then have h4: "h4 = (if c = [] then h3\<lparr>rb_root := y\<rparr> else set_child (fst (hd c)) p y h3)"
      unfolding h4_def h3(2) r using dir by (cases "c = []") auto
    have "h' = set_parent x y (set_child d y x h4)"
      unfolding h'_def rotate_to_def Let_def y b_def [symmetric] h1_def [symmetric] h1 h2_def [symmetric] h2(1)
        h3_def [symmetric] h3(1) h4_def [symmetric] by (rule refl)
    then show ?thesis unfolding h4 h3_def h2_def h1_def by (cases "b = rb_sentinel h") simp_all
  qed
  show "child h' e a = (if a = x \<and> e = (\<not> d) then b else if a = y \<and> e = d then x
      else if c \<noteq> [] \<and> a = p \<and> e = fst (hd c) then y else child h e a)"
    using pd ne unfolding e by (cases "c = []"; cases "b = rb_sentinel h") simp_all
  show "rb_parent h' a = (if a = x then y else if a = y then p
      else if a = b \<and> b \<noteq> rb_sentinel h then x else rb_parent h a)"
    using ne unfolding e by (cases "c = []"; cases "b = rb_sentinel h") simp_all
  show "rb_root h' = (if c = [] then y else rb_root h)"
    unfolding e by (cases "c = []"; cases "b = rb_sentinel h") simp_all
  show "rb_red h' = rb_red h" "rb_key h' = rb_key h" "rb_sentinel h' = rb_sentinel h"
    unfolding e by (cases "c = []"; cases "b = rb_sentinel h"; simp)+
qed

lemma ctx_hole:
  assumes "ctx_at h x p c" "rb_sentinel h' = rb_sentinel h" "distinct (ctx_before c @ ctx_after c)"
    and "rb_root h' = (if c = [] then y else rb_root h)"
    and "\<And>a e. a \<in> ctx_nodes c \<Longrightarrow> child h' e a = (if c \<noteq> [] \<and> a = p \<and> e = fst (hd c) then y else child h e a)"
    and "\<And>a. a \<in> ctx_nodes c \<Longrightarrow> rb_parent h' a = rb_parent h a"
  shows "ctx_at h' y p c"
proof (cases c)
  case Nil
  then show ?thesis using assms(4) by simp
next
  case (Cons f c')
  obtain e q s where f: "f = (e, q, s)" by (cases f)
  have q: "p = q" "q \<noteq> rb_sentinel h" "tree_at h q (child h (\<not> e) q) s" "ctx_at h q (rb_parent h q) c'"
    using assms(1) by (simp_all add: Cons f)
  have qs: "q \<notin> set_tree s" "q \<notin> ctx_nodes c'"
    using assms(3) by (auto simp: Cons f ctx_nodes_set split: if_splits)
  have sl: "same_links h h' a" if "a \<in> set_tree s \<union> ctx_nodes c'" for a
    using that qs assms(5,6) [of a] q(1) by (auto simp: same_links_def Cons f)
  have "tree_at h' q (child h (\<not> e) q) s" by (rule tree_at_cong [OF q(3) assms(2)]) (use sl in simp)
  moreover have "ctx_at h' q (rb_parent h q) c'"
    by (rule ctx_at_cong [OF q(4) assms(2)]) (use sl assms(4) Cons in simp_all)
  moreover have "child h' e q = y" "child h' (\<not> e) q = child h (\<not> e) q" "rb_parent h' q = rb_parent h q"
    using assms(5,6) [of q] q(1) by (simp_all add: Cons f)
  ultimately show ?thesis using q assms(2) by (simp add: Cons f)
qed

lemma focus_parts:
  assumes "focus h x p t c"
  shows "tree_at h p x t" "ctx_at h x p c" "distinct (inorder t)" "distinct (ctx_before c @ ctx_after c)"
    "set_tree t \<inter> ctx_nodes c = {}" "rb_sentinel h \<notin> set_tree t"
  using assms tree_at_sentinel [of h p x t] by (auto simp: focus_def inorder_plug ctx_nodes_set)

lemma focus_I:
  assumes "tree_at h p x t" "ctx_at h x p c" "inorder t = inorder t'" "distinct (inorder (plug t' c))"
  shows "focus h x p t c"
  using assms by (simp add: focus_def inorder_plug)

lemma rotate_focus:
  assumes f: "focus h x p (nd d A x (nd d B y C)) c"
  shows "focus (rotate_to d x h) y p (nd d (nd d A x B) y C) c"
proof -
  let ?h = "rotate_to d x h" and ?b = "child h d y"
  note rf = rotate_fields [OF f]
  note fp = focus_parts [OF f]
  have t: "y \<noteq> rb_sentinel h" "x \<noteq> rb_sentinel h" "tree_at h x (child h d x) A" "tree_at h y ?b B"
      "tree_at h y (child h (\<not> d) y) C"
    using fp(1) by (auto simp: tree_at_nd)
  have dis: "x \<noteq> y" "x \<notin> set_tree A" "x \<notin> set_tree B" "x \<notin> set_tree C" "y \<notin> set_tree A" "y \<notin> set_tree B" "y \<notin> set_tree C"
      "set_tree A \<inter> set_tree B = {}" "set_tree B \<inter> set_tree C = {}" "distinct (inorder B)"
    using fp(3) by (auto simp: nd_def split: if_splits)
  have pn: "c \<noteq> [] \<Longrightarrow> p \<in> ctx_nodes c" using fp(2) by (cases c) auto
  have bB: "?b \<in> set_tree B" if "?b \<noteq> rb_sentinel h" by (rule tree_at_root [OF t(4) that])
  have pt: "a \<noteq> p \<or> c = []" if "a \<in> insert x (insert y (set_tree A \<union> set_tree B \<union> set_tree C))" for a
    using that pn fp(5) by auto
  have kc: "child ?h e a = child h e a" if "a \<noteq> x" "a \<noteq> y" "a \<noteq> p \<or> c = []" for e a
    using that unfolding rf(2) by (simp only: if_False HOL.simp_thms) (cases "c = []"; simp)
  have kp: "rb_parent ?h a = rb_parent h a" if "a \<noteq> x" "a \<noteq> y" "\<not> (a = ?b \<and> ?b \<noteq> rb_sentinel h)" for a
    using that unfolding rf(3) by auto
  have "tree_at ?h x (child h d x) A"
  proof (rule tree_at_cong [OF t(3) rf(7)])
    fix a assume a: "a \<in> set_tree A"
    then have "a \<noteq> x" "a \<noteq> y" "\<not> (a = ?b \<and> ?b \<noteq> rb_sentinel h)" using dis bB by auto
    then show "same_links h ?h a" using kc kp pt [of a] a unfolding same_links_def by simp
  qed
  moreover have "tree_at ?h y (child h (\<not> d) y) C"
  proof (rule tree_at_cong [OF t(5) rf(7)])
    fix a assume a: "a \<in> set_tree C"
    then have "a \<noteq> x" "a \<noteq> y" "\<not> (a = ?b \<and> ?b \<noteq> rb_sentinel h)" using dis bB by auto
    then show "same_links h ?h a" using kc kp pt [of a] a unfolding same_links_def by simp
  qed
  moreover have "tree_at ?h x ?b B"
  proof (rule tree_at_reparent [OF t(4) rf(7) dis(10)])
    fix a assume a: "a \<in> set_tree B"
    then have "a \<noteq> x" "a \<noteq> y" using dis by auto
    then show "child ?h True a = child h True a \<and> child ?h False a = child h False a" using kc pt [of a] a by simp
    have "rb_sentinel h \<notin> set_tree B" using fp(6) by simp
    then show "rb_parent ?h a = (if a = ?b then x else rb_parent h a)" using a \<open>a \<noteq> x\<close> \<open>a \<noteq> y\<close> unfolding rf(3) by auto
  qed
  moreover have "child ?h d x = child h d x" "child ?h (\<not> d) x = ?b" "child ?h d y = x" "child ?h (\<not> d) y = child h (\<not> d) y"
      "rb_parent ?h x = y" "rb_parent ?h y = p"
    using dis(1) pt [of x] pt [of y] unfolding rf(2,3) by auto
  ultimately have "tree_at ?h p y (nd d (nd d A x B) y C)" using t rf(7) by (simp add: tree_at_nd)
  moreover have "ctx_at ?h y p c"
  proof (rule ctx_hole [OF fp(2) rf(7) fp(4) rf(4)])
    fix a e assume a: "a \<in> ctx_nodes c"
    then have n: "a \<noteq> x" "a \<noteq> y" "\<not> (a = ?b \<and> ?b \<noteq> rb_sentinel h)" using fp(5) bB by auto
    show "child ?h e a = (if c \<noteq> [] \<and> a = p \<and> e = fst (hd c) then y else child h e a)" using n unfolding rf(2) by simp
    show "rb_parent ?h a = rb_parent h a" using n by (rule kp)
  qed
  ultimately show ?thesis
    by (rule focus_I [where t' = "nd d A x (nd d B y C)"]) (use f in \<open>auto simp: nd_def focus_def\<close>)
qed

section \<open>Colours\<close>

fun red_top :: "(nat \<Rightarrow> bool) \<Rightarrow> nat tree \<Rightarrow> bool" where
  "red_top col Leaf = False"
| "red_top col (Node l a r) = col a"

text \<open>A red-black tree whose ways to the leaves have \<open>n\<close> black nodes each.\<close>

fun rb :: "(nat \<Rightarrow> bool) \<Rightarrow> nat \<Rightarrow> nat tree \<Rightarrow> bool" where
  "rb col n Leaf \<longleftrightarrow> n = 0"
| "rb col n (Node l a r) \<longleftrightarrow>
     (if col a then rb col n l \<and> rb col n r \<and> \<not> red_top col l \<and> \<not> red_top col r
      else 0 < n \<and> rb col (n - 1) l \<and> rb col (n - 1) r)"

lemma red_top_nd [simp]: "red_top col (nd d t a s) = col a"
  by (simp add: nd_def)

lemma rb_nd:
  "rb col n (nd d t a s) \<longleftrightarrow>
     (if col a then rb col n t \<and> rb col n s \<and> \<not> red_top col t \<and> \<not> red_top col s
      else 0 < n \<and> rb col (n - 1) t \<and> rb col (n - 1) s)"
  by (auto simp: nd_def)

definition top_red :: "(nat \<Rightarrow> bool) \<Rightarrow> rb_ctx \<Rightarrow> bool" where
  "top_red col c = (case c of [] \<Rightarrow> True | (d, a, s) # _ \<Rightarrow> col a)"

lemma top_red_simps [simp]: "top_red col []" "top_red col ((d, a, s) # c) = col a"
  by (simp_all add: top_red_def)

fun ctx_ok :: "(nat \<Rightarrow> bool) \<Rightarrow> nat \<Rightarrow> rb_ctx \<Rightarrow> bool" where
  "ctx_ok col n [] \<longleftrightarrow> True"
| "ctx_ok col n ((d, a, s) # c) \<longleftrightarrow>
     rb col n s \<and> (if col a then \<not> red_top col s \<and> \<not> top_red col c \<and> ctx_ok col n c else ctx_ok col (Suc n) c)"

text \<open>A tree in its place: no red node has a red parent, and the root is black.\<close>

definition placed :: "(nat \<Rightarrow> bool) \<Rightarrow> nat \<Rightarrow> nat tree \<Rightarrow> rb_ctx \<Rightarrow> bool" where
  "placed col n t c \<longleftrightarrow> rb col n t \<and> ctx_ok col n c \<and> (red_top col t \<longrightarrow> \<not> top_red col c)"

lemma placed_down: "placed col n (nd d t a s) c \<Longrightarrow> \<exists>m. placed col m t ((d, a, s) # c)"
  by (cases "col a") (auto simp: placed_def rb_nd intro: exI [of _ n] exI [of _ "n - 1"])

lemma placed_up: "placed col n t ((d, a, s) # c) \<Longrightarrow> \<exists>m. placed col m (nd d t a s) c"
  by (cases "col a") (auto simp: placed_def rb_nd intro: exI [of _ n] exI [of _ "Suc n"])

lemma placed_plug: "placed col n t c \<Longrightarrow> \<exists>m. placed col m (plug t c) []"
proof (induction t c arbitrary: n rule: plug.induct)
  case (2 t d a s c)
  then show ?case using placed_up by fastforce
qed auto

lemma rb_cong: "rb col n t \<Longrightarrow> (\<And>a. a \<in> set_tree t \<Longrightarrow> col' a = col a) \<Longrightarrow> rb col' n t"
proof (induction t arbitrary: n)
  case (Node l a r)
  have "red_top col' l = red_top col l" "red_top col' r = red_top col r"
    using Node.prems(2) by (cases l; cases r; simp)+
  then show ?case using Node by (auto split: if_splits)
qed simp

lemma red_top_cong: "(\<And>a. a \<in> set_tree t \<Longrightarrow> col' a = col a) \<Longrightarrow> red_top col' t = red_top col t"
  by (cases t) auto

lemma top_red_cong: "(\<And>a. a \<in> ctx_nodes c \<Longrightarrow> col' a = col a) \<Longrightarrow> top_red col' c = top_red col c"
  by (cases c) auto

lemma ctx_ok_cong: "ctx_ok col n c \<Longrightarrow> (\<And>a. a \<in> ctx_nodes c \<Longrightarrow> col' a = col a) \<Longrightarrow> ctx_ok col' n c"
proof (induction c arbitrary: n)
  case (Cons f c)
  obtain d a s where f: "f = (d, a, s)" by (cases f)
  have "col' a = col a" using Cons.prems(2) f by simp
  moreover have "rb col' n s" by (rule rb_cong [of col]) (use Cons.prems f in simp_all)
  moreover have "red_top col' s = red_top col s" by (rule red_top_cong) (use Cons.prems(2) f in simp)
  moreover have "top_red col' c = top_red col c" by (rule top_red_cong) (use Cons.prems(2) f in simp)
  moreover have "ctx_ok col m c \<Longrightarrow> ctx_ok col' m c" for m by (rule Cons.IH) (use Cons.prems(2) f in simp_all)
  ultimately show ?case using Cons.prems(1) by (simp add: f split: if_splits)
qed simp

section \<open>The invariant\<close>

definition rb_tree :: "rbtree \<Rightarrow> nat tree \<Rightarrow> bool" where
  "rb_tree h t \<longleftrightarrow> (\<exists>p. focus h (rb_root h) p t []) \<and> (\<exists>n. placed (rb_red h) n t []) \<and> \<not> rb_red h (rb_sentinel h)"

lemma focus_plug: "focus h x p t c \<Longrightarrow> \<exists>q. focus h (rb_root h) q (plug t c) []"
proof (induction c arbitrary: x p t)
  case Nil
  then show ?case by (auto simp: focus_def)
next
  case (Cons f c)
  obtain d a s where f: "f = (d, a, s)" by (cases f)
  then show ?case using Cons.IH Cons.prems by (auto simp: focus_up)
qed

lemma rb_treeI:
  "focus h x p t c \<Longrightarrow> placed (rb_red h) n t c \<Longrightarrow> \<not> rb_red h (rb_sentinel h) \<Longrightarrow> rb_tree h (plug t c)"
  using focus_plug placed_plug unfolding rb_tree_def by blast

lemma tree_at_red [simp]: "tree_at (set_red a v h) p x t = tree_at h p x t"
  by (induction t arbitrary: p x) auto

lemma ctx_at_red [simp]: "ctx_at (set_red a v h) x p c = ctx_at h x p c"
  by (induction c arbitrary: x p) auto

lemma focus_red [simp]: "focus (set_red a v h) x p t c = focus h x p t c"
  by (simp add: focus_def)

text \<open>Red nodes are no sentinels, so the colour of a tree's top is the colour of its address.\<close>

lemma red_at: "tree_at h p x t \<Longrightarrow> \<not> rb_red h (rb_sentinel h) \<Longrightarrow> rb_red h x = red_top (rb_red h) t"
  by (cases t) auto

end
