(* ===== verification/Rbtree_Insert.thy ===== *)
theory Rbtree_Insert
  imports Rbtree_Shape
begin

text \<open>
  Insertion: the loop that restores the balance after a red node was added, and the search for the place
  of the node.
\<close>

section \<open>Insertion keeps the tree balanced\<close>

definition insert_fix_to :: "bool \<Rightarrow> nat \<Rightarrow> rbtree \<Rightarrow> nat \<times> rbtree" where
  "insert_fix_to d node h =
     (let temp = child h (\<not> d) (rb_parent h (rb_parent h node)) in
      if rb_red h temp then
        let h = set_red (rb_parent h node) False h;
            h = set_red temp False h;
            h = set_red (rb_parent h (rb_parent h node)) True h
        in (rb_parent h (rb_parent h node), h)
      else
        let (node, h) = (if node = child h (\<not> d) (rb_parent h node)
                         then (rb_parent h node, rotate_to d (rb_parent h node) h) else (node, h));
            h = set_red (rb_parent h node) False h;
            h = set_red (rb_parent h (rb_parent h node)) True h
        in (node, rotate_to (\<not> d) (rb_parent h (rb_parent h node)) h))"

lemma insert_fix_sides:
  "insert_fix node h =
     (if rb_parent h node = child h True (rb_parent h (rb_parent h node)) then insert_fix_to True node h
      else insert_fix_to False node h)"
  unfolding insert_fix_def insert_fix_to_def rotate_eqs child_eqs not_True_eq_False not_False_eq_True by (rule refl)

lemma insert_fix_eq:
  "insert_fix node h = insert_fix_to (rb_parent h node = child h True (rb_parent h (rb_parent h node))) node h"
  by (simp add: insert_fix_sides)

text \<open>What the repair keeps besides the balance.\<close>

definition keeps :: "rbtree \<Rightarrow> rbtree \<Rightarrow> bool" where
  "keeps h h' \<longleftrightarrow> rb_key h' = rb_key h \<and> rb_sentinel h' = rb_sentinel h"

lemma keeps_refl [simp]: "keeps h h"
  by (simp add: keeps_def)

lemma keeps_trans: "keeps h h' \<Longrightarrow> keeps h' h'' \<Longrightarrow> keeps h h''"
  by (simp add: keeps_def)

lemma keeps_set [simp]:
  "keeps h (set_red a v g) = keeps h g" "keeps h (set_parent a b g) = keeps h g" "keeps h (set_child d a b g) = keeps h g"
  by (simp_all add: keeps_def)

text \<open>A red tree at a place that may lie below a red node.\<close>

definition red_focus :: "rbtree \<Rightarrow> nat \<Rightarrow> nat \<Rightarrow> nat \<Rightarrow> nat tree \<Rightarrow> rb_ctx \<Rightarrow> bool" where
  "red_focus h x p n t c \<longleftrightarrow> focus h x p t c \<and> rb (rb_red h) n t \<and> red_top (rb_red h) t \<and> ctx_ok (rb_red h) n c
     \<and> \<not> rb_red h (rb_sentinel h)"

lemma set_red_idem: "rb_red h a = v \<Longrightarrow> set_red a v h = h"
  by (cases h) (auto simp: set_red_def)

lemma rb_tree_root_black: "rb_tree h t \<Longrightarrow> \<not> rb_red h (rb_root h)"
  by (cases t) (auto simp: rb_tree_def focus_def placed_def)

lemma focus_nodes:
  assumes "focus h x p t ((d, a, s) # c)"
  shows "p = a" "a \<noteq> rb_sentinel h" "child h d a = x" "rb_sentinel h \<notin> set_tree s" "a \<notin> set_tree t" "a \<notin> set_tree s"
    "a \<notin> ctx_nodes c" "set_tree t \<inter> set_tree s = {}" "set_tree t \<inter> ctx_nodes c = {}" "set_tree s \<inter> ctx_nodes c = {}"
  using assms tree_at_sentinel [of h a "child h (\<not> d) a" s]
  by (auto simp: focus_def inorder_plug ctx_nodes_set nd_def split: if_splits)

lemma focus_tops:
  assumes "focus h x p t c"
  shows "t \<noteq> Leaf \<Longrightarrow> rb_parent h x = p" "t \<noteq> Leaf \<Longrightarrow> x \<in> set_tree t"
  using assms by (cases t; simp add: focus_def)+

lemma rotate_keeps:
  assumes "focus h x p (nd d A x (nd d B y C)) c"
  shows "keeps h (rotate_to d x h)" "rb_red (rotate_to d x h) = rb_red h"
  using rotate_fields(5-7) [OF assms] by (simp_all add: keeps_def)

text \<open>The rotation that ends the repair.\<close>

lemma insert_fix_last:
  assumes f: "focus h x p X ((d, p, S) # (d, g, U) # c)" and X: "X \<noteq> Leaf" and s: "\<not> rb_red h (rb_sentinel h)"
    and r: "rb (rb_red h) n X" "rb (rb_red h) n S" "rb (rb_red h) n U" "\<not> red_top (rb_red h) S" "\<not> red_top (rb_red h) U"
    and o: "ctx_ok (rb_red h) (Suc n) c"
  defines "h1 \<equiv> set_red g True (set_red p False h)"
  defines "h2 \<equiv> rotate_to (\<not> d) g h1"
  shows "rb_tree h2 (plug (nd d X p (nd d S g U)) c)" "rb_parent h2 x = p" "\<not> rb_red h2 p" "keeps h h2"
proof -
  have f1: "focus h p g (nd d X p S) ((d, g, U) # c)" using f focus_up [of h x p] focus_up [of h p "rb_parent h p"] by auto
  have f2: "focus h g (rb_parent h g) (nd d (nd d X p S) g U) c" using f1 focus_up [of h p g] by auto
  then have f3: "focus h1 g (rb_parent h g) (nd (\<not> d) U g (nd (\<not> d) S p X)) c" by (simp add: nd_flip h1_def)
  have f4: "focus h2 p (rb_parent h g) (nd d X p (nd d S g U)) c"
    using rotate_focus [OF f3] by (simp add: nd_flip h2_def)
  have red: "rb_red h2 = (rb_red h)(p := False, g := True)" "keeps h h2"
    using rotate_keeps [OF f3] by (simp_all add: h2_def h1_def keeps_def)
  note n = focus_nodes [OF f] and n1 = focus_nodes [OF f1]
  have "p \<noteq> g" using n(7) by auto
  have "rb (rb_red h2) n X" "rb (rb_red h2) n S" "rb (rb_red h2) n U"
    by (rule rb_cong [of "rb_red h"]; use r n n1 red in auto)+
  moreover have "red_top (rb_red h2) S = red_top (rb_red h) S" "red_top (rb_red h2) U = red_top (rb_red h) U"
    by (rule red_top_cong; use n n1 red in auto)+
  moreover have "ctx_ok (rb_red h2) (Suc n) c"
    by (rule ctx_ok_cong [OF o]) (use n n1 red in auto)
  ultimately have "placed (rb_red h2) (Suc n) (nd d X p (nd d S g U)) c"
    using r(4,5) red \<open>p \<noteq> g\<close> by (simp add: placed_def rb_nd)
  moreover have "\<not> rb_red h2 (rb_sentinel h2)" using s red n(2) n1(2) by (auto simp: keeps_def)
  ultimately show "rb_tree h2 (plug (nd d X p (nd d S g U)) c)" using f4 by (rule rb_treeI [rotated 1])
  have "focus h2 (child h2 d p) p X ((d, p, nd d S g U) # c)"
    using f4 focus_tops(1) [OF f4] by (simp add: focus_up nd_def)
  moreover have "child h2 d p = x"
  proof -
    have "tree_at h2 p (child h2 d p) X" using f4 by (simp add: focus_def tree_at_nd)
    moreover have "tree_at h p x X" using f by (simp add: focus_def)
    ultimately show ?thesis using X by (cases X) auto
  qed
  ultimately show "rb_parent h2 x = p" using focus_tops(1) X by blast
  show "\<not> rb_red h2 p" "keeps h h2" using red \<open>p \<noteq> g\<close> by auto
qed

lemma focus_lift: "focus h x p t ((d, a, s) # c) \<Longrightarrow> focus h a (rb_parent h a) (nd d t a s) c"
  using focus_up by blast

lemma red_focus_shape:
  assumes r: "red_focus h x p n X ((d1, p, S) # c)" and p: "rb_red h p"
  obtains d g U c' where "c = (d, g, U) # c'" "\<not> rb_red h g" "rb (rb_red h) n S" "\<not> red_top (rb_red h) S"
    "rb (rb_red h) n U" "ctx_ok (rb_red h) (Suc n) c'"
proof (cases c)
  case Nil
  then show ?thesis using r p by (simp add: red_focus_def)
next
  case (Cons f c')
  obtain d g U where "f = (d, g, U)" by (cases f)
  then show ?thesis using that [of d g U c'] r p Cons by (simp add: red_focus_def)
qed

text \<open>Which way the repair looks, and the sibling of the parent.\<close>

lemma red_focus_look:
  assumes r: "red_focus h x p n X ((d1, p, S) # (d, g, U) # c)"
  shows "rb_parent h x = p" "rb_parent h p = g" "(p = child h True g) = d" "(x = child h (\<not> d) p) = (d1 = (\<not> d))"
    "rb_red h (child h (\<not> d) g) = red_top (rb_red h) U" "insert_fix x h = insert_fix_to d x h"
proof -
  have f: "focus h x p X ((d1, p, S) # (d, g, U) # c)" and X: "X \<noteq> Leaf" using r by (auto simp: red_focus_def)
  have f1: "focus h p g (nd d1 X p S) ((d, g, U) # c)"
    using f focus_up [of h x p] focus_up [of h p "rb_parent h p"] by auto
  show px: "rb_parent h x = p" by (rule focus_tops(1) [OF f X])
  show pp: "rb_parent h p = g" by (rule focus_tops(1) [OF f1]) (simp add: nd_def)
  have "(child h True g = p) = (True = d)" by (rule focus_dir [OF f1]) (simp add: nd_def)
  then show d: "(p = child h True g) = d" by auto
  have "(child h (\<not> d) p = x) = ((\<not> d) = d1)" by (rule focus_dir [OF f]) (use X in simp)
  then show "(x = child h (\<not> d) p) = (d1 = (\<not> d))" by auto
  have "tree_at h g (child h (\<not> d) g) U" using f1 by (simp add: focus_def)
  then show "rb_red h (child h (\<not> d) g) = red_top (rb_red h) U" by (rule red_at) (use r in \<open>simp add: red_focus_def\<close>)
  show "insert_fix x h = insert_fix_to d x h" unfolding insert_fix_eq px pp d by (rule refl)
qed

text \<open>The other child of the grandparent is red: the problem moves up two levels.\<close>

lemma insert_fix_red:
  assumes r: "red_focus h x p n X ((d1, p, S) # (d, g, U) # c)" and p: "rb_red h p" and U: "red_top (rb_red h) U"
  defines "u \<equiv> child h (\<not> d) g"
  defines "h' \<equiv> set_red g True (set_red u False (set_red p False h))"
  shows "insert_fix x h = (g, h')" "red_focus h' g (rb_parent h g) (Suc n) (nd d (nd d1 X p S) g U) c"
proof -
  note l = red_focus_look [OF r]
  show "insert_fix x h = (g, h')"
    unfolding l(6) insert_fix_to_def h'_def u_def Let_def using l(1,2,5) U by simp
  have f: "focus h x p X ((d1, p, S) # (d, g, U) # c)" and s: "\<not> rb_red h (rb_sentinel h)"
      and X: "rb (rb_red h) n X"
    using r by (auto simp: red_focus_def)
  have ok: "\<not> rb_red h g" "rb (rb_red h) n S" "\<not> red_top (rb_red h) S" "rb (rb_red h) n U" "ctx_ok (rb_red h) (Suc n) c"
    using r p by (simp_all add: red_focus_def)
  have f1: "focus h p g (nd d1 X p S) ((d, g, U) # c)"
    using focus_lift [OF f] l(2) by simp
  note n = focus_nodes [OF f] and n1 = focus_nodes [OF f1]
  obtain V W where uU: "U = nd True V u W"
    using f1 U by (cases U) (auto simp: focus_def u_def nd_def)
  have u: "u \<in> set_tree U" "u \<noteq> p" "u \<noteq> g" "u \<notin> set_tree X" "u \<notin> set_tree S" "u \<notin> ctx_nodes c" "u \<noteq> rb_sentinel h"
      "u \<notin> set_tree V" "u \<notin> set_tree W" "p \<notin> set_tree U" "g \<notin> set_tree U"
    using n1 uU focus_distinct(1) [OF focus_lift [OF f1]]  by (auto simp: nd_def split: if_splits)
  have red: "rb_red h' = (rb_red h)(p := False, u := False, g := True)" by (simp add: h'_def)
  have "p \<noteq> g" using n(7) by auto
  have "rb (rb_red h) n V" "rb (rb_red h) n W" using ok(4) U uU by (simp_all add: rb_nd)
  moreover have "rb_red h' a = rb_red h a" if "a \<in> set_tree V \<union> set_tree W" for a
    using that u uU by (auto simp: red)
  ultimately have "rb (rb_red h') n V" "rb (rb_red h') n W"
    using rb_cong [of "rb_red h"] by auto
  then have "rb (rb_red h') (Suc n) U" "\<not> red_top (rb_red h') U"
    unfolding uU using u(3) by (simp_all add: rb_nd red [THEN fun_cong])
  moreover have "rb (rb_red h') n X" "rb (rb_red h') n S"
    by (rule rb_cong [of "rb_red h"]; use X ok n n1 u red in auto)+
  moreover have "ctx_ok (rb_red h') (Suc n) c"
    by (rule ctx_ok_cong [OF ok(5)]) (use n n1 u red in auto)
  ultimately show "red_focus h' g (rb_parent h g) (Suc n) (nd d (nd d1 X p S) g U) c"
    using focus_lift [OF f1] s red u n(2) n1(2) \<open>p \<noteq> g\<close> by (simp add: red_focus_def rb_nd) (simp add: h'_def)
qed

text \<open>The other child of the grandparent is black: one or two rotations end the repair.\<close>

lemma insert_fix_black:
  assumes r: "red_focus h x p n X ((d1, p, S) # (d, g, U) # c)" and p: "rb_red h p" and U: "\<not> red_top (rb_red h) U"
  shows "\<exists>y h' t. insert_fix x h = (y, h') \<and> rb_tree h' t \<and> inorder t = inorder (plug X ((d1, p, S) # (d, g, U) # c))
    \<and> \<not> rb_red h' (rb_parent h' y) \<and> keeps h h'"
proof -
  note l = red_focus_look [OF r]
  have f: "focus h x p X ((d1, p, S) # (d, g, U) # c)" and s: "\<not> rb_red h (rb_sentinel h)"
      and X: "rb (rb_red h) n X" "red_top (rb_red h) X" "X \<noteq> Leaf"
    using r by (auto simp: red_focus_def)
  have ok: "rb (rb_red h) n S" "\<not> red_top (rb_red h) S" "rb (rb_red h) n U" "ctx_ok (rb_red h) (Suc n) c"
    using r p by (simp_all add: red_focus_def)
  have u: "\<not> rb_red h (child h (\<not> d) g)" using l(5) U by simp
  show ?thesis
  proof (cases "d1 = d")
    case True
    note m = insert_fix_last [OF f [unfolded True] X(3) s X(1) ok(1,3,2) U ok(4)]
    have "insert_fix x h = (x, rotate_to (\<not> d) g (set_red g True (set_red p False h)))"
      unfolding l(6) insert_fix_to_def using u l(1,2,4) True by simp
    then show ?thesis using m by (auto simp: inorder_plug nd_def True)
  next
    case False
    then have d1: "d1 = (\<not> d)" by auto
    obtain A x' B where Xe: "X = nd d A x' B" using nd_cases [OF X(3)] by blast
    then have x': "x' = x" using f by (simp add: focus_def tree_at_nd)
    have fp: "focus h p g (nd d S p (nd d A x B)) ((d, g, U) # c)"
      using focus_lift [OF f] by (simp add: d1 nd_flip Xe x' l(2))
    define h1 where "h1 = rotate_to d p h"
    note k = rotate_keeps [OF fp, folded h1_def]
    have f1: "focus h1 x g (nd d (nd d S p A) x B) ((d, g, U) # c)" unfolding h1_def by (rule rotate_focus [OF fp])
    then have f2: "focus h1 p x (nd d S p A) ((d, x, B) # (d, g, U) # c)"
      using focus_up [of h1 p x] focus_tops(1) [OF f1] by (auto simp: nd_def focus_def split: if_splits)
    have q: "rb_parent h1 p = x" "rb_parent h1 x = g"
      using focus_tops(1) [OF f2] focus_tops(1) [OF f1] by (simp_all add: nd_def)
    have ok': "rb (rb_red h) n (nd d S p A)" "rb (rb_red h) n B" "\<not> red_top (rb_red h) B"
      using X(1,2) ok(1,2) p by (simp_all add: Xe x' rb_nd)
    have s1: "\<not> rb_red h1 (rb_sentinel h1)" using s k by (simp add: keeps_def)
    have ne: "nd d S p A \<noteq> Leaf" by (simp add: nd_def)
    note m = insert_fix_last [OF f2 ne s1, of n, unfolded k(2), OF ok'(1,2) ok(3) ok'(3) U ok(4)]
    have "insert_fix x h = (p, rotate_to (\<not> d) g (set_red g True (set_red x False h1)))"
      unfolding l(6) insert_fix_to_def using u l(1,2,4) d1 q by (simp add: h1_def [symmetric])
    then show ?thesis using m keeps_trans [OF k(1)] by (auto simp: inorder_plug nd_def d1 Xe x')
  qed
qed

lemma insert_loop_correct:
  assumes "red_focus h x p n t c"
  shows "\<exists>h' t'. insert_loop x h = Some h' \<and> rb_tree h' t' \<and> inorder t' = inorder (plug t c) \<and> keeps h h'"
  using assms
proof (induction "length c" arbitrary: h x p n t c rule: less_induct)
  case less
  note r = less.prems
  have f: "focus h x p t c" and t: "t \<noteq> Leaf" "rb (rb_red h) n t" "red_top (rb_red h) t" and s: "\<not> rb_red h (rb_sentinel h)"
      and o: "ctx_ok (rb_red h) n c"
    using r by (auto simp: red_focus_def)
  have xr: "(x = rb_root h) = (c = [])" by (rule focus_root [OF f t(1)])
  show ?case
  proof (cases c)
    case Nil
    obtain A a B where te: "t = Node A a B" using t(1) by (cases t) auto
    have xa: "a = x" "a \<noteq> rb_sentinel h" "a \<notin> set_tree A" "a \<notin> set_tree B"
      using f focus_distinct(1) [OF f] by (auto simp: focus_def te)
    define h' where "h' = set_red x False h"
    have "rb (rb_red h') n A" "rb (rb_red h') n B"
      by (rule rb_cong [of "rb_red h"]; use t te xa in \<open>auto simp: h'_def\<close>)+
    then have "placed (rb_red h') (Suc n) t []" using xa by (simp add: placed_def te h'_def)
    moreover have "focus h' x p t []" using f Nil by (simp add: h'_def)
    moreover have "\<not> rb_red h' (rb_sentinel h')" using s by (simp add: h'_def)
    ultimately have "rb_tree h' (plug t [])" by (intro rb_treeI)
    moreover have "insert_loop x h = Some h'"
      using xr Nil by (subst insert_loop.simps) (simp add: h'_def)
    ultimately show ?thesis using Nil by (auto simp: h'_def)
  next
    case (Cons e c1)
    obtain d1 q S where e: "e = (d1, q, S)" by (cases e)
    have q: "q = p" "rb_parent h x = p" using focus_nodes(1) [OF f [unfolded Cons e]] focus_tops(1) [OF f t(1)] by auto
    show ?thesis
    proof (cases "rb_red h p")
      case False
      then have "placed (rb_red h) n t c" using t o q by (simp add: placed_def Cons e)
      then have R: "rb_tree h (plug t c)" using f s by (intro rb_treeI)
      have "insert_loop x h = Some (set_red (rb_root h) False h)" using False q by (subst insert_loop.simps) simp
      also have "set_red (rb_root h) False h = h" by (rule set_red_idem) (use rb_tree_root_black [OF R] in simp)
      finally show ?thesis using R by auto
    next
      case True
      have r1: "red_focus h x p n t ((d1, p, S) # c1)" using r Cons e q by simp
      obtain d g U c2 where c1: "c1 = (d, g, U) # c2" by (rule red_focus_shape [OF r1 True])
      note r2 = r1 [unfolded c1]
      have step: "insert_loop x h = (case insert_fix x h of (x, h) \<Rightarrow> insert_loop x h)"
        using True q xr Cons by (subst insert_loop.simps) simp
      show ?thesis
      proof (cases "red_top (rb_red h) U")
        case rU: True
        define h1 where "h1 = set_red g True (set_red (child h (\<not> d) g) False (set_red p False h))"
        note m = insert_fix_red [OF r2 True rU, folded h1_def]
        have k: "keeps h h1" by (simp add: h1_def)
        have "\<exists>h' t'. insert_loop g h1 = Some h' \<and> rb_tree h' t'
            \<and> inorder t' = inorder (plug (nd d (nd d1 t p S) g U) c2) \<and> keeps h1 h'"
          by (rule less.hyps [OF _ m(2)]) (simp add: Cons c1)
        then show ?thesis using step m(1) keeps_trans [OF k] by (auto simp: Cons c1 e q)
      next
        case False
        obtain y h1 t' where m: "insert_fix x h = (y, h1)" "rb_tree h1 t'"
            "inorder t' = inorder (plug t ((d1, p, S) # (d, g, U) # c2))" "\<not> rb_red h1 (rb_parent h1 y)" "keeps h h1"
          using insert_fix_black [OF r2 True False] by auto
        have "insert_loop y h1 = Some (set_red (rb_root h1) False h1)" using m(4) by (subst insert_loop.simps) simp
        also have "set_red (rb_root h1) False h1 = h1" by (rule set_red_idem) (use rb_tree_root_black [OF m(2)] in simp)
        finally show ?thesis using m step by (auto simp: Cons c1 e q)
      qed
    qed
  qed
qed

section \<open>The place of a new node\<close>

text \<open>The comparison agrees with the order of the tree: once the new node is smaller, it stays smaller.\<close>

definition upward :: "(nat \<Rightarrow> bool) \<Rightarrow> nat list \<Rightarrow> bool" where
  "upward lt xs \<longleftrightarrow> sorted_wrt (\<lambda>a b. lt a \<longrightarrow> lt b) xs"

lemma sorted_wrt_around:
  "sorted_wrt R (xs @ a # ys) \<Longrightarrow>
     sorted_wrt R xs \<and> sorted_wrt R ys \<and> (\<forall>x\<in>set xs. R x a) \<and> (\<forall>y\<in>set ys. R a y)"
  by (auto simp: sorted_wrt_append)

lemma upward_node:
  "upward lt (inorder (Node l a r)) \<Longrightarrow> upward lt (inorder l) \<and> upward lt (inorder r)
     \<and> (lt a \<longrightarrow> list_all lt (inorder r)) \<and> (\<not> lt a \<longrightarrow> list_all (\<lambda>x. \<not> lt x) (inorder l))"
  using sorted_wrt_around [of "\<lambda>a b. lt a \<longrightarrow> lt b" "inorder l" a "inorder r"]
  unfolding upward_def list_all_iff inorder.simps append.simps by blast

definition split_by :: "(nat \<Rightarrow> bool) \<Rightarrow> rb_ctx \<Rightarrow> bool" where
  "split_by lt c \<longleftrightarrow> list_all (\<lambda>x. \<not> lt x) (ctx_before c) \<and> list_all lt (ctx_after c)"

lemma split_by_filter:
  "split_by lt c \<Longrightarrow> filter (\<lambda>x. \<not> lt x) (inorder (plug Leaf c)) = ctx_before c
     \<and> filter lt (inorder (plug Leaf c)) = ctx_after c"
  by (auto simp: split_by_def inorder_plug list_all_iff filter_id_conv filter_empty_conv)

lemma insert_place_focus:
  assumes "focus h x p t c" "t \<noteq> Leaf" "upward lt (inorder t)" "split_by lt c" "placed (rb_red h) n t c"
  shows "\<exists>d a s c' m. insert_place lt h x = Some (a, d) \<and> focus h (rb_sentinel h) a Leaf ((d, a, s) # c')
    \<and> plug Leaf ((d, a, s) # c') = plug t c \<and> split_by lt ((d, a, s) # c') \<and> placed (rb_red h) m Leaf ((d, a, s) # c')"
  using assms
proof (induction t arbitrary: x p c n)
  case (Node l a r)
  have x: "x = a" "rb_parent h a = p" using Node.prems(1) by (auto simp: focus_def)
  define d where "d = lt a"
  define u where "u = (if d then l else r)"
  define s where "s = (if d then r else l)"
  have t: "Node l a r = nd d u a s" by (simp add: nd_def u_def s_def)
  have f: "focus h (child h d a) a u ((d, a, s) # c)"
    using Node.prems(1) x by (simp add: focus_up t)
  obtain m where pl: "placed (rb_red h) m u ((d, a, s) # c)" using placed_down Node.prems(5) unfolding t by blast
  have sp: "split_by lt ((d, a, s) # c)" and up: "upward lt (inorder u)"
    using Node.prems(4) upward_node [OF Node.prems(3)] by (auto simp: split_by_def u_def s_def d_def)
  have pe: "plug u ((d, a, s) # c) = plug (Node l a r) c" by (simp add: t)
  have st: "insert_place lt h a = (if child h d a = rb_sentinel h then Some (a, d) else insert_place lt h (child h d a))"
    by (subst insert_place.simps) (simp add: child_def d_def)
  have e: "(child h d a = rb_sentinel h) = (u = Leaf)" by (rule tree_at_leaf) (use f in \<open>auto simp: focus_def\<close>)
  show ?case
  proof (cases "u = Leaf")
    case True
    then have "focus h (rb_sentinel h) a Leaf ((d, a, s) # c)" "placed (rb_red h) m Leaf ((d, a, s) # c)"
        "plug Leaf ((d, a, s) # c) = plug (Node l a r) c" "insert_place lt h x = Some (a, d)"
      using f pl pe st e x by simp_all
    then show ?thesis using sp by blast
  next
    case False
    have st': "insert_place lt h x = insert_place lt h (child h d a)" using st e False x by simp
    show ?thesis
    proof (cases d)
      case True
      then have "u = l" by (simp add: u_def)
      then show ?thesis using Node.IH(1) [of "child h d a" a "(d, a, s) # c" m] f False up sp pl st' pe by simp
    next
      case False': False
      then have "u = r" by (simp add: u_def)
      then show ?thesis using Node.IH(2) [of "child h d a" a "(d, a, s) # c" m] f False up sp pl st' pe by simp
    qed
  qed
qed simp

lemma insert_at_eq:
  "insert_at node (a, d) h = set_red node True (set_child False node (rb_sentinel h) (set_child True node (rb_sentinel h)
     (set_parent node a (set_child d a node h))))"
  unfolding insert_at_def Let_def by (cases d) (simp_all add: direction_eqs set_left_def set_right_def set_parent_def)

lemma insert_at_focus:
  assumes f: "focus h (rb_sentinel h) a Leaf ((d, a, s) # c)" and n: "node \<notin> ctx_nodes ((d, a, s) # c)" "node \<noteq> rb_sentinel h"
    and pl: "placed (rb_red h) m Leaf ((d, a, s) # c)" and sn: "\<not> rb_red h (rb_sentinel h)"
  shows "red_focus (insert_at node (a, d) h) node a 0 (Node Leaf node Leaf) ((d, a, s) # c)"
proof -
  define h' where "h' = insert_at node (a, d) h"
  have h': "rb_sentinel h' = rb_sentinel h" "rb_root h' = rb_root h" "rb_red h' = (rb_red h)(node := True)"
      "rb_parent h' = (rb_parent h)(node := a)"
      "child h' e b = (if b = node then rb_sentinel h else if e = d \<and> b = a then node else child h e b)" for e b
    unfolding h'_def insert_at_eq by simp_all
  have na: "node \<noteq> a" using n by auto
  have "tree_at h' a node (Node Leaf node Leaf)" using n(2) h' by simp
  moreover have "ctx_at h' node a ((d, a, s) # c)"
    by (rule ctx_hole [of h "rb_sentinel h"])
      (use f focus_parts(4) [OF f] n in \<open>auto simp: focus_def h'\<close>)
  moreover have "distinct (inorder (plug (Node Leaf node Leaf) ((d, a, s) # c)))"
    using focus_parts(4) [OF f] n(1) unfolding inorder_plug ctx_nodes_set by auto
  ultimately have "focus h' node a (Node Leaf node Leaf) ((d, a, s) # c)" by (simp only: focus_def)
  moreover have "m = 0" using pl by (simp add: placed_def)
  then have "ctx_ok (rb_red h) 0 ((d, a, s) # c)" using pl unfolding placed_def by blast
  then have "ctx_ok (rb_red h') 0 ((d, a, s) # c)"
    by (rule ctx_ok_cong) (use n in \<open>auto simp: h'\<close>)
  moreover have "rb (rb_red h') 0 (Node Leaf node Leaf)" "red_top (rb_red h') (Node Leaf node Leaf)"
      "\<not> rb_red h' (rb_sentinel h')"
    using h' n(2) sn by simp_all
  ultimately show ?thesis unfolding red_focus_def h'_def by blast
qed

lemma rb_treeE:
  assumes "rb_tree h t"
  obtains p n where "focus h (rb_root h) p t []" "placed (rb_red h) n t []" "\<not> rb_red h (rb_sentinel h)"
  using assms by (auto simp: rb_tree_def)

lemma rbtree_insert_generic:
  assumes r: "rb_tree h t" and n: "node \<notin> set_tree t" "node \<noteq> rb_sentinel h" and u: "upward lt (inorder t)"
    and fp: "find_place (rb_root h) node h = map_option (\<lambda>place. insert_at node place h) (insert_place lt h (rb_root h))"
  shows "\<exists>h' t'. ngx_rbtree_insert find_place node h = Some h' \<and> rb_tree h' t' \<and> keeps h h'
    \<and> inorder t' = filter (\<lambda>x. \<not> lt x) (inorder t) @ node # filter lt (inorder t)"
proof -
  obtain p m where f: "focus h (rb_root h) p t []" and pl: "placed (rb_red h) m t []" and s: "\<not> rb_red h (rb_sentinel h)"
    by (rule rb_treeE [OF r])
  have e: "(rb_root h = rb_sentinel h) = (t = Leaf)" by (rule tree_at_leaf) (use f in \<open>auto simp: focus_def\<close>)
  show ?thesis
  proof (cases "t = Leaf")
    case True
    define h1 where "h1 = set_red node False (set_child False node (rb_sentinel h) (set_child True node (rb_sentinel h)
      (set_parent node 0 h)))"
    define h' where "h' = h1\<lparr>rb_root := node\<rparr>"
    have "ngx_rbtree_insert find_place node h = Some h'"
      using e True by (simp add: ngx_rbtree_insert_def h'_def h1_def Let_def direction_eqs set_left_def set_parent_def)
    moreover have "focus h' (rb_root h') 0 (Node Leaf node Leaf) []" "\<not> rb_red h' (rb_sentinel h')" "keeps h h'"
        "placed (rb_red h') 1 (Node Leaf node Leaf) []"
      using n(2) s by (simp_all add: focus_def h'_def h1_def placed_def keeps_def)
    ultimately show ?thesis using True by (intro exI [of _ h'] exI [of _ "Node Leaf node Leaf"]) (auto simp: rb_tree_def)
  next
    case False
    have "split_by lt []" by (simp add: split_by_def)
    then obtain d a s c m where pf: "insert_place lt h (rb_root h) = Some (a, d)"
        and fl: "focus h (rb_sentinel h) a Leaf ((d, a, s) # c)" and pe: "plug Leaf ((d, a, s) # c) = t"
        and sp: "split_by lt ((d, a, s) # c)" and pm: "placed (rb_red h) m Leaf ((d, a, s) # c)"
      using insert_place_focus [OF f False u _ pl] by auto
    have nc: "node \<notin> ctx_nodes ((d, a, s) # c)" using n(1) pe set_plug [of Leaf "(d, a, s) # c"] by auto
    obtain h' t' where l: "insert_loop node (insert_at node (a, d) h) = Some h'" "rb_tree h' t'"
        "inorder t' = inorder (plug (Node Leaf node Leaf) ((d, a, s) # c))" "keeps (insert_at node (a, d) h) h'"
      using insert_loop_correct [OF insert_at_focus [OF fl nc n(2) pm s]] by auto
    have "ngx_rbtree_insert find_place node h = Some h'"
      using e False l(1) pf fp by (simp add: ngx_rbtree_insert_def)
    moreover have "keeps h h'" by (rule keeps_trans [OF _ l(4)]) (simp add: insert_at_eq)
    moreover have "inorder t' = filter (\<lambda>x. \<not> lt x) (inorder t) @ node # filter lt (inorder t)"
      using split_by_filter [OF sp] unfolding pe l(3) by (simp add: inorder_plug del: plug.simps ctx_before.simps ctx_after.simps)
    ultimately show ?thesis using l(2) by blast
  qed
qed

end
