(* ===== verification/Rbtree_Walk.thy ===== *)
theory Rbtree_Walk
  imports Rbtree_Insert
begin

text \<open>
  The height of the tree, its minimum, and the successor of a node.
\<close>

section \<open>Height\<close>

lemma rb_height: "rb col n t \<Longrightarrow> height t \<le> 2 * n + (if red_top col t then 1 else 0)"
proof (induction t arbitrary: n)
  case (Node l a r)
  show ?case
  proof (cases "col a")
    case True
    then show ?thesis using Node.IH [of n] Node.prems by auto
  next
    case False
    then have "height l \<le> 2 * (n - 1) + 1" "height r \<le> 2 * (n - 1) + 1" "0 < n"
      using Node.IH [of "n - 1"] Node.prems by (auto split: if_splits)
    then show ?thesis using False by auto
  qed
qed simp

lemma rb_size: "rb col n t \<Longrightarrow> 2 ^ n \<le> size1 t"
proof (induction t arbitrary: n)
  case (Node l a r)
  show ?case
  proof (cases "col a")
    case True
    then show ?thesis using Node.IH(1) [of n] Node.prems by (simp add: trans_le_add1)
  next
    case False
    then have "2 ^ (n - 1) \<le> size1 l" "2 ^ (n - 1) \<le> size1 r" "0 < n" using Node by auto
    then show ?thesis by (cases n) auto
  qed
qed simp

section \<open>Walking\<close>

lemma min_focus: "tree_at h p x t \<Longrightarrow> t \<noteq> Leaf \<Longrightarrow> ngx_rbtree_min h x = Some (hd (inorder t))"
proof (induction t arbitrary: p x)
  case (Node l a r)
  have st: "ngx_rbtree_min h x = (if child h True a \<noteq> rb_sentinel h then ngx_rbtree_min h (child h True a) else Some a)"
    using Node.prems by (subst ngx_rbtree_min.simps) (simp add: child_eqs)
  have l: "tree_at h a (child h True a) l" using Node.prems by simp
  show ?case
  proof (cases l)
    case Leaf
    then show ?thesis using st l by simp
  next
    case (Node l' b r')
    have "inorder l \<noteq> []" using Node by simp
    then show ?thesis using st l Node.IH(1) [OF l] tree_at_leaf [OF l] Node by (simp add: hd_append)
  qed
qed simp

lemma next_up_focus:
  "focus h x p t c \<Longrightarrow> t \<noteq> Leaf \<Longrightarrow> next_up h x = Some (case ctx_after c of [] \<Rightarrow> None | b # _ \<Rightarrow> Some b)"
proof (induction c arbitrary: x p t)
  case Nil
  then show ?case by (subst next_up.simps) (simp add: focus_root)
next
  case (Cons f c)
  obtain d a s where f: "f = (d, a, s)" by (cases f)
  note fo = Cons.prems(1) [unfolded f]
  have "rb_parent h x = a" "x \<noteq> rb_root h" "(child h True a = x) = (True = d)"
    using focus_tops(1) [OF fo Cons.prems(2)] focus_nodes(1) [OF fo] focus_root [OF fo Cons.prems(2)]
      focus_dir [OF fo, of True] Cons.prems(2) by auto
  then have st: "next_up h x = (if d then Some (Some a) else next_up h a)"
    by (subst next_up.simps) (auto simp: child_eqs)
  show ?case
  proof (cases d)
    case False
    have "next_up h a = Some (case ctx_after c of [] \<Rightarrow> None | b # _ \<Rightarrow> Some b)"
      by (rule Cons.IH [OF focus_lift [OF fo]]) (simp add: nd_def)
    then show ?thesis using st False f by simp
  qed (use st f in simp)
qed

lemma focus_member:
  "focus h x p t c \<Longrightarrow> a \<in> set_tree t \<Longrightarrow> \<exists>q l r c'. focus h a q (Node l a r) c' \<and> plug (Node l a r) c' = plug t c"
proof (induction t arbitrary: x p c)
  case (Node l b r)
  have xb: "x = b" "p = rb_parent h b" using Node.prems(1) by (auto simp: focus_def)
  have L: "focus h (child h True b) b l ((True, b, r) # c)" and R: "focus h (child h False b) b r ((False, b, l) # c)"
    using Node.prems(1) xb by (simp_all add: focus_up nd_def)
  consider "a = b" | "a \<in> set_tree l" | "a \<in> set_tree r" using Node.prems(2) by auto
  then show ?case
  proof cases
    case 1
    then show ?thesis using Node.prems(1) xb by blast
  next
    case 2
    then show ?thesis using Node.IH(1) [OF L] by (simp add: nd_def)
  next
    case 3
    then show ?thesis using Node.IH(2) [OF R] by (simp add: nd_def)
  qed
qed simp

lemma rb_tree_member:
  assumes "rb_tree h t" "a \<in> set_tree t"
  obtains q l r c where "focus h a q (Node l a r) c" "plug (Node l a r) c = t"
proof -
  obtain p n where f: "focus h (rb_root h) p t []" by (rule rb_treeE [OF assms(1)])
  show ?thesis using focus_member [OF f assms(2)] that by auto
qed

lemma next_focus:
  assumes f: "focus h a q (Node l a r) c"
  shows "ngx_rbtree_next h a = Some (case inorder r @ ctx_after c of [] \<Rightarrow> None | b # _ \<Rightarrow> Some b)"
proof -
  have r: "tree_at h a (child h False a) r" using f by (simp add: focus_def)
  show ?thesis
  proof (cases "r = Leaf")
    case True
    then show ?thesis using next_up_focus [OF f] tree_at_leaf [OF r] by (simp add: ngx_rbtree_next_def child_eqs)
  next
    case False
    have "inorder r \<noteq> []" using False by (cases r) auto
    then show ?thesis using min_focus [OF r False] tree_at_leaf [OF r] False
      by (simp add: ngx_rbtree_next_def child_eqs split: list.splits) (auto simp: append_eq_Cons_conv)
  qed
qed

end
