(* ===== verification/Rbtree_Delete.thy ===== *)
theory Rbtree_Delete
  imports Rbtree_Walk
begin

text \<open>
  Deletion: the loop that restores the balance after a black node was removed, and the unlinking of the
  node, whose place may be taken by the node with the next key.
\<close>

section \<open>Deletion keeps the tree balanced\<close>

definition delete_tail :: "bool \<Rightarrow> nat \<Rightarrow> nat \<Rightarrow> rbtree \<Rightarrow> nat \<times> rbtree" where
  "delete_tail d temp w h =
     (if \<not> rb_red h (child h d w) \<and> \<not> rb_red h (child h (\<not> d) w) then
        let h = set_red w True h in (rb_parent h temp, h)
      else
        let (w, h) = (if \<not> rb_red h (child h (\<not> d) w) then
              let h = set_red (child h d w) False h;
                  h = set_red w True h;
                  h = rotate_to (\<not> d) w h
              in (child h (\<not> d) (rb_parent h temp), h) else (w, h));
            h = set_red w (rb_red h (rb_parent h temp)) h;
            h = set_red (rb_parent h temp) False h;
            h = set_red (child h (\<not> d) w) False h;
            h = rotate_to d (rb_parent h temp) h
        in (rb_root h, h))"

definition delete_fix_to :: "bool \<Rightarrow> nat \<Rightarrow> rbtree \<Rightarrow> nat \<times> rbtree" where
  "delete_fix_to d temp h =
     (let w = child h (\<not> d) (rb_parent h temp);
          (w, h) = (if rb_red h w then
              let h = set_red w False h;
                  h = set_red (rb_parent h temp) True h;
                  h = rotate_to d (rb_parent h temp) h
              in (child h (\<not> d) (rb_parent h temp), h) else (w, h))
      in delete_tail d temp w h)"

lemma conj_black: "(\<not> rb_red h a \<and> \<not> rb_red h b) = (\<not> rb_red h b \<and> \<not> rb_red h a)"
  by blast

lemma delete_fix_eq: "delete_fix temp h = delete_fix_to (temp = child h True (rb_parent h temp)) temp h"
proof -
  have "delete_fix temp h = (if temp = child h True (rb_parent h temp) then delete_fix_to True temp h
      else delete_fix_to False temp h)"
    unfolding delete_fix_def delete_fix_to_def delete_tail_def rotate_eqs child_eqs not_True_eq_False not_False_eq_True
      conj_black [of _ "child _ False _"] by (rule refl)
  then show ?thesis by simp
qed

text \<open>A tree that lacks a black node. If it is red, painting it black is the repair.\<close>

definition short_focus :: "rbtree \<Rightarrow> nat \<Rightarrow> nat \<Rightarrow> nat \<Rightarrow> nat tree \<Rightarrow> rb_ctx \<Rightarrow> bool" where
  "short_focus h x p n t c \<longleftrightarrow> focus h x p t c \<and> (c \<noteq> [] \<longrightarrow> rb_parent h x = p) \<and> \<not> rb_red h (rb_sentinel h)
     \<and> ctx_ok (rb_red h) (Suc n) c
     \<and> (if rb_red h x then rb ((rb_red h)(x := False)) (Suc n) t else rb (rb_red h) n t)"

lemma ctx_sentinel: "ctx_at h x p c \<Longrightarrow> rb_sentinel h \<notin> ctx_nodes c"
proof (induction c arbitrary: x p)
  case (Cons f c)
  then show ?case using tree_at_sentinel by (cases f) fastforce
qed simp

lemma short_root: "short_focus h x p n t c \<Longrightarrow> (x = rb_root h) = (c = [])"
proof (cases "t = Leaf")
  case True
  assume s: "short_focus h x p n t c"
  then have "x = rb_sentinel h" "ctx_at h x p c" using True by (auto simp: short_focus_def focus_def)
  then show ?thesis using ctx_root [of h x p c] ctx_sentinel [of h x p c] by (cases "c = []") auto
next
  case False
  assume "short_focus h x p n t c"
  then have "focus h x p t c" by (simp add: short_focus_def)
  then show ?thesis using False by (rule focus_root)
qed

definition repaired :: "rbtree \<Rightarrow> nat tree \<Rightarrow> rb_ctx \<Rightarrow> rbtree option \<Rightarrow> bool" where
  "repaired h t c out \<longleftrightarrow> (\<exists>h' t'. out = Some h' \<and> rb_tree h' t' \<and> inorder t' = inorder (plug t c) \<and> keeps h h')"

lemma delete_loop_end:
  assumes s: "short_focus h x p n t c" and e: "c = [] \<or> rb_red h x"
  shows "repaired h t c (delete_loop x h)"
proof -
  have f: "focus h x p t c" and b: "\<not> rb_red h (rb_sentinel h)" and o: "ctx_ok (rb_red h) (Suc n) c"
    using s by (auto simp: short_focus_def)
  have st: "delete_loop x h = Some (set_red x False h)"
    using e short_root [OF s] by (subst delete_loop.simps) auto
  show ?thesis
  proof (cases "rb_red h x")
    case True
    define h' where "h' = set_red x False h"
    have t: "t \<noteq> Leaf" using True f b by (auto simp: focus_def)
    have x: "x \<in> set_tree t" "x \<notin> ctx_nodes c" using focus_tops(2) [OF f t] focus_distinct(2) [OF f] by auto
    have "ctx_ok (rb_red h') (Suc n) c" by (rule ctx_ok_cong [OF o]) (use x(2) in \<open>auto simp: h'_def\<close>)
    moreover have "rb (rb_red h') (Suc n) t" using s True by (simp add: short_focus_def h'_def)
    moreover have "\<not> red_top (rb_red h') t" using f t by (cases t) (auto simp: focus_def h'_def)
    ultimately have "placed (rb_red h') (Suc n) t c" by (simp add: placed_def)
    moreover have "focus h' x p t c" "\<not> rb_red h' (rb_sentinel h')" using f b by (simp_all add: h'_def)
    ultimately have "rb_tree h' (plug t c)" by (intro rb_treeI)
    then show ?thesis using st by (auto simp: repaired_def h'_def)
  next
    case False
    then have c: "c = []" using e by simp
    have "red_top (rb_red h) t = False" using red_at [of h p x t] f b False by (simp add: focus_def)
    then have "placed (rb_red h) n t c" using s False c by (simp add: placed_def short_focus_def)
    then have "rb_tree h (plug t c)" using f b by (intro rb_treeI)
    then show ?thesis using st set_red_idem [of h x False] False by (auto simp: repaired_def)
  qed
qed

lemma tree_at_shape: "tree_at h p x t \<Longrightarrow> t \<noteq> Leaf \<Longrightarrow> \<exists>l r. t = nd d l x r"
  by (cases t; cases d) (auto simp: nd_def)

lemma focus_rb_cong:
  assumes "\<And>a. a \<in> set_tree t \<Longrightarrow> col' a = col a"
  shows "rb col' n t = rb col n t" "red_top col' t = red_top col t"
  using rb_cong [of col n t col'] rb_cong [of col' n t col] red_top_cong [of t col' col] assms by auto

text \<open>The rotation that ends the repair: the far child of the sibling is red.\<close>

lemma delete_fix_last:
  assumes f: "focus h x p T ((d, p, nd d B w C) # c)" and s: "\<not> rb_red h (rb_sentinel h)"
    and r: "rb (rb_red h) n T" "rb (rb_red h) n B" "rb (rb_red h) n C" "red_top (rb_red h) C"
    and o: "if rb_red h p then \<not> top_red (rb_red h) c \<and> ctx_ok (rb_red h) (Suc n) c else ctx_ok (rb_red h) (Suc (Suc n)) c"
  defines "h1 \<equiv> set_red (child h (\<not> d) w) False (set_red p False (set_red w (rb_red h p) h))"
  defines "h2 \<equiv> rotate_to d p h1"
  shows "rb_tree h2 (plug (nd d (nd d T p B) w C) c)" "keeps h h2"
proof -
  define z where "z = child h (\<not> d) w"
  have fp: "focus h p (rb_parent h p) (nd d T p (nd d B w C)) c" by (rule focus_lift [OF f])
  then have f1: "focus h1 p (rb_parent h p) (nd d T p (nd d B w C)) c" by (simp add: h1_def)
  have f2: "focus h2 w (rb_parent h p) (nd d (nd d T p B) w C) c" unfolding h2_def by (rule rotate_focus [OF f1])
  have tz: "tree_at h w z C" using fp by (simp add: focus_def tree_at_nd z_def)
  obtain C1 C2 where C: "C = nd d C1 z C2"
    using tree_at_shape [OF tz, of d] r(4) by (cases "C = Leaf") auto
  have red: "rb_red h2 = (rb_red h)(w := rb_red h p, p := False, z := False)" and k: "keeps h h2"
    using rotate_keeps [OF f1] by (simp_all add: h2_def h1_def z_def keeps_def)
  have dis: "w \<noteq> p" "z \<noteq> p" "z \<noteq> w"
      "\<And>a. a \<in> set_tree T \<union> set_tree B \<union> set_tree C1 \<union> set_tree C2 \<union> ctx_nodes c \<Longrightarrow> a \<noteq> w \<and> a \<noteq> p \<and> a \<noteq> z"
      "rb_sentinel h \<noteq> w" "rb_sentinel h \<noteq> p" "rb_sentinel h \<noteq> z"
    using focus_parts(3,5,6) [OF fp] by (auto simp: C nd_def split: if_splits)
  have col: "rb_red h2 a = rb_red h a" if "a \<in> set_tree T \<union> set_tree B \<union> set_tree C1 \<union> set_tree C2 \<union> ctx_nodes c" for a
    using dis(4) [OF that] by (simp add: red)
  have "rb (rb_red h) n C1" "rb (rb_red h) n C2" using r(3,4) by (simp_all add: C rb_nd)
  then have "rb (rb_red h2) n T" "rb (rb_red h2) n B" "rb (rb_red h2) n C1" "rb (rb_red h2) n C2"
    using r(1,2) col by (auto intro: rb_cong)
  moreover have "rb_red h2 w = rb_red h p" "\<not> rb_red h2 p" "\<not> rb_red h2 z" using dis(1-3) by (simp_all add: red)
  moreover have "top_red (rb_red h2) c = top_red (rb_red h) c" by (rule top_red_cong) (use col in simp)
  moreover have "ctx_ok (rb_red h2) m c" if "ctx_ok (rb_red h) m c" for m by (rule ctx_ok_cong [OF that]) (use col in simp)
  ultimately have "placed (rb_red h2) (if rb_red h p then Suc n else Suc (Suc n)) (nd d (nd d T p B) w C) c"
    using o by (auto simp: placed_def rb_nd C)
  moreover have "\<not> rb_red h2 (rb_sentinel h2)" using s k dis(5-7) red by (simp add: keeps_def)
  ultimately show "rb_tree h2 (plug (nd d (nd d T p B) w C) c)" using f2 by (intro rb_treeI)
  show "keeps h h2" by (rule k)
qed

text \<open>A place that lacks a black node has a sibling.\<close>

lemma short_sibling:
  assumes s: "short_focus h x p n T ((d, p, W) # c)" and x: "\<not> rb_red h x"
  shows "focus h x p T ((d, p, W) # c)" "rb_parent h x = p" "\<not> rb_red h (rb_sentinel h)" "rb (rb_red h) n T"
    "rb (rb_red h) (Suc n) W" "\<exists>B C. W = nd d B (child h (\<not> d) p) C"
    "if rb_red h p then \<not> red_top (rb_red h) W \<and> \<not> top_red (rb_red h) c \<and> ctx_ok (rb_red h) (Suc n) c
     else ctx_ok (rb_red h) (Suc (Suc n)) c"
proof -
  show f: "focus h x p T ((d, p, W) # c)" and "rb_parent h x = p" "\<not> rb_red h (rb_sentinel h)" "rb (rb_red h) n T"
    and W: "rb (rb_red h) (Suc n) W"
    and "if rb_red h p then \<not> red_top (rb_red h) W \<and> \<not> top_red (rb_red h) c \<and> ctx_ok (rb_red h) (Suc n) c
     else ctx_ok (rb_red h) (Suc (Suc n)) c"
    using s x by (auto simp: short_focus_def split: if_splits)
  have "tree_at h p (child h (\<not> d) p) W" using f by (simp add: focus_def)
  moreover have "W \<noteq> Leaf" using W by auto
  ultimately show "\<exists>B C. W = nd d B (child h (\<not> d) p) C" by (rule tree_at_shape)
qed

lemma focus_sibling_nodes:
  assumes "focus h x p T ((d, p, nd d B w C) # c)"
  shows "w \<noteq> p" "w \<notin> set_tree T" "w \<notin> set_tree B" "w \<notin> set_tree C" "w \<notin> ctx_nodes c" "w \<noteq> rb_sentinel h"
    "p \<notin> set_tree T" "p \<notin> set_tree B" "p \<notin> set_tree C" "p \<notin> ctx_nodes c" "p \<noteq> rb_sentinel h"
    "set_tree T \<inter> set_tree B = {}" "set_tree T \<inter> set_tree C = {}" "set_tree B \<inter> set_tree C = {}"
    "set_tree B \<inter> ctx_nodes c = {}" "w = child h (\<not> d) p" "tree_at h w (child h d w) B" "tree_at h w (child h (\<not> d) w) C"
proof -
  note fp = focus_parts [OF focus_lift [OF assms]]
  have "distinct (inorder (nd d T p (nd d B w C)))" by (rule fp(3))
  then show "w \<noteq> p" "w \<notin> set_tree T" "w \<notin> set_tree B" "w \<notin> set_tree C" "p \<notin> set_tree T" "p \<notin> set_tree B" "p \<notin> set_tree C"
      "set_tree T \<inter> set_tree B = {}" "set_tree T \<inter> set_tree C = {}" "set_tree B \<inter> set_tree C = {}"
    by (cases d; auto simp: nd_def)+
  show "w \<notin> ctx_nodes c" "p \<notin> ctx_nodes c" "set_tree B \<inter> ctx_nodes c = {}" using fp(5) by auto
  show "w \<noteq> rb_sentinel h" "p \<noteq> rb_sentinel h" using fp(6) by auto
  show "w = child h (\<not> d) p" "tree_at h w (child h d w) B" "tree_at h w (child h (\<not> d) w) C"
    using fp(1) by (simp_all add: tree_at_nd)
qed

text \<open>The sibling is black and so are its children: it becomes red.\<close>

lemma delete_paint:
  assumes s: "short_focus h x p n T ((d, p, W) # c)" and x: "\<not> rb_red h x" and We: "W = nd d B w C" and w: "\<not> rb_red h w"
    and BC: "\<not> red_top (rb_red h) B" "\<not> red_top (rb_red h) C"
  shows "short_focus (set_red w True h) p (rb_parent h p) (if rb_red h p then n else Suc n) (nd d T p W) c"
proof -
  note sh = short_sibling [OF s x]
  note n = focus_sibling_nodes [OF sh(1) [unfolded We]]
  define h' where "h' = set_red w True h"
  define col where "col = (rb_red h')(p := False)"
  have col: "col w" "\<not> col p" "\<And>a. a \<in> set_tree T \<union> set_tree B \<union> set_tree C \<Longrightarrow> col a = rb_red h a"
    using n(1-11) by (auto simp: col_def h'_def)
  have "rb (rb_red h) n B" "rb (rb_red h) n C" using sh(5) w by (simp_all add: We rb_nd)
  then have "rb col n T" "rb col n B" "rb col n C" "\<not> red_top col B" "\<not> red_top col C"
    using sh(4) BC focus_rb_cong [of _ col "rb_red h"] col(3) by simp_all
  then have R: "rb col (Suc n) (nd d T p W)" using col by (simp add: We rb_nd)
  have pe: "rb_red h' p = rb_red h p" using n(1) by (simp add: h'_def)
  then have "\<not> rb_red h p \<Longrightarrow> col = rb_red h'" by (auto simp: col_def fun_eq_iff)
  then have R': "if rb_red h p then rb ((rb_red h')(p := False)) (Suc n) (nd d T p W) else rb (rb_red h') (Suc n) (nd d T p W)"
    using R by (auto simp: col_def)
  have "ctx_ok (rb_red h') m c" if "ctx_ok (rb_red h) m c" for m
    by (rule ctx_ok_cong [OF that]) (use n(5) in \<open>auto simp: h'_def\<close>)
  then have "ctx_ok (rb_red h') (Suc (if rb_red h p then n else Suc n)) c" using sh(7) by (simp split: if_splits)
  moreover have "focus h' p (rb_parent h p) (nd d T p W) c" "rb_parent h' p = rb_parent h p" "\<not> rb_red h' (rb_sentinel h')"
    using focus_lift [OF sh(1)] sh(3) n(6) by (simp_all add: h'_def)
  ultimately show ?thesis using R' pe unfolding short_focus_def h'_def [symmetric] by (simp split: if_splits)
qed

text \<open>The near child of the sibling is red: a rotation brings the red node to the far side.\<close>

lemma delete_near:
  assumes f: "focus h x p T ((d, p, nd d (nd (\<not> d) B2 v B1) w C) # c)" and px: "rb_parent h x = p"
  defines "h1 \<equiv> set_red w True (set_red v False h)"
  defines "h2 \<equiv> rotate_to (\<not> d) w h1"
  shows "focus h2 x p T ((d, p, nd d B1 v (nd d B2 w C)) # c)" "rb_parent h2 x = p" "child h2 (\<not> d) p = v"
    "rb_red h2 = (rb_red h)(v := False, w := True)" "keeps h h2"
proof -
  note n = focus_sibling_nodes [OF f]
  have cx: "x = child h d p" and tT: "tree_at h p x T" and v: "v \<noteq> p" "v \<noteq> rb_sentinel h" "v \<notin> set_tree T"
    using f n(12) tree_at_sentinel [OF n(17)] n(8) by (auto simp: focus_def)
  have "focus h w p (nd (\<not> d) C w (nd (\<not> d) B2 v B1)) ((\<not> d, p, T) # c)"
    using focus_lift [OF f] unfolding focus_up by (simp add: nd_flip n(16))
  then have f1: "focus h1 w p (nd (\<not> d) C w (nd (\<not> d) B2 v B1)) ((\<not> d, p, T) # c)" by (simp add: h1_def)
  note k = rotate_keeps [OF f1, folded h2_def] and rf = rotate_fields [OF f1, folded h2_def]
  show "rb_red h2 = (rb_red h)(v := False, w := True)" "keeps h h2" using k by (simp_all add: h1_def keeps_def)
  show "child h2 (\<not> d) p = v" using n(1) v(1) unfolding rf(2) by simp
  have x: "x \<noteq> w" "x \<noteq> v" "\<not> (x = child h1 (\<not> d) v \<and> child h1 (\<not> d) v \<noteq> rb_sentinel h1)"
  proof -
    have "tree_at h v (child h (\<not> d) v) B2" using n(17) by (simp add: tree_at_nd)
    then have "child h (\<not> d) v \<in> set_tree B2" if "child h (\<not> d) v \<noteq> rb_sentinel h" using that by (rule tree_at_root)
    moreover have "x = rb_sentinel h \<or> x \<in> set_tree T" using tree_at_root [OF tT] by blast
    ultimately show "x \<noteq> w" "x \<noteq> v" "\<not> (x = child h1 (\<not> d) v \<and> child h1 (\<not> d) v \<noteq> rb_sentinel h1)"
      using n(2,6,12) v by (auto simp: h1_def)
  qed
  show "rb_parent h2 x = p" using x px unfolding rf(3) by (auto simp: h1_def)
  have cd: "child h2 d p = x" using n(1) v(1) unfolding rf(2) by (simp add: cx h1_def)
  have "focus h2 v p (nd (\<not> d) (nd (\<not> d) C w B2) v B1) ((\<not> d, p, T) # c)"
    unfolding h2_def by (rule rotate_focus [OF f1])
  from focus_lift [OF this] show "focus h2 x p T ((d, p, nd d B1 v (nd d B2 w C)) # c)"
    unfolding focus_up by (simp add: nd_flip cd)
qed

text \<open>A round with a black sibling moves the problem to the parent, or ends the repair.\<close>

definition round_ok :: "rbtree \<Rightarrow> nat \<Rightarrow> nat tree \<Rightarrow> rb_ctx \<Rightarrow> nat \<times> rbtree \<Rightarrow> bool" where
  "round_ok h p t c out \<longleftrightarrow> (\<exists>y h'. out = (y, h') \<and> keeps h h'
     \<and> ((\<exists>m. y = p \<and> short_focus h' p (rb_parent h p) m t c \<and> (rb_red h p \<longrightarrow> rb_red h' p))
       \<or> y = rb_root h' \<and> (\<exists>t'. rb_tree h' t' \<and> inorder t' = inorder (plug t c))))"

lemma delete_tail_near:
  assumes f: "focus h x p T ((d, p, nd d B w C) # c)" and px: "rb_parent h x = p" and s: "\<not> rb_red h (rb_sentinel h)"
    and r: "rb (rb_red h) n T" "rb (rb_red h) n B" "rb (rb_red h) n C" "red_top (rb_red h) B" "\<not> red_top (rb_red h) C"
    and o: "if rb_red h p then \<not> top_red (rb_red h) c \<and> ctx_ok (rb_red h) (Suc n) c else ctx_ok (rb_red h) (Suc (Suc n)) c"
  shows "round_ok h p (nd d T p (nd d B w C)) c (delete_tail d x w h)"
proof -
  note n = focus_sibling_nodes [OF f]
  define v where "v = child h d w"
  obtain B2 B1 where Be: "B = nd (\<not> d) B2 v B1"
    using tree_at_shape [OF n(17), of "\<not> d"] r(4) by (cases "B = Leaf") (auto simp: v_def)
  define h2 where "h2 = rotate_to (\<not> d) w (set_red w True (set_red v False h))"
  note N = delete_near [OF f [unfolded Be] px, folded h2_def]
  have dB: "distinct (inorder B)" using focus_parts(3) [OF focus_lift [OF f]] by (cases d) (auto simp: nd_def)
  have vn: "v \<noteq> w" "v \<noteq> p" "v \<noteq> rb_sentinel h"
    using n(3,8) tree_at_sentinel [OF n(17)] by (auto simp: Be)
  have cg: "rb_red h2 a = rb_red h a" if "a \<in> set_tree T \<union> set_tree B1 \<union> set_tree B2 \<union> set_tree C \<union> ctx_nodes c" for a
  proof -
    have "v \<notin> set_tree B1" "v \<notin> set_tree B2" using dB by (cases d; auto simp: Be nd_def)+
    then have "a \<noteq> v" "a \<noteq> w" using that n(2-5,12,14,15) by (auto simp: Be)
    then show ?thesis by (simp add: N(4))
  qed
  have "rb (rb_red h) n B1" "rb (rb_red h) n B2" "\<not> red_top (rb_red h) B2" using r(2,4) by (auto simp: Be rb_nd)
  then have r2: "rb (rb_red h2) n T" "rb (rb_red h2) n B1" "rb (rb_red h2) n (nd d B2 w C)" "red_top (rb_red h2) (nd d B2 w C)"
    using r(1,3,5) cg vn focus_rb_cong [of _ "rb_red h2" "rb_red h"] by (simp_all add: rb_nd N(4))
  have "rb_red h2 p = rb_red h p" using vn n(1) by (simp add: N(4))
  moreover have "top_red (rb_red h2) c = top_red (rb_red h) c" by (rule top_red_cong) (use cg in simp)
  moreover have "ctx_ok (rb_red h2) m c" if "ctx_ok (rb_red h) m c" for m by (rule ctx_ok_cong [OF that]) (use cg in simp)
  ultimately have o2: "if rb_red h2 p then \<not> top_red (rb_red h2) c \<and> ctx_ok (rb_red h2) (Suc n) c
      else ctx_ok (rb_red h2) (Suc (Suc n)) c" using o by (simp split: if_splits)
  have s2: "\<not> rb_red h2 (rb_sentinel h2)" using s N(4,5) n(6) vn by (simp add: keeps_def)
  define h3 where "h3 = set_red (child h2 (\<not> d) v) False (set_red p False (set_red v (rb_red h2 p) h2))"
  note L = delete_fix_last [OF N(1) s2 r2 o2, folded h3_def]
  have "rb_red h (child h d w)" "\<not> rb_red h (child h (\<not> d) w)"
    using red_at [OF n(17) s] red_at [OF n(18) s] r(4,5) by simp_all
  then have "delete_tail d x w h = (rb_root (rotate_to d p h3), rotate_to d p h3)"
    unfolding delete_tail_def Let_def v_def [symmetric] h2_def [symmetric] N(2) N(3) using N(2,3) by (simp add: h3_def)
  moreover have "inorder (plug (nd d (nd d T p B1) v (nd d B2 w C)) c) = inorder (plug (nd d T p (nd d B w C)) c)"
    by (simp add: inorder_plug nd_def Be)
  ultimately show ?thesis unfolding round_ok_def using L(1) keeps_trans [OF N(5) L(2)] by blast
qed

lemma delete_tail_step:
  assumes s: "short_focus h x p n T ((d, p, W) # c)" and x: "\<not> rb_red h x" and W: "\<not> red_top (rb_red h) W"
  shows "round_ok h p (nd d T p W) c (delete_tail d x (child h (\<not> d) p) h)"
proof -
  define w where "w = child h (\<not> d) p"
  note sh = short_sibling [OF s x, folded w_def]
  obtain B C where We: "W = nd d B w C" using sh(6) by blast
  note n = focus_sibling_nodes [OF sh(1) [unfolded We]]
  have w: "\<not> rb_red h w" "rb (rb_red h) n B" "rb (rb_red h) n C" using W sh(5) by (auto simp: We rb_nd)
  have o: "if rb_red h p then \<not> top_red (rb_red h) c \<and> ctx_ok (rb_red h) (Suc n) c else ctx_ok (rb_red h) (Suc (Suc n)) c"
    using sh(7) by (simp split: if_splits)
  have cB: "rb_red h (child h d w) = red_top (rb_red h) B" and cC: "rb_red h (child h (\<not> d) w) = red_top (rb_red h) C"
    using red_at [OF n(17) sh(3)] red_at [OF n(18) sh(3)] by simp_all
  consider "\<not> red_top (rb_red h) B" "\<not> red_top (rb_red h) C" | "red_top (rb_red h) C"
    | "red_top (rb_red h) B" "\<not> red_top (rb_red h) C" by blast
  then have "round_ok h p (nd d T p W) c (delete_tail d x w h)"
  proof cases
    case 1
    have "delete_tail d x w h = (p, set_red w True h)" unfolding delete_tail_def cB cC using 1 sh(2) by simp
    moreover have "rb_red h p \<longrightarrow> rb_red (set_red w True h) p" "keeps h (set_red w True h)" by simp_all
    ultimately show ?thesis using delete_paint [OF s x We w(1) 1] unfolding round_ok_def by blast
  next
    case 2
    define h1 where "h1 = set_red (child h (\<not> d) w) False (set_red p False (set_red w (rb_red h p) h))"
    note L = delete_fix_last [OF sh(1) [unfolded We] sh(3,4) w(2,3) 2 o, folded h1_def]
    have "delete_tail d x w h = (rb_root (rotate_to d p h1), rotate_to d p h1)"
      unfolding delete_tail_def cB cC using 2 sh(2) by (simp add: h1_def Let_def)
    moreover have "inorder (plug (nd d (nd d T p B) w C) c) = inorder (plug (nd d T p W) c)"
      by (simp add: inorder_plug nd_def We)
    ultimately show ?thesis using L unfolding round_ok_def by blast
  next
    case 3
    show ?thesis unfolding We by (rule delete_tail_near [OF sh(1) [unfolded We] sh(2,3,4) w(2,3) 3 o])
  qed
  then show ?thesis by (simp add: w_def)
qed

text \<open>The sibling is red: a rotation gives the place a black sibling and a red parent.\<close>

lemma delete_red_sibling:
  assumes s: "short_focus h x p n T ((d, p, W) # c)" and x: "\<not> rb_red h x" and W: "red_top (rb_red h) W"
  defines "w \<equiv> child h (\<not> d) p"
  defines "h2 \<equiv> rotate_to d p (set_red p True (set_red w False h))"
  obtains B C where "W = nd d B w C" "short_focus h2 x p n T ((d, p, B) # (d, w, C) # c)" "\<not> red_top (rb_red h2) B"
    "rb_red h2 p" "\<not> rb_red h2 x" "rb_parent h2 p = w" "keeps h h2"
proof -
  note sh = short_sibling [OF s x, folded w_def]
  obtain B C where We: "W = nd d B w C" using sh(6) by blast
  note n = focus_sibling_nodes [OF sh(1) [unfolded We]]
  define h1 where "h1 = set_red p True (set_red w False h)"
  have f1: "focus h1 p (rb_parent h p) (nd d T p (nd d B w C)) c" using focus_lift [OF sh(1)] by (simp add: h1_def We)
  have f2: "focus h2 w (rb_parent h p) (nd d (nd d T p B) w C) c"
    unfolding h2_def h1_def [symmetric] by (rule rotate_focus [OF f1])
  have red: "rb_red h2 = (rb_red h)(w := False, p := True)" and k: "keeps h h2"
    using rotate_keeps [OF f1] by (simp_all add: h2_def h1_def keeps_def)
  note rf = rotate_fields [OF f1, folded h2_def [folded h1_def]]
  have tT: "tree_at h p x T" and cx: "child h d p = x" using sh(1) by (simp_all add: focus_def)
  have xs: "x = rb_sentinel h \<or> x \<in> set_tree T" using tree_at_root [OF tT] by blast
  have "child h d w \<in> set_tree B" if "child h d w \<noteq> rb_sentinel h" using n(17) that by (rule tree_at_root)
  then have xn: "x \<noteq> p" "x \<noteq> w" "\<not> (x = child h1 d w \<and> child h1 d w \<noteq> rb_sentinel h1)"
    using xs n(2,6,7,11,12) by (auto simp: h1_def)
  have "rb_parent h2 x = p" using xn sh(2) unfolding rf(3) by (auto simp: h1_def)
  have pw: "rb_parent h2 p = w" "rb_parent h2 w = rb_parent h p" using n(1) unfolding rf(3) by simp_all
  have "child h2 d p = x" "child h2 d w = p"
    using cx n(1,10) focus_parts(2) [OF f1] unfolding rf(2) by (cases c; auto simp: h1_def)+
  then have fx: "focus h2 x p T ((d, p, B) # (d, w, C) # c)" using f2 pw unfolding focus_up by simp
  have np: "\<not> rb_red h p" "rb (rb_red h) (Suc n) B" "rb (rb_red h) (Suc n) C" "\<not> red_top (rb_red h) B" "ctx_ok (rb_red h) (Suc (Suc n)) c"
    using sh(5,7) W by (auto simp: We rb_nd split: if_splits)
  have cg: "rb_red h2 a = rb_red h a" if "a \<in> set_tree T \<union> set_tree B \<union> set_tree C \<union> ctx_nodes c" for a
    using that n(2-5,7-10) by (auto simp: red)
  have "rb (rb_red h2) n T" "rb (rb_red h2) (Suc n) B" "rb (rb_red h2) (Suc n) C" and B: "\<not> red_top (rb_red h2) B"
    using sh(4) np cg focus_rb_cong [of _ "rb_red h2" "rb_red h"] by simp_all
  moreover have "ctx_ok (rb_red h2) (Suc (Suc n)) c" by (rule ctx_ok_cong [OF np(5)]) (use cg in simp)
  moreover have c: "rb_red h2 p" "\<not> rb_red h2 w" "\<not> rb_red h2 x" "\<not> rb_red h2 (rb_sentinel h2)"
    using n(1,6,11) x xn sh(3) k by (simp_all add: red keeps_def)
  ultimately have "short_focus h2 x p n T ((d, p, B) # (d, w, C) # c)"
    unfolding short_focus_def using fx \<open>rb_parent h2 x = p\<close> by simp
  then show ?thesis using that [OF We] B c(1,3) pw(1) k by blast
qed

lemma delete_loop_done: "rb_tree h t \<Longrightarrow> delete_loop (rb_root h) h = Some h"
  by (subst delete_loop.simps) (simp add: set_red_idem rb_tree_root_black)

lemma round_loop:
  assumes "round_ok h p t c out"
    and "\<And>h' m. short_focus h' p (rb_parent h p) m t c \<Longrightarrow> rb_red h p \<longrightarrow> rb_red h' p \<Longrightarrow> repaired h' t c (delete_loop p h')"
  shows "repaired h t c (case out of (y, h') \<Rightarrow> delete_loop y h')"
proof -
  obtain y h' where o: "out = (y, h')" and k: "keeps h h'"
    and cs: "(\<exists>m. y = p \<and> short_focus h' p (rb_parent h p) m t c \<and> (rb_red h p \<longrightarrow> rb_red h' p))
      \<or> y = rb_root h' \<and> (\<exists>t'. rb_tree h' t' \<and> inorder t' = inorder (plug t c))"
    using assms(1) unfolding round_ok_def by blast
  from cs show ?thesis
  proof
    assume "\<exists>m. y = p \<and> short_focus h' p (rb_parent h p) m t c \<and> (rb_red h p \<longrightarrow> rb_red h' p)"
    then have "repaired h' t c (delete_loop y h')" using assms(2) by blast
    then show ?thesis using keeps_trans [OF k] o by (auto simp: repaired_def)
  next
    assume "y = rb_root h' \<and> (\<exists>t'. rb_tree h' t' \<and> inorder t' = inorder (plug t c))"
    then show ?thesis using delete_loop_done k o by (auto simp: repaired_def)
  qed
qed

lemma delete_fix_short:
  assumes s: "short_focus h x p n T ((d, p, W) # c)" and x: "\<not> rb_red h x"
  defines "w \<equiv> child h (\<not> d) p"
  defines "h2 \<equiv> rotate_to d p (set_red p True (set_red w False h))"
  shows "delete_fix x h = (if red_top (rb_red h) W then
      delete_tail d x (child h2 (\<not> d) (rb_parent h2 x)) h2 else delete_tail d x w h)"
proof -
  note sh = short_sibling [OF s x]
  have "W \<noteq> Leaf" using sh(5) by auto
  then have "(child h True p = x) = (True = d)" by (intro focus_dir [OF sh(1)]) simp
  then have "(x = child h True p) = d" by auto
  then have e: "delete_fix x h = delete_fix_to d x h" unfolding delete_fix_eq sh(2) by simp
  have "tree_at h p w W" using sh(1) by (simp add: focus_def w_def)
  then have "rb_red h w = red_top (rb_red h) W" using sh(3) by (rule red_at)
  then show ?thesis unfolding e delete_fix_to_def Let_def sh(2) w_def [symmetric] h2_def
    by (simp add: sh(2))
qed

lemma delete_loop_correct:
  assumes "short_focus h x p n t c"
  shows "repaired h t c (delete_loop x h)"
  using assms
proof (induction c arbitrary: h x p n t)
  case Nil
  then show ?case by (rule delete_loop_end) simp
next
  case (Cons f c)
  obtain d q W where f: "f = (d, q, W)" by (cases f)
  show ?case
  proof (cases "rb_red h x")
    case True
    then show ?thesis using Cons.prems delete_loop_end by blast
  next
    case x: False
    have "p = q" using Cons.prems f by (simp add: short_focus_def focus_def)
    then have s: "short_focus h x p n t ((d, p, W) # c)" using Cons.prems f by simp
    have st: "delete_loop x h = (case delete_fix x h of (y, h') \<Rightarrow> delete_loop y h')"
      using x short_root [OF Cons.prems] by (subst delete_loop.simps) simp
    have pl: "repaired h t (f # c) = repaired h (nd d t p W) c" using f \<open>p = q\<close> by (simp add: repaired_def fun_eq_iff)
    show ?thesis
    proof (cases "red_top (rb_red h) W")
      case False
      then have "delete_fix x h = delete_tail d x (child h (\<not> d) p) h" using delete_fix_short [OF s x] by simp
      then show ?thesis unfolding st pl using round_loop [OF delete_tail_step [OF s x False]] Cons.IH by simp
    next
      case True
      define w where "w = child h (\<not> d) p"
      define h2 where "h2 = rotate_to d p (set_red p True (set_red w False h))"
      obtain B C where R: "W = nd d B w C" "short_focus h2 x p n t ((d, p, B) # (d, w, C) # c)" "\<not> red_top (rb_red h2) B"
          "rb_red h2 p" "\<not> rb_red h2 x" "keeps h h2"
        by (rule delete_red_sibling [OF s x True, folded w_def, folded h2_def]) blast
      have "rb_parent h2 x = p" using R(2) by (simp add: short_focus_def)
      then have e: "delete_fix x h = delete_tail d x (child h2 (\<not> d) p) h2"
        using delete_fix_short [OF s x] True by (simp add: h2_def w_def)
      have "repaired h2 (nd d t p B) ((d, w, C) # c) (delete_loop x h)"
        unfolding st e by (rule round_loop [OF delete_tail_step [OF R(2,5,3)]]) (use R(4) delete_loop_end in blast)
      moreover have "inorder (plug (nd d t p B) ((d, w, C) # c)) = inorder (plug (nd d t p W) c)"
        by (simp add: inorder_plug nd_def R(1))
      ultimately show ?thesis unfolding pl using keeps_trans [OF R(6)] by (auto simp: repaired_def)
    qed
  qed
qed

section \<open>Unlinking a node\<close>

lemma set_child_eqs: "set_left = set_child True" "set_right = set_child False"
  by (simp_all add: direction_eqs)

lemma distinct_plug:
  "distinct (inorder (plug t c)) \<longleftrightarrow>
     distinct (inorder t) \<and> distinct (ctx_before c @ ctx_after c) \<and> set_tree t \<inter> ctx_nodes c = {}"
  by (auto simp: inorder_plug ctx_nodes_set)

lemma focus_cong:
  assumes "focus h x p t c" "rb_sentinel h' = rb_sentinel h" "rb_root h' = rb_root h"
    and "\<And>a. a \<in> set_tree t \<union> ctx_nodes c \<Longrightarrow> same_links h h' a"
  shows "focus h' x p t c"
  using assms tree_at_cong [of h p x t h'] ctx_at_cong [of h x p c h'] by (simp add: focus_def)

lemma clear_fields [simp]:
  "child (delete_clear n h) d a = (if a = n then 0 else child h d a)"
  "rb_parent (delete_clear n h) = (rb_parent h)(n := 0)" "rb_red (delete_clear n h) = rb_red h"
  "rb_root (delete_clear n h) = rb_root h" "rb_sentinel (delete_clear n h) = rb_sentinel h"
  "rb_key (delete_clear n h) = (rb_key h)(n := 0)"
  by (auto simp: delete_clear_def child_def set_left_def set_right_def set_parent_def)

lemma focus_clear:
  "focus h x p t c \<Longrightarrow> n \<notin> set_tree t \<union> ctx_nodes c \<Longrightarrow> focus (delete_clear n h) x p t c"
  by (rule focus_cong) (auto simp: same_links_def)

text \<open>A node with one child at most gives its place to the child.\<close>

lemma splice_focus:
  assumes f: "focus h s p (nd d Leaf s T) ((e, p, S) # c)"
  defines "temp \<equiv> child h (\<not> d) s"
  shows "focus (set_parent temp p (set_child e p temp h)) temp p T ((e, p, S) # c)"
proof -
  let ?h = "set_parent temp p (set_child e p temp h)" and ?c = "(e, p, S) # c"
  note fp = focus_parts [OF f]
  have T: "tree_at h s temp T" using fp(1) by (simp add: tree_at_nd temp_def)
  have dis: "distinct (inorder T)" "s \<notin> set_tree T" using fp(3) by (auto simp: nd_def split: if_splits)
  have pT: "p \<notin> set_tree T" using fp(5) by auto
  have tc: "temp \<notin> ctx_nodes ?c" using tree_at_root [OF T] fp(5) ctx_sentinel [OF fp(2)] by (cases "temp = rb_sentinel h") auto
  have "tree_at ?h p temp T" by (rule tree_at_reparent [OF T _ dis(1)]) (use pT in auto)
  moreover have "ctx_at ?h temp p ?c"
  proof (rule ctx_hole [OF fp(2) _ fp(4)])
    fix a assume "a \<in> ctx_nodes ?c"
    then have "a \<noteq> temp" using tc by auto
    then show "rb_parent ?h a = rb_parent h a" by simp
  qed auto
  moreover have "distinct (inorder (plug T ?c))"
    unfolding distinct_plug using fp(4,5) dis(1) by simp
  ultimately show ?thesis unfolding focus_def by blast
qed

text \<open>A node that takes the place of another: its children, its parent, its colour.\<close>

lemma replace_focus:
  assumes f: "focus h node g (Node L node R) c" and s: "s \<notin> set_tree L \<union> set_tree R \<union> ctx_nodes c" "s \<noteq> rb_sentinel h"
    and h': "rb_sentinel h' = rb_sentinel h" "rb_root h' = (if c = [] then s else rb_root h)"
      "\<And>e. child h' e s = child h e node" "rb_parent h' s = g"
      "\<And>a e. a \<in> set_tree L \<union> set_tree R \<Longrightarrow> child h' e a = child h e a"
      "\<And>a. a \<in> set_tree L \<union> set_tree R \<Longrightarrow>
        rb_parent h' a = (if a = child h True node \<or> a = child h False node then s else rb_parent h a)"
      "\<And>a e. a \<in> ctx_nodes c \<Longrightarrow> child h' e a = (if c \<noteq> [] \<and> a = g \<and> e = fst (hd c) then s else child h e a)"
      "\<And>a. a \<in> ctx_nodes c \<Longrightarrow> rb_parent h' a = rb_parent h a"
  shows "focus h' s g (Node L s R) c"
proof -
  note fp = focus_parts [OF f]
  have T: "tree_at h node (child h True node) L" "tree_at h node (child h False node) R" using fp(1) by simp_all
  have dis: "distinct (inorder L)" "distinct (inorder R)" "set_tree L \<inter> set_tree R = {}" "rb_sentinel h \<notin> set_tree L \<union> set_tree R"
    using fp(3,6) by auto
  have nL: "child h False node \<notin> set_tree L" using tree_at_root [OF T(2)] dis(3,4) by (cases "child h False node = rb_sentinel h") auto
  have nR: "child h True node \<notin> set_tree R" using tree_at_root [OF T(1)] dis(3,4) by (cases "child h True node = rb_sentinel h") auto
  have "tree_at h' s (child h True node) L" by (rule tree_at_reparent [OF T(1) h'(1) dis(1)]) (use h'(5,6) nL in auto)
  moreover have "tree_at h' s (child h False node) R" by (rule tree_at_reparent [OF T(2) h'(1) dis(2)]) (use h'(5,6) nR in auto)
  ultimately have "tree_at h' g s (Node L s R)" using s(2) h'(1,3,4) by simp
  moreover have "ctx_at h' s g c" by (rule ctx_hole [OF fp(2) h'(1) fp(4) h'(2)]) (use h'(7,8) in auto)
  moreover have "distinct (inorder (plug (Node L s R) c))"
    using f s(1) unfolding focus_def inorder_plug ctx_nodes_set by auto
  ultimately show ?thesis by (simp add: focus_def)
qed

text \<open>What the relinking does to the fields when the node has two children.\<close>

lemma relink_fields:
  assumes ne: "s \<noteq> node" "temp \<noteq> node" "temp \<noteq> s" and q: "rb_parent h s = q" and g: "rb_parent h node = g"
    and e: "(s = child h True q) = e" and r: "(node = rb_root h) = r"
    and e2: "\<not> r \<longrightarrow> (node = child h True g) = e2 \<and> g \<noteq> s \<and> g \<noteq> q"
    and kid: "\<And>d. kid d = (if q = node \<and> d = e then temp else child h d node)"
  defines "h' \<equiv> delete_relink node s temp h"
  shows "child h' d a = (if \<not> r \<and> a = g \<and> d = e2 then s else if a = s then kid d else if a = q \<and> d = e then temp else child h d a)"
    and "rb_parent h' a = (if a \<noteq> rb_sentinel h \<and> (a = kid True \<or> a = kid False) then s else if a = s then g
      else if a = temp then if q = node then s else q else rb_parent h a)"
    and "rb_red h' = (rb_red h)(s := rb_red h node)" "rb_root h' = (if r then s else rb_root h)"
    and "rb_key h' = rb_key h" "rb_sentinel h' = rb_sentinel h"
proof -
  define h1 where "h1 = set_child e q temp h"
  define h2 where "h2 = set_parent temp (if q = node then s else q) h1"
  define h3 where "h3 = set_child True s (kid True) h2"
  define h4 where "h4 = set_child False s (kid False) h3"
  define h5 where "h5 = set_red s (rb_red h node) (set_parent s g h4)"
  define h6 where "h6 = (if r then h5\<lparr>rb_root := s\<rparr> else set_child e2 g s h5)"
  define h7 where "h7 = (if kid True \<noteq> rb_sentinel h then set_parent (kid True) s h6 else h6)"
  define h8 where "h8 = (if kid False \<noteq> rb_sentinel h then set_parent (kid False) s h7 else h7)"
  have "h' = h8"
  proof -
    have 1: "(if s = child h True (rb_parent h s) then set_child True (rb_parent h s) temp h
        else set_child False (rb_parent h s) temp h) = h1" using q e by (cases e) (auto simp: h1_def)
    have p1: "rb_parent h1 s = q" using q by (simp add: h1_def)
    have 2: "(if q = node then set_parent temp s h1 else set_parent temp q h1) = h2" by (simp add: h2_def)
    have 3: "child h2 True node = kid True" using ne by (auto simp: h2_def h1_def kid)
    have 4: "child h3 False node = kid False" using ne by (auto simp: h3_def h2_def h1_def kid)
    have 5: "rb_parent h4 node = g" using ne g by (auto simp: h4_def h3_def h2_def h1_def)
    have c5: "rb_red (set_parent s g h4) node = rb_red h node" by (simp add: h4_def h3_def h2_def h1_def)
    have r5: "rb_root h5 = rb_root h" "rb_parent h5 node = g"
      using ne 5 by (simp_all add: h5_def h4_def h3_def h2_def h1_def)
    have c6: "\<not> r \<Longrightarrow> child h5 True g = child h True g" using e2 by (simp add: h5_def h4_def h3_def h2_def h1_def)
    have 6: "(if node = rb_root h5 then h5\<lparr>rb_root := s\<rparr>
        else if node = child h5 True (rb_parent h5 node) then set_child True (rb_parent h5 node) s h5
        else set_child False (rb_parent h5 node) s h5) = h6"
      unfolding r5 r h6_def using c6 e2 by (cases r; cases e2) auto
    have 7: "child h6 True s = kid True" "rb_sentinel h6 = rb_sentinel h" "child h7 False s = kid False" "rb_sentinel h7 = rb_sentinel h"
      using e2 by (auto simp: h7_def h6_def h5_def h4_def h3_def h2_def h1_def)
    show ?thesis
      unfolding h'_def delete_relink_def set_child_eqs child_eqs Let_def 1 p1 2 if_not_P [OF ne(1)] 3
        h3_def [symmetric] 4 h4_def [symmetric] 5 c5 h5_def [symmetric] 6 7 h7_def [symmetric] h8_def [symmetric]
      by (simp add: 7 h7_def [symmetric] h8_def [symmetric])
  qed
  note defs = this h8_def h7_def h6_def h5_def h4_def h3_def h2_def h1_def
  show "child h' d a = (if \<not> r \<and> a = g \<and> d = e2 then s else if a = s then kid d else if a = q \<and> d = e then temp else child h d a)"
    by (cases r; cases d) (simp_all add: defs)
  show "rb_parent h' a = (if a \<noteq> rb_sentinel h \<and> (a = kid True \<or> a = kid False) then s else if a = s then g
      else if a = temp then if q = node then s else q else rb_parent h a)"
    by (cases r) (simp_all add: defs)
  show "rb_red h' = (rb_red h)(s := rb_red h node)" by (cases r) (simp_all add: defs)
  show "rb_root h' = (if r then s else rb_root h)" by (cases r) (simp_all add: defs)
  show "rb_key h' = rb_key h" "rb_sentinel h' = rb_sentinel h" by (cases r; simp add: defs)+
qed

section \<open>Deletion\<close>

lemma ctx_append [simp]:
  "plug t (k @ c) = plug (plug t k) c" "ctx_nodes (k @ c) = ctx_nodes k \<union> ctx_nodes c"
  by (induction t k rule: plug.induct) auto

lemma focus_down: "focus h x p (plug t k) c \<Longrightarrow> \<exists>x p. focus h x p t (k @ c)"
proof (induction k arbitrary: t)
  case (Cons f k)
  obtain d a s where f: "f = (d, a, s)" by (cases f)
  obtain x p where "focus h x p (nd d t a s) (k @ c)" using Cons.IH [of "nd d t a s"] Cons.prems f by auto
  moreover from this have "x = a" "p = rb_parent h a" by (auto simp: focus_def tree_at_nd)
  ultimately have "focus h (child h d a) a t ((d, a, s) # k @ c)" by (simp add: focus_up)
  then show ?case using f by auto
qed auto

lemma focus_climb: "focus h x p t (k @ c) \<Longrightarrow> \<exists>x p. focus h x p (plug t k) c"
proof (induction k arbitrary: t x p)
  case (Cons f k)
  obtain d a s where f: "f = (d, a, s)" by (cases f)
  have "focus h a (rb_parent h a) (nd d t a s) (k @ c)" using Cons.prems f focus_lift by fastforce
  then show ?case using Cons.IH f by simp
qed auto

lemma placed_descend: "placed col n (plug t k) c \<Longrightarrow> \<exists>m. placed col m t (k @ c)"
proof (induction k arbitrary: t)
  case (Cons f k)
  obtain d a s where f: "f = (d, a, s)" by (cases f)
  then obtain m where "placed col m (nd d t a s) (k @ c)" using Cons.IH [of "nd d t a s"] Cons.prems by auto
  then show ?case using f placed_down by fastforce
qed auto

lemma tree_at_same_top: "tree_at h p x t \<Longrightarrow> tree_at h' p' x' t \<Longrightarrow> rb_sentinel h' = rb_sentinel h \<Longrightarrow> x' = x"
  by (cases t) auto

lemma leftmost: "t \<noteq> Leaf \<Longrightarrow> \<exists>s T k. t = plug (Node Leaf s T) k \<and> list_all fst k"
proof (induction t)
  case (Node l a r)
  show ?case
  proof (cases "l = Leaf")
    case True
    then have "Node l a r = plug (Node Leaf a r) [] \<and> list_all fst ([] :: rb_ctx)" by simp
    then show ?thesis by blast
  next
    case False
    then obtain s T k where k: "l = plug (Node Leaf s T) k" "list_all fst k" using Node.IH(1) by blast
    have "Node l a r = plug (Node Leaf s T) (k @ [(True, a, r)]) \<and> list_all fst (k @ [(True, a, r)])" using k by (simp add: nd_def)
    then show ?thesis by blast
  qed
qed simp

lemma leftmost_before: "list_all fst k \<Longrightarrow> ctx_before k = []"
  by (induction k rule: ctx_before.induct) auto

text \<open>The node with the next key loses its place.\<close>

lemma next_splice:
  assumes f: "focus h node g (Node L node (plug (Node Leaf s T) k)) c" and k: "list_all fst k"
  defines "q \<equiv> rb_parent h s" and "temp \<equiv> child h False s"
  defines "h1 \<equiv> set_parent temp q (set_child (k \<noteq> []) q temp h)"
  shows "(s = child h True q) = (k \<noteq> [])" "(q = node) = (k = [])" "k \<noteq> [] \<Longrightarrow> q \<in> ctx_nodes k"
    "tree_at h1 q temp T" "focus h1 node g (Node L node (plug T k)) c"
    "temp \<noteq> node" "temp \<noteq> s" "temp = rb_sentinel h \<or> temp \<in> set_tree T" "k \<noteq> [] \<Longrightarrow> q = fst (snd (hd k))"
proof -
  let ?C = "k @ (False, node, L) # c"
  note fp = focus_parts [OF f]
  have dis: "node \<notin> ctx_nodes k" "s \<noteq> node" "node \<notin> set_tree T" "s \<notin> set_tree T" "node \<noteq> rb_sentinel h" "s \<noteq> rb_sentinel h"
    using fp(3,6) by (auto simp: set_plug) (auto simp: inorder_plug)
  have "rb_parent h node = g" using fp(1) by simp
  then have "focus h (child h False node) node (plug (Node Leaf s T) k) ((False, node, L) # c)"
    using f by (simp add: focus_up nd_def)
  then obtain x p where "focus h x p (Node Leaf s T) ?C" using focus_down by blast
  moreover from this have "x = s" "p = q" by (auto simp: focus_def q_def)
  ultimately have F1: "focus h s q (nd True Leaf s T) ?C" by (simp add: nd_def)
  obtain S C' where C: "?C = (k \<noteq> [], q, S) # C'"
  proof (cases k)
    case Nil
    then show ?thesis using F1 that [of L c] by (simp add: focus_def)
  next
    case (Cons f' k')
    then show ?thesis using F1 k that by (cases f') (auto simp: focus_def)
  qed
  have "(child h True q = s) = (True = (k \<noteq> []))" by (rule focus_dir [OF F1 [unfolded C]]) (simp add: nd_def)
  then show "(s = child h True q) = (k \<noteq> [])" by auto
  show qk: "q \<in> ctx_nodes k" if "k \<noteq> []" using that C by (cases k) auto
  show "q = fst (snd (hd k))" if "k \<noteq> []" using that C by (cases k) auto
  show "(q = node) = (k = [])" using qk dis(1) C by (cases "k = []") auto
  have tT: "tree_at h s temp T" using F1 by (simp add: focus_def tree_at_nd temp_def)
  show t: "temp = rb_sentinel h \<or> temp \<in> set_tree T" using tree_at_root [OF tT] by blast
  show tn: "temp \<noteq> node" "temp \<noteq> s" using t dis by auto
  have F2: "focus h1 temp q T ?C" using splice_focus [OF F1 [unfolded C]] C by (simp add: h1_def temp_def)
  then show "tree_at h1 q temp T" by (simp add: focus_def)
  obtain x p where "focus h1 x p (plug T k) ((False, node, L) # c)" using focus_climb [OF F2] by blast
  from focus_lift [OF this] show "focus h1 node g (Node L node (plug T k)) c"
    using tn \<open>rb_parent h node = g\<close> by (simp add: nd_def h1_def)
qed

lemma next_relink:
  assumes f: "focus h node g (Node L node (plug (Node Leaf s T) k)) c" and k: "list_all fst k"
  defines "temp \<equiv> child h False s"
  defines "h3 \<equiv> delete_clear node (delete_relink node s temp h)"
  shows "\<exists>p. focus h3 temp p T (k @ (False, s, L) # c) \<and> rb_parent h3 temp = p"
    "rb_red h3 = (rb_red h)(s := rb_red h node)" "rb_key h3 = (rb_key h)(node := 0)" "rb_sentinel h3 = rb_sentinel h"
proof -
  define q where "q = rb_parent h s"
  define h1 where "h1 = set_parent temp q (set_child (k \<noteq> []) q temp h)"
  define kid where "kid = (\<lambda>d. child h1 d node)"
  define h2 where "h2 = delete_relink node s temp h"
  note sp = next_splice [OF f k, folded q_def temp_def, folded h1_def]
  note fp = focus_parts [OF f]
  have dis: "s \<noteq> node" "s \<noteq> rb_sentinel h" "s \<notin> set_tree L" "s \<notin> set_tree (plug T k)" "s \<notin> ctx_nodes c"
      "node \<notin> set_tree L" "node \<notin> set_tree (plug T k)" "node \<notin> ctx_nodes c" "set_tree L \<inter> set_tree (plug T k) = {}"
      "set_tree (plug T k) \<inter> ctx_nodes c = {}" "set_tree L \<inter> ctx_nodes c = {}"
    using fp(3,5,6) by (auto simp: set_plug distinct_plug)
  have qn: "q \<notin> ctx_nodes c" "q \<notin> set_tree L" "q = node \<or> q \<in> set_tree (plug T k)"
    using sp(2,3) dis by (cases "k = []"; auto simp: set_plug)+
  have tc: "temp \<notin> ctx_nodes c" "temp \<notin> set_tree L"
    using sp(8) ctx_sentinel [OF fp(2)] dis(9,10) fp(6) by (auto simp: set_plug)
  have g: "rb_parent h node = g" using fp(1) by simp
  have r: "(node = rb_root h) = (c = [])" by (rule focus_root [OF f]) simp
  have e2: "c \<noteq> [] \<Longrightarrow> (node = child h True g) = fst (hd c) \<and> g \<noteq> s \<and> g \<noteq> q \<and> g \<in> ctx_nodes c"
  proof -
    assume "c \<noteq> []"
    then obtain e a S c' where c: "c = (e, a, S) # c'" by (cases c) auto
    have "g = a" using fp(2) c by simp
    moreover have "(child h True a = node) = (True = e)" by (rule focus_dir [OF f [unfolded c]]) simp
    ultimately show ?thesis using dis(5) qn(1) c by auto
  qed
  have kid: "kid d = (if q = node \<and> d = (k \<noteq> []) then temp else child h d node)" for d
    by (auto simp: kid_def h1_def)
  have e2': "\<not> c = [] \<longrightarrow> (node = child h True g) = fst (hd c) \<and> g \<noteq> s \<and> g \<noteq> q" using e2 by blast
  note R = relink_fields [OF dis(1) sp(6,7) q_def [symmetric] g sp(1) r e2' kid, folded h2_def]
  note f3 = focus_parts [OF sp(5)]
  have s1: "rb_sentinel h1 = rb_sentinel h" "rb_root h1 = rb_root h" by (simp_all add: h1_def)
  have kids: "kid True = rb_sentinel h \<or> kid True \<in> set_tree L" "kid False = rb_sentinel h \<or> kid False \<in> set_tree (plug T k)"
    using f3(1) tree_at_root [of h1 node "kid True" L] tree_at_root [of h1 node "kid False" "plug T k"] s1
    by (auto simp: kid_def)
  have kt: "q = node \<Longrightarrow> kid False = temp" using sp(2) by (simp add: kid)
  have F4: "focus h2 s g (Node L s (plug T k)) c"
  proof (rule replace_focus [OF sp(5)])
    show "s \<notin> set_tree L \<union> set_tree (plug T k) \<union> ctx_nodes c" "s \<noteq> rb_sentinel h1" using dis s1 by auto
    show "rb_sentinel h2 = rb_sentinel h1" "rb_root h2 = (if c = [] then s else rb_root h1)" using R(4,6) s1 by simp_all
    show "child h2 e s = child h1 e node" for e using e2 unfolding R(1) by (auto simp: kid_def)
    show "rb_parent h2 s = g" unfolding R(2) using kids dis by auto
    show "child h2 e a = child h1 e a" if "a \<in> set_tree L \<union> set_tree (plug T k)" for a e
    proof -
      have "a \<noteq> s" "c \<noteq> [] \<Longrightarrow> a \<noteq> g" using that dis(3,4,10,11) e2 by auto
      then show ?thesis unfolding R(1) by (auto simp: h1_def)
    qed
    show "rb_parent h2 a = (if a = child h1 True node \<or> a = child h1 False node then s else rb_parent h1 a)"
      if "a \<in> set_tree L \<union> set_tree (plug T k)" for a
    proof -
      have "a \<noteq> s" "a \<noteq> rb_sentinel h" using that dis f3(6) s1 by auto
      then show ?thesis using kt unfolding R(2) kid_def [symmetric] by (auto simp: h1_def kid_def)
    qed
    show "child h2 e a = (if c \<noteq> [] \<and> a = g \<and> e = fst (hd c) then s else child h1 e a)" if "a \<in> ctx_nodes c" for a e
    proof -
      have "a \<noteq> s" "a \<noteq> q" using that dis(5) qn(1) by auto
      then show ?thesis unfolding R(1) by (simp add: h1_def)
    qed
    show "rb_parent h2 a = rb_parent h1 a" if "a \<in> ctx_nodes c" for a
    proof -
      have "a \<noteq> s" "a \<noteq> temp" "\<not> (a \<noteq> rb_sentinel h \<and> (a = kid True \<or> a = kid False))"
        using that dis(5,10,11) tc kids by auto
      then show ?thesis unfolding R(2) by (auto simp: h1_def)
    qed
  qed
  have F5: "focus h3 s g (Node L s (plug T k)) c"
    unfolding h3_def h2_def [symmetric] by (rule focus_clear [OF F4]) (use dis in auto)
  show "rb_red h3 = (rb_red h)(s := rb_red h node)" "rb_key h3 = (rb_key h)(node := 0)" and s3: "rb_sentinel h3 = rb_sentinel h"
    using R(3,5,6) by (simp_all add: h3_def h2_def)
  have ps: "rb_parent h3 s = g" using F5 by (simp add: focus_def)
  then have "focus h3 (child h3 False s) s (plug T k) ((False, s, L) # c)"
    using F5 by (simp add: focus_up nd_def)
  then obtain x p where F6: "focus h3 x p T (k @ (False, s, L) # c)" using focus_down by blast
  have "x = temp" using tree_at_same_top [OF sp(4), of h3 p x] F6 s3 s1 by (simp add: focus_def)
  moreover have "rb_parent h3 temp = p"
  proof (cases "T = Leaf")
    case False
    then show ?thesis using focus_tops(1) [OF F6] \<open>x = temp\<close> by simp
  next
    case True
    then have "temp = rb_sentinel h" using sp(8) by simp
    moreover have "rb_parent h3 temp = rb_parent h2 temp" using sp(6) by (simp add: h3_def h2_def)
    ultimately have "rb_parent h3 temp = (if q = node then s else q)" using dis(2) unfolding R(2) by auto
    moreover have "p = (if k = [] then s else q)"
      using F6 sp(9) by (cases k) (auto simp: focus_def split: prod.splits)
    ultimately show ?thesis using sp(2) by simp
  qed
  ultimately show "\<exists>p. focus h3 temp p T (k @ (False, s, L) # c) \<and> rb_parent h3 temp = p" using F6 by blast
qed

text \<open>The node with the next key keeps the balance of the place it moves to.\<close>

lemma top_red_rename:
  assumes "col' s = col a" "\<And>b. b \<in> ctx_nodes k \<Longrightarrow> col' b = col b"
  shows "top_red col' (k @ (d, s, L) # c) = top_red col (k @ (d, a, L) # c)"
  using assms by (cases k) auto

lemma ctx_ok_rename:
  assumes "ctx_ok col m (k @ (d, a, L) # c)" "col' s = col a" "\<And>b. b \<in> ctx_nodes k \<union> set_tree L \<union> ctx_nodes c \<Longrightarrow> col' b = col b"
  shows "ctx_ok col' m (k @ (d, s, L) # c)"
  using assms
proof (induction k arbitrary: m)
  case Nil
  have "rb col' i L = rb col i L" "red_top col' L = red_top col L" for i using focus_rb_cong [of L col' col] Nil.prems(3) by auto
  moreover have "top_red col' c = top_red col c" by (rule top_red_cong) (use Nil.prems(3) in simp)
  moreover have "ctx_ok col' i c" if "ctx_ok col i c" for i by (rule ctx_ok_cong [OF that]) (use Nil.prems(3) in simp)
  ultimately show ?case using Nil.prems(1,2) by (simp split: if_splits)
next
  case (Cons f k)
  obtain e b S where f: "f = (e, b, S)" by (cases f)
  have "rb col' i S = rb col i S" "red_top col' S = red_top col S" for i using focus_rb_cong [of S col' col] Cons.prems(3) f by auto
  moreover have "col' b = col b" using Cons.prems(3) f by simp
  moreover have "top_red col' (k @ (d, s, L) # c) = top_red col (k @ (d, a, L) # c)"
    by (rule top_red_rename) (use Cons.prems(2,3) f in simp_all)
  moreover have "ctx_ok col' i (k @ (d, s, L) # c)"
    if "ctx_ok col i (k @ (d, a, L) # c)" for i by (rule Cons.IH [OF that Cons.prems(2)]) (use Cons.prems(3) f in simp)
  ultimately show ?case using Cons.prems(1) f by (simp split: if_splits)
qed

lemma rb_blacken:
  assumes "tree_at h p x t" "distinct (inorder t)" "rb col n t" "t \<noteq> Leaf" "col x"
  shows "rb (col(x := False)) (Suc n) t"
proof (cases t)
  case (Node l a r)
  have a: "a = x" "x \<notin> set_tree l" "x \<notin> set_tree r" using assms(1,2) Node by auto
  have "rb (col(x := False)) n l" "rb (col(x := False)) n r"
    by (rule rb_cong [of col]; use assms(3,5) Node a in auto)+
  then show ?thesis using Node a by simp
qed (use assms in simp)

text \<open>After the unlinking, \<open>r\<close> is the colour that was lost.\<close>

lemma delete_balance:
  assumes f: "focus h x p T C" "rb_parent h x = p" and s: "\<not> rb_red h (rb_sentinel h)" and o: "ctx_ok (rb_red h) m C"
    and r: "if r then rb (rb_red h) m T \<and> \<not> red_top (rb_red h) T else 0 < m \<and> rb (rb_red h) (m - 1) T"
  shows "repaired h T C (if r then Some h else delete_loop x h)"
proof (cases r)
  case True
  then have "placed (rb_red h) m T C" using o r by (simp add: placed_def)
  then have "rb_tree h (plug T C)" using f(1) s by (intro rb_treeI)
  then show ?thesis using True by (auto simp: repaired_def)
next
  case False
  have t: "tree_at h p x T" "distinct (inorder T)" using focus_parts(1,3) [OF f(1)] .
  have "rb ((rb_red h)(x := False)) (Suc (m - 1)) T" if "rb_red h x"
    by (rule rb_blacken [OF t]) (use that r False s t(1) in auto)
  then have "short_focus h x p (m - 1) T C" using f s o r False by (simp add: short_focus_def)
  then show ?thesis using delete_loop_correct False by simp
qed

definition deleted :: "rbtree \<Rightarrow> nat \<Rightarrow> nat list \<Rightarrow> rbtree option \<Rightarrow> bool" where
  "deleted h node xs out \<longleftrightarrow> (\<exists>h' t'. out = Some h' \<and> rb_tree h' t' \<and> inorder t' = xs
     \<and> rb_key h' = (rb_key h)(node := 0) \<and> rb_sentinel h' = rb_sentinel h)"

lemma deletedI:
  "repaired h1 T C out \<Longrightarrow> rb_key h1 = (rb_key h)(node := 0) \<Longrightarrow> rb_sentinel h1 = rb_sentinel h
     \<Longrightarrow> inorder (plug T C) = xs \<Longrightarrow> deleted h node xs out"
  by (auto simp: repaired_def deleted_def keeps_def)

lemma delete_root_only:
  assumes f: "focus h node g (nd d Leaf node T) []" and pl: "placed (rb_red h) m (nd d Leaf node T) []"
    and s: "\<not> rb_red h (rb_sentinel h)"
  defines "temp \<equiv> child h (\<not> d) node"
  shows "deleted h node (inorder T) (Some (delete_clear node (set_red temp False (h\<lparr>rb_root := temp\<rparr>))))"
proof -
  define h1 where "h1 = delete_clear node (set_red temp False (h\<lparr>rb_root := temp\<rparr>))"
  have t: "tree_at h node temp T" and n: "node \<notin> set_tree T" "distinct (inorder T)" "node \<noteq> rb_sentinel h"
    using focus_parts(1,3) [OF f] by (auto simp: tree_at_nd temp_def) (auto simp: nd_def split: if_splits)
  have "tree_at h1 node temp T"
    by (rule tree_at_cong [OF t]) (use n in \<open>auto simp: h1_def same_links_def\<close>)
  then have F: "focus h1 (rb_root h1) node T []" using n by (simp add: focus_def h1_def)
  have "0 < m" "rb (rb_red h) (m - 1) T" using pl by (auto simp: placed_def rb_nd)
  then have "\<exists>i. rb (rb_red h1) i T"
  proof (cases "rb_red h temp")
    case True
    then have "T \<noteq> Leaf" using t s by auto
    then show ?thesis using rb_blacken [OF t n(2) \<open>rb (rb_red h) (m - 1) T\<close>] True by (auto simp: h1_def)
  next
    case False
    then have "rb_red h1 = rb_red h" by (auto simp: h1_def fun_eq_iff)
    then show ?thesis using \<open>rb (rb_red h) (m - 1) T\<close> by auto
  qed
  moreover have "\<not> red_top (rb_red h1) T" using t by (cases T) (auto simp: h1_def)
  moreover have "\<not> rb_red h1 (rb_sentinel h1)" using s by (simp add: h1_def)
  ultimately have "rb_tree h1 T" using F by (auto simp: rb_tree_def placed_def)
  then show ?thesis unfolding h1_def [symmetric] deleted_def by (auto simp: h1_def)
qed

lemma delete_one_child:
  assumes f: "focus h node p (nd d Leaf node T) ((e, p, S) # c)" and pl: "placed (rb_red h) m (nd d Leaf node T) ((e, p, S) # c)"
    and s: "\<not> rb_red h (rb_sentinel h)"
  defines "temp \<equiv> child h (\<not> d) node"
  defines "h1 \<equiv> delete_clear node (delete_relink node node temp h)"
  shows "deleted h node (inorder (plug T ((e, p, S) # c))) (if rb_red h node then Some h1 else delete_loop temp h1)"
proof -
  let ?C = "(e, p, S) # c"
  have p: "rb_parent h node = p" by (rule focus_tops(1) [OF f]) (simp add: nd_def)
  have "(child h True p = node) = (True = e)" by (rule focus_dir [OF f]) (simp add: nd_def)
  then have "delete_relink node node temp h = set_parent temp p (set_child e p temp h)"
    unfolding delete_relink_def set_child_eqs child_eqs p Let_def by (cases e) (auto simp: p)
  then have h1: "h1 = delete_clear node (set_parent temp p (set_child e p temp h))" by (simp add: h1_def)
  have n: "node \<notin> set_tree T \<union> ctx_nodes ?C" "temp \<noteq> node"
  proof -
    show *: "node \<notin> set_tree T \<union> ctx_nodes ?C" using focus_parts(3,5) [OF f] by (auto simp: nd_def split: if_splits)
    have "tree_at h node temp T" using f by (simp add: focus_def tree_at_nd temp_def)
    then show "temp \<noteq> node" using tree_at_root [of h node temp T] * focus_parts(6) [OF f] by auto
  qed
  have F: "focus h1 temp p T ?C" unfolding h1 temp_def by (rule focus_clear [OF splice_focus [OF f] n(1)])
  have c1: "rb_red h1 = rb_red h" "rb_sentinel h1 = rb_sentinel h" "rb_key h1 = (rb_key h)(node := 0)" "rb_parent h1 temp = p"
    using n(2) by (simp_all add: h1)
  have o: "ctx_ok (rb_red h1) m ?C" using pl unfolding placed_def c1 by blast
  have "if rb_red h node then rb (rb_red h1) m T \<and> \<not> red_top (rb_red h1) T else 0 < m \<and> rb (rb_red h1) (m - 1) T"
    using pl by (auto simp: placed_def rb_nd c1)
  from delete_balance [OF F c1(4) _ o this] show ?thesis by (rule deletedI) (use s c1 in simp_all)
qed

lemma delete_two_children:
  assumes f: "focus h node g (Node L node (plug (Node Leaf s T) k)) c" and k: "list_all fst k"
    and pl: "placed (rb_red h) n (Node L node (plug (Node Leaf s T) k)) c" and b: "\<not> rb_red h (rb_sentinel h)"
  defines "temp \<equiv> child h False s"
  defines "h1 \<equiv> delete_clear node (delete_relink node s temp h)"
  shows "deleted h node (inorder (plug (Node L s (plug T k)) c)) (if rb_red h s then Some h1 else delete_loop temp h1)"
proof -
  let ?C = "k @ (False, s, L) # c"
  note R = next_relink [OF f k, folded temp_def, folded h1_def]
  obtain p where F: "focus h1 temp p T ?C" "rb_parent h1 temp = p" using R(1) by blast
  have "nd False (plug (Node Leaf s T) k) node L = Node L node (plug (Node Leaf s T) k)" by (simp add: nd_def)
  then obtain i where "placed (rb_red h) i (plug (Node Leaf s T) k) ((False, node, L) # c)"
    using placed_down [of "rb_red h" n False] pl by metis
  then obtain m where P: "placed (rb_red h) m (Node Leaf s T) (k @ (False, node, L) # c)" using placed_descend by blast
  have dis: "a \<noteq> s" if "a \<in> set_tree T \<union> ctx_nodes k \<union> set_tree L \<union> ctx_nodes c" for a
    using that focus_parts(3,5) [OF f] by (auto simp: set_plug distinct_plug)
  have o: "ctx_ok (rb_red h1) m ?C"
    by (rule ctx_ok_rename [of "rb_red h" _ _ _ node]) (use P dis in \<open>auto simp: placed_def R(2)\<close>)
  have T: "rb (rb_red h1) i T = rb (rb_red h) i T" "red_top (rb_red h1) T = red_top (rb_red h) T" for i
    using focus_rb_cong [of T "rb_red h1" "rb_red h"] dis by (auto simp: R(2))
  have "rb (rb_red h) m (Node Leaf s T)" using P unfolding placed_def by blast
  then have r: "if rb_red h s then rb (rb_red h1) m T \<and> \<not> red_top (rb_red h1) T else 0 < m \<and> rb (rb_red h1) (m - 1) T"
    unfolding T by (cases m) (auto split: if_splits)
  have s1: "\<not> rb_red h1 (rb_sentinel h1)"
    using b focus_parts(6) [OF f] unfolding R(4) by (auto simp: R(2) set_plug)
  show ?thesis by (rule deletedI [OF delete_balance [OF F s1 o r] R(3,4)]) (simp add: nd_def)
qed

lemma rbtree_delete_deleted:
  assumes t: "rb_tree h t" and n: "node \<in> set_tree t"
  shows "deleted h node (remove1 node (inorder t)) (ngx_rbtree_delete node h)"
proof -
  obtain p0 n0 where p0: "placed (rb_red h) n0 t []" and b: "\<not> rb_red h (rb_sentinel h)" by (rule rb_treeE [OF t])
  obtain g l r c where f: "focus h node g (Node l node r) c" and tc: "plug (Node l node r) c = t" by (rule rb_tree_member [OF t n])
  obtain m where pl: "placed (rb_red h) m (Node l node r) c"
    using placed_descend [of "rb_red h" n0 "Node l node r" c "[]"] p0 tc by auto
  have rm: "remove1 node (inorder t) = ctx_before c @ inorder l @ inorder r @ ctx_after c"
    using focus_parts(3,5) [OF f] by (simp add: tc [symmetric] inorder_plug ctx_nodes_set remove1_append)
  have tl: "tree_at h node (child h True node) l" "tree_at h node (child h False node) r" using f by (simp_all add: focus_def)
  have lf: "(child h True node = rb_sentinel h) = (l = Leaf)" "(child h False node = rb_sentinel h) = (r = Leaf)"
    using tree_at_leaf [OF tl(1)] tree_at_leaf [OF tl(2)] by simp_all
  have rt: "(node = rb_root h) = (c = [])" by (rule focus_root [OF f]) simp
  show ?thesis
  proof (cases "l = Leaf \<or> r = Leaf")
    case True
    define d where "d = (l = Leaf)"
    define T where "T = (if d then r else l)"
    define temp where "temp = child h (\<not> d) node"
    have nd: "Node l node r = nd d Leaf node T" using True by (auto simp: nd_def d_def T_def)
    have lr: "inorder l @ inorder r @ xs = inorder T @ xs" for xs using True by (auto simp: d_def T_def)
    have ch: "(if child h True node = rb_sentinel h then Some (child h False node, node)
        else if child h False node = rb_sentinel h then Some (child h True node, node)
        else map_option (\<lambda>subst. (child h False subst, subst)) (ngx_rbtree_min h (child h False node))) = Some (temp, node)"
      using True by (auto simp: lf temp_def d_def)
    show ?thesis
    proof (cases c)
      case Nil
      have D: "ngx_rbtree_delete node h = Some (delete_clear node (set_red temp False (h\<lparr>rb_root := temp\<rparr>)))"
        unfolding ngx_rbtree_delete_def child_eqs ch using rt Nil by simp
      have I: "remove1 node (inorder t) = inorder T" using lr [of "[]"] by (simp add: rm Nil)
      show ?thesis unfolding D I temp_def by (rule delete_root_only [OF f [unfolded nd Nil] pl [unfolded nd Nil] b])
    next
      case (Cons y c')
      obtain e p S where y: "y = (e, p, S)" by (cases y)
      have "g = p" using f Cons y by (simp add: focus_def)
      note fp = f [unfolded nd Cons y this] pl [unfolded nd Cons y]
      have D: "ngx_rbtree_delete node h = (if rb_red h node then Some (delete_clear node (delete_relink node node temp h))
          else delete_loop temp (delete_clear node (delete_relink node node temp h)))"
        unfolding ngx_rbtree_delete_def child_eqs ch using rt Cons by (simp add: Let_def)
      have I: "remove1 node (inorder t) = inorder (plug T ((e, p, S) # c'))" by (simp only: rm lr inorder_plug Cons y)
      show ?thesis unfolding D I temp_def by (rule delete_one_child [OF fp b])
    qed
  next
    case False
    obtain s T k where k: "r = plug (Node Leaf s T) k" "list_all fst k" using leftmost [of r] False by blast
    have ir: "inorder r = s # inorder T @ ctx_after k" using leftmost_before [OF k(2)] by (simp add: k(1) inorder_plug)
    have sr: "s \<noteq> rb_root h"
    proof -
      have "s \<in> set_tree r" "s \<noteq> node" using ir focus_parts(3) [OF f] set_inorder [of r] by auto
      then show ?thesis using focus_parts(2,5) [OF f] ctx_root [of h node g c] by (cases "c = []") auto
    qed
    have "ngx_rbtree_min h (child h False node) = Some s" using min_focus [OF tl(2)] False ir by simp
    then have D: "ngx_rbtree_delete node h = (if rb_red h s
        then Some (delete_clear node (delete_relink node s (child h False s) h))
        else delete_loop (child h False s) (delete_clear node (delete_relink node s (child h False s) h)))"
      unfolding ngx_rbtree_delete_def child_eqs lf using False sr by (simp add: Let_def)
    have I: "remove1 node (inorder t) = inorder (plug (Node l s (plug T k)) c)"
      unfolding rm using leftmost_before [OF k(2)] by (simp add: ir inorder_plug)
    show ?thesis unfolding D I by (rule delete_two_children [OF f [unfolded k(1)] k(2) pl [unfolded k(1)] b])
  qed
qed

end
