(* ===== verification/Ordered_Store.thy ===== *)
theory Ordered_Store
  imports Prelude
begin

text \<open>
  The interface of an ordered collection of nodes with keys. The locale \<open>ordered_store\<close> states what a
  client may expect: a sorted list of nodes with their keys, in which a new node comes after those with
  the same key. The nodes are distinct and different from \<open>nil\<close>; the order is given by \<open>rank\<close>, and \<open>ok\<close>
  are the keys for which the comparison of the implementation is that order. It gives the behaviour of
  all sequences of operations.
\<close>

definition place_pair :: "('k \<Rightarrow> 'r::linorder) \<Rightarrow> 'n \<times> 'k \<Rightarrow> ('n \<times> 'k) list \<Rightarrow> ('n \<times> 'k) list" where
  "place_pair rank p xs = filter (\<lambda>x. rank (snd x) \<le> rank (snd p)) xs @ p # filter (\<lambda>x. rank (snd p) < rank (snd x)) xs"

datatype ('n, 'k) store_op = Put 'n 'k | Drop 'n

fun spec_op :: "('k \<Rightarrow> 'r::linorder) \<Rightarrow> ('n, 'k) store_op \<Rightarrow> ('n \<times> 'k) list \<Rightarrow> ('n \<times> 'k) list" where
  "spec_op rank (Put n k) xs = place_pair rank (n, k) xs"
| "spec_op rank (Drop n) xs = filter (\<lambda>x. fst x \<noteq> n) xs"

fun legal_op :: "'n \<Rightarrow> ('k \<Rightarrow> bool) \<Rightarrow> ('n, 'k) store_op \<Rightarrow> ('n \<times> 'k) list \<Rightarrow> bool" where
  "legal_op nil ok (Put n k) xs \<longleftrightarrow> n \<noteq> nil \<and> n \<notin> set (map fst xs) \<and> ok k"
| "legal_op nil ok (Drop n) xs \<longleftrightarrow> n \<in> set (map fst xs)"

fun spec_run :: "('k \<Rightarrow> 'r::linorder) \<Rightarrow> ('n, 'k) store_op list \<Rightarrow> ('n \<times> 'k) list \<Rightarrow> ('n \<times> 'k) list" where
  "spec_run rank [] xs = xs"
| "spec_run rank (x # ops) xs = spec_run rank ops (spec_op rank x xs)"

fun legal_run :: "'n \<Rightarrow> ('k \<Rightarrow> bool) \<Rightarrow> ('k \<Rightarrow> 'r::linorder) \<Rightarrow> ('n, 'k) store_op list \<Rightarrow> ('n \<times> 'k) list \<Rightarrow> bool" where
  "legal_run nil ok rank [] xs \<longleftrightarrow> True"
| "legal_run nil ok rank (x # ops) xs \<longleftrightarrow> legal_op nil ok x xs \<and> legal_run nil ok rank ops (spec_op rank x xs)"

fun store_run :: "('n \<Rightarrow> 'k \<Rightarrow> 'h \<Rightarrow> 'h option) \<Rightarrow> ('n \<Rightarrow> 'h \<Rightarrow> 'h option) \<Rightarrow> ('n, 'k) store_op list \<Rightarrow> 'h \<Rightarrow> 'h option" where
  "store_run put unlink [] h = Some h"
| "store_run put unlink (Put n k # ops) h = (case put n k h of None \<Rightarrow> None | Some h \<Rightarrow> store_run put unlink ops h)"
| "store_run put unlink (Drop n # ops) h = (case unlink n h of None \<Rightarrow> None | Some h \<Rightarrow> store_run put unlink ops h)"

lemma place_pair_set: "set (place_pair rank p xs) = insert p (set xs)"
  by (auto simp: place_pair_def)

lemma place_pair_sorted: "sorted (map (rank \<circ> snd) xs) \<Longrightarrow> sorted (map (rank \<circ> snd) (place_pair rank p xs))"
  by (auto simp: place_pair_def sorted_append sorted_filter)

lemma place_pair_distinct:
  "distinct (map fst xs) \<Longrightarrow> fst p \<notin> set (map fst xs) \<Longrightarrow> distinct (map fst (place_pair rank p xs))"
  by (auto simp: place_pair_def distinct_map inj_on_def) force+

locale ordered_store =
  fixes rep :: "'h \<Rightarrow> ('n \<times> 'k) list \<Rightarrow> bool" and nil :: 'n and ok :: "'k \<Rightarrow> bool" and rank :: "'k \<Rightarrow> 'r::linorder"
    and put :: "'n \<Rightarrow> 'k \<Rightarrow> 'h \<Rightarrow> 'h option" and unlink :: "'n \<Rightarrow> 'h \<Rightarrow> 'h option" and least :: "'h \<Rightarrow> 'n option"
  assumes put_law: "rep h xs \<Longrightarrow> sorted (map (rank \<circ> snd) xs) \<Longrightarrow> list_all (ok \<circ> snd) xs \<Longrightarrow> legal_op nil ok (Put n k) xs
      \<Longrightarrow> \<exists>h'. put n k h = Some h' \<and> rep h' (place_pair rank (n, k) xs)"
    and unlink_law: "rep h xs \<Longrightarrow> legal_op nil ok (Drop n) xs
      \<Longrightarrow> \<exists>h'. unlink n h = Some h' \<and> rep h' (filter (\<lambda>x. fst x \<noteq> n) xs)"
    and least_law: "rep h xs \<Longrightarrow> xs \<noteq> [] \<Longrightarrow> least h = Some (fst (hd xs))"
begin

definition holds :: "'h \<Rightarrow> ('n \<times> 'k) list \<Rightarrow> bool" where
  "holds h xs \<longleftrightarrow> rep h xs \<and> sorted (map (rank \<circ> snd) xs) \<and> list_all (ok \<circ> snd) xs"

lemma step:
  assumes "holds h xs" "legal_op nil ok x xs"
  shows "\<exists>h'. store_run put unlink (x # ops) h = store_run put unlink ops h' \<and> holds h' (spec_op rank x xs)"
proof (cases x)
  case (Put n k)
  obtain h' where h': "put n k h = Some h'" "rep h' (place_pair rank (n, k) xs)"
    using put_law [of h xs n k] assms unfolding holds_def Put by blast
  have "list_all (ok \<circ> snd) (place_pair rank (n, k) xs)"
    using assms by (auto simp: holds_def list_all_iff place_pair_set Put)
  then show ?thesis using h' assms(1) place_pair_sorted [of rank xs "(n, k)"] Put by (auto simp: holds_def)
next
  case (Drop n)
  obtain h' where "unlink n h = Some h'" "rep h' (filter (\<lambda>x. fst x \<noteq> n) xs)"
    using unlink_law [of h xs n] assms unfolding holds_def Drop by blast
  then show ?thesis using assms(1) Drop by (auto simp: holds_def list_all_iff sorted_filter)
qed

lemma history:
  "holds h xs \<Longrightarrow> legal_run nil ok rank ops xs \<Longrightarrow>
     \<exists>h'. store_run put unlink ops h = Some h' \<and> holds h' (spec_run rank ops xs)"
proof (induction ops arbitrary: h xs)
  case (Cons x ops)
  obtain h' where "store_run put unlink (x # ops) h = store_run put unlink ops h'" "holds h' (spec_op rank x xs)"
    using step [of h xs x ops] Cons.prems by auto
  then show ?case using Cons.IH [of h' "spec_op rank x xs"] Cons.prems by simp
qed auto

text \<open>The least node has the smallest key.\<close>

lemma least_is_minimum:
  assumes "holds h xs" "xs \<noteq> []"
  shows "\<exists>n k. least h = Some n \<and> hd xs = (n, k) \<and> (\<forall>x\<in>set xs. rank k \<le> rank (snd x))"
proof -
  obtain n k ys where xs: "xs = (n, k) # ys" using assms(2) by (cases xs) auto
  have "least h = Some n" using least_law [of h xs] assms xs by (simp add: holds_def)
  then show ?thesis using assms(1) xs by (auto simp: holds_def)
qed

end

end
