(* ===== verification/Rbtree_Spec.thy ===== *)
theory Rbtree_Spec
  imports Rbtree_Delete Ordered_Store
begin

text \<open>
  The tree is an ordered collection, in the order of the keys and in the order of timers that may have
  wrapped around: the two interpretations of the interface, and the properties of the tree.
\<close>

section \<open>The order of the keys and the order of the timers\<close>

definition rb_pairs :: "nat \<Rightarrow> rbtree \<Rightarrow> (nat \<times> 64 word) list \<Rightarrow> bool" where
  "rb_pairs nil h xs \<longleftrightarrow> rb_sentinel h = nil \<and> (\<exists>t. rb_tree h t \<and> inorder t = map fst xs) \<and> (\<forall>(n, k)\<in>set xs. rb_key h n = k)"

text \<open>What every client does: it sets the key and inserts the node.\<close>

definition rbtree_put :: "(nat \<Rightarrow> nat \<Rightarrow> rbtree \<Rightarrow> rbtree option) \<Rightarrow> nat \<Rightarrow> 64 word \<Rightarrow> rbtree \<Rightarrow> rbtree option" where
  "rbtree_put find_place node k h = ngx_rbtree_insert find_place node (h\<lparr>rb_key := (rb_key h)(node := k)\<rparr>)"

definition rbtree_least :: "rbtree \<Rightarrow> nat option" where
  "rbtree_least h = ngx_rbtree_min h (rb_root h)"

lemma tree_at_key [simp]: "tree_at (h\<lparr>rb_key := k\<rparr>) p x t = tree_at h p x t"
  by (induction t arbitrary: p x) auto

lemma rb_tree_key [simp]: "rb_tree (h\<lparr>rb_key := k\<rparr>) t = rb_tree h t"
  by (simp add: rb_tree_def focus_def)

lemma rb_pairsD:
  assumes "rb_pairs nil h xs"
  shows "\<exists>t. rb_tree h t \<and> inorder t = map fst xs" "rb_sentinel h = nil" "(a, i) \<in> set xs \<Longrightarrow> rb_key h a = i"
  using assms by (auto simp: rb_pairs_def)

lemma rb_pairs_distinct: "rb_pairs nil h xs \<Longrightarrow> distinct (map fst xs)"
  by (auto simp: rb_pairs_def rb_tree_def focus_def)

lemma rb_pairs_put:
  assumes r: "rb_pairs nil h xs" and so: "sorted (map (rank \<circ> snd) xs)" and n: "n \<noteq> nil" "n \<notin> set (map fst xs)"
    and fp: "\<And>h. find_place (rb_root h) n h = map_option (\<lambda>place. insert_at n place h) (insert_place (lt h) h (rb_root h))"
    and lt: "\<And>h a i. rb_key h n = k \<Longrightarrow> (a, i) \<in> set xs \<Longrightarrow> rb_key h a = i \<Longrightarrow> lt h a \<longleftrightarrow> rank k < rank i"
  shows "\<exists>h'. rbtree_put find_place n k h = Some h' \<and> rb_pairs nil h' (place_pair rank (n, k) xs)"
proof -
  note nil = rb_pairsD(2) [OF r] and key = rb_pairsD(3) [OF r]
  obtain t where t: "rb_tree h t" "inorder t = map fst xs" using rb_pairsD(1) [OF r] by blast
  define h0 where "h0 = h\<lparr>rb_key := (rb_key h)(n := k)\<rparr>"
  have key0: "rb_key h0 a = i" "a \<noteq> n" if "(a, i) \<in> set xs" for a i using key [OF that] that n(2) by (force simp: h0_def)+
  have l: "lt h0 a \<longleftrightarrow> rank k < rank i" if "(a, i) \<in> set xs" for a i
    by (rule lt) (use key0 [OF that] that in \<open>simp_all add: h0_def\<close>)
  have t0: "rb_tree h0 t" "n \<notin> set_tree t" "n \<noteq> rb_sentinel h0"
    using t n nil set_inorder [of t] by (auto simp: h0_def)
  have "sorted_wrt (\<lambda>p q. lt h0 (fst p) \<longrightarrow> lt h0 (fst q)) xs"
  proof (rule sorted_wrt_mono_rel)
    show "sorted_wrt (\<lambda>p q. rank (snd p) \<le> rank (snd q)) xs" using so by (simp add: sorted_wrt_map)
    show "lt h0 (fst p) \<longrightarrow> lt h0 (fst q)" if "p \<in> set xs" "q \<in> set xs" "rank (snd p) \<le> rank (snd q)" for p q
      using that l [of "fst p" "snd p"] l [of "fst q" "snd q"] by auto
  qed
  then have u: "upward (lt h0) (inorder t)" by (simp add: upward_def t sorted_wrt_map)
  obtain h' t' where h': "rbtree_put find_place n k h = Some h'" "rb_tree h' t'" "keeps h0 h'"
      "inorder t' = filter (\<lambda>x. \<not> lt h0 x) (inorder t) @ n # filter (lt h0) (inorder t)"
    using rbtree_insert_generic [where find_place = find_place, OF t0 u fp [of h0]] unfolding rbtree_put_def h0_def by blast
  have "filter (\<lambda>x. \<not> lt h0 x) (map fst xs) = map fst (filter (\<lambda>x. rank (snd x) \<le> rank k) xs)"
      "filter (lt h0) (map fst xs) = map fst (filter (\<lambda>x. rank k < rank (snd x)) xs)"
    using l by (auto simp: filter_map intro!: arg_cong [where f = "map fst"] filter_cong)
  then have "inorder t' = map fst (place_pair rank (n, k) xs)" by (simp add: h' t place_pair_def)
  moreover have "\<forall>(a, i)\<in>set (place_pair rank (n, k) xs). rb_key h' a = i"
    using h'(3) key0 by (auto simp: place_pair_set keeps_def) (simp add: h0_def)
  ultimately show ?thesis using h' nil by (auto simp: rb_pairs_def keeps_def h0_def)
qed

lemma rb_pairs_drop:
  assumes r: "rb_pairs nil h xs" and n: "n \<in> set (map fst xs)"
  shows "\<exists>h'. ngx_rbtree_delete n h = Some h' \<and> rb_pairs nil h' (filter (\<lambda>x. fst x \<noteq> n) xs)"
proof -
  note nil = rb_pairsD(2) [OF r] and key = rb_pairsD(3) [OF r]
  obtain t where t: "rb_tree h t" "inorder t = map fst xs" using rb_pairsD(1) [OF r] by blast
  have "n \<in> set_tree t" using n t set_inorder [of t] by auto
  from rbtree_delete_deleted [OF t(1) this] obtain h' t' where h': "ngx_rbtree_delete n h = Some h'" "rb_tree h' t'"
      "inorder t' = remove1 n (inorder t)" "rb_key h' = (rb_key h)(n := 0)" "rb_sentinel h' = rb_sentinel h"
    unfolding deleted_def by blast
  have "remove1 n (map fst xs) = filter (\<lambda>x. x \<noteq> n) (map fst xs)"
    using distinct_remove1_removeAll [OF rb_pairs_distinct [OF r], of n] by (auto simp: removeAll_filter_not_eq eq_commute)
  then have "inorder t' = map fst (filter (\<lambda>x. fst x \<noteq> n) xs)" by (simp add: h' t filter_map comp_def)
  then show ?thesis using h' nil key by (auto simp: rb_pairs_def)
qed

lemma rb_pairs_least: "rb_pairs nil h xs \<Longrightarrow> xs \<noteq> [] \<Longrightarrow> rbtree_least h = Some (fst (hd xs))"
proof -
  assume r: "rb_pairs nil h xs" and ne: "xs \<noteq> []"
  obtain t where t: "rb_tree h t" "inorder t = map fst xs" using r by (auto simp: rb_pairs_def)
  obtain p where "tree_at h p (rb_root h) t" using t(1) by (auto simp: rb_tree_def focus_def)
  moreover have "t \<noteq> Leaf" using t(2) ne by auto
  ultimately show ?thesis using min_focus t(2) ne by (simp add: rbtree_least_def hd_map)
qed

text \<open>The timers that are compared lie in a window of \<open>2\<^sup>63\<close> milliseconds around some moment.\<close>

definition timer_window :: "64 word \<Rightarrow> 64 word \<Rightarrow> bool" where
  "timer_window now k \<longleftrightarrow> - (2 ^ 62) \<le> sint (k - now) \<and> sint (k - now) < 2 ^ 62"

definition timer_rank :: "64 word \<Rightarrow> 64 word \<Rightarrow> int" where
  "timer_rank now k = sint (k - now)"

lemma timer_diff:
  assumes "timer_window now a" "timer_window now b"
  shows "sint (a - b) = timer_rank now a - timer_rank now b"
proof -
  have "a - b = word_of_int (timer_rank now a - timer_rank now b)" by (simp add: timer_rank_def)
  moreover have "sint (word_of_int (timer_rank now a - timer_rank now b) :: 64 word) = timer_rank now a - timer_rank now b"
    by (rule sint_small; use assms in \<open>simp add: timer_window_def timer_rank_def\<close>)+
  ultimately show ?thesis by simp
qed

interpretation value_store: ordered_store "rb_pairs nil" nil "\<lambda>_. True" "\<lambda>k. k" "rbtree_put ngx_rbtree_insert_value"
  ngx_rbtree_delete rbtree_least for nil
proof
  fix h xs n k
  assume "rb_pairs nil h xs" "sorted (map ((\<lambda>k. k) \<circ> snd) xs)" "legal_op nil (\<lambda>_. True) (Put n k) xs"
  then show "\<exists>h'. rbtree_put ngx_rbtree_insert_value n k h = Some h' \<and> rb_pairs nil h' (place_pair (\<lambda>k. k) (n, k) xs)"
    by (intro rb_pairs_put [where lt = "\<lambda>h. key_less h n"]) (auto simp: ngx_rbtree_insert_value_def key_less_def)
qed (use rb_pairs_drop rb_pairs_least in auto)

interpretation timer_store: ordered_store "rb_pairs nil" nil "timer_window now" "timer_rank now"
  "rbtree_put ngx_rbtree_insert_timer_value" ngx_rbtree_delete rbtree_least for nil now
proof
  fix h xs n k
  assume a: "rb_pairs nil h xs" "sorted (map (timer_rank now \<circ> snd) xs)" "list_all (timer_window now \<circ> snd) xs"
    "legal_op nil (timer_window now) (Put n k) xs"
  have "timer_less h n a \<longleftrightarrow> timer_rank now k < timer_rank now i" if "rb_key h n = k" "(a, i) \<in> set xs" "rb_key h a = i" for h a i
  proof -
    have "timer_window now k" "timer_window now i" using a(3,4) that by (auto simp: list_all_iff)
    from timer_diff [OF this] show ?thesis using that by (simp add: timer_less_def)
  qed
  then show "\<exists>h'. rbtree_put ngx_rbtree_insert_timer_value n k h = Some h' \<and> rb_pairs nil h' (place_pair (timer_rank now) (n, k) xs)"
    using a by (intro rb_pairs_put [where lt = "\<lambda>h. timer_less h n"]) (auto simp: ngx_rbtree_insert_timer_value_def)
qed (use rb_pairs_drop rb_pairs_least in auto)

section \<open>Properties\<close>

lemma rb_pairs_init: "rb_pairs s (ngx_rbtree_init s h) []"
  by (auto simp: rb_pairs_def rb_tree_def focus_def placed_def ngx_rbtree_init_def intro!: exI [of _ Leaf])

definition rb_blank :: rbtree where
  "rb_blank = \<lparr>rb_root = 9, rb_sentinel = 9, rb_key = (\<lambda>_. 7), rb_left = (\<lambda>_. 4), rb_right = (\<lambda>_. 4), rb_parent = (\<lambda>_. 4),
     rb_red = (\<lambda>_. True)\<rparr>"

text \<open>
  C5. For every sequence of insertions and deletions, from the empty tree on, in which a node is inserted
  only while it is not in the tree and deleted only while it is, each operation returns, and the tree is
  a linked red-black tree whose nodes are those of the abstract sorted list, in that order and with the
  same keys.
\<close>

theorem rbtree_refines_sorted_list:
  assumes "legal_run s (\<lambda>_. True) (\<lambda>k. k) ops []"
  shows "\<exists>h'. store_run (rbtree_put ngx_rbtree_insert_value) ngx_rbtree_delete ops (ngx_rbtree_init s h) = Some h'
    \<and> rb_pairs s h' (spec_run (\<lambda>k. k) ops []) \<and> sorted (map snd (spec_run (\<lambda>k. k) ops []))"
proof -
  have "value_store.holds s (ngx_rbtree_init s h) []" by (simp add: value_store.holds_def rb_pairs_init)
  from value_store.history [OF this assms] show ?thesis by (auto simp: value_store.holds_def comp_def)
qed

theorem rbtree_refines_sorted_list_witness:
  "\<exists>h'. store_run (rbtree_put ngx_rbtree_insert_value) ngx_rbtree_delete [Put 1 5, Put 2 3, Put 3 5, Drop 1] (ngx_rbtree_init 0 rb_blank) = Some h'
    \<and> rb_pairs 0 h' [(2, 3), (3, 5)]"
proof -
  have s: "spec_run (\<lambda>k. k) [Put 1 5, Put 2 3, Put 3 5, Drop 1] [] = [(2 :: nat, 3 :: 64 word), (3, 5)]"
    by (simp add: place_pair_def)
  have l: "legal_run 0 (\<lambda>_. True) (\<lambda>k. k) [Put 1 5, Put 2 3, Put 3 5, Drop 1] ([] :: (nat \<times> 64 word) list)"
    by (simp add: place_pair_def)
  show ?thesis using rbtree_refines_sorted_list [OF l, of rb_blank] unfolding s by blast
qed

lemma next_in_order:
  assumes t: "rb_tree h t" and i: "i < size t"
  shows "ngx_rbtree_next h (inorder t ! i) = Some (if Suc i < size t then Some (inorder t ! Suc i) else None)"
proof -
  obtain p n where f: "focus h (rb_root h) p t []" by (rule rb_treeE [OF t])
  have len: "length (inorder t) = size t" by simp
  define a where "a = inorder t ! i"
  have "a \<in> set_tree t" using i len nth_mem set_inorder unfolding a_def by metis
  then obtain q l r c where g: "focus h a q (Node l a r) c" and tc: "plug (Node l a r) c = t" by (rule rb_tree_member [OF t])
  define us where "us = ctx_before c @ inorder l"
  define vs where "vs = inorder r @ ctx_after c"
  have e: "inorder t = us @ a # vs" unfolding tc [symmetric] by (simp add: inorder_plug us_def vs_def)
  have d: "distinct (inorder t)" using f by (simp add: focus_def)
  have "length us < length (inorder t)" "inorder t ! length us = a" using e by simp_all
  then have iu: "i = length us" using nth_eq_iff_index_eq [OF d, of i "length us"] i len by (simp add: a_def)
  have sz: "size t = Suc (length us + length vs)" using len e by simp
  show ?thesis unfolding a_def [symmetric]
  proof (cases vs)
    case Nil
    then show "ngx_rbtree_next h a = Some (if Suc i < size t then Some (inorder t ! Suc i) else None)"
      using next_focus [OF g] sz iu by (simp add: vs_def [symmetric])
  next
    case (Cons b ws)
    then have "inorder t ! Suc i = b" by (simp add: e iu nth_append)
    then show "ngx_rbtree_next h a = Some (if Suc i < size t then Some (inorder t ! Suc i) else None)"
      using next_focus [OF g] sz iu Cons by (simp add: vs_def [symmetric])
  qed
qed

text \<open>
  The walk through a tree visits its nodes in order: the minimum is the first node, the successor
  of each node is the next one, and the last node has none. The loops return.
\<close>

theorem rbtree_walk:
  assumes "rb_tree h t" "t \<noteq> Leaf"
  shows "ngx_rbtree_min h (rb_root h) = Some (inorder t ! 0)
    \<and> (\<forall>i < size t. ngx_rbtree_next h (inorder t ! i) = Some (if Suc i < size t then Some (inorder t ! Suc i) else None))"
proof -
  obtain p n where f: "focus h (rb_root h) p t []" by (rule rb_treeE [OF assms(1)])
  have "inorder t \<noteq> []" using assms(2) by (cases t) auto
  then have "ngx_rbtree_min h (rb_root h) = Some (inorder t ! 0)"
    using min_focus [of h p "rb_root h" t] f assms(2) by (simp add: focus_def hd_conv_nth)
  then show ?thesis using next_in_order [OF assms(1)] by blast
qed

lemma rb_tree_height:
  assumes "rb_tree h t"
  shows "2 ^ height t \<le> (size t + 1)\<^sup>2"
proof -
  obtain p n where r: "rb (rb_red h) n t" "\<not> red_top (rb_red h) t"
    using assms by (auto simp: rb_tree_def placed_def)
  have "(2 :: nat) ^ height t \<le> 2 ^ (2 * n)" using rb_height [OF r(1)] r(2) by (intro power_increasing) auto
  also have "\<dots> = (2 ^ n)\<^sup>2" by (simp add: power_mult [symmetric] mult.commute)
  also have "\<dots> \<le> (size1 t)\<^sup>2" using rb_size [OF r(1)] by (intro power_mono) auto
  finally show ?thesis by (simp add: size1_size)
qed

text \<open>A way down the links from a node, left for \<open>True\<close>: every node on it is a node of the tree.\<close>

fun rb_path :: "rbtree \<Rightarrow> nat \<Rightarrow> bool list \<Rightarrow> bool" where
  "rb_path h a [] \<longleftrightarrow> True"
| "rb_path h a (d # ds) \<longleftrightarrow> a \<noteq> rb_sentinel h \<and> rb_path h (if d then rb_left h a else rb_right h a) ds"

lemma rb_path_height: "tree_at h p a t \<Longrightarrow> rb_path h a ds \<Longrightarrow> length ds \<le> height t"
proof (induction ds arbitrary: p a t)
  case (Cons d ds)
  then obtain l r where t: "t = Node l a r" by (cases t) auto
  have "tree_at h a (if d then rb_left h a else rb_right h a) (if d then l else r)"
    using Cons.prems(1) t by (simp add: child_def)
  from Cons.IH [OF this] Cons.prems(2) t show ?case by (auto split: if_splits)
qed simp

text \<open>
  C34. The tree stays balanced: after every sequence of insertions and deletions, from the empty tree on, in
  which a node is inserted only while it is not in the tree and deleted only while it is, no way down the links
  of the tree, over left and right children, has more than \<open>2 log\<^sub>2 (n + 1)\<close> nodes, where \<open>n\<close> is the number
  of nodes in the tree. This bounds the loops of all operations.
\<close>

theorem rbtree_height:
  assumes "legal_run s (\<lambda>_. True) (\<lambda>k. k) ops []"
  shows "\<exists>h'. store_run (rbtree_put ngx_rbtree_insert_value) ngx_rbtree_delete ops (ngx_rbtree_init s h) = Some h'
    \<and> (\<forall>ds. rb_path h' (rb_root h') ds \<longrightarrow> 2 ^ length ds \<le> (length (spec_run (\<lambda>k. k) ops []) + 1)\<^sup>2)"
proof -
  have "value_store.holds s (ngx_rbtree_init s h) []" by (simp add: value_store.holds_def rb_pairs_init)
  from value_store.history [OF this assms] obtain h' where
    run: "store_run (rbtree_put ngx_rbtree_insert_value) ngx_rbtree_delete ops (ngx_rbtree_init s h) = Some h'"
    and "rb_pairs s h' (spec_run (\<lambda>k. k) ops [])" by (auto simp: value_store.holds_def)
  then obtain t where t: "rb_tree h' t" "inorder t = map fst (spec_run (\<lambda>k. k) ops [])" by (auto simp: rb_pairs_def)
  have n: "size t = length (spec_run (\<lambda>k. k) ops [])" using arg_cong [OF t(2), of length] by simp
  obtain p where "tree_at h' p (rb_root h') t" using t(1) by (auto simp: rb_tree_def focus_def)
  then have "(2 :: nat) ^ length ds \<le> 2 ^ height t" if "rb_path h' (rb_root h') ds" for ds
    using rb_path_height that by (intro power_increasing) auto
  then show ?thesis using run rb_tree_height [OF t(1)] unfolding n by (meson order_trans)
qed

definition rb_three :: rbtree where
  "rb_three = \<lparr>rb_root = 2, rb_sentinel = 0, rb_key = of_nat, rb_left = (\<lambda>_. 0)(2 := 1), rb_right = (\<lambda>_. 0)(2 := 3),
     rb_parent = (\<lambda>_. 2), rb_red = (\<lambda>a. a = 1 \<or> a = 3)\<rparr>"

lemma rb_three_tree: "rb_tree rb_three (Node (Node Leaf 1 Leaf) 2 (Node Leaf 3 Leaf))"
  by (auto simp: rb_tree_def focus_def placed_def rb_three_def child_def intro!: exI [of _ 1])

theorem rbtree_walk_witness:
  "ngx_rbtree_min rb_three 2 = Some 1 \<and> ngx_rbtree_next rb_three 1 = Some (Some 2) \<and> ngx_rbtree_next rb_three 2 = Some (Some 3)
    \<and> ngx_rbtree_next rb_three 3 = Some None"
  using rbtree_walk [OF rb_three_tree] by (simp add: rb_three_def numeral_3_eq_3 All_less_Suc nth_Cons')

text \<open>Seven nodes in ascending order do not end up in a chain.\<close>

theorem rbtree_height_witness:
  "\<exists>h'. store_run (rbtree_put ngx_rbtree_insert_value) ngx_rbtree_delete [Put 1 1, Put 2 2, Put 3 3, Put 4 4, Put 5 5, Put 6 6, Put 7 7] (ngx_rbtree_init 0 rb_blank) = Some h'
    \<and> \<not> rb_path h' (rb_root h') [False, False, False, False, False, False, False]"
proof -
  let ?ops = "[Put 1 1, Put 2 2, Put 3 3, Put 4 4, Put 5 5, Put 6 6, Put 7 7] :: (nat, 64 word) store_op list"
  have l: "legal_run 0 (\<lambda>_. True) (\<lambda>k. k) ?ops []" and n: "length (spec_run (\<lambda>k. k) ?ops []) = 7"
    by (simp_all add: place_pair_def)
  show ?thesis using rbtree_height [OF l, of rb_blank] unfolding n by (fastforce simp: power2_eq_square)
qed

end
