(* ===== verification/Ngx_Event_Timer.thy ===== *)
theory Ngx_Event_Timer
  imports Rbtree_Spec Interleaving
begin

text \<open>
  The timers of the event loop, from \<open>src/event/ngx_event_timer.c\<close> and \<open>ngx_event_timer.h\<close>, on top of the
  red-black tree and its interface: setting, moving and removing a timer, the time to wait, the loop that
  fires what is due, and the check before a worker exits. The handlers of the events are a parameter.
\<close>

section \<open>Model\<close>

text \<open>
  An event is the address of its timer node (\<open>ngx_rbtree_data\<close>). The fields of an event that the timers
  use are maps. \<open>ngx_current_msec\<close> is \<open>tm_now\<close>.
\<close>

record timers =
  tm_tree :: rbtree
  tm_now :: "64 word"
  tm_set :: "nat \<Rightarrow> bool"
  tm_timedout :: "nat \<Rightarrow> bool"
  tm_cancelable :: "nat \<Rightarrow> bool"

definition NGX_TIMER_INFINITE :: "64 word" where
  "NGX_TIMER_INFINITE = - 1"

definition NGX_TIMER_LAZY_DELAY :: int where
  "NGX_TIMER_LAZY_DELAY = 300"

definition ngx_abs :: "64 word \<Rightarrow> 64 word" where
  "ngx_abs v = (if 0 \<le> sint v then v else - v)"

definition ngx_event_timer_init :: "nat \<Rightarrow> timers \<Rightarrow> timers" where
  "ngx_event_timer_init sentinel s = s\<lparr>tm_tree := ngx_rbtree_init sentinel (tm_tree s)\<rparr>"

definition ngx_event_find_timer :: "timers \<Rightarrow> 64 word option" where
  "ngx_event_find_timer s =
     (if rb_root (tm_tree s) = rb_sentinel (tm_tree s) then Some NGX_TIMER_INFINITE
      else case ngx_rbtree_min (tm_tree s) (rb_root (tm_tree s)) of
        None \<Rightarrow> None
      | Some node \<Rightarrow> let timer = rb_key (tm_tree s) node - tm_now s in Some (if 0 < sint timer then timer else 0))"

definition ngx_event_del_timer :: "nat \<Rightarrow> timers \<Rightarrow> timers option" where
  "ngx_event_del_timer ev s =
     map_option (\<lambda>h. s\<lparr>tm_tree := h, tm_set := (tm_set s)(ev := False)\<rparr>) (ngx_rbtree_delete ev (tm_tree s))"

definition timer_insert :: "nat \<Rightarrow> 64 word \<Rightarrow> timers \<Rightarrow> timers option" where
  "timer_insert ev key s =
     map_option (\<lambda>h. s\<lparr>tm_tree := h, tm_set := (tm_set s)(ev := True)\<rparr>)
       (ngx_rbtree_insert ngx_rbtree_insert_timer_value ev ((tm_tree s)\<lparr>rb_key := (rb_key (tm_tree s))(ev := key)\<rparr>))"

definition ngx_event_add_timer :: "nat \<Rightarrow> 64 word \<Rightarrow> timers \<Rightarrow> timers option" where
  "ngx_event_add_timer ev timer s =
     (let key = tm_now s + timer in
      if tm_set s ev then
        let diff = key - rb_key (tm_tree s) ev in
        if sint (ngx_abs diff) < NGX_TIMER_LAZY_DELAY then Some s
        else case ngx_event_del_timer ev s of None \<Rightarrow> None | Some s \<Rightarrow> timer_insert ev key s
      else timer_insert ev key s)"

text \<open>
  The handler of an event is a function of the modules; it may change the timers and the rest \<open>w\<close> of the
  program's state. The loop runs until no timer is due.
\<close>

partial_function (option) ngx_event_expire_timers ::
  "(nat \<Rightarrow> timers \<times> 'w \<Rightarrow> (timers \<times> 'w) option) \<Rightarrow> timers \<times> 'w \<Rightarrow> (timers \<times> 'w) option"
where
  "ngx_event_expire_timers handler sw =
     (let (s, w) = sw; h = tm_tree s in
      if rb_root h = rb_sentinel h then Some sw
      else Option.bind (ngx_rbtree_min h (rb_root h)) (\<lambda>node.
        if 0 < sint (rb_key h node - tm_now s) then Some sw
        else Option.bind (ngx_rbtree_delete node h) (\<lambda>h.
          Option.bind (handler node (s\<lparr>tm_tree := h, tm_set := (tm_set s)(node := False),
              tm_timedout := (tm_timedout s)(node := True)\<rparr>, w)) (\<lambda>sw.
            ngx_event_expire_timers handler sw))))"

partial_function (option) no_timers_loop :: "timers \<Rightarrow> nat \<Rightarrow> bool option" where
  "no_timers_loop s node =
     (if \<not> tm_cancelable s node then Some False
      else Option.bind (ngx_rbtree_next (tm_tree s) node) (\<lambda>next. case next of
        None \<Rightarrow> Some True
      | Some node \<Rightarrow> no_timers_loop s node))"

text \<open>\<open>NGX_OK\<close> is \<open>True\<close> and \<open>NGX_AGAIN\<close> is \<open>False\<close>.\<close>

definition ngx_event_no_timers_left :: "timers \<Rightarrow> bool option" where
  "ngx_event_no_timers_left s =
     (let h = tm_tree s in
      if rb_root h = rb_sentinel h then Some True
      else Option.bind (ngx_rbtree_min h (rb_root h)) (no_timers_loop s))"

section \<open>The timers as a list\<close>

text \<open>
  The timers that are set, with their times, in the order of expiry. All of them lie within \<open>2\<^sup>62\<close>
  milliseconds of the current time.
\<close>

definition timers_hold :: "timers \<Rightarrow> (nat \<times> 64 word) list \<Rightarrow> bool" where
  "timers_hold s xs \<longleftrightarrow> rb_pairs (rb_sentinel (tm_tree s)) (tm_tree s) xs \<and> sorted (map (timer_rank (tm_now s) \<circ> snd) xs)
     \<and> list_all (timer_window (tm_now s) \<circ> snd) xs \<and> set (map fst xs) = {ev. tm_set s ev}"

lemma timers_hold_store: "timers_hold s xs \<Longrightarrow> timer_store.holds (rb_sentinel (tm_tree s)) (tm_now s) (tm_tree s) xs"
  by (simp add: timers_hold_def timer_store.holds_def)

lemma rb_pairs_root: "rb_pairs nil h xs \<Longrightarrow> (rb_root h = rb_sentinel h) = (xs = [])"
proof -
  assume r: "rb_pairs nil h xs"
  obtain t where t: "rb_tree h t" "inorder t = map fst xs" using rb_pairsD(1) [OF r] by blast
  obtain p where "tree_at h p (rb_root h) t" using t(1) by (auto simp: rb_tree_def focus_def)
  then have "(rb_root h = rb_sentinel h) = (t = Leaf)" by (rule tree_at_leaf)
  then show ?thesis using t(2) by (cases t) auto
qed

lemma timers_hold_first:
  assumes "timers_hold s ((n, k) # xs)"
  shows "ngx_rbtree_min (tm_tree s) (rb_root (tm_tree s)) = Some n" "rb_key (tm_tree s) n = k"
    "rb_root (tm_tree s) \<noteq> rb_sentinel (tm_tree s)" "\<forall>x\<in>set xs. timer_rank (tm_now s) k \<le> timer_rank (tm_now s) (snd x)"
proof -
  have r: "rb_pairs (rb_sentinel (tm_tree s)) (tm_tree s) ((n, k) # xs)" using assms by (simp add: timers_hold_def)
  show "ngx_rbtree_min (tm_tree s) (rb_root (tm_tree s)) = Some n"
    using timer_store.least_law [OF r] by (simp add: rbtree_least_def)
  show "rb_key (tm_tree s) n = k" by (rule rb_pairsD(3) [OF r]) simp
  show "rb_root (tm_tree s) \<noteq> rb_sentinel (tm_tree s)" using rb_pairs_root [OF r] by simp
  show "\<forall>x\<in>set xs. timer_rank (tm_now s) k \<le> timer_rank (tm_now s) (snd x)" using assms by (simp add: timers_hold_def)
qed

lemma timers_hold_distinct: "timers_hold s xs \<Longrightarrow> distinct (map fst xs)"
  using rb_pairs_distinct by (auto simp: timers_hold_def)

lemma del_timer_holds:
  assumes h: "timers_hold s xs" and ev: "tm_set s ev"
  shows "\<exists>h. ngx_rbtree_delete ev (tm_tree s) = Some h
    \<and> ngx_event_del_timer ev s = Some (s\<lparr>tm_tree := h, tm_set := (tm_set s)(ev := False)\<rparr>) \<and> rb_sentinel h = rb_sentinel (tm_tree s)
    \<and> timers_hold (s\<lparr>tm_tree := h, tm_set := (tm_set s)(ev := False)\<rparr>) (filter (\<lambda>x. fst x \<noteq> ev) xs)"
proof -
  have r: "rb_pairs (rb_sentinel (tm_tree s)) (tm_tree s) xs" and e: "set (map fst xs) = {e. tm_set s e}"
    using h by (simp_all add: timers_hold_def)
  have "ev \<in> set (map fst xs)" unfolding e using ev by simp
  then obtain h' where h': "ngx_rbtree_delete ev (tm_tree s) = Some h'"
      "rb_pairs (rb_sentinel (tm_tree s)) h' (filter (\<lambda>x. fst x \<noteq> ev) xs)"
    using timer_store.unlink_law [OF r, of "tm_now s" ev] by auto
  moreover have "rb_sentinel h' = rb_sentinel (tm_tree s)" using h'(2) by (rule rb_pairsD(2))
  moreover have "set (map fst (filter (\<lambda>x. fst x \<noteq> ev) xs)) = {e. tm_set s e} - {ev}"
    using e by auto
  ultimately show ?thesis using h by (auto simp: timers_hold_def ngx_event_del_timer_def sorted_filter list_all_iff)
qed

lemma timer_insert_holds:
  assumes h: "timers_hold s xs" and ev: "\<not> tm_set s ev" "ev \<noteq> rb_sentinel (tm_tree s)" and k: "timer_window (tm_now s) key"
  shows "\<exists>h. timer_insert ev key s = Some (s\<lparr>tm_tree := h, tm_set := (tm_set s)(ev := True)\<rparr>)
    \<and> timers_hold (s\<lparr>tm_tree := h, tm_set := (tm_set s)(ev := True)\<rparr>) (place_pair (timer_rank (tm_now s)) (ev, key) xs)
    \<and> rb_sentinel h = rb_sentinel (tm_tree s)"
proof -
  have s: "set (map fst xs) = {e. tm_set s e}" using h by (simp add: timers_hold_def)
  have n: "ev \<notin> set (map fst xs)" using s ev by simp
  then obtain h' where h': "rbtree_put ngx_rbtree_insert_timer_value ev key (tm_tree s) = Some h'"
      "rb_pairs (rb_sentinel (tm_tree s)) h' (place_pair (timer_rank (tm_now s)) (ev, key) xs)"
    using timer_store.put_law [of "rb_sentinel (tm_tree s)" "tm_tree s" xs "tm_now s" ev key] h ev(2) k
    by (auto simp: timers_hold_def)
  have "set (map fst (place_pair (timer_rank (tm_now s)) (ev, key) xs)) = insert ev {e. tm_set s e}"
    using s place_pair_set [of "timer_rank (tm_now s)" "(ev, key)" xs] by auto
  moreover have "rb_sentinel h' = rb_sentinel (tm_tree s)" using h'(2) by (rule rb_pairsD(2))
  moreover have "list_all (timer_window (tm_now s) \<circ> snd) (place_pair (timer_rank (tm_now s)) (ev, key) xs)"
    using h k by (auto simp: timers_hold_def list_all_iff place_pair_set)
  ultimately show ?thesis
    using h h' place_pair_sorted [of "timer_rank (tm_now s)" xs "(ev, key)"]
    by (auto simp: timer_insert_def rbtree_put_def timers_hold_def)
qed
section \<open>Setting a timer\<close>

lemma rank_add:
  assumes "timer < 2 ^ 62"
  shows "timer_rank now (now + timer) = uint timer" "timer_window now (now + timer)"
proof -
  have u: "0 \<le> uint timer" "uint timer < 2 ^ 62" using assms by (simp_all add: word_less_def)
  have "- (2 ^ 63) \<le> uint timer" by (rule order_trans [OF _ u(1)]) simp
  moreover have "uint timer < 2 ^ 63" by (rule order_less_le_trans [OF u(2)]) simp
  ultimately have "sint (word_of_int (uint timer) :: 64 word) = uint timer" by (rule sint_small)
  then have "sint timer = uint timer" by simp
  then show "timer_rank now (now + timer) = uint timer" "timer_window now (now + timer)"
    using u order_trans [OF _ u(1), of "- (2 ^ 62)"] by (simp_all add: timer_rank_def timer_window_def)
qed

lemma ngx_abs_diff:
  assumes "timer_window now a" "timer_window now b"
  shows "sint (ngx_abs (a - b)) = \<bar>timer_rank now a - timer_rank now b\<bar>"
proof -
  have d: "sint (a - b) = timer_rank now a - timer_rank now b" by (rule timer_diff [OF assms])
  show ?thesis
  proof (cases "0 \<le> sint (a - b)")
    case True
    then show ?thesis using d by (simp add: ngx_abs_def)
  next
    case False
    have "sint (- (a - b)) = timer_rank now b - timer_rank now a" using timer_diff [OF assms(2,1)] by simp
    then show ?thesis using False d by (simp add: ngx_abs_def)
  qed
qed

lemma sorted_split: "sorted (map f xs) \<Longrightarrow> filter (\<lambda>x. f x \<le> b) xs @ filter (\<lambda>x. b < f x) xs = xs"
proof (induction xs)
  case (Cons x xs)
  show ?case
  proof (cases "f x \<le> b")
    case False
    have "\<forall>y\<in>set (x # xs). b < f y" using False Cons.prems by auto
    then have "filter (\<lambda>y. f y \<le> b) (x # xs) = []" "filter (\<lambda>y. b < f y) (x # xs) = x # xs"
      by (simp_all only: filter_empty_conv filter_id_conv not_le)
    then show ?thesis by (simp only: append_Nil)
  qed (use Cons in auto)
qed simp

lemma place_pair_others:
  "sorted (map (rank \<circ> snd) xs) \<Longrightarrow> \<forall>x\<in>set xs. fst x \<noteq> n \<Longrightarrow> filter (\<lambda>x. fst x \<noteq> n) (place_pair rank (n, k) xs) = xs"
  using sorted_split [of "rank \<circ> snd" xs "rank k"]
  by (simp add: place_pair_def filter_filter [symmetric] conj_commute cong: filter_cong)

text \<open>The list after a call of \<open>ngx_event_add_timer\<close>.\<close>

definition set_timer :: "64 word \<Rightarrow> nat \<Rightarrow> 64 word \<Rightarrow> (nat \<times> 64 word) list \<Rightarrow> (nat \<times> 64 word) list" where
  "set_timer now ev timer xs =
     (if \<exists>k. (ev, k) \<in> set xs \<and> \<bar>uint timer - timer_rank now k\<bar> < NGX_TIMER_LAZY_DELAY then xs
      else place_pair (timer_rank now) (ev, now + timer) (filter (\<lambda>x. fst x \<noteq> ev) xs))"

lemma add_timer_holds:
  assumes h: "timers_hold s xs" and ev: "ev \<noteq> rb_sentinel (tm_tree s)" and k: "timer < 2 ^ 62"
  shows "\<exists>t. ngx_event_add_timer ev timer s = Some t \<and> timers_hold t (set_timer (tm_now s) ev timer xs)
    \<and> tm_now t = tm_now s \<and> rb_sentinel (tm_tree t) = rb_sentinel (tm_tree s)"
proof (cases "tm_set s ev")
  case False
  have n: "ev \<notin> set (map fst xs)" using h False by (simp add: timers_hold_def)
  then have "(ev, i) \<notin> set xs" for i by force
  moreover have "filter (\<lambda>x. fst x \<noteq> ev) xs = xs" using n by (auto simp: filter_id_conv)
  ultimately have e: "set_timer (tm_now s) ev timer xs = place_pair (timer_rank (tm_now s)) (ev, tm_now s + timer) xs"
    by (simp add: set_timer_def)
  show ?thesis using timer_insert_holds [OF h False ev rank_add(2) [OF k]] False
    unfolding e ngx_event_add_timer_def by (auto simp: Let_def)
next
  case True
  define key where "key = tm_now s + timer"
  have "ev \<in> set (map fst xs)" using h True by (simp add: timers_hold_def)
  then obtain i where i: "(ev, i) \<in> set xs" by auto
  have ik: "rb_key (tm_tree s) ev = i" using h i rb_pairsD(3) by (auto simp: timers_hold_def)
  have uq: "j = i" if "(ev, j) \<in> set xs" for j
    using eq_key_imp_eq_value [OF timers_hold_distinct [OF h] that i] .
  have "timer_window (tm_now s) i" using h i by (auto simp: timers_hold_def list_all_iff)
  then have lz: "sint (ngx_abs (key - i)) = \<bar>uint timer - timer_rank (tm_now s) i\<bar>"
    using ngx_abs_diff [OF rank_add(2) [OF k]] rank_add(1) [OF k] by (simp add: key_def)
  have st: "set_timer (tm_now s) ev timer xs = (if sint (ngx_abs (key - i)) < NGX_TIMER_LAZY_DELAY then xs
      else place_pair (timer_rank (tm_now s)) (ev, key) (filter (\<lambda>x. fst x \<noteq> ev) xs))"
  proof -
    have ex: "(\<exists>j. (ev, j) \<in> set xs \<and> \<bar>uint timer - timer_rank (tm_now s) j\<bar> < NGX_TIMER_LAZY_DELAY)
        = (\<bar>uint timer - timer_rank (tm_now s) i\<bar> < NGX_TIMER_LAZY_DELAY)" using i uq by blast
    show ?thesis unfolding set_timer_def ex lz unfolding key_def by (rule refl)
  qed
  show ?thesis
  proof (cases "sint (ngx_abs (key - i)) < NGX_TIMER_LAZY_DELAY")
    case lazy: True
    then have "ngx_event_add_timer ev timer s = Some s"
      using True ik by (simp add: ngx_event_add_timer_def key_def Let_def)
    then show ?thesis using h lazy st by simp
  next
    case far: False
    obtain g where g: "ngx_event_del_timer ev s = Some (s\<lparr>tm_tree := g, tm_set := (tm_set s)(ev := False)\<rparr>)"
        "rb_sentinel g = rb_sentinel (tm_tree s)"
        "timers_hold (s\<lparr>tm_tree := g, tm_set := (tm_set s)(ev := False)\<rparr>) (filter (\<lambda>x. fst x \<noteq> ev) xs)"
      using del_timer_holds [OF h True] by blast
    define s1 where "s1 = s\<lparr>tm_tree := g, tm_set := (tm_set s)(ev := False)\<rparr>"
    have s1: "\<not> tm_set s1 ev" "ev \<noteq> rb_sentinel (tm_tree s1)" "timer_window (tm_now s1) key" "tm_now s1 = tm_now s"
      using ev g(2) rank_add(2) [OF k] by (simp_all add: s1_def key_def)
    have "ngx_event_add_timer ev timer s = timer_insert ev key s1"
      using True far g(1) ik by (simp add: ngx_event_add_timer_def key_def Let_def s1_def)
    then show ?thesis using timer_insert_holds [OF g(3) [folded s1_def] s1(1-3)] st far s1(4) g(2)
      by (auto simp: s1_def)
  qed
qed

lemma set_timer_mem:
  "x \<in> set (set_timer now ev timer xs) \<Longrightarrow> x \<in> set xs \<or> x = (ev, now + timer)"
  by (auto simp: set_timer_def place_pair_set split: if_splits)

section \<open>All states\<close>

inductive timer_step :: "timers \<Rightarrow> timers \<Rightarrow> bool" where
  step_add: "ev \<noteq> rb_sentinel (tm_tree s) \<Longrightarrow> timer < 2 ^ 62 \<Longrightarrow> ngx_event_add_timer ev timer s = Some t \<Longrightarrow> timer_step s t"
| step_del: "tm_set s ev \<Longrightarrow> ngx_event_del_timer ev s = Some t \<Longrightarrow> timer_step s t"
| step_clock: "timer_window (tm_now s) now \<Longrightarrow> (\<And>ev. tm_set s ev \<Longrightarrow> timer_window now (rb_key (tm_tree s) ev))
    \<Longrightarrow> timer_step s (s\<lparr>tm_now := now\<rparr>)"
| step_flags: "timer_step s (s\<lparr>tm_timedout := f, tm_cancelable := c\<rparr>)"

lemma clock_holds:
  assumes h: "timers_hold s xs" and w: "timer_window (tm_now s) now"
    and k: "\<And>ev. tm_set s ev \<Longrightarrow> timer_window now (rb_key (tm_tree s) ev)"
  shows "timers_hold (s\<lparr>tm_now := now\<rparr>) xs"
proof -
  have ws: "timer_window (tm_now s) (snd x)" if "x \<in> set xs" for x using h that by (auto simp: timers_hold_def list_all_iff)
  have r: "timer_rank now (snd x) = timer_rank (tm_now s) (snd x) - timer_rank (tm_now s) now" if "x \<in> set xs" for x
    using timer_diff [OF ws [OF that] w] by (simp add: timer_rank_def)
  have "sorted_wrt (\<lambda>x y. timer_rank (tm_now s) (snd x) \<le> timer_rank (tm_now s) (snd y)) xs"
    using h by (simp add: timers_hold_def sorted_wrt_map)
  then have "sorted_wrt (\<lambda>x y. timer_rank now (snd x) \<le> timer_rank now (snd y)) xs"
    by (rule sorted_wrt_mono_rel [rotated]) (simp add: r)
  moreover have "timer_window now (snd x)" if x: "x \<in> set xs" for x
  proof -
    have "fst x \<in> {ev. tm_set s ev}" using h x unfolding timers_hold_def by auto
    then have "timer_window now (rb_key (tm_tree s) (fst x))" using k by simp
    moreover have "rb_key (tm_tree s) (fst x) = snd x"
      using h x rb_pairsD(3) [of "rb_sentinel (tm_tree s)" "tm_tree s" xs "fst x" "snd x"] by (simp add: timers_hold_def)
    ultimately show ?thesis by simp
  qed
  ultimately show ?thesis using h by (simp add: timers_hold_def list_all_iff sorted_wrt_map)
qed

lemma timer_step_holds: "timer_step s t \<Longrightarrow> \<exists>xs. timers_hold s xs \<Longrightarrow> \<exists>xs. timers_hold t xs"
proof (induction rule: timer_step.induct)
  case (step_add ev s timer t)
  then show ?case using add_timer_holds by (metis option.inject)
next
  case (step_del s ev t)
  then show ?case using del_timer_holds by (metis option.inject)
next
  case (step_clock s now)
  then show ?case using clock_holds by blast
next
  case (step_flags s f c)
  then show ?case by (simp add: timers_hold_def)
qed

lemma init_holds: "\<forall>ev. \<not> tm_set s ev \<Longrightarrow> timers_hold (ngx_event_timer_init nil s) []"
  using rb_pairs_init [of nil "tm_tree s"] rb_pairsD(2) by (auto simp: timers_hold_def ngx_event_timer_init_def)
definition timers_start :: "nat \<Rightarrow> 64 word \<Rightarrow> rbtree \<Rightarrow> timers" where
  "timers_start nil now h = ngx_event_timer_init nil
     \<lparr>tm_tree = h, tm_now = now, tm_set = (\<lambda>_. False), tm_timedout = (\<lambda>_. False), tm_cancelable = (\<lambda>_. False)\<rparr>"

interpretation timer_sys: transition_system timer_step "timers_start nil now h" "\<lambda>s. \<exists>xs. timers_hold s xs" for nil now h
proof
  show "\<exists>xs. timers_hold (timers_start nil now h) xs" unfolding timers_start_def by (rule exI, rule init_holds) simp
qed (rule timer_step_holds)

lemma find_timer_holds:
  assumes "timers_hold s xs"
  shows "ngx_event_find_timer s =
    Some (case xs of [] \<Rightarrow> NGX_TIMER_INFINITE | x # _ \<Rightarrow> word_of_int (max 0 (timer_rank (tm_now s) (snd x))))"
proof (cases xs)
  case Nil
  then have "rb_root (tm_tree s) = rb_sentinel (tm_tree s)" using assms rb_pairs_root by (auto simp: timers_hold_def)
  then show ?thesis using Nil by (simp add: ngx_event_find_timer_def)
next
  case (Cons x ys)
  obtain n k where x: "x = (n, k)" by (cases x)
  note f = timers_hold_first [OF assms [unfolded Cons x]]
  have "ngx_event_find_timer s = Some (if 0 < sint (k - tm_now s) then k - tm_now s else 0)"
    using f by (simp add: ngx_event_find_timer_def)
  also have "(if 0 < sint (k - tm_now s) then k - tm_now s else 0) = word_of_int (max 0 (timer_rank (tm_now s) k))"
    by (simp add: timer_rank_def max_def)
  finally show ?thesis using Cons x by simp
qed

section \<open>Expiry\<close>

definition due :: "64 word \<Rightarrow> nat \<times> 64 word \<Rightarrow> bool" where
  "due now x \<longleftrightarrow> timer_rank now (snd x) \<le> 0"

lemma expire_idle:
  assumes h: "timers_hold s xs" and n: "xs = [] \<or> \<not> due (tm_now s) (hd xs)"
  shows "ngx_event_expire_timers handler (s, w) = Some (s, w)"
proof (cases xs)
  case Nil
  then have "rb_root (tm_tree s) = rb_sentinel (tm_tree s)" using h rb_pairs_root by (auto simp: timers_hold_def)
  then show ?thesis by (subst ngx_event_expire_timers.simps) simp
next
  case (Cons x ys)
  obtain a k where x: "x = (a, k)" by (cases x)
  have "0 < sint (k - tm_now s)" using n Cons x by (simp add: due_def timer_rank_def)
  then show ?thesis using timers_hold_first [OF h [unfolded Cons x]] by (subst ngx_event_expire_timers.simps) (simp add: Let_def)
qed

lemma expire_fire:
  assumes h: "timers_hold s ((n, k) # xs)" and d: "due (tm_now s) (n, k)"
  obtains t where "timers_hold t xs" "tm_now t = tm_now s" "rb_sentinel (tm_tree t) = rb_sentinel (tm_tree s)"
    "\<not> tm_set t n"
    "ngx_event_expire_timers handler (s, w) = Option.bind (handler n (t, w)) (ngx_event_expire_timers handler)"
    "ngx_event_expire_timers handler' (s, w') = Option.bind (handler' n (t, w')) (ngx_event_expire_timers handler')"
proof -
  note f = timers_hold_first [OF h]
  have "tm_set s n" using h by (auto simp: timers_hold_def)
  then obtain g where g: "ngx_rbtree_delete n (tm_tree s) = Some g" "rb_sentinel g = rb_sentinel (tm_tree s)"
      "timers_hold (s\<lparr>tm_tree := g, tm_set := (tm_set s)(n := False)\<rparr>) (filter (\<lambda>x. fst x \<noteq> n) ((n, k) # xs))"
    using del_timer_holds [OF h] by blast
  have fl: "filter (\<lambda>x. fst x \<noteq> n) ((n, k) # xs) = xs"
    using timers_hold_distinct [OF h] by (auto simp: filter_id_conv)
  define t where "t = s\<lparr>tm_tree := g, tm_set := (tm_set s)(n := False), tm_timedout := (tm_timedout s)(n := True)\<rparr>"
  have "timers_hold t xs" using g(3) unfolding fl by (simp add: timers_hold_def t_def)
  moreover have "tm_now t = tm_now s" "rb_sentinel (tm_tree t) = rb_sentinel (tm_tree s)"
      "\<not> tm_set t n"
    using g(2) by (simp_all add: t_def)
  moreover have "ngx_event_expire_timers handler (s, w) = Option.bind (handler n (t, w)) (ngx_event_expire_timers handler)"
      "ngx_event_expire_timers handler' (s, w') = Option.bind (handler' n (t, w')) (ngx_event_expire_timers handler')"
    using f g(1) d by (subst ngx_event_expire_timers.simps, simp add: Let_def due_def timer_rank_def t_def)+
  ultimately show ?thesis using that by blast
qed

text \<open>
  A handler that may set, move and remove timers, if it leaves the clock alone and sets none that is due
  at once.
\<close>

definition benign :: "(nat \<Rightarrow> timers \<times> 'w \<Rightarrow> (timers \<times> 'w) option) \<Rightarrow> bool" where
  "benign handler \<longleftrightarrow> (\<forall>ev s w xs. timers_hold s xs \<longrightarrow> ev \<noteq> rb_sentinel (tm_tree s) \<longrightarrow>
     (\<exists>t w' ys. handler ev (s, w) = Some (t, w') \<and> timers_hold t ys \<and> tm_now t = tm_now s
       \<and> (\<forall>y\<in>set ys. due (tm_now s) y \<longrightarrow> y \<in> set xs)))"

lemma holds_node: "timers_hold s xs \<Longrightarrow> x \<in> set xs \<Longrightarrow> fst x \<noteq> rb_sentinel (tm_tree s)"
proof -
  assume h: "timers_hold s xs" and x: "x \<in> set xs"
  obtain t where t: "rb_tree (tm_tree s) t" "inorder t = map fst xs" using h by (auto simp: timers_hold_def rb_pairs_def)
  obtain p where "tree_at (tm_tree s) p (rb_root (tm_tree s)) t" using t(1) by (auto simp: rb_tree_def focus_def)
  then have "rb_sentinel (tm_tree s) \<notin> set_tree t" by (rule tree_at_sentinel)
  moreover have "fst x \<in> set_tree t" using t(2) x set_inorder [of t] by auto
  ultimately show ?thesis by auto
qed

text \<open>
  A handler that lets every other timer that is due stay, and the same handler with a log of the events that it
  is called for.
\<close>

definition spares :: "(nat \<Rightarrow> timers \<times> 'w \<Rightarrow> (timers \<times> 'w) option) \<Rightarrow> bool" where
  "spares handler \<longleftrightarrow> (\<forall>ev s w xs t w' ys. timers_hold s xs \<longrightarrow> \<not> tm_set s ev \<longrightarrow> ev \<noteq> rb_sentinel (tm_tree s) \<longrightarrow>
     handler ev (s, w) = Some (t, w') \<longrightarrow> timers_hold t ys \<longrightarrow> (\<forall>x\<in>set xs. due (tm_now s) x \<longrightarrow> x \<in> set ys))"

definition logged :: "(nat \<Rightarrow> timers \<times> 'w \<Rightarrow> (timers \<times> 'w) option)
    \<Rightarrow> nat \<Rightarrow> timers \<times> 'w \<times> nat list \<Rightarrow> (timers \<times> 'w \<times> nat list) option" where
  "logged handler ev = (\<lambda>(s, w, log). map_option (\<lambda>(t, w'). (t, w', log @ [ev])) (handler ev (s, w)))"

text \<open>What one call of the loop fires: each due timer at most once and in the order of the times.\<close>

definition fired_ok :: "timers \<Rightarrow> (nat \<times> 64 word) list \<Rightarrow> (nat \<times> 64 word) list \<Rightarrow> bool" where
  "fired_ok s xs fired \<longleftrightarrow> distinct (map fst fired) \<and> set fired \<subseteq> {x \<in> set xs. due (tm_now s) x}
     \<and> sorted (map (timer_rank (tm_now s) \<circ> snd) fired)"

lemma fired_Cons:
  assumes "timers_hold s (x # zs)" "due (tm_now s) x" "tm_now u = tm_now s" "fired_ok u ys fired"
    and "\<forall>y\<in>set ys. due (tm_now s) y \<longrightarrow> y \<in> set zs"
  shows "fired_ok s (x # zs) (x # fired)"
proof -
  have sub: "set fired \<subseteq> {y \<in> set zs. due (tm_now s) y}" using assms(3-5) by (auto simp: fired_ok_def)
  moreover have "fst x \<notin> fst ` set zs" using timers_hold_distinct [OF assms(1)] by auto
  moreover have "\<forall>y\<in>set zs. timer_rank (tm_now s) (snd x) \<le> timer_rank (tm_now s) (snd y)"
    using assms(1) by (auto simp: timers_hold_def)
  ultimately show ?thesis using assms(2-4) by (auto simp: fired_ok_def)
qed

lemma expire_logged:
  assumes "timers_hold s xs" "benign handler"
  shows "\<exists>t w' fired ys. ngx_event_expire_timers handler (s, w) = Some (t, w')
    \<and> ngx_event_expire_timers (logged handler) (s, w, log) = Some (t, w', log @ map fst fired)
    \<and> fired_ok s xs fired \<and> (spares handler \<longrightarrow> set fired = {x \<in> set xs. due (tm_now s) x})
    \<and> timers_hold t ys \<and> tm_now t = tm_now s \<and> list_all (\<lambda>y. \<not> due (tm_now s) y) ys"
  using assms(1)
proof (induction "card {y \<in> set xs. due (tm_now s) y}" arbitrary: s w xs log rule: less_induct)
  case less
  note h = less.prems
  show ?case
  proof (cases "xs = [] \<or> \<not> due (tm_now s) (hd xs)")
    case True
    have "list_all (\<lambda>y. \<not> due (tm_now s) y) xs"
      using True h by (cases xs) (auto simp: timers_hold_def due_def list_all_iff)
    then show ?thesis
      using expire_idle [OF h True, of handler w] expire_idle [OF h True, of "logged handler" "(w, log)"] h
      by (intro exI [of _ s] exI [of _ w] exI [of _ "[]"] exI [of _ xs]) (auto simp: fired_ok_def list_all_iff)
  next
    case False
    obtain n k zs where xs: "xs = (n, k) # zs" and d: "due (tm_now s) (n, k)" using False by (cases xs) auto
    obtain t where t: "timers_hold t zs" "tm_now t = tm_now s" "rb_sentinel (tm_tree t) = rb_sentinel (tm_tree s)" "\<not> tm_set t n"
        "ngx_event_expire_timers handler (s, w) = Option.bind (handler n (t, w)) (ngx_event_expire_timers handler)"
        "ngx_event_expire_timers (logged handler) (s, w, log) =
           Option.bind (logged handler n (t, w, log)) (ngx_event_expire_timers (logged handler))"
      by (rule expire_fire [OF h [unfolded xs] d])
    have nn: "n \<noteq> rb_sentinel (tm_tree t)" using holds_node [OF h, of "(n, k)"] xs t(3) by simp
    obtain u w' ys where u: "handler n (t, w) = Some (u, w')" "timers_hold u ys" "tm_now u = tm_now s"
        "\<forall>y\<in>set ys. due (tm_now s) y \<longrightarrow> y \<in> set zs"
      using assms(2) t(1,2) nn unfolding benign_def by metis
    have "(n, k) \<notin> set zs" using timers_hold_distinct [OF h] xs by force
    then have "{y \<in> set ys. due (tm_now u) y} \<subset> {y \<in> set xs. due (tm_now s) y}"
      using u(3,4) xs d by auto
    then have "card {y \<in> set ys. due (tm_now u) y} < card {y \<in> set xs. due (tm_now s) y}" by (intro psubset_card_mono) auto
    from less.hyps [OF this u(2), of w' "log @ [n]"] obtain v w'' fired zs' where v:
        "ngx_event_expire_timers handler (u, w') = Some (v, w'')"
        "ngx_event_expire_timers (logged handler) (u, w', log @ [n]) = Some (v, w'', (log @ [n]) @ map fst fired)"
        "fired_ok u ys fired" "spares handler \<longrightarrow> set fired = {x \<in> set ys. due (tm_now u) x}"
        "timers_hold v zs'" "tm_now v = tm_now u" "list_all (\<lambda>y. \<not> due (tm_now u) y) zs'"
      by blast
    have "{x \<in> set ys. due (tm_now s) x} = {x \<in> set zs. due (tm_now s) x}" if sp: "spares handler"
    proof -
      have "\<forall>x\<in>set zs. due (tm_now s) x \<longrightarrow> x \<in> set ys"
        using sp t(1,2,4) nn u(1,2) unfolding spares_def by metis
      then show ?thesis using u(4) by blast
    qed
    then have "spares handler \<longrightarrow> set ((n, k) # fired) = {x \<in> set xs. due (tm_now s) x}"
      using v(4) u(3) d xs by auto
    moreover have "fired_ok s xs ((n, k) # fired)"
      unfolding xs by (rule fired_Cons [OF h [unfolded xs] d u(3) v(3) u(4)])
    moreover have "ngx_event_expire_timers (logged handler) (s, w, log) = Some (v, w'', log @ map fst ((n, k) # fired))"
      using t(6) u(1) v(2) by (simp add: logged_def)
    ultimately show ?thesis using t(5) u(1,3) v(1,5-7) by (intro exI [of _ v] exI [of _ w''] exI [of _ "(n, k) # fired"] exI [of _ zs']) simp
  qed
qed

section \<open>Shutting down\<close>

lemma no_timers_loop_walk:
  assumes t: "rb_tree (tm_tree s) t" and i: "i < size t"
  shows "no_timers_loop s (inorder t ! i) = Some (\<forall>ev\<in>set (List.drop i (inorder t)). tm_cancelable s ev)"
  using i
proof (induction "size t - i" arbitrary: i)
  case (Suc m)
  have len: "length (inorder t) = size t" by simp
  have dr: "List.drop i (inorder t) = inorder t ! i # List.drop (Suc i) (inorder t)"
    using Suc.prems len by (simp add: Cons_nth_drop_Suc)
  note nx = next_in_order [OF t Suc.prems]
  show ?case
  proof (cases "Suc i < size t")
    case True
    have "no_timers_loop s (inorder t ! Suc i) = Some (\<forall>ev\<in>set (List.drop (Suc i) (inorder t)). tm_cancelable s ev)"
      by (rule Suc.hyps) (use Suc.hyps(2) True in simp_all)
    then show ?thesis using nx True dr by (subst no_timers_loop.simps) simp
  next
    case False
    then have "List.drop (Suc i) (inorder t) = []" using len by simp
    then show ?thesis using nx False dr by (subst no_timers_loop.simps) simp
  qed
qed simp
section \<open>Properties\<close>

text \<open>A state with the timers 1, 2 and 3 at the time 2.\<close>

definition timers_three :: timers where
  "timers_three = \<lparr>tm_tree = rb_three, tm_now = 2, tm_set = (\<lambda>a. a = 1 \<or> a = 2 \<or> a = 3), tm_timedout = (\<lambda>_. False),
     tm_cancelable = (\<lambda>a. a \<noteq> 3)\<rparr>"

lemma timers_three_hold: "timers_hold timers_three [(1, 1), (2, 2), (3, 3)]"
proof -
  have "rb_pairs 0 rb_three [(1, 1), (2, 2), (3, 3)]"
    using rb_three_tree by (auto simp: rb_pairs_def rb_three_def intro!: exI [of _ "Node (Node Leaf 1 Leaf) (2 :: nat) (Node Leaf 3 Leaf)"])
  then show ?thesis by (auto simp: timers_hold_def timers_three_def timer_rank_def timer_window_def rb_three_def)
qed

text \<open>
  C16. In every state that setting, moving and removing timers and the passing of time can produce, while
  timers lie within \<open>2\<^sup>62\<close> milliseconds of the clock, the event loop is told to wait exactly until the
  earliest timer that is set: not at all if it is due, and without limit if no timer is set. This holds
  across the wrap-around of the clock.
\<close>

theorem timers_find_earliest:
  assumes "reach timer_step (timers_start nil now h) s"
  shows "(\<forall>ev. \<not> tm_set s ev) \<and> ngx_event_find_timer s = Some NGX_TIMER_INFINITE
    \<or> (\<exists>ev. tm_set s ev \<and> (\<forall>e. tm_set s e \<longrightarrow> timer_rank (tm_now s) (rb_key (tm_tree s) ev) \<le> timer_rank (tm_now s) (rb_key (tm_tree s) e))
        \<and> ngx_event_find_timer s = Some (word_of_int (max 0 (timer_rank (tm_now s) (rb_key (tm_tree s) ev)))))"
proof -
  obtain xs where h: "timers_hold s xs" using timer_sys.inv_reach [OF assms] by blast
  have e: "tm_set s ev \<longleftrightarrow> ev \<in> fst ` set xs" for ev using h by (auto simp: timers_hold_def)
  have k: "rb_key (tm_tree s) (fst x) = snd x" if "x \<in> set xs" for x
    using h that rb_pairsD(3) [of "rb_sentinel (tm_tree s)" "tm_tree s" xs "fst x" "snd x"] by (simp add: timers_hold_def)
  show ?thesis
  proof (cases xs)
    case Nil
    then show ?thesis using find_timer_holds [OF h] e by simp
  next
    case (Cons x ys)
    have le: "timer_rank (tm_now s) (snd x) \<le> timer_rank (tm_now s) (snd y)" if "y \<in> set xs" for y
      using h that Cons by (auto simp: timers_hold_def)
    have kx: "rb_key (tm_tree s) (fst x) = snd x" by (rule k) (simp add: Cons)
    have "timer_rank (tm_now s) (snd x) \<le> timer_rank (tm_now s) (rb_key (tm_tree s) i)" if i: "tm_set s i" for i
    proof -
      obtain y where "y \<in> set xs" "i = fst y" using i e by auto
      then show ?thesis using le [of y] k [of y] by simp
    qed
    moreover have "tm_set s (fst x)" using e Cons by simp
    ultimately show ?thesis using find_timer_holds [OF h] Cons kx by auto
  qed
qed

theorem timers_find_earliest_witness: "ngx_event_find_timer (timers_start 0 5 rb_blank) = Some (- 1)"
  using timers_find_earliest [OF reach_init, of 0 5 rb_blank] by (simp add: timers_start_def ngx_event_timer_init_def NGX_TIMER_INFINITE_def)

text \<open>
  Setting a timer returns; afterwards the event is set, its time differs by less than 300
  milliseconds from the wanted one, not at all if it was not set before, and no other timer changes.
\<close>

theorem timers_add_exact:
  assumes h: "timers_hold s xs" and "ev \<noteq> rb_sentinel (tm_tree s)" "timer < 2 ^ 62"
  shows "\<exists>t ys k. ngx_event_add_timer ev timer s = Some t \<and> timers_hold t ys \<and> (ev, k) \<in> set ys
    \<and> \<bar>uint timer - timer_rank (tm_now t) k\<bar> < 300 \<and> (tm_set s ev \<or> k = tm_now s + timer)
    \<and> filter (\<lambda>x. fst x \<noteq> ev) ys = filter (\<lambda>x. fst x \<noteq> ev) xs"
proof -
  obtain t where t: "ngx_event_add_timer ev timer s = Some t" "timers_hold t (set_timer (tm_now s) ev timer xs)" "tm_now t = tm_now s"
    using add_timer_holds [OF assms] by blast
  show ?thesis
  proof (cases "\<exists>k. (ev, k) \<in> set xs \<and> \<bar>uint timer - timer_rank (tm_now s) k\<bar> < NGX_TIMER_LAZY_DELAY")
    case True
    then obtain k where k: "(ev, k) \<in> set xs" "\<bar>uint timer - timer_rank (tm_now s) k\<bar> < 300" by (auto simp: NGX_TIMER_LAZY_DELAY_def)
    have "ev \<in> {e. tm_set s e}" using h k(1) unfolding timers_hold_def by force
    moreover have "set_timer (tm_now s) ev timer xs = xs" using True by (simp add: set_timer_def)
    ultimately show ?thesis using t k by (intro exI [of _ t] exI [of _ xs] exI [of _ k]) simp
  next
    case False
    define zs where "zs = filter (\<lambda>x. fst x \<noteq> ev) xs"
    have st: "set_timer (tm_now s) ev timer xs = place_pair (timer_rank (tm_now s)) (ev, tm_now s + timer) zs"
      unfolding set_timer_def zs_def by (rule if_not_P [OF False])
    have "sorted (map (timer_rank (tm_now s) \<circ> snd) zs)" using h by (simp add: timers_hold_def zs_def sorted_filter)
    then have "filter (\<lambda>x. fst x \<noteq> ev) (set_timer (tm_now s) ev timer xs) = zs"
      unfolding st by (rule place_pair_others) (simp add: zs_def)
    moreover have "(ev, tm_now s + timer) \<in> set (set_timer (tm_now s) ev timer xs)" unfolding st place_pair_set by simp
    ultimately show ?thesis using t rank_add(1) [OF assms(3), of "tm_now s"] zs_def
      by (intro exI [of _ t] exI [of _ "set_timer (tm_now s) ev timer xs"] exI [of _ "tm_now s + timer"]) simp
  qed
qed

theorem timers_add_exact_witness:
  "\<exists>t ys k. ngx_event_add_timer 4 1000 timers_three = Some t \<and> timers_hold t ys \<and> (4, k) \<in> set ys \<and> k = 1002"
  using timers_add_exact [OF timers_three_hold, of 4 1000] by (fastforce simp: timers_three_def rb_three_def)

text \<open>
  C24. Take timers that the tree holds as the list \<open>xs\<close> of events and times, as in every reachable state, and one
  call of the expiry loop with a handler that may set, move and remove timers but sets none
  that is due at once. It fires only timers that are due, each at most once, in the order of their times, and
  afterwards no timer is due. If the handler moreover leaves the other due timers set, all timers that
  were due are fired. What is fired is observed by a handler that does the same and keeps a log.
\<close>

theorem timers_expire_in_order:
  assumes "timers_hold s xs" "benign handler"
  shows "\<exists>t w' fired ys. ngx_event_expire_timers handler (s, w) = Some (t, w')
    \<and> ngx_event_expire_timers (logged handler) (s, w, []) = Some (t, w', map fst fired)
    \<and> set fired \<subseteq> {x \<in> set xs. timer_rank (tm_now s) (snd x) \<le> 0} \<and> distinct (map fst fired)
    \<and> sorted (map (\<lambda>x. timer_rank (tm_now s) (snd x)) fired)
    \<and> (spares handler \<longrightarrow> set fired = {x \<in> set xs. timer_rank (tm_now s) (snd x) \<le> 0})
    \<and> timers_hold t ys \<and> list_all (\<lambda>y. 0 < timer_rank (tm_now s) (snd y)) ys"
  using expire_logged [OF assms, of w "[]"] unfolding fired_ok_def due_def comp_def not_le append_Nil by blast


definition rearm :: "nat \<Rightarrow> timers \<times> nat \<Rightarrow> (timers \<times> nat) option" where
  "rearm ev sw = map_option (\<lambda>s. (s, snd sw + 1)) (ngx_event_add_timer ev 60000 (fst sw))"

lemma rearm_benign: "benign rearm"
  unfolding benign_def
proof (intro allI impI)
  fix ev s w xs
  assume h: "timers_hold s xs" and ev: "ev \<noteq> rb_sentinel (tm_tree s)"
  obtain t where t: "ngx_event_add_timer ev 60000 s = Some t" "timers_hold t (set_timer (tm_now s) ev 60000 xs)" "tm_now t = tm_now s"
    using add_timer_holds [OF h ev, of 60000] by auto
  have "\<not> due (tm_now s) (ev, tm_now s + 60000)" using rank_add(1) [of 60000 "tm_now s"] by (simp add: due_def)
  then have "\<forall>y\<in>set (set_timer (tm_now s) ev 60000 xs). due (tm_now s) y \<longrightarrow> y \<in> set xs" using set_timer_mem by blast
  then show "\<exists>t w' ys. rearm ev (s, w) = Some (t, w') \<and> timers_hold t ys \<and> tm_now t = tm_now s
      \<and> (\<forall>y\<in>set ys. due (tm_now s) y \<longrightarrow> y \<in> set xs)"
    using t by (auto simp: rearm_def)
qed

lemma timers_hold_set:
  assumes "timers_hold s xs"
  shows "set xs = (\<lambda>ev. (ev, rb_key (tm_tree s) ev)) ` {ev. tm_set s ev}"
proof -
  have k: "rb_key (tm_tree s) (fst x) = snd x" if "x \<in> set xs" for x
    using assms that rb_pairsD(3) [of "rb_sentinel (tm_tree s)" "tm_tree s" xs "fst x" "snd x"] by (simp add: timers_hold_def)
  have "set xs = (\<lambda>ev. (ev, rb_key (tm_tree s) ev)) ` fst ` set xs"
    unfolding image_image using k by (auto simp: image_iff)
  then show ?thesis using assms by (simp add: timers_hold_def)
qed

lemma rearm_spares: "spares rearm"
  unfolding spares_def
proof (intro allI impI ballI)
  fix ev s w xs t w' ys x
  assume h: "timers_hold s xs" and n: "\<not> tm_set s ev" "ev \<noteq> rb_sentinel (tm_tree s)"
    and r: "rearm ev (s, w) = Some (t, w')" and ht: "timers_hold t ys" and x: "x \<in> set xs"
  obtain u where u: "ngx_event_add_timer ev 60000 s = Some u" "timers_hold u (set_timer (tm_now s) ev 60000 xs)"
    using add_timer_holds [OF h n(2), of 60000] by auto
  have "fst x \<noteq> ev" using n(1) x timers_hold_set [OF h] by auto
  then have "x \<in> set (set_timer (tm_now s) ev 60000 xs)" using x by (auto simp: set_timer_def place_pair_set)
  then show "x \<in> set ys" using timers_hold_set [OF u(2)] timers_hold_set [OF ht] u(1) r by (simp add: rearm_def)
qed

theorem timers_expire_in_order_witness:
  "\<exists>t w'. ngx_event_expire_timers rearm (timers_three, 0) = Some (t, w')
    \<and> ngx_event_expire_timers (logged rearm) (timers_three, 0, []) = Some (t, w', [1, 2])"
proof -
  obtain t w' fired where f: "ngx_event_expire_timers rearm (timers_three, 0) = Some (t, w')"
      "ngx_event_expire_timers (logged rearm) (timers_three, 0, []) = Some (t, w', map fst fired)"
      "distinct (map fst fired)" "sorted (map (\<lambda>x. timer_rank (tm_now timers_three) (snd x)) fired)"
      "set fired = {x \<in> set [(1, 1), (2, 2), (3, 3)]. timer_rank (tm_now timers_three) (snd x) \<le> 0}"
    using timers_expire_in_order [OF timers_three_hold rearm_benign, of 0] rearm_spares by blast
  have now: "tm_now timers_three = 2" by (simp add: timers_three_def)
  have s: "set fired = {(1, 1), (2, 2)}" unfolding f(5) now by (auto simp: timer_rank_def)
  have "distinct fired" using f(3) by (simp add: distinct_map)
  then have "length fired = 2" using s distinct_card [of fired] by simp
  then obtain a b where ab: "fired = [a, b]" by (auto simp: numeral_2_eq_2 length_Suc_conv)
  then have "fired = [(1, 1), (2, 2)] \<or> fired = [(2, 2), (1, 1)]" using s by (auto simp: doubleton_eq_iff)
  moreover have "fired \<noteq> [(2, 2), (1, 1)]" using f(4) unfolding now by (auto simp: timer_rank_def)
  ultimately show ?thesis using f(1,2) by auto
qed


text \<open>
  The check before a worker exits succeeds exactly when every timer that is set may be cancelled.
\<close>

theorem timers_none_left:
  assumes "timers_hold s xs"
  shows "ngx_event_no_timers_left s = Some (\<forall>ev. tm_set s ev \<longrightarrow> tm_cancelable s ev)"
proof -
  have r: "rb_pairs (rb_sentinel (tm_tree s)) (tm_tree s) xs" and e: "set (map fst xs) = {ev. tm_set s ev}"
    using assms by (simp_all add: timers_hold_def)
  obtain t where t: "rb_tree (tm_tree s) t" "inorder t = map fst xs" using rb_pairsD(1) [OF r] by blast
  show ?thesis
  proof (cases xs)
    case Nil
    then show ?thesis using rb_pairs_root [OF r] e by (simp add: ngx_event_no_timers_left_def)
  next
    case (Cons x ys)
    have "length (inorder t) = size t" by simp
    then have sz: "0 < size t" using t(2) Cons by simp
    have i0: "inorder t ! 0 = fst x" using t(2) Cons by simp
    have m: "ngx_rbtree_min (tm_tree s) (rb_root (tm_tree s)) = Some (fst x)" "rb_root (tm_tree s) \<noteq> rb_sentinel (tm_tree s)"
      using timers_hold_first(1,3) [of s "fst x" "snd x" ys] assms Cons by simp_all
    have "no_timers_loop s (fst x) = Some (\<forall>ev\<in>set (inorder t). tm_cancelable s ev)"
      using no_timers_loop_walk [OF t(1) sz] i0 by simp
    moreover have "set (inorder t) = {ev. tm_set s ev}" using t(2) e by simp
    ultimately show ?thesis using m by (simp add: ngx_event_no_timers_left_def Let_def)
  qed
qed

theorem timers_none_left_witness: "ngx_event_no_timers_left timers_three = Some False"
  using timers_none_left [OF timers_three_hold] by (auto simp: timers_three_def)

end
