(* ===== verification/Spec2Isabelle.thy ===== *)
theory Spec2Isabelle
  imports Http_Body Http_Uri Http_Header_Line Http_Status_Line Ngx_Escape Ngx_Number Ngx_Base64 Ngx_Utf8 Http_Args Ngx_Queue Http_Round_Robin Ngx_Rwlock Ngx_Shmtx Http_Range Http2_Hpack Http_Limit_Req Ngx_Event_Timer
begin

text \<open>
  A verification library for hengine, a web server derived from Tengine and nginx. All paths are
  relative to the repository.

  \<^bold>\<open>The program.\<close> A worker process of the server reads a request from a connection, parses the request
  line and the header lines byte by byte, normalises the URI, reads the request body, chooses an
  upstream server or a file, and sends the response. The parsers are state machines that run on
  whatever bytes have arrived and continue where they stopped. Below them lies a library of strings,
  numbers, containers and locks that every module uses; several worker processes share memory and
  guard it with locks built on atomic words.

  \<^bold>\<open>Theories and the code they model.\<close>

  \<^item> \<open>Prelude\<close>: bytes, the platform's integer limits, the 256-bit character tables, and lemmas on lists
    and words. \<open>Scanner\<close>: the loop that drives a state machine over a buffer, and the locale of
    resumable parsers. \<open>Interleaving\<close>: processes over a shared state, reachable states, counting.
  \<^item> \<open>Http_Request_Line\<close>: \<open>ngx_http_parse_request_line\<close> of \<^verbatim>\<open>src/src/http/ngx_http_parse.c\<close>, all its
    states; the fields of \<open>ngx_http_request_t\<close> it writes are a record. Shown: the pieces it records are
    inside the buffer, parsing a printed request line gives back its parts, and a path for which no
    flag is set needs no normalisation.
  \<^item> \<open>Http_Uri\<close>: \<open>ngx_http_parse_uri\<close> and \<open>ngx_http_parse_complex_uri\<close>. Shown: the result has no dot
    segments, never grows past the buffer that \<open>ngx_http_process_request_uri\<close> allocates, and equals a
    reference normalisation on lists of segments.
  \<^item> \<open>Http_Args\<close>: \<open>ngx_http_parse_unsafe_uri\<close>, \<open>ngx_http_split_args\<close>, \<open>ngx_http_arg\<close> and the cookie
    look-up, compared with a look-up in lists of name and value pairs; where the code departs from it is
    shown too.
  \<^item> \<open>Http_Header_Line\<close>, \<open>Http_Status_Line\<close>: the parsers of one header line and of an upstream's status
    line: round trips, and every recorded offset is inside the buffer.
  \<^item> \<open>Http_Chunked\<close>, \<open>Http_Body\<close>: \<open>ngx_http_parse_chunked\<close>, and \<open>ngx_http_request_body_chunked_filter\<close>
    of \<^verbatim>\<open>src/src/http/ngx_http_request_body.c\<close>, which calls it, with the memory of the read buffer. Shown:
    the parser can be interrupted anywhere, its sizes do not overflow, the filter implements an
    abstract dechunking however the body is cut into buffers, and the configured limit holds.
  \<^item> \<open>Ngx_Escape\<close>, \<open>Ngx_Number\<close>, \<open>Ngx_Base64\<close>, \<open>Ngx_Utf8\<close>, \<open>Ngx_Strcmp\<close>: the functions of
    \<^verbatim>\<open>src/src/core/ngx_string.c\<close>: round trips, buffer bounds, exactness of the number readers including
    where they overflow, comparison orders and the stable sort.
  \<^item> \<open>Ngx_Time\<close>: the dates of \<^verbatim>\<open>src/src/core/ngx_times.c\<close> and \<^verbatim>\<open>src/src/core/ngx_parse_time.c\<close>: agreement
    with a calendar that counts days, round trips, and reads within bounds.
  \<^item> \<open>Ngx_Buf\<close>: the buffers and chains of \<^verbatim>\<open>src/src/core/ngx_buf.c\<close>: what has been sent, what can be sent
    in one call, what can be reused; no byte is lost. \<open>Http_Range\<close>: the filter of
    \<^verbatim>\<open>src/src/http/modules/ngx_http_range_filter_module.c\<close>, which cuts byte ranges out of such chains:
    the ranges it accepts are sound, and the response carries exactly their bytes, in one part or as a
    multipart document whose format is stated apart from the code.
  \<^item> \<open>Http_Limit_Req\<close>: the limit on the rate of requests of
    \<^verbatim>\<open>src/src/http/modules/ngx_http_limit_req_module.c\<close>: the rate is kept in a zone with enough memory,
    and a request gives back the nodes it holds, except when the variable of a rate fails.
  \<^item> \<open>Http2_Hpack\<close>: the header compression of HTTP/2, \<^verbatim>\<open>src/src/http/v2/ngx_http_v2_table.c\<close>: the
    dynamic table with its ring of pointers, its recycled structures and its ring of bytes refines
    the list of headers of RFC 7541, except that a size reduction before the first insertion is lost;
    and the integer codec.
  \<^item> \<open>Ngx_Queue\<close>: the intrusive doubly linked list of \<^verbatim>\<open>src/src/core/ngx_queue.h\<close> and its merge sort, on an
    explicit heap of links; every history of operations on several queues refines one on lists.
  \<^item> \<open>Ngx_Rbtree\<close>: the red-black tree of \<^verbatim>\<open>src/src/core/ngx_rbtree.c\<close>, with parent pointers in a store of
    nodes. \<open>Rbtree_Shape\<close>, \<open>Rbtree_Insert\<close>, \<open>Rbtree_Walk\<close> and \<open>Rbtree_Delete\<close> show that its operations
    return and keep the links, the order and the balance; \<open>Rbtree_Spec\<close> that it implements the sorted
    list of \<open>Ordered_Store\<close>. \<open>Ngx_Event_Timer\<close>: the timers of \<^verbatim>\<open>src/src/event/ngx_event_timer.c\<close> on that
    tree: the event loop waits for the earliest timer, and what is due is fired in order, also by handlers
    that change the timers.
  \<^item> \<open>Http_Round_Robin\<close>: the smooth weighted balancer of
    \<^verbatim>\<open>src/src/http/ngx_http_upstream_round_robin.c\<close>: its invariant, its fairness,
    and what a chosen peer satisfies.
  \<^item> \<open>Ngx_Rwlock\<close>: the lock of \<^verbatim>\<open>src/src/core/ngx_rwlock.c\<close> as interleaved atomic actions: exclusion and
    progress. \<open>Ngx_Shmtx\<close>: the mutex of \<^verbatim>\<open>src/src/core/ngx_shmtx.c\<close> with its semaphore, under crashes:
    mutual exclusion, and no wake-up is lost.

  \<^bold>\<open>Interfaces.\<close> The locales \<open>resumable\<close> parsers (\<open>Scanner\<close>), \<open>base64_codec\<close>, \<open>comparator\<close>,
  \<open>transition_system\<close>, \<open>simulation\<close> and \<open>ordered_store\<close> state what a client relies on; each is interpreted on the definitions of the
  component that provides it, and the properties rest on the interpreted lemmas.

  \<^bold>\<open>Errors, loops and bounds.\<close> A function that can return \<open>NGX_ERROR\<close> or an error code returns it as a
  value of a datatype or as \<open>None\<close>. The loops over a buffer are structurally recursive in the bytes
  left; the few that are not (the queue's sort, the walk of a list of links, the loops of the red-black tree and of the
  timers) are
  \<open>partial_function (option)\<close>, and that they return is a theorem. No theorem depends on an amount of
  fuel. Integers have the width of the source wherever they can wrap.

  \<^bold>\<open>Assumptions.\<close> An LP64 Unix build; memory allocation succeeds; header values end with a zero byte, as
  the request reader leaves them; the verdict of the active health check is an argument of the
  balancer; the handlers of timers are functions that set no timer that is due at once; the atomic operations are sequentially consistent.

  \<^bold>\<open>Not modelled.\<close> Code that is made of system calls, callbacks of the event loop or calls into
  libraries that are not part of the repository (sockets, TLS, PCRE, zlib, Lua), the configuration
  parser and the modules that are configuration glue: their behaviour is that of the environment.
\<close>

end
